(* ===== verification/Prelude.thy ===== *)
theory Prelude
  imports Main "HOL-Library.Word" "HOL-Library.Multiset"
begin

unbundle bit_operations_syntax

text \<open>
  Shared base of the development: the machine types of \<^verbatim>\<open>include/eris/types.hpp\<close>, the
  arithmetic of unsigned 64 bit values read as natural numbers, page rounding, and the
  lemmas on fixed-size tables (an array and a count of live slots, emptied by moving the
  last live slot into the hole) that several kernel components share.

  The named collections are \<open>u64_simps\<close> (unsigned arithmetic that does not wrap),
  \<open>inv_intros\<close> (an operation keeps its component's invariant) and \<open>frame_simps\<close> (what an
  operation leaves alone).
\<close>

named_theorems u64_simps "unsigned arithmetic that does not wrap"
named_theorems inv_intros "operations keep the invariant of their component"
named_theorems frame_simps "what an operation leaves unchanged"

section \<open>Machine types\<close>

type_synonym u8 = "8 word"
type_synonym u16 = "16 word"
type_synonym u32 = "32 word"
type_synonym u64 = "64 word"
type_synonym usize = u64
type_synonym phys_addr = u64
type_synonym virt_addr = u64

definition page_size :: usize where
  [simp]: "page_size = 4096"

section \<open>Unsigned 64 bit arithmetic read as natural numbers\<close>

lemma u64_bound: "unat (x :: u64) < 18446744073709551616"
  using unsigned_less [of x] by simp

lemma u32_bound: "unat (x :: u32) < 4294967296"
  using unsigned_less [of x, where ?'a = nat] by simp

lemma unat_u64_add [u64_simps]:
  "unat (a :: u64) + unat b < 18446744073709551616 \<Longrightarrow> unat (a + b) = unat a + unat b"
  using unat_add_lem [of a b] by simp

lemma unat_u64_sub [u64_simps]:
  "b \<le> (a :: u64) \<Longrightarrow> unat (a - b) = unat a - unat b"
  by (simp add: unat_sub word_le_nat_alt)

lemma unat_u64_mult [u64_simps]:
  "unat (a :: u64) * unat b < 18446744073709551616 \<Longrightarrow> unat (a * b) = unat a * unat b"
  using unat_mult_lem [of a b] by simp

lemma unat_u64_of_nat [u64_simps]:
  "n < 18446744073709551616 \<Longrightarrow> unat (of_nat n :: u64) = n"
  by (simp add: unat_of_nat)

lemma unat_u64_add_wrap:
  "unat (a + b :: u64) = (unat a + unat b) mod 18446744073709551616"
  by (simp add: unat_word_ariths)

lemma unat_ucast_u32 [simp, u64_simps]: "unat (ucast (x :: u32) :: u64) = unat x"
  using unsigned_less [of x, where ?'a = nat]
  by (simp add: unsigned_ucast_eq take_bit_nat_eq_self)

lemma unat_ucast_u16 [simp, u64_simps]: "unat (ucast (x :: u16) :: u64) = unat x"
  using unsigned_less [of x, where ?'a = nat]
  by (simp add: unsigned_ucast_eq take_bit_nat_eq_self)

lemma unat_ucast_u8 [simp, u64_simps]: "unat (ucast (x :: u8) :: u64) = unat x"
  using unsigned_less [of x, where ?'a = nat]
  by (simp add: unsigned_ucast_eq take_bit_nat_eq_self)

lemma u64_eqI: "unat (a :: u64) = unat b \<Longrightarrow> a = b"
  by (simp add: word_unat_eq_iff)

lemma of_nat_u64_inj:
  "m < 18446744073709551616 \<Longrightarrow> n < 18446744073709551616 \<Longrightarrow>
   (of_nat m :: u64) = of_nat n \<longleftrightarrow> m = n"
  by (metis unat_u64_of_nat)

lemma u64_add_left_inj:
  "m < 18446744073709551616 \<Longrightarrow> n < 18446744073709551616 \<Longrightarrow>
   (a :: u64) + of_nat m = a + of_nat n \<longleftrightarrow> m = n"
  by (simp add: of_nat_u64_inj)

section \<open>Page rounding\<close>

lemma and_4095_mod: "(x :: u64) AND 4095 = x mod 4096"
  using take_bit_eq_mask [of 12 x] by (simp add: take_bit_eq_mod mask_eq_exp_minus_1)

lemma unat_and_4095: "unat ((x :: u64) AND 4095) = unat x mod 4096"
  by (simp add: and_4095_mod unat_mod_distrib)

lemma word_split_mask: "(x :: 'a::len word) AND NOT m = x - (x AND m)"
proof -
  have "(x AND NOT m) AND (x AND m) = 0"
    by (rule bit_word_eqI) (auto simp: bit_simps)
  moreover have "(x AND NOT m) OR (x AND m) = x"
    by (rule bit_word_eqI) (auto simp: bit_simps)
  ultimately have "(x AND NOT m) + (x AND m) = x"
    by (metis disjunctive_add_eq_or)
  then show ?thesis by (simp add: eq_diff_eq)
qed

text \<open>The bits below the page size cleared, as \<^verbatim>\<open>value & ~(page_size - 1)\<close> does.\<close>

lemma unat_page_align_down:
  "unat ((x :: u64) AND NOT 4095) = unat x - unat x mod 4096"
proof -
  have le: "x AND 4095 \<le> x"
    by (simp add: word_le_nat_alt unat_and_4095)
  show ?thesis
    unfolding word_split_mask [of x 4095] unat_u64_sub [OF le] unat_and_4095 ..
qed

definition page_aligned :: "u64 \<Rightarrow> bool" where
  "page_aligned a \<longleftrightarrow> 4096 dvd unat a"

lemma page_aligned_0 [simp]: "page_aligned 0"
  by (simp add: page_aligned_def)

lemma page_aligned_add:
  "page_aligned a \<Longrightarrow> page_aligned b \<Longrightarrow> page_aligned (a + b)"
  by (simp add: page_aligned_def unat_u64_add_wrap dvd_mod)

lemma page_aligned_mult_4096 [simp]: "page_aligned (x * 4096)"
  by (simp add: page_aligned_def unat_word_ariths dvd_mod)

lemma page_aligned_align_down [simp]: "page_aligned (x AND NOT 4095)"
  unfolding page_aligned_def unat_page_align_down by (rule dvd_minus_mod)

lemma page_align_down_id: "page_aligned x \<Longrightarrow> x AND NOT 4095 = x"
  by (rule u64_eqI, subst unat_page_align_down) (simp add: page_aligned_def dvd_eq_mod_eq_0)

text \<open>Rounding up to whole pages, \<^verbatim>\<open>(length + page_size - 1) & ~(page_size - 1)\<close>.\<close>

lemma unat_page_round_up:
  assumes "unat (x :: u64) + 4095 < 18446744073709551616"
  shows "unat ((x + 4095) AND NOT 4095) = (unat x + 4095) div 4096 * 4096"
proof -
  have "unat (x + 4095) = unat x + 4095"
    using assms by (simp add: unat_u64_add)
  then show ?thesis
    using unat_page_align_down [of "x + 4095"] by (simp add: minus_mod_eq_div_mult)
qed

section \<open>Fixed-size tables\<close>

text \<open>
  A table is an array \<open>xs\<close> of which the first \<open>n\<close> slots are live. Removing slot \<open>i\<close> with
  \<^verbatim>\<open>table[i] = table[--n]\<close> keeps every other live entry exactly once.
\<close>

lemma mset_take_Suc:
  "n < length xs \<Longrightarrow> mset (take (Suc n) xs) = add_mset (xs ! n) (mset (take n xs))"
  by (simp add: take_Suc_conv_app_nth)

lemma swap_remove_mset:
  assumes "i < n" and "n \<le> length xs"
  shows "mset (take (n - 1) (xs[i := xs ! (n - 1)])) = mset (take n xs) - {#xs ! i#}"
proof (cases "i = n - 1")
  case True
  with assms show ?thesis
    using mset_take_Suc [of "n - 1" xs] by simp
next
  case False
  then have i: "i < n - 1" using assms by simp
  have "mset (take (n - 1) (xs[i := xs ! (n - 1)]))
      = add_mset (xs ! (n - 1)) (mset (take (n - 1) xs) - {#xs ! i#})"
    using i assms by (simp add: take_update_swap mset_update)
  also have "\<dots> = mset (take n xs) - {#xs ! i#}"
  proof -
    have "xs ! i \<in># mset (take (n - 1) xs)"
      using i assms by (force simp: in_set_conv_nth)
    then show ?thesis
      using mset_take_Suc [of "n - 1" xs] i assms by simp
  qed
  finally show ?thesis .
qed

lemma swap_remove_set:
  assumes "i < n" and "n \<le> length xs" and "distinct (take n xs)"
  shows "set (take (n - 1) (xs[i := xs ! (n - 1)])) = set (take n xs) - {xs ! i}"
    and "distinct (take (n - 1) (xs[i := xs ! (n - 1)]))"
proof -
  let ?ys = "take (n - 1) (xs[i := xs ! (n - 1)])"
  have m: "mset ?ys = mset (take n xs) - {#xs ! i#}"
    using assms(1,2) by (rule swap_remove_mset)
  have c: "\<And>x. count (mset (take n xs)) x = (if x \<in> set (take n xs) then 1 else 0)"
    using assms(3) by (simp add: distinct_count_atmost_1)
  have cy: "\<And>x. count (mset ?ys) x = (if x \<in> set (take n xs) - {xs ! i} then 1 else 0)"
    unfolding m using c by auto
  show "set ?ys = set (take n xs) - {xs ! i}"
  proof (rule set_eqI)
    fix x
    have "x \<in> set ?ys \<longleftrightarrow> 0 < count (mset ?ys) x" by simp
    then show "x \<in> set ?ys \<longleftrightarrow> x \<in> set (take n xs) - {xs ! i}"
      unfolding cy by simp
  qed
  then show "distinct ?ys"
    using cy by (simp add: distinct_count_atmost_1)
qed

section \<open>Counted loops that may fail\<close>

text \<open>\<open>for_each is step\<close> runs the body for each index in turn and stops at the first failure.\<close>

fun for_each :: "nat list \<Rightarrow> (nat \<Rightarrow> 's \<Rightarrow> 's option) \<Rightarrow> 's \<Rightarrow> 's option" where
  "for_each [] step s = Some s"
| "for_each (i # is) step s = Option.bind (step i s) (for_each is step)"

lemma for_each_append:
  "for_each (xs @ ys) step s = Option.bind (for_each xs step s) (for_each ys step)"
  by (induction xs arbitrary: s) (simp_all split: bind_split)

end
