(* ===== verification/CString.thy ===== *)
theory CString
  imports Prelude
begin

unbundle bit_operations_syntax

text \<open>
  The memory and string routines of \<^verbatim>\<open>kernel/lib/string.cpp\<close> over a flat byte memory, and the
  bridge from C strings to HOL strings that the other components use.

  A memory is a function from 64 bit addresses to bytes; pointer arithmetic wraps like the
  hardware's. The copy loops read the memory they are writing, so overlapping buffers behave
  as in the code. \<open>strlen\<close> and \<open>strcmp\<close> run until they meet a terminator: they are partial,
  and \<open>None\<close> is a call that never returns.

  \<open>bounded_copy\<close> is the loop \<^verbatim>\<open>while (i + 1 < sizeof(dst) && src[i]) ...\<close> that the kernel
  repeats wherever it keeps a name in a fixed buffer.
\<close>

type_synonym memory = "u64 \<Rightarrow> u8"

section \<open>The routines\<close>

definition memset :: "memory \<Rightarrow> u64 \<Rightarrow> u32 \<Rightarrow> usize \<Rightarrow> memory" where
  "memset m dest value cnt =
     (let byte = ucast value :: u8
      in fold (\<lambda>i m. m(dest + of_nat i := byte)) [0..<unat cnt] m)"

definition memcpy :: "memory \<Rightarrow> u64 \<Rightarrow> u64 \<Rightarrow> usize \<Rightarrow> memory" where
  "memcpy m dest src cnt =
     fold (\<lambda>i m. m(dest + of_nat i := m (src + of_nat i))) [0..<unat cnt] m"

definition memmove :: "memory \<Rightarrow> u64 \<Rightarrow> u64 \<Rightarrow> usize \<Rightarrow> memory" where
  "memmove m dest src cnt =
     (if dest < src
      then fold (\<lambda>i m. m(dest + of_nat i := m (src + of_nat i))) [0..<unat cnt] m
      else fold (\<lambda>i m. m(dest + of_nat i := m (src + of_nat i))) (rev [0..<unat cnt]) m)"

fun memcmp_loop :: "memory \<Rightarrow> u64 \<Rightarrow> u64 \<Rightarrow> nat \<Rightarrow> int" where
  "memcmp_loop m lhs rhs 0 = 0"
| "memcmp_loop m lhs rhs (Suc n) =
     (if m lhs \<noteq> m rhs then (if m lhs < m rhs then -1 else 1)
      else memcmp_loop m (lhs + 1) (rhs + 1) n)"

definition memcmp :: "memory \<Rightarrow> u64 \<Rightarrow> u64 \<Rightarrow> usize \<Rightarrow> int" where
  "memcmp m a b cnt = memcmp_loop m a b (unat cnt)"

partial_function (option) strlen_loop :: "memory \<Rightarrow> u64 \<Rightarrow> usize \<Rightarrow> usize option" where
  "strlen_loop m s len = (if m (s + len) \<noteq> 0 then strlen_loop m s (len + 1) else Some len)"

definition strlen :: "memory \<Rightarrow> u64 \<Rightarrow> usize option" where
  "strlen m s = strlen_loop m s 0"

partial_function (option) strcmp :: "memory \<Rightarrow> u64 \<Rightarrow> u64 \<Rightarrow> int option" where
  "strcmp m a b =
     (if m a \<noteq> 0 \<and> m a = m b then strcmp m (a + 1) (b + 1)
      else Some (uint (m a) - uint (m b)))"

text \<open>The string a fixed buffer of \<open>capacity\<close> bytes holds after the bounded copy loop.\<close>

fun bounded_copy_loop :: "nat \<Rightarrow> nat \<Rightarrow> string \<Rightarrow> string" where
  "bounded_copy_loop capacity i [] = []"
| "bounded_copy_loop capacity i (c # cs) =
     (if i + 1 < capacity then c # bounded_copy_loop capacity (i + 1) cs else [])"

definition bounded_copy :: "nat \<Rightarrow> string \<Rightarrow> string" where
  "bounded_copy capacity s = bounded_copy_loop capacity 0 s"

section \<open>Filling and copying\<close>

lemma fold_store_nth:
  assumes "k < 18446744073709551616" and "n \<le> 18446744073709551616"
  shows "fold (\<lambda>i m. m(d + of_nat i := f i)) [0..<n] m (d + of_nat k :: u64)
       = (if k < n then f k else m (d + of_nat k))"
  using assms(2)
proof (induction n)
  case 0
  then show ?case by simp
next
  case (Suc n)
  then show ?case
    using assms(1) by (simp add: of_nat_u64_inj less_Suc_eq)
qed

lemma memset_spec:
  assumes "k < 18446744073709551616"
  shows "memset m dest value cnt (dest + of_nat k)
       = (if k < unat cnt then ucast value else m (dest + of_nat k))"
  unfolding memset_def Let_def
  by (rule fold_store_nth [OF assms]) (use u64_bound [of cnt] in simp)

text \<open>
  The forward loop is a copy as long as no byte is read after it was overwritten.
\<close>

lemma forward_copy:
  assumes n: "n \<le> 18446744073709551616"
    and ahead: "\<And>i j. i < j \<Longrightarrow> j < n \<Longrightarrow> dest + of_nat i \<noteq> src + (of_nat j :: u64)"
  shows "fold (\<lambda>i m. m(dest + of_nat i := m (src + of_nat i))) [0..<n] m
       = fold (\<lambda>i m'. m'(dest + of_nat i := m (src + of_nat i))) [0..<n] m"
  using assms
proof (induction n)
  case 0
  then show ?case by simp
next
  case (Suc n)
  have keep: "fold (\<lambda>i m'. m'(dest + of_nat i := m (src + of_nat i))) [0..<l] m (src + of_nat n)
      = m (src + of_nat n)" if "l \<le> n" for l
    using that
  proof (induction l)
    case (Suc l)
    with \<open>\<And>j i. i < j \<Longrightarrow> j < Suc n \<Longrightarrow> dest + of_nat i \<noteq> src + of_nat j\<close> [of l n]
    show ?case by simp
  qed simp
  have IH: "fold (\<lambda>i m. m(dest + of_nat i := m (src + of_nat i))) [0..<n] m
      = fold (\<lambda>i m'. m'(dest + of_nat i := m (src + of_nat i))) [0..<n] m"
    by (rule Suc.IH) (use Suc.prems in simp_all)
  show ?case
    by (simp add: IH keep del: fun_upd_apply)
qed

lemma backward_copy:
  assumes n: "n \<le> 18446744073709551616"
    and behind: "\<And>i j. i < j \<Longrightarrow> j < n \<Longrightarrow> dest + of_nat j \<noteq> src + (of_nat i :: u64)"
    and k: "k < n"
  shows "fold (\<lambda>i m. m(dest + of_nat i := m (src + of_nat i))) (rev [0..<n]) m (dest + of_nat k)
       = m (src + of_nat k)"
  using assms
proof (induction n arbitrary: m)
  case 0
  then show ?case by simp
next
  case (Suc n)
  let ?m = "m(dest + of_nat n := m (src + of_nat n))"
  have step: "fold (\<lambda>i m. m(dest + of_nat i := m (src + of_nat i))) (rev [0..<Suc n]) m
      = fold (\<lambda>i m. m(dest + of_nat i := m (src + of_nat i))) (rev [0..<n]) ?m"
    by simp
  show ?case
  proof (cases "k = n")
    case True
    have "fold (\<lambda>i m. m(dest + of_nat i := m (src + of_nat i))) (rev [0..<l]) m' (dest + of_nat n)
        = m' (dest + of_nat n)" if "l \<le> n" for l m'
      using that Suc.prems(1)
      by (induction l arbitrary: m') (simp_all add: of_nat_u64_inj)
    from this [of n ?m] True show ?thesis unfolding step by simp
  next
    case False
    with Suc.prems(3) have "k < n" by simp
    have "fold (\<lambda>i m. m(dest + of_nat i := m (src + of_nat i))) (rev [0..<n]) ?m (dest + of_nat k)
        = ?m (src + of_nat k)"
      by (rule Suc.IH) (use Suc.prems \<open>k < n\<close> in simp_all)
    also have "\<dots> = m (src + of_nat k)"
      using Suc.prems(2) [of k n] \<open>k < n\<close> by (auto simp: fun_upd_apply)
    finally show ?thesis unfolding step .
  qed
qed

text \<open>Two buffers of \<open>n\<close> bytes that do not run past the end of the address space.\<close>

lemma u64_offset_less:
  assumes "unat d + j < 18446744073709551616" and "unat s + i < 18446744073709551616"
  shows "(d :: u64) + of_nat j = s + of_nat i \<longleftrightarrow> unat d + j = unat s + i"
proof -
  have "unat (d + of_nat j) = unat d + j" "unat (s + of_nat i) = unat s + i"
    using assms by (simp_all add: unat_u64_add unat_u64_of_nat)
  then show ?thesis by (metis word_unat_eq_iff)
qed

lemma memmove_copies:
  assumes d: "unat dest + unat cnt \<le> 18446744073709551616"
    and s: "unat src + unat cnt \<le> 18446744073709551616"
    and k: "k < unat cnt"
  shows "memmove m dest src cnt (dest + of_nat k) = m (src + of_nat k)"
proof (cases "dest < src")
  case True
  then have less: "unat dest < unat src" by (simp add: word_less_nat_alt)
  have ahead: "dest + of_nat i \<noteq> src + (of_nat j :: u64)" if "i < j" "j < unat cnt" for i j
    using u64_offset_less [of dest i src j] that less d s by simp
  show ?thesis
    using True forward_copy [OF _ ahead, of "unat cnt" m] k u64_bound [of cnt]
      fold_store_nth [where n = "unat cnt" and k = k and d = dest and m = m
        and f = "\<lambda>i. m (src + of_nat i)"]
    by (simp add: memmove_def)
next
  case False
  then have ge: "unat src \<le> unat dest" by (simp add: word_less_nat_alt)
  have behind: "dest + of_nat j \<noteq> src + (of_nat i :: u64)" if "i < j" "j < unat cnt" for i j
    using u64_offset_less [of dest j src i] that ge d s by simp
  show ?thesis
    using False backward_copy [OF _ behind k] u64_bound [of cnt] by (simp add: memmove_def)
qed

lemma memcpy_copies:
  assumes d: "unat dest + unat cnt \<le> 18446744073709551616"
    and s: "unat src + unat cnt \<le> 18446744073709551616"
    and apart: "unat dest + unat cnt \<le> unat src \<or> unat src + unat cnt \<le> unat dest"
    and k: "k < unat cnt"
  shows "memcpy m dest src cnt (dest + of_nat k) = m (src + of_nat k)"
proof -
  have ahead: "dest + of_nat i \<noteq> src + (of_nat j :: u64)" if "i < j" "j < unat cnt" for i j
    using u64_offset_less [of dest i src j] that apart d s by auto
  show ?thesis
    using forward_copy [OF _ ahead, of "unat cnt" m] k u64_bound [of cnt]
      fold_store_nth [where n = "unat cnt" and k = k and d = dest and m = m
        and f = "\<lambda>i. m (src + of_nat i)"]
    by (simp add: memcpy_def)
qed

section \<open>C strings and HOL strings\<close>

text \<open>The bytes at \<open>a\<close> are the string \<open>s\<close>, none of them zero, and a terminator.\<close>

fun string_at :: "memory \<Rightarrow> u64 \<Rightarrow> string \<Rightarrow> bool" where
  "string_at m a [] \<longleftrightarrow> m a = 0"
| "string_at m a (c # cs) \<longleftrightarrow> m a = of_char c \<and> of_char c \<noteq> (0 :: u8) \<and> string_at m (a + 1) cs"

lemma of_char_u8_inj [simp]: "(of_char c :: u8) = of_char d \<longleftrightarrow> c = d"
proof
  assume "(of_char c :: u8) = of_char d"
  then have "unat (of_nat (of_char c) :: u8) = unat (of_nat (of_char d) :: u8)"
    by (simp add: of_nat_of_char)
  moreover have "(of_char c :: nat) < 256" "(of_char d :: nat) < 256" by simp_all
  ultimately have "(of_char c :: nat) = of_char d"
    by (simp add: unat_of_nat)
  then show "c = d" by simp
qed simp

lemma strlen_loop_string_at:
  "string_at m (a + len) s \<Longrightarrow> strlen_loop m a len = Some (len + of_nat (length s))"
proof (induction s arbitrary: len)
  case Nil
  then show ?case by (simp add: strlen_loop.simps)
next
  case (Cons c s)
  then show ?case
    by (subst strlen_loop.simps) (simp add: add.assoc)
qed

lemma strlen_string_at: "string_at m a s \<Longrightarrow> strlen m a = Some (of_nat (length s))"
  using strlen_loop_string_at [of m a 0 s] by (simp add: strlen_def)

lemma strcmp_step: "m a \<noteq> 0 \<Longrightarrow> m a = m b \<Longrightarrow> strcmp m a b = strcmp m (a + 1) (b + 1)"
  by (subst strcmp.simps) simp

lemma strcmp_stop: "m a = 0 \<or> m a \<noteq> m b \<Longrightarrow> strcmp m a b = Some (uint (m a) - uint (m b))"
  by (subst strcmp.simps) auto

lemma strcmp_string_at:
  "string_at m a s \<Longrightarrow> string_at m b t \<Longrightarrow>
   \<exists>r. strcmp m a b = Some r \<and> (r = 0 \<longleftrightarrow> s = t)"
proof (induction s arbitrary: a b t)
  case Nil
  then show ?case by (cases t) (auto simp: strcmp_stop uint_0_iff)
next
  case (Cons c s)
  show ?case
  proof (cases t)
    case Nil
    with Cons.prems show ?thesis by (auto simp: strcmp_stop uint_0_iff)
  next
    case (Cons d t')
    show ?thesis
    proof (cases "c = d")
      case True
      with Cons.IH [of "a + 1" "b + 1" t'] Cons.prems Cons show ?thesis
        by (auto simp: strcmp_step)
    next
      case False
      with Cons.prems Cons have "m a \<noteq> m b" by simp
      then show ?thesis
        using False Cons by (simp add: strcmp_stop word_uint_eq_iff)
    qed
  qed
qed

lemma memcmp_loop_eq_0:
  "memcmp_loop m a b n = 0 \<longleftrightarrow> (\<forall>i < n. m (a + of_nat i) = m (b + of_nat i))"
proof (induction n arbitrary: a b)
  case 0
  then show ?case by simp
next
  case (Suc n)
  then show ?case
    by (auto simp: All_less_Suc2 add.assoc)
qed

lemma bounded_copy_loop_take:
  "bounded_copy_loop capacity i s = take (capacity - 1 - i) s"
  by (induction s arbitrary: i) (auto simp: take_Cons')

lemma bounded_copy_take: "bounded_copy capacity s = take (capacity - 1) s"
  by (simp add: bounded_copy_def bounded_copy_loop_take)

lemma bounded_copy_fits: "length s < capacity \<Longrightarrow> bounded_copy capacity s = s"
  by (simp add: bounded_copy_take)

lemma length_bounded_copy: "0 < capacity \<Longrightarrow> length (bounded_copy capacity s) < capacity"
  by (simp add: bounded_copy_take min_less_iff_disj)

end
