(* ===== verification/PageAlloc.thy ===== *)
theory PageAlloc
  imports CString
begin

unbundle bit_operations_syntax

text \<open>
  The physical page allocator, \<^verbatim>\<open>kernel/mm/page_alloc.cpp\<close>: a bitmap with one bit for each
  page of the first gigabyte and a count of the pages in use.

  The bitmap is a list of bytes and the bit operations are the ones of the code. An index
  into it is a natural number below \<open>managed_pages\<close>; addresses, counts and the sums the code
  forms from them are 64 bit words, so they wrap where the code's do. The lock that guards
  the allocator is modelled in the theory of locks; here an operation is one step.

  What the boot loader left in memory is a parameter: typed views of the structures at an
  address, and the bytes that hold its strings.
\<close>

section \<open>Constants and state\<close>

definition managed_limit :: phys_addr where
  "managed_limit = push_bit 30 1"

definition managed_pages :: nat where
  "managed_pages = unat (managed_limit div page_size)"

record page_alloc =
  bitmap :: "u8 list"
  used_pages :: usize

section \<open>The bitmap\<close>

definition pa_test_bit :: "page_alloc \<Rightarrow> nat \<Rightarrow> bool" where
  "pa_test_bit s index \<longleftrightarrow> (bitmap s ! (index div 8)) AND push_bit (index mod 8) 1 \<noteq> 0"

definition pa_set_bit :: "nat \<Rightarrow> page_alloc \<Rightarrow> page_alloc" where
  "pa_set_bit index s =
     s\<lparr>bitmap := (bitmap s)[index div 8 := (bitmap s ! (index div 8)) OR push_bit (index mod 8) 1]\<rparr>"

definition pa_clear_bit :: "nat \<Rightarrow> page_alloc \<Rightarrow> page_alloc" where
  "pa_clear_bit index s =
     s\<lparr>bitmap := (bitmap s)[index div 8 :=
        (bitmap s ! (index div 8)) AND NOT (push_bit (index mod 8) 1)]\<rparr>"

definition mark_used :: "nat \<Rightarrow> page_alloc \<Rightarrow> page_alloc" where
  "mark_used index s =
     (if index < managed_pages \<and> \<not> pa_test_bit s index
      then (pa_set_bit index s)\<lparr>used_pages := used_pages s + 1\<rparr> else s)"

text \<open>The body of the two loops that give pages back.\<close>

definition mark_unused :: "nat \<Rightarrow> page_alloc \<Rightarrow> page_alloc" where
  "mark_unused index s =
     (if pa_test_bit s index
      then (pa_clear_bit index s)\<lparr>used_pages := used_pages s - 1\<rparr> else s)"

definition mark_range_used :: "phys_addr \<Rightarrow> phys_addr \<Rightarrow> page_alloc \<Rightarrow> page_alloc" where
  "mark_range_used start stop s =
     (let first = unat (start div page_size);
          last = unat ((stop + page_size - 1) div page_size)
      in fold mark_used [first..<last] s)"

definition mark_range_free :: "phys_addr \<Rightarrow> phys_addr \<Rightarrow> page_alloc \<Rightarrow> page_alloc" where
  "mark_range_free start stop s =
     (let first = unat ((start + page_size - 1) div page_size);
          last = unat (stop div page_size)
      in fold mark_unused [first..<min last managed_pages] s)"

section \<open>Allocation\<close>

text \<open>The search: \<open>run\<close> free pages end just before \<open>i\<close>; the result is the last page of the run.\<close>

function alloc_scan :: "page_alloc \<Rightarrow> nat \<Rightarrow> nat \<Rightarrow> nat \<Rightarrow> nat option" where
  "alloc_scan s cnt i run =
     (if i < managed_pages then
        if pa_test_bit s i then alloc_scan s cnt (i + 1) 0
        else if run + 1 < cnt then alloc_scan s cnt (i + 1) (run + 1)
        else Some i
      else None)"
  by pat_completeness auto
termination
  by (relation "measure (\<lambda>(s, cnt, i, run). managed_pages - i)") auto

declare alloc_scan.simps [simp del]

definition alloc_pages :: "usize \<Rightarrow> page_alloc \<Rightarrow> phys_addr \<times> page_alloc" where
  "alloc_pages cnt s =
     (if cnt = 0 then (0, s)
      else case alloc_scan s (unat cnt) 0 0 of
        None \<Rightarrow> (0, s)
      | Some i \<Rightarrow>
          (let first = i + 1 - unat cnt
           in (of_nat first * page_size, fold mark_used [first..<i + 1] s)))"

definition alloc_page :: "page_alloc \<Rightarrow> phys_addr \<times> page_alloc" where
  "alloc_page s = alloc_pages 1 s"

definition free_pages :: "phys_addr \<Rightarrow> usize \<Rightarrow> page_alloc \<Rightarrow> page_alloc" where
  "free_pages page cnt s =
     (let first = page div page_size
      in fold mark_unused [unat first..<min (unat (first + cnt)) managed_pages] s)"

definition free_page :: "phys_addr \<Rightarrow> page_alloc \<Rightarrow> page_alloc" where
  "free_page page s = free_pages page 1 s"

definition total_pages :: usize where
  "total_pages = of_nat managed_pages"

definition free_pages_count :: "page_alloc \<Rightarrow> usize" where
  "free_pages_count s = of_nat managed_pages - used_pages s"

section \<open>Taking over from the boot loader\<close>

record MultibootInfo =
  mb_flags :: u32
  mb_mem_lower :: u32
  mb_mem_upper :: u32
  mb_boot_device :: u32
  mb_cmdline :: u32
  mb_mods_count :: u32
  mb_mods_addr :: u32
  mb_syms :: "u32 list"
  mb_mmap_length :: u32
  mb_mmap_addr :: u32

record MultibootModule =
  mod_start :: u32
  mod_end :: u32
  mod_string :: u32
  mod_reserved :: u32

record MultibootMmapEntry =
  mm_size :: u32
  mm_addr :: u64
  mm_len :: u64
  mm_type :: u32

definition multiboot_bootloader_magic :: u32 where
  "multiboot_bootloader_magic = 0x2BADB002"

definition multiboot_flag_cmdline :: u32 where
  "multiboot_flag_cmdline = push_bit 2 1"

definition multiboot_flag_mods :: u32 where
  "multiboot_flag_mods = push_bit 3 1"

definition multiboot_flag_mmap :: u32 where
  "multiboot_flag_mmap = push_bit 6 1"

definition multiboot_mmap_type_available :: u32 where
  "multiboot_mmap_type_available = 1"

text \<open>
  What is in memory at boot: the structures the loader left, by address, the bytes of its
  strings, and the end of the kernel image, a symbol of the linker script.
\<close>

record boot_memory =
  info_at :: "u64 \<Rightarrow> MultibootInfo"
  module_at :: "u64 \<Rightarrow> MultibootModule"
  mmap_at :: "u64 \<Rightarrow> MultibootMmapEntry"
  bytes_at :: memory
  kernel_end :: u64

datatype boot_panic = NotMultiboot u32 | NoMemoryMap

definition sizeof_MultibootInfo :: u64 where
  "sizeof_MultibootInfo = 52"

definition sizeof_MultibootModule :: u64 where
  "sizeof_MultibootModule = 16"

text \<open>\<open>None\<close> when the string has no terminator and the length loop never ends.\<close>

definition reserve_string :: "boot_memory \<Rightarrow> phys_addr \<Rightarrow> page_alloc \<Rightarrow> page_alloc option" where
  "reserve_string b address s =
     (case strlen (bytes_at b) address of
        None \<Rightarrow> None
      | Some n \<Rightarrow> Some (mark_range_used address (address + n + 1) s))"

fun reserve_modules :: "boot_memory \<Rightarrow> u64 \<Rightarrow> nat \<Rightarrow> nat \<Rightarrow> page_alloc \<Rightarrow> page_alloc option" where
  "reserve_modules b mods i 0 s = Some s"
| "reserve_modules b mods i (Suc n) s =
     (let m = module_at b (mods + of_nat i * sizeof_MultibootModule);
          s1 = mark_range_used (ucast (mod_start m)) (ucast (mod_end m)) s
      in if mod_string m \<noteq> 0
         then Option.bind (reserve_string b (ucast (mod_string m)) s1)
                (reserve_modules b mods (i + 1) n)
         else reserve_modules b mods (i + 1) n s1)"

definition reserve_boot_data :: "boot_memory \<Rightarrow> phys_addr \<Rightarrow> page_alloc \<Rightarrow> page_alloc option" where
  "reserve_boot_data b info_address s =
     (let info = info_at b info_address;
          s1 = mark_range_used info_address (info_address + sizeof_MultibootInfo) s;
          mmap = ucast (mb_mmap_addr info) :: u64;
          s2 = mark_range_used mmap (mmap + ucast (mb_mmap_length info)) s1
      in Option.bind
           (if mb_flags info AND multiboot_flag_cmdline \<noteq> 0
            then reserve_string b (ucast (mb_cmdline info)) s2 else Some s2)
           (\<lambda>s3. if mb_flags info AND multiboot_flag_mods \<noteq> 0
             then let mods = ucast (mb_mods_addr info) :: u64;
                      s4 = mark_range_used mods
                             (mods + ucast (mb_mods_count info) * sizeof_MultibootModule) s3
                  in reserve_modules b mods 0 (unat (mb_mods_count info)) s4
             else Some s3))"

text \<open>The body of the memory map loop: an available region gives its whole pages back.\<close>

definition mmap_entry_free :: "MultibootMmapEntry \<Rightarrow> page_alloc \<Rightarrow> page_alloc" where
  "mmap_entry_free entry s =
     (if mm_type entry = multiboot_mmap_type_available
      then let start = mm_addr entry; stop = mm_addr entry + mm_len entry
           in if start < managed_limit
              then mark_range_free start (if stop < managed_limit then stop else managed_limit) s
              else s
      else s)"

text \<open>
  The cursor moves by the size an entry claims plus the four bytes of the size field itself,
  so by at least four; the map ends below \<open>2 ^ 33\<close>, because both its fields are 32 bit.
\<close>

lemma mmap_cursor_decreases:
  fixes cursor stop :: u64 and size :: u32
  assumes "cursor < stop" and "unat stop < 8589934592"
  shows "unat stop - unat (cursor + (ucast size + 4)) < unat stop - unat cursor"
proof -
  have size: "unat (ucast size + 4 :: u64) = unat size + 4"
    using u32_bound [of size] by (simp add: unat_u64_add)
  have "unat cursor < unat stop" using assms(1) by (simp add: word_less_nat_alt)
  then have "unat (cursor + (ucast size + 4)) = unat cursor + (unat size + 4)"
    using assms(2) u32_bound [of size] size by (simp add: unat_u64_add)
  with \<open>unat cursor < unat stop\<close> show ?thesis by simp
qed

function mmap_loop :: "boot_memory \<Rightarrow> u64 \<Rightarrow> u64 \<Rightarrow> page_alloc \<Rightarrow> page_alloc" where
  "mmap_loop b cursor stop s =
     (if cursor < stop \<and> unat stop < 2 ^ 33
      then let entry = mmap_at b cursor
           in mmap_loop b (cursor + (ucast (mm_size entry) + 4)) stop (mmap_entry_free entry s)
      else s)"
  by pat_completeness auto
termination
  by (relation "measure (\<lambda>(b, cursor, stop, s). unat stop - unat cursor)")
    (auto simp: mmap_cursor_decreases)

declare mmap_loop.simps [simp del]

definition page_alloc_init ::
  "boot_memory \<Rightarrow> u32 \<Rightarrow> u64 \<Rightarrow> (boot_panic + page_alloc) option" where
  "page_alloc_init b magic multiboot_info =
     (if magic \<noteq> multiboot_bootloader_magic then Some (Inl (NotMultiboot magic))
      else let info = info_at b multiboot_info
      in if mb_flags info AND multiboot_flag_mmap = 0 then Some (Inl NoMemoryMap)
      else let s = \<lparr>bitmap = replicate (managed_pages div 8) 0xFF,
                    used_pages = of_nat managed_pages\<rparr>;
               mmap_start = ucast (mb_mmap_addr info) :: u64;
               mmap_end = mmap_start + ucast (mb_mmap_length info);
               s1 = mmap_loop b mmap_start mmap_end s;
               s2 = mark_range_used 0 (push_bit 20 1) s1;
               s3 = mark_range_used (push_bit 20 1) (kernel_end b) s2
      in map_option Inr (reserve_boot_data b multiboot_info s3))"

section \<open>The bitmap as a set of pages\<close>

definition allocated :: "page_alloc \<Rightarrow> nat set" where
  "allocated s = {i. i < managed_pages \<and> pa_test_bit s i}"

definition pa_inv :: "page_alloc \<Rightarrow> bool" where
  "pa_inv s \<longleftrightarrow> length (bitmap s) = managed_pages div 8 \<and>
     unat (used_pages s) = card (allocated s)"

lemma managed_pages_val: "managed_pages = 262144"
  by (simp add: managed_pages_def managed_limit_def)

lemma finite_allocated [simp]: "finite (allocated s)"
  by (simp add: allocated_def)

lemma card_allocated: "card (allocated s) \<le> managed_pages"
proof -
  have "allocated s \<subseteq> {..<managed_pages}" by (auto simp: allocated_def)
  then show ?thesis by (metis card_lessThan card_mono finite_lessThan)
qed

lemma allocated_less: "i \<in> allocated s \<Longrightarrow> i < managed_pages"
  by (simp add: allocated_def)

lemma pa_test_bit_iff: "i < managed_pages \<Longrightarrow> pa_test_bit s i \<longleftrightarrow> i \<in> allocated s"
  by (simp add: allocated_def)

lemma pa_test_bit_bit: "pa_test_bit s i \<longleftrightarrow> bit (bitmap s ! (i div 8)) (i mod 8)"
  by (simp add: pa_test_bit_def bit_iff_and_push_bit_not_eq_0)

lemma div_mod_8_eq: "i div 8 = j div 8 \<Longrightarrow> i mod 8 = j mod 8 \<Longrightarrow> i = (j :: nat)"
  by (metis div_mult_mod_eq)

lemma pa_test_set_bit:
  assumes "length (bitmap s) = managed_pages div 8" and "i < managed_pages"
  shows "pa_test_bit (pa_set_bit i s) j \<longleftrightarrow> j = i \<or> pa_test_bit s j"
proof (cases "j div 8 = i div 8")
  case True
  have "i div 8 < length (bitmap s)"
    using assms by (simp add: managed_pages_val less_mult_imp_div_less)
  then show ?thesis
    using True div_mod_8_eq [OF True]
    by (auto simp: pa_test_bit_bit pa_set_bit_def bit_simps)
next
  case False
  then show ?thesis by (auto simp: pa_test_bit_bit pa_set_bit_def)
qed

lemma pa_test_clear_bit:
  assumes "length (bitmap s) = managed_pages div 8" and "i < managed_pages"
  shows "pa_test_bit (pa_clear_bit i s) j \<longleftrightarrow> j \<noteq> i \<and> pa_test_bit s j"
proof (cases "j div 8 = i div 8")
  case True
  have "i div 8 < length (bitmap s)"
    using assms by (simp add: managed_pages_val less_mult_imp_div_less)
  then show ?thesis
    using True div_mod_8_eq [OF True]
    by (auto simp: pa_test_bit_bit pa_clear_bit_def bit_simps)
next
  case False
  then show ?thesis by (auto simp: pa_test_bit_bit pa_clear_bit_def)
qed

lemma mark_used_bitmap_length [simp]: "length (bitmap (mark_used i s)) = length (bitmap s)"
  by (simp add: mark_used_def pa_set_bit_def)

lemma mark_unused_bitmap_length [simp]: "length (bitmap (mark_unused i s)) = length (bitmap s)"
  by (simp add: mark_unused_def pa_clear_bit_def)

lemma allocated_used_pages_upd [simp]: "allocated (s\<lparr>used_pages := n\<rparr>) = allocated s"
  by (simp add: allocated_def pa_test_bit_def)

lemma pa_test_bit_used_pages_upd [simp]:
  "pa_test_bit (s\<lparr>used_pages := n\<rparr>) i \<longleftrightarrow> pa_test_bit s i"
  by (simp add: pa_test_bit_def)

lemma allocated_mark_used:
  assumes "length (bitmap s) = managed_pages div 8"
  shows "allocated (mark_used i s) = allocated s \<union> ({i} \<inter> {..<managed_pages})"
  using assms by (auto simp: allocated_def mark_used_def pa_test_set_bit)

lemma allocated_mark_unused:
  assumes "length (bitmap s) = managed_pages div 8" and "i < managed_pages"
  shows "allocated (mark_unused i s) = allocated s - {i}"
  using assms by (auto simp: allocated_def mark_unused_def pa_test_clear_bit)

lemma unat_used_pages_less:
  assumes "pa_inv s"
  shows "unat (used_pages s) \<le> managed_pages"
  using assms card_allocated [of s] by (simp add: pa_inv_def)

lemma mark_used_inv [inv_intros]:
  assumes inv: "pa_inv s"
  shows "pa_inv (mark_used i s)"
proof (cases "i < managed_pages \<and> \<not> pa_test_bit s i")
  case True
  then have new: "i \<notin> allocated s" by (simp add: allocated_def)
  have len: "length (bitmap s) = managed_pages div 8" using inv by (simp add: pa_inv_def)
  have "card (allocated (mark_used i s)) = card (allocated s) + 1"
    using True new by (simp add: allocated_mark_used [OF len])
  moreover have "unat (used_pages s + 1) = unat (used_pages s) + 1"
    using unat_used_pages_less [OF inv] by (simp add: unat_u64_add managed_pages_val)
  ultimately show ?thesis
    using inv True len by (simp add: pa_inv_def) (simp add: mark_used_def)
next
  case False
  with inv show ?thesis by (auto simp: mark_used_def)
qed

lemma mark_unused_inv [inv_intros]:
  assumes inv: "pa_inv s" and i: "i < managed_pages"
  shows "pa_inv (mark_unused i s)"
proof (cases "pa_test_bit s i")
  case True
  then have old: "i \<in> allocated s" using i by (simp add: allocated_def)
  then have pos: "0 < card (allocated s)" by (metis card_gt_0_iff empty_iff finite_allocated)
  have len: "length (bitmap s) = managed_pages div 8" using inv by (simp add: pa_inv_def)
  have "card (allocated (mark_unused i s)) = card (allocated s) - 1"
    using old by (simp add: allocated_mark_unused [OF len i])
  moreover have "unat (used_pages s - 1) = unat (used_pages s) - 1"
    using inv pos by (simp add: pa_inv_def unat_u64_sub word_le_nat_alt)
  ultimately show ?thesis
    using inv True len by (simp add: pa_inv_def) (simp add: mark_unused_def)
next
  case False
  with inv show ?thesis by (simp add: mark_unused_def)
qed

lemma fold_mark_used:
  assumes "pa_inv s"
  shows "pa_inv (fold mark_used is s)"
    and "allocated (fold mark_used is s) = allocated s \<union> (set is \<inter> {..<managed_pages})"
proof -
  have "pa_inv (fold mark_used is s) \<and>
      allocated (fold mark_used is s) = allocated s \<union> (set is \<inter> {..<managed_pages})"
    using assms
  proof (induction "is" arbitrary: s)
    case Nil
    then show ?case by simp
  next
    case (Cons i "is")
    moreover have "allocated (mark_used i s) = allocated s \<union> ({i} \<inter> {..<managed_pages})"
      using Cons.prems by (simp add: allocated_mark_used pa_inv_def)
    ultimately show ?case using mark_used_inv [OF Cons.prems, of i] by auto
  qed
  then show "pa_inv (fold mark_used is s)"
    and "allocated (fold mark_used is s) = allocated s \<union> (set is \<inter> {..<managed_pages})" by auto
qed

lemma fold_mark_unused:
  assumes "pa_inv s" and "set is \<subseteq> {..<managed_pages}"
  shows "pa_inv (fold mark_unused is s)"
    and "allocated (fold mark_unused is s) = allocated s - set is"
proof -
  have "pa_inv (fold mark_unused is s) \<and>
      allocated (fold mark_unused is s) = allocated s - set is"
    using assms
  proof (induction "is" arbitrary: s)
    case Nil
    then show ?case by simp
  next
    case (Cons i "is")
    moreover have "allocated (mark_unused i s) = allocated s - {i}"
      using Cons.prems by (simp add: allocated_mark_unused pa_inv_def)
    ultimately show ?case using mark_unused_inv [OF Cons.prems(1), of i] by auto
  qed
  then show "pa_inv (fold mark_unused is s)"
    and "allocated (fold mark_unused is s) = allocated s - set is" by auto
qed

text \<open>The set of pages in use determines the whole state.\<close>

lemma pa_state_eqI:
  assumes "pa_inv s" and "pa_inv t" and eq: "allocated s = allocated t"
  shows "s = t"
proof -
  have len: "length (bitmap s) = managed_pages div 8" "length (bitmap t) = managed_pages div 8"
    using assms by (simp_all add: pa_inv_def)
  have "bitmap s = bitmap t"
  proof (rule nth_equalityI)
    fix k assume "k < length (bitmap s)"
    then have k: "k < 32768" using len by (simp add: managed_pages_val)
    show "bitmap s ! k = bitmap t ! k"
    proof (rule bit_word_eqI)
      fix n assume "n < LENGTH(8)"
      then have n: "n < 8" by simp
      then have i: "8 * k + n < managed_pages" using k by (simp add: managed_pages_val)
      have "(8 * k + n) div 8 = k" "(8 * k + n) mod 8 = n" using n by simp_all
      then show "bit (bitmap s ! k) n = bit (bitmap t ! k) n"
        using pa_test_bit_iff [OF i, of s] pa_test_bit_iff [OF i, of t] eq
        by (simp add: pa_test_bit_bit)
    qed
  qed (simp add: len)
  moreover have "used_pages s = used_pages t"
    using assms by (simp add: pa_inv_def u64_eqI)
  ultimately show ?thesis by simp
qed

section \<open>The search finds the first run\<close>

definition free_run :: "page_alloc \<Rightarrow> nat \<Rightarrow> nat \<Rightarrow> bool" where
  "free_run s first cnt \<longleftrightarrow> {first..<first + cnt} \<subseteq> {..<managed_pages} - allocated s"

lemma free_run_iff:
  "free_run s a cnt \<longleftrightarrow> (\<forall>j. a \<le> j \<longrightarrow> j < a + cnt \<longrightarrow> j < managed_pages \<and> j \<notin> allocated s)"
  by (auto simp: free_run_def)

lemma free_run_blocked:
  "j \<in> allocated s \<Longrightarrow> a \<le> j \<Longrightarrow> free_run s a cnt \<Longrightarrow> a + cnt \<le> j"
  by (rule ccontr) (simp add: free_run_iff)

lemma free_run_bound:
  assumes "free_run s a cnt" and "0 < cnt"
  shows "a + cnt \<le> managed_pages"
proof -
  have "a + cnt - 1 < managed_pages"
    using assms by (simp add: free_run_iff)
  then show ?thesis using assms(2) by simp
qed

lemma alloc_scan_first_fit:
  assumes "0 < cnt" and "run < cnt" and "run \<le> i" and "i \<le> managed_pages"
    and "free_run s (i - run) run"
    and "\<And>a. a < i - run \<Longrightarrow> \<not> free_run s a cnt"
  shows "case alloc_scan s cnt i run of
      None \<Rightarrow> \<forall>a. \<not> free_run s a cnt
    | Some k \<Rightarrow> cnt \<le> k + 1 \<and> free_run s (k + 1 - cnt) cnt \<and>
        (\<forall>a < k + 1 - cnt. \<not> free_run s a cnt)"
  using assms
proof (induction s cnt i run rule: alloc_scan.induct)
  case (1 s cnt i run)
  show ?case
  proof (cases "i < managed_pages")
    case False
    have "\<not> free_run s a cnt" for a
    proof
      assume run: "free_run s a cnt"
      with "1.prems" have "i - run \<le> a" by (meson not_le)
      moreover have "a + cnt \<le> managed_pages"
        using run "1.prems"(1) by (rule free_run_bound)
      ultimately show False using False "1.prems" by simp
    qed
    with False show ?thesis by (simp add: alloc_scan.simps [of s cnt i run])
  next
    case inside: True
    show ?thesis
    proof (cases "pa_test_bit s i")
      case True
      then have i: "i \<in> allocated s" using inside by (simp add: allocated_def)
      have none: "\<not> free_run s a cnt" if "a < i + 1" for a
      proof (cases "a < i - run")
        case False
        show ?thesis
        proof
          assume "free_run s a cnt"
          with i that have "a + cnt \<le> i" by (auto intro: free_run_blocked)
          with False "1.prems" show False by simp
        qed
      qed (use "1.prems" in simp)
      have "free_run s (i + 1) 0" by (simp add: free_run_def)
      with "1.IH"(1) [OF inside True] "1.prems" none inside True show ?thesis
        by (simp add: alloc_scan.simps [of s cnt i run])
    next
      case False
      then have grown: "free_run s (i - run) (run + 1)"
        using inside "1.prems" by (auto simp: free_run_def allocated_def subset_iff less_Suc_eq)
      show ?thesis
      proof (cases "run + 1 < cnt")
        case True
        with "1.IH"(2) [OF inside False True] "1.prems" grown inside False show ?thesis
          by (simp add: alloc_scan.simps [of s cnt i run])
      next
        case last: False
        have "alloc_scan s cnt i run = Some i"
          using inside False last by (simp add: alloc_scan.simps [of s cnt i run])
        moreover have "cnt = run + 1" using "1.prems" last by simp
        ultimately show ?thesis using "1.prems" grown by simp
      qed
    qed
  qed
qed

lemma alloc_scan_start:
  "0 < cnt \<Longrightarrow> case alloc_scan s cnt 0 0 of
      None \<Rightarrow> \<forall>a. \<not> free_run s a cnt
    | Some k \<Rightarrow> cnt \<le> k + 1 \<and> free_run s (k + 1 - cnt) cnt \<and>
        (\<forall>a < k + 1 - cnt. \<not> free_run s a cnt)"
  by (rule alloc_scan_first_fit) (simp_all add: free_run_def)

section \<open>What allocation and release do to the set of pages in use\<close>

lemma unat_page_address:
  "f < managed_pages \<Longrightarrow> unat (of_nat f * 4096 :: u64) = f * 4096"
  by (simp add: managed_pages_val unat_u64_mult unat_u64_of_nat)

lemma alloc_pages_fail:
  assumes "cnt = 0 \<or> (\<forall>f. \<not> free_run s f (unat cnt))"
  shows "alloc_pages cnt s = (0, s)"
proof (cases "cnt = 0")
  case False
  then have "0 < unat cnt" by (simp add: unat_gt_0)
  from alloc_scan_start [OF this, of s] assms False show ?thesis
    by (auto simp: alloc_pages_def split: option.splits)
qed (simp add: alloc_pages_def)

lemma alloc_pages_success:
  assumes inv: "pa_inv s" and "cnt \<noteq> 0" and "free_run s g (unat cnt)"
  obtains f s' where "alloc_pages cnt s = (of_nat f * 4096, s')"
    and "free_run s f (unat cnt)" and "\<And>a. a < f \<Longrightarrow> \<not> free_run s a (unat cnt)"
    and "pa_inv s'" and "allocated s' = allocated s \<union> {f..<f + unat cnt}"
proof -
  have pos: "0 < unat cnt" using assms(2) by (simp add: unat_gt_0)
  with alloc_scan_start [OF this, of s] assms(3) obtain k where
    k: "alloc_scan s (unat cnt) 0 0 = Some k" "unat cnt \<le> k + 1"
      "free_run s (k + 1 - unat cnt) (unat cnt)"
      "\<And>a. a < k + 1 - unat cnt \<Longrightarrow> \<not> free_run s a (unat cnt)"
    by (auto split: option.splits)
  let ?f = "k + 1 - unat cnt"
  let ?s = "fold mark_used [?f..<k + 1] s"
  have "{?f..<k + 1} \<inter> {..<managed_pages} = {?f..<?f + unat cnt}"
    using k(2,3) by (auto simp: free_run_iff)
  then have "pa_inv ?s" "allocated ?s = allocated s \<union> {?f..<?f + unat cnt}"
    using fold_mark_used [OF inv, of "[?f..<k + 1]"] unfolding set_upt by simp_all
  moreover have "alloc_pages cnt s = (of_nat ?f * 4096, ?s)"
    using k(1) assms(2) by (simp add: alloc_pages_def Let_def)
  ultimately show thesis using that k(3,4) by blast
qed

lemma free_pages_inv [inv_intros]: "pa_inv s \<Longrightarrow> pa_inv (free_pages a cnt s)"
  unfolding free_pages_def Let_def by (rule fold_mark_unused) auto

lemma allocated_free_pages:
  assumes "pa_inv s" and "unat (a div 4096) + unat cnt < 18446744073709551616"
  shows "allocated (free_pages a cnt s)
       = allocated s - {unat (a div 4096)..<unat (a div 4096) + unat cnt}"
proof -
  let ?f = "unat (a div 4096)" and ?n = "unat cnt"
  have n: "unat (a div 4096 + cnt) = ?f + ?n"
    using assms(2) by (rule unat_u64_add)
  have "allocated (free_pages a cnt s) = allocated s - set [?f..<min (?f + ?n) managed_pages]"
    unfolding free_pages_def Let_def page_size_def n
    by (rule fold_mark_unused(2) [OF assms(1)]) auto
  also have "\<dots> = allocated s - {?f..<?f + ?n}"
    using allocated_less by auto
  finally show ?thesis .
qed

lemma alloc_pages_inv [inv_intros]:
  assumes "pa_inv s"
  shows "pa_inv (snd (alloc_pages cnt s))"
proof (cases "cnt = 0 \<or> (\<forall>f. \<not> free_run s f (unat cnt))")
  case True
  with assms show ?thesis by (simp add: alloc_pages_fail)
next
  case False
  then obtain g where "cnt \<noteq> 0" "free_run s g (unat cnt)" by auto
  from alloc_pages_success [OF assms this] show ?thesis by (metis snd_conv)
qed

section \<open>What the allocator starts with\<close>

text \<open>The pages a byte range touches, and the whole pages it contains.\<close>

definition range_pages :: "u64 \<Rightarrow> u64 \<Rightarrow> nat set" where
  "range_pages start stop = {unat start div 4096..<unat (stop + 4095) div 4096}"

definition whole_pages :: "MultibootMmapEntry \<Rightarrow> nat set" where
  "whole_pages e = {p. mm_type e = multiboot_mmap_type_available \<and> p < managed_pages \<and>
     unat (mm_addr e) \<le> 4096 * p \<and> 4096 * (p + 1) \<le> unat (mm_addr e + mm_len e)}"

lemma mark_range_used_spec:
  assumes "pa_inv s"
  shows "pa_inv (mark_range_used a z s)"
    and "allocated (mark_range_used a z s) = allocated s \<union> (range_pages a z \<inter> {..<managed_pages})"
  using fold_mark_used [OF assms] unfolding mark_range_used_def Let_def
  by (simp_all add: range_pages_def unat_div add.commute [of 4095 z])

lemma mark_range_free_spec:
  assumes "pa_inv s" and "a < managed_limit" and "z \<le> managed_limit"
  shows "pa_inv (mark_range_free a z s)"
    and "allocated (mark_range_free a z s)
       = allocated s - {p. unat a \<le> 4096 * p \<and> 4096 * (p + 1) \<le> unat z}"
proof -
  have a: "unat a < 1073741824" and z: "unat z \<le> 1073741824"
    using assms(2,3) by (simp_all add: managed_limit_def word_less_nat_alt word_le_nat_alt)
  let ?I = "[(unat a + 4095) div 4096..<min (unat z div 4096) managed_pages]"
  have "mark_range_free a z s = fold mark_unused ?I s"
    using a by (simp add: mark_range_free_def Let_def unat_div unat_u64_add add.commute [of 4095 "unat a"])
  moreover have "set ?I = {p. unat a \<le> 4096 * p \<and> 4096 * (p + 1) \<le> unat z}"
    using z by (auto simp: managed_pages_val)
  moreover have "set ?I \<subseteq> {..<managed_pages}" by auto
  ultimately show "pa_inv (mark_range_free a z s)"
    and "allocated (mark_range_free a z s)
       = allocated s - {p. unat a \<le> 4096 * p \<and> 4096 * (p + 1) \<le> unat z}"
    using fold_mark_unused [OF assms(1), of ?I] by metis+
qed

lemma whole_pages_inside:
  assumes "p \<in> whole_pages e"
  shows "mm_type e = multiboot_mmap_type_available" and "unat (mm_addr e) \<le> 4096 * p"
    and "4096 * (p + 1) \<le> unat (mm_addr e) + unat (mm_len e)"
  using assms unat_u64_add_wrap [of "mm_addr e" "mm_len e"]
  by (auto simp: whole_pages_def intro: order_trans [OF _ mod_less_eq_dividend])

lemma mmap_entry_free_spec:
  assumes "pa_inv s"
  shows "pa_inv (mmap_entry_free e s)"
    and "allocated (mmap_entry_free e s) = allocated s - whole_pages e"
proof -
  let ?a = "mm_addr e" and ?z = "mm_addr e + mm_len e"
  let ?m = "if ?z < managed_limit then ?z else managed_limit"
  have lim: "?m \<le> managed_limit" by (simp add: less_imp_le)
  have m: "unat ?m = min (unat ?z) 1073741824"
    by (simp add: managed_limit_def word_less_nat_alt)
  show "pa_inv (mmap_entry_free e s)"
    using mark_range_free_spec(1) [OF assms _ lim] assms
    by (simp add: mmap_entry_free_def Let_def)
  show "allocated (mmap_entry_free e s) = allocated s - whole_pages e"
  proof (cases "mm_type e = multiboot_mmap_type_available \<and> ?a < managed_limit")
    case True
    then have "allocated (mmap_entry_free e s)
        = allocated s - {p. unat ?a \<le> 4096 * p \<and> 4096 * (p + 1) \<le> unat ?m}"
      using mark_range_free_spec(2) [OF assms _ lim, of ?a] by (simp add: mmap_entry_free_def Let_def)
    also have "{p. unat ?a \<le> 4096 * p \<and> 4096 * (p + 1) \<le> unat ?m} = whole_pages e"
      unfolding m whole_pages_def using True by (auto simp: managed_pages_val)
    finally show ?thesis .
  next
    case False
    then have "whole_pages e = {}"
      by (auto simp: whole_pages_def managed_pages_val managed_limit_def word_less_nat_alt)
    with False show ?thesis by (auto simp: mmap_entry_free_def Let_def)
  qed
qed

text \<open>The entries the loop over the memory map reads, in its order.\<close>

function mmap_entries :: "boot_memory \<Rightarrow> u64 \<Rightarrow> u64 \<Rightarrow> MultibootMmapEntry list" where
  "mmap_entries b cursor stop =
     (if cursor < stop \<and> unat stop < 2 ^ 33
      then mmap_at b cursor # mmap_entries b (cursor + (ucast (mm_size (mmap_at b cursor)) + 4)) stop
      else [])"
  by pat_completeness auto
termination
  by (relation "measure (\<lambda>(b, cursor, stop). unat stop - unat cursor)")
    (auto simp: mmap_cursor_decreases)

declare mmap_entries.simps [simp del]

lemma mmap_loop_fold: "mmap_loop b c z s = fold mmap_entry_free (mmap_entries b c z) s"
proof (induction b c z s rule: mmap_loop.induct)
  case (1 b cursor stop s)
  then show ?case
    by (simp add: mmap_loop.simps [of b cursor stop s] mmap_entries.simps [of b cursor stop] Let_def)
qed

lemma fold_mmap_entry_free:
  assumes "pa_inv s"
  shows "pa_inv (fold mmap_entry_free es s) \<and>
    allocated (fold mmap_entry_free es s) = allocated s - (\<Union>e\<in>set es. whole_pages e)"
  using assms
proof (induction es arbitrary: s)
  case (Cons e es)
  then show ?case using mmap_entry_free_spec [OF Cons.prems, of e] by auto
qed simp

text \<open>The state before the memory map is read: every page is in use.\<close>

lemma all_used:
  defines "s \<equiv> \<lparr>bitmap = replicate (managed_pages div 8) 0xFF, used_pages = of_nat managed_pages\<rparr>"
  shows "pa_inv s" and "allocated s = {..<managed_pages}"
proof -
  have "bit (0xFF :: u8) n" if "n < 8" for n
  proof -
    have eq: "(0xFF :: u8) = mask 8" by (simp add: mask_eq_exp_minus_1)
    show ?thesis unfolding eq using that by (simp only: bit_mask_iff) simp
  qed
  then show a: "allocated s = {..<managed_pages}"
    by (auto simp: s_def allocated_def pa_test_bit_bit managed_pages_val)
  show "pa_inv s"
    by (simp add: pa_inv_def a) (simp add: s_def managed_pages_val)
qed

lemma reserve_string_spec:
  assumes "reserve_string b a s = Some s'" and "pa_inv s"
  shows "pa_inv s' \<and> allocated s \<subseteq> allocated s' \<and>
    (\<forall>n. strlen (bytes_at b) a = Some n \<longrightarrow>
       range_pages a (a + n + 1) \<inter> {..<managed_pages} \<subseteq> allocated s')"
  using assms mark_range_used_spec [OF assms(2)]
  by (auto simp: reserve_string_def split: option.splits)

lemma reserve_modules_spec:
  assumes "reserve_modules b mods i n s = Some s'" and "pa_inv s"
  shows "pa_inv s' \<and> allocated s \<subseteq> allocated s' \<and>
    (\<forall>k\<in>{i..<i + n}.
       let m = module_at b (mods + of_nat k * sizeof_MultibootModule)
       in range_pages (ucast (mod_start m)) (ucast (mod_end m)) \<inter> {..<managed_pages} \<subseteq> allocated s')"
  using assms
proof (induction n arbitrary: i s)
  case (Suc n)
  define m where "m = module_at b (mods + of_nat i * sizeof_MultibootModule)"
  define s1 where "s1 = mark_range_used (ucast (mod_start m)) (ucast (mod_end m)) s"
  have s1: "pa_inv s1" "allocated s1 = allocated s \<union>
      (range_pages (ucast (mod_start m)) (ucast (mod_end m)) \<inter> {..<managed_pages})"
    unfolding s1_def by (rule mark_range_used_spec [OF Suc.prems(2)])+
  obtain s2 where s2: "pa_inv s2" "allocated s1 \<subseteq> allocated s2"
      "reserve_modules b mods (i + 1) n s2 = Some s'"
  proof (cases "mod_string m = 0")
    case True
    then show thesis using that [of s1] s1 Suc.prems(1) by (simp add: Let_def m_def s1_def)
  next
    case False
    then obtain t where "reserve_string b (ucast (mod_string m)) s1 = Some t"
        "reserve_modules b mods (i + 1) n t = Some s'"
      using Suc.prems(1) by (auto simp: Let_def m_def s1_def bind_eq_Some_conv)
    then show thesis using that [of t] reserve_string_spec s1(1) by blast
  qed
  have "{i..<i + Suc n} = insert i {i + 1..<i + 1 + n}" by auto
  then show ?case
    using Suc.IH [OF s2(3) s2(1)] s1(2) s2(2) by (auto simp: Let_def m_def)
qed simp

text \<open>What the loader's structures name: all of it has to survive the boot.\<close>

definition boot_data_pages :: "boot_memory \<Rightarrow> u64 \<Rightarrow> nat set" where
  "boot_data_pages b i =
     (let info = info_at b i;
          mmap = ucast (mb_mmap_addr info) :: u64;
          cmdline = ucast (mb_cmdline info) :: u64;
          mods = ucast (mb_mods_addr info) :: u64
      in range_pages i (i + sizeof_MultibootInfo) \<union>
         range_pages mmap (mmap + ucast (mb_mmap_length info)) \<union>
         {p. mb_flags info AND multiboot_flag_cmdline \<noteq> 0 \<and>
            (\<exists>n. strlen (bytes_at b) cmdline = Some n \<and> p \<in> range_pages cmdline (cmdline + n + 1))} \<union>
         {p. mb_flags info AND multiboot_flag_mods \<noteq> 0 \<and>
            p \<in> range_pages mods (mods + ucast (mb_mods_count info) * sizeof_MultibootModule)} \<union>
         {p. mb_flags info AND multiboot_flag_mods \<noteq> 0 \<and>
            (\<exists>k < unat (mb_mods_count info).
               let m = module_at b (mods + of_nat k * sizeof_MultibootModule)
               in p \<in> range_pages (ucast (mod_start m)) (ucast (mod_end m)))})"

lemma reserve_boot_data_spec:
  assumes "reserve_boot_data b i s = Some s'" and "pa_inv s"
  shows "pa_inv s' \<and> allocated s \<subseteq> allocated s' \<and>
    boot_data_pages b i \<inter> {..<managed_pages} \<subseteq> allocated s'"
proof -
  define info where "info = info_at b i"
  define mmap where "mmap = (ucast (mb_mmap_addr info) :: u64)"
  define mods where "mods = (ucast (mb_mods_addr info) :: u64)"
  define s1 where "s1 = mark_range_used i (i + sizeof_MultibootInfo) s"
  define s2 where "s2 = mark_range_used mmap (mmap + ucast (mb_mmap_length info)) s1"
  note defs = info_def mmap_def mods_def s1_def s2_def
  have s1: "pa_inv s1" "allocated s1 = allocated s \<union> (range_pages i (i + sizeof_MultibootInfo) \<inter> {..<managed_pages})"
    unfolding s1_def by (rule mark_range_used_spec [OF assms(2)])+
  have s2: "pa_inv s2" "allocated s2 = allocated s1 \<union> (range_pages mmap (mmap + ucast (mb_mmap_length info)) \<inter> {..<managed_pages})"
    unfolding s2_def by (rule mark_range_used_spec [OF s1(1)])+
  obtain s3 where s3: "(if mb_flags info AND multiboot_flag_cmdline \<noteq> 0
      then reserve_string b (ucast (mb_cmdline info)) s2 else Some s2) = Some s3"
    and last: "(if mb_flags info AND multiboot_flag_mods \<noteq> 0
      then reserve_modules b mods 0 (unat (mb_mods_count info))
        (mark_range_used mods (mods + ucast (mb_mods_count info) * sizeof_MultibootModule) s3)
      else Some s3) = Some s'"
    using assms(1) unfolding reserve_boot_data_def Let_def defs by (auto simp: bind_eq_Some_conv)
  have s3': "pa_inv s3" "allocated s2 \<subseteq> allocated s3"
    "mb_flags info AND multiboot_flag_cmdline \<noteq> 0 \<Longrightarrow> strlen (bytes_at b) (ucast (mb_cmdline info)) = Some n \<Longrightarrow>
      range_pages (ucast (mb_cmdline info)) (ucast (mb_cmdline info) + n + 1) \<inter> {..<managed_pages} \<subseteq> allocated s3" for n
    using s3 s2(1) reserve_string_spec [of b _ s2 s3] by (auto split: if_splits)
  define s4 where "s4 = mark_range_used mods (mods + ucast (mb_mods_count info) * sizeof_MultibootModule) s3"
  have s4: "pa_inv s4" "allocated s4 = allocated s3 \<union> (range_pages mods (mods + ucast (mb_mods_count info) * sizeof_MultibootModule) \<inter> {..<managed_pages})"
    unfolding s4_def by (rule mark_range_used_spec [OF s3'(1)])+
  show ?thesis
  proof (cases "mb_flags info AND multiboot_flag_mods = 0")
    case True
    then have "s' = s3" using last by simp
    then show ?thesis using True s1 s2 s3' by (auto simp: boot_data_pages_def Let_def defs)
  next
    case False
    then have "reserve_modules b mods 0 (unat (mb_mods_count info)) s4 = Some s'"
      using last by (simp add: s4_def)
    from reserve_modules_spec [OF this s4(1)]
    have m: "pa_inv s'" "allocated s4 \<subseteq> allocated s'"
      "\<And>k. k < unat (mb_mods_count info) \<Longrightarrow>
         range_pages (ucast (mod_start (module_at b (mods + of_nat k * sizeof_MultibootModule))))
           (ucast (mod_end (module_at b (mods + of_nat k * sizeof_MultibootModule))))
         \<inter> {..<managed_pages} \<subseteq> allocated s'"
      by (simp_all add: Let_def)
    then show ?thesis using False s1 s2 s3' s4
      by (auto simp: boot_data_pages_def Let_def defs [symmetric]) blast+
  qed
qed

lemma page_alloc_init_facts:
  assumes "page_alloc_init b magic i = Some (Inr s)"
  defines "mmap \<equiv> ucast (mb_mmap_addr (info_at b i)) :: u64"
  defines "es \<equiv> mmap_entries b mmap (mmap + ucast (mb_mmap_length (info_at b i)))"
  shows "pa_inv s" and "{..<256} \<subseteq> allocated s"
    and "range_pages 0x100000 (kernel_end b) \<inter> {..<managed_pages} \<subseteq> allocated s"
    and "boot_data_pages b i \<inter> {..<managed_pages} \<subseteq> allocated s"
    and "{..<managed_pages} - allocated s \<subseteq> (\<Union>e\<in>set es. whole_pages e)"
proof -
  define s0 where "s0 = \<lparr>bitmap = replicate (managed_pages div 8) (0xFF :: u8), used_pages = (of_nat managed_pages :: usize)\<rparr>"
  define s1 where "s1 = fold mmap_entry_free es s0"
  define s2 where "s2 = mark_range_used 0 0x100000 s1"
  define s3 where "s3 = mark_range_used 0x100000 (kernel_end b) s2"
  have "reserve_boot_data b i s3 = Some s"
    using assms(1)
    by (auto simp: page_alloc_init_def Let_def mmap_loop_fold s0_def s1_def s2_def s3_def
        es_def mmap_def split: if_splits)
  moreover have s0: "pa_inv s0" "allocated s0 = {..<managed_pages}"
    unfolding s0_def by (rule all_used)+
  have s1: "pa_inv s1" "allocated s1 = {..<managed_pages} - (\<Union>e\<in>set es. whole_pages e)"
    using fold_mmap_entry_free [OF s0(1), of es] by (simp_all add: s0(2) s1_def)
  have s2: "pa_inv s2" "allocated s2 = allocated s1 \<union> (range_pages 0 0x100000 \<inter> {..<managed_pages})"
    unfolding s2_def by (rule mark_range_used_spec [OF s1(1)])+
  have s3: "pa_inv s3" "allocated s3 = allocated s2 \<union> (range_pages 0x100000 (kernel_end b) \<inter> {..<managed_pages})"
    unfolding s3_def by (rule mark_range_used_spec [OF s2(1)])+
  ultimately have s: "pa_inv s \<and> allocated s3 \<subseteq> allocated s \<and>
      boot_data_pages b i \<inter> {..<managed_pages} \<subseteq> allocated s"
    using reserve_boot_data_spec by blast
  then show "pa_inv s" "boot_data_pages b i \<inter> {..<managed_pages} \<subseteq> allocated s" by simp_all
  show "range_pages 0x100000 (kernel_end b) \<inter> {..<managed_pages} \<subseteq> allocated s"
    using s s3(2) by blast
  have "{..<256} \<subseteq> range_pages 0 0x100000 \<inter> {..<managed_pages}"
    by (auto simp: range_pages_def managed_pages_val)
  then show "{..<256} \<subseteq> allocated s" using s s2(2) s3(2) by blast
  show "{..<managed_pages} - allocated s \<subseteq> (\<Union>e\<in>set es. whole_pages e)"
    using s s1(2) s2(2) s3(2) by blast
qed

text \<open>The length loops end: the strings the loader passes have terminators.\<close>

definition boot_strings_end :: "boot_memory \<Rightarrow> u64 \<Rightarrow> bool" where
  "boot_strings_end b i \<longleftrightarrow>
     (let info = info_at b i
      in strlen (bytes_at b) (ucast (mb_cmdline info)) \<noteq> None \<and>
         (\<forall>k < unat (mb_mods_count info).
            strlen (bytes_at b) (ucast (mod_string (module_at b
              (ucast (mb_mods_addr info) + of_nat k * sizeof_MultibootModule)))) \<noteq> None))"

lemma reserve_modules_returns:
  assumes "\<And>k. i \<le> k \<Longrightarrow> k < i + n \<Longrightarrow>
    strlen (bytes_at b) (ucast (mod_string (module_at b (mods + of_nat k * sizeof_MultibootModule)))) \<noteq> None"
  shows "\<exists>s'. reserve_modules b mods i n s = Some s'"
  using assms
proof (induction n arbitrary: i s)
  case (Suc n)
  have rest: "\<exists>s'. reserve_modules b mods (Suc i) n t = Some s'" for t
    using Suc.IH [of "Suc i"] Suc.prems by simp
  have "strlen (bytes_at b) (ucast (mod_string (module_at b (mods + of_nat i * sizeof_MultibootModule)))) \<noteq> None"
    using Suc.prems [of i] by simp
  with rest show ?case by (auto simp: Let_def reserve_string_def)
qed simp

lemma reserve_boot_data_returns:
  assumes "boot_strings_end b i"
  shows "\<exists>s'. reserve_boot_data b i s = Some s'"
proof -
  have "\<exists>s'. reserve_modules b (ucast (mb_mods_addr (info_at b i))) 0
      (unat (mb_mods_count (info_at b i))) t = Some s'" for t
    using assms by (intro reserve_modules_returns) (simp add: boot_strings_end_def Let_def)
  then show ?thesis
    using assms
    by (auto simp: reserve_boot_data_def boot_strings_end_def reserve_string_def Let_def)
qed

section \<open>The contract its clients rely on\<close>

text \<open>
  A source of page frames, for the address space code, the heap and the drivers: a frame it
  hands out was not in use and is page aligned, a failed request changes nothing, and a frame
  given back is the only one that changes hands. Address zero stands for failure, so frame
  zero must never be free.
\<close>

locale frame_source =
  fixes take_frame :: "'s \<Rightarrow> phys_addr \<times> 's"
    and give_frame :: "phys_addr \<Rightarrow> 's \<Rightarrow> 's"
    and in_use :: "'s \<Rightarrow> nat set"
    and good :: "'s \<Rightarrow> bool"
  assumes frame_zero: "good s \<Longrightarrow> 0 \<in> in_use s"
    and take_fails: "good s \<Longrightarrow> take_frame s = (0, s') \<Longrightarrow> s' = s"
    and take_fresh: "good s \<Longrightarrow> take_frame s = (p, s') \<Longrightarrow> p \<noteq> 0 \<Longrightarrow>
      good s' \<and> page_aligned p \<and> unat p div 4096 \<notin> in_use s \<and>
      in_use s' = insert (unat p div 4096) (in_use s)"
    and give_back: "good s \<Longrightarrow> page_aligned p \<Longrightarrow> p \<noteq> 0 \<Longrightarrow>
      good (give_frame p s) \<and> in_use (give_frame p s) = in_use s - {unat p div 4096}"
begin

lemma take_good: "good s \<Longrightarrow> good (snd (take_frame s))"
  by (metis eq_snd_iff take_fails take_fresh)

lemma take_in_use: "good s \<Longrightarrow> in_use s \<subseteq> in_use (snd (take_frame s))"
  by (metis eq_snd_iff order_refl subset_insertI take_fails take_fresh)

lemma take_give:
  assumes "good s" and "take_frame s = (p, s')" and "p \<noteq> 0"
  shows "in_use (give_frame p s') = in_use s"
  using take_fresh [OF assms] give_back [of s' p] assms(3) by auto

end

definition pa_good :: "page_alloc \<Rightarrow> bool" where
  "pa_good s \<longleftrightarrow> pa_inv s \<and> 0 \<in> allocated s"

lemma alloc_page_cases:
  assumes "pa_inv s" and "alloc_page s = (p, s')"
  obtains (none) "p = 0" and "s' = s"
  | (some) f where "f < managed_pages" and "f \<notin> allocated s" and "p = of_nat f * 4096"
      and "pa_inv s'" and "allocated s' = insert f (allocated s)"
proof (cases "\<exists>g. free_run s g 1")
  case True
  then obtain g where "free_run s g (unat (1 :: u64))" by auto
  then obtain f t where f: "alloc_pages 1 s = (of_nat f * 4096, t)"
    "free_run s f (unat (1 :: u64))" "pa_inv t" "allocated t = allocated s \<union> {f..<f + unat (1 :: u64)}"
    using alloc_pages_success [OF assms(1), of 1 g]
    by (metis zero_neq_one)
  then show thesis
    using assms(2) some [of f] by (auto simp: alloc_page_def free_run_def)
next
  case False
  then show thesis using assms(2) alloc_pages_fail [of 1 s] none by (simp add: alloc_page_def)
qed

interpretation frames: frame_source alloc_page free_page allocated pa_good
proof
  fix s s' :: page_alloc and p
  show "pa_good s \<Longrightarrow> 0 \<in> allocated s" by (simp add: pa_good_def)
  assume good: "pa_good s"
  then have inv: "pa_inv s" and zero: "0 \<in> allocated s" by (simp_all add: pa_good_def)
  {
    assume "alloc_page s = (0, s')"
    with inv show "s' = s"
    proof (cases rule: alloc_page_cases)
      case (some f)
      then have "unat (of_nat f * 4096 :: u64) = 0" by simp
      with some(1,2) zero show ?thesis by (simp add: unat_page_address)
    qed
  next
    assume "alloc_page s = (p, s')" "p \<noteq> 0"
    from inv this(1) show "pa_good s' \<and> page_aligned p \<and> unat p div 4096 \<notin> allocated s \<and>
        allocated s' = insert (unat p div 4096) (allocated s)"
    proof (cases rule: alloc_page_cases)
      case (some f)
      then show ?thesis
        using zero by (simp add: unat_page_address pa_good_def page_aligned_mult_4096)
    qed (use \<open>p \<noteq> 0\<close> in simp)
  next
    assume "page_aligned p" "p \<noteq> 0"
    have "unat p \<noteq> 0" using \<open>p \<noteq> 0\<close> by (simp add: unat_eq_0)
    then have "unat p div 4096 \<noteq> 0" using \<open>page_aligned p\<close> by (auto simp: page_aligned_def)
    moreover have "unat p div 4096 < 18446744073709551615"
      using u64_bound [of p] by simp
    then have "allocated (free_page p s) = allocated s - {unat p div 4096..<Suc (unat p div 4096)}"
      using allocated_free_pages [OF inv, of p 1] by (simp add: free_page_def unat_div)
    ultimately show "pa_good (free_page p s) \<and> allocated (free_page p s) = allocated s - {unat p div 4096}"
      using zero free_pages_inv [OF inv] by (simp add: pa_good_def free_page_def)
  }
qed

section \<open>Properties\<close>

text \<open>
  C1: \<open>alloc_pages\<close> is first fit over the bitmap. With no run of free pages long enough, or for
  a request of zero pages, it returns 0 and changes nothing. Otherwise it returns the address of
  the lowest run, takes exactly those pages, keeps the counter equal to the number of pages in
  use, and the number of free pages drops by the length of the request.
\<close>

theorem alloc_pages_first_fit:
  assumes "pa_inv s" and "alloc_pages cnt s = (p, s')"
  shows "if cnt = 0 \<or> (\<forall>f. \<not> free_run s f (unat cnt)) then p = 0 \<and> s' = s
    else \<exists>f. p = of_nat f * page_size \<and> free_run s f (unat cnt) \<and>
      (\<forall>a < f. \<not> free_run s a (unat cnt)) \<and> pa_inv s' \<and>
      allocated s' = allocated s \<union> {f..<f + unat cnt} \<and>
      free_pages_count s' = free_pages_count s - cnt"
proof (cases "cnt = 0 \<or> (\<forall>f. \<not> free_run s f (unat cnt))")
  case True
  with assms(2) show ?thesis by (simp add: alloc_pages_fail)
next
  case False
  then obtain g where "cnt \<noteq> 0" "free_run s g (unat cnt)" by auto
  from alloc_pages_success [OF assms(1) this] assms(2) obtain f where
    f: "p = of_nat f * 4096" "free_run s f (unat cnt)" "\<And>a. a < f \<Longrightarrow> \<not> free_run s a (unat cnt)"
      "pa_inv s'" "allocated s' = allocated s \<union> {f..<f + unat cnt}"
    by (metis prod.inject)
  have "card (allocated s') = card (allocated s) + unat cnt"
    using f(2) unfolding f(5) by (subst card_Un_disjoint) (auto simp: free_run_def)
  then have "unat (used_pages s') = unat (used_pages s) + unat cnt"
    using assms(1) f(4) by (simp add: pa_inv_def)
  then have "used_pages s' = used_pages s + cnt"
    by (metis u64_bound unat_u64_add u64_eqI)
  then have "free_pages_count s' = free_pages_count s - cnt"
    by (simp add: free_pages_count_def)
  with False f show ?thesis by auto
qed

text \<open>
  C2: giving back what \<open>alloc_pages\<close> returned restores the allocator exactly: the bitmap and
  the counter are those from before the allocation.
\<close>

theorem alloc_free_round_trip:
  assumes "pa_good s" and "alloc_pages cnt s = (p, s')" and "p \<noteq> 0"
  shows "free_pages p cnt s' = s"
proof -
  have inv: "pa_inv s" using assms(1) by (simp add: pa_good_def)
  have "\<not> (cnt = 0 \<or> (\<forall>f. \<not> free_run s f (unat cnt)))"
    using assms(2,3) alloc_pages_fail by fastforce
  then obtain g where "cnt \<noteq> 0" "free_run s g (unat cnt)" by auto
  from alloc_pages_success [OF inv this] assms(2) obtain f where
    f: "p = of_nat f * 4096" "free_run s f (unat cnt)"
      "pa_inv s'" "allocated s' = allocated s \<union> {f..<f + unat cnt}"
    by (metis prod.inject)
  have fm: "f + unat cnt \<le> managed_pages"
    using free_run_bound [OF f(2)] \<open>cnt \<noteq> 0\<close> by (simp add: unat_gt_0)
  moreover have "0 < unat cnt" using \<open>cnt \<noteq> 0\<close> by (simp add: unat_gt_0)
  ultimately have lt: "f < managed_pages" by linarith
  have pf: "unat (p div 4096) = f"
    using lt by (simp add: f(1) unat_div unat_page_address)
  have "allocated (free_pages p cnt s') = allocated s' - {f..<f + unat cnt}"
    using allocated_free_pages [OF f(3), of p cnt] fm by (simp add: pf managed_pages_val)
  also have "\<dots> = allocated s" using f(2,4) by (auto simp: free_run_def)
  finally show ?thesis
    using f(3) inv by (intro pa_state_eqI inv_intros)
qed


section \<open>Witnesses\<close>

definition boot_example :: boot_memory where
  "boot_example = \<lparr>
     info_at = (\<lambda>_. \<lparr>mb_flags = 0x4C, mb_mem_lower = 639, mb_mem_upper = 64512, mb_boot_device = 0,
       mb_cmdline = 0x9000, mb_mods_count = 1, mb_mods_addr = 0x9400, mb_syms = [0, 0, 0, 0],
       mb_mmap_length = 24, mb_mmap_addr = 0x9800\<rparr>),
     module_at = (\<lambda>_. \<lparr>mod_start = 0x400000, mod_end = 0x480000, mod_string = 0x9600, mod_reserved = 0\<rparr>),
     mmap_at = (\<lambda>_. \<lparr>mm_size = 20, mm_addr = 0x100000, mm_len = 0x3F00000, mm_type = 1\<rparr>),
     bytes_at = (\<lambda>_. 0), kernel_end = 0x200000\<rparr>"

definition all_in_use :: page_alloc where
  "all_in_use = \<lparr>bitmap = replicate (managed_pages div 8) 0xFF, used_pages = of_nat managed_pages\<rparr>"

text \<open>Pages two and three are free.\<close>

definition two_free :: page_alloc where
  "two_free = free_pages 0x2000 2 all_in_use"

lemma two_free_facts: "pa_good two_free" "allocated two_free = {..<managed_pages} - {2..<4}"
proof -
  have inv: "pa_inv all_in_use" and all: "allocated all_in_use = {..<managed_pages}"
    unfolding all_in_use_def by (rule all_used)+
  have "unat (0x2000 div 4096 :: u64) = 2" by (simp add: unat_div)
  then show a: "allocated two_free = {..<managed_pages} - {2..<4}"
    using allocated_free_pages [OF inv, of "0x2000" 2] by (simp add: two_free_def all)
  show "pa_good two_free"
    using free_pages_inv [OF inv] a by (simp add: pa_good_def two_free_def managed_pages_val)
qed

lemma two_free_run: "free_run two_free 2 2" "a < 2 \<Longrightarrow> \<not> free_run two_free a 2"
  by (auto simp: free_run_iff two_free_facts managed_pages_val)

lemma two_free_alloc: "\<exists>s'. alloc_pages 2 two_free = (0x2000, s')"
proof -
  have "pa_inv two_free" using two_free_facts(1) by (simp add: pa_good_def)
  moreover have "free_run two_free 2 (unat (2 :: u64))" using two_free_run(1) by simp
  ultimately obtain f s' where "alloc_pages 2 two_free = (of_nat f * 4096, s')"
    "free_run two_free f 2" "\<And>a. a < f \<Longrightarrow> \<not> free_run two_free a 2"
    using alloc_pages_success [of two_free 2 2 thesis] by auto
  moreover have "f = 2"
    using two_free_run calculation(2,3) by (metis linorder_neqE_nat)
  ultimately show ?thesis by simp
qed

theorem alloc_pages_first_fit_witness:
  "pa_inv two_free \<and> (\<exists>s'. alloc_pages 2 two_free = (0x2000, s') \<and> pa_inv s' \<and>
     allocated s' = {..<managed_pages})"
proof -
  obtain s' where s': "alloc_pages 2 two_free = (0x2000, s')" using two_free_alloc by blast
  have inv: "pa_inv two_free" using two_free_facts(1) by (simp add: pa_good_def)
  have run: "\<not> (\<forall>f. \<not> free_run two_free f (unat (2 :: u64)))"
    using two_free_run(1) by auto
  with alloc_pages_first_fit [OF inv s'] obtain f where f: "free_run two_free f 2"
      "\<And>a. a < f \<Longrightarrow> \<not> free_run two_free a 2" "pa_inv s'"
      "allocated s' = allocated two_free \<union> {f..<f + 2}"
    by (auto split: if_splits)
  then have "f = 2" using two_free_run by (metis linorder_neqE_nat)
  then have "allocated s' = {..<managed_pages}"
    using f(4) by (auto simp: two_free_facts managed_pages_val)
  with inv s' f(3) show ?thesis by blast
qed

theorem alloc_free_round_trip_witness:
  "\<exists>s'. alloc_pages 2 two_free = (0x2000, s') \<and> free_pages 0x2000 2 s' = two_free"
  using two_free_alloc alloc_free_round_trip [OF two_free_facts(1), of 2 "0x2000"] by auto


end
