(* ===== verification/Paging.thy ===== *)
theory Paging
  imports PageAlloc
begin

unbundle bit_operations_syntax

text \<open>
  Address spaces, \<^verbatim>\<open>kernel/mm/paging.cpp\<close> and \<^verbatim>\<open>include/eris/paging.hpp\<close>: four level page
  tables in physical memory, edited through the identity mapped first gigabyte.

  The state holds the page allocator, the 64 bit words of physical memory by their address,
  the control registers the code writes and a trace of the invalidations. A table entry is
  the word at \<open>table + 8 * index\<close>, so a write through one table is seen by every walk that
  reaches the same frame. An address space is the physical address of its root table.

  The loops over a range of pages count with a natural number. It differs from the code's
  64 bit counter only for a length within a page of \<open>2 ^ 64\<close>, for which a walk runs out of
  frames for tables long before the counter could wrap.
\<close>

section \<open>Flags and entries\<close>

type_synonym PageFlags = u64

definition Flag_None :: PageFlags where "Flag_None = 0"
definition Flag_Write :: PageFlags where "Flag_Write = push_bit 0 1"
definition Flag_User :: PageFlags where "Flag_User = push_bit 1 1"
definition Flag_NoExecute :: PageFlags where "Flag_NoExecute = push_bit 2 1"
definition Flag_Global :: PageFlags where "Flag_Global = push_bit 3 1"
definition Flag_NoCache :: PageFlags where "Flag_NoCache = push_bit 4 1"

definition has_flag :: "PageFlags \<Rightarrow> PageFlags \<Rightarrow> bool" where
  "has_flag flags flag \<longleftrightarrow> flags AND flag \<noteq> 0"

definition pte_present :: u64 where "pte_present = push_bit 0 1"
definition pte_write :: u64 where "pte_write = push_bit 1 1"
definition pte_user :: u64 where "pte_user = push_bit 2 1"
definition pte_write_through :: u64 where "pte_write_through = push_bit 3 1"
definition pte_no_cache :: u64 where "pte_no_cache = push_bit 4 1"
definition pte_huge :: u64 where "pte_huge = push_bit 7 1"
definition pte_global :: u64 where "pte_global = push_bit 8 1"
definition pte_no_execute :: u64 where "pte_no_execute = push_bit 63 1"
definition pte_address_mask :: u64 where "pte_address_mask = 0x000FFFFFFFFFF000"

definition huge_page_size :: usize where "huge_page_size = 2 * 1024 * 1024"
definition entries_per_table :: usize where "entries_per_table = 512"
definition direct_limit :: phys_addr where "direct_limit = push_bit 30 1"

definition phys_to_virt :: "phys_addr \<Rightarrow> virt_addr" where "phys_to_virt address = address"
definition virt_to_phys :: "virt_addr \<Rightarrow> phys_addr" where "virt_to_phys address = address"

definition encode :: "PageFlags \<Rightarrow> u64" where
  "encode flags =
     pte_present
     OR (if has_flag flags Flag_Write then pte_write else 0)
     OR (if has_flag flags Flag_User then pte_user else 0)
     OR (if has_flag flags Flag_NoExecute then pte_no_execute else 0)
     OR (if has_flag flags Flag_Global then pte_global else 0)
     OR (if has_flag flags Flag_NoCache then pte_no_cache OR pte_write_through else 0)"

section \<open>The machine\<close>

datatype mmu_event = Invlpg virt_addr | TlbShootdownIpi | LoadCr3 phys_addr

record mmu =
  frames :: page_alloc
  qmem :: "u64 \<Rightarrow> u64"
  efer :: u64
  cr0 :: u64
  cr3 :: phys_addr
  mmu_trace :: "mmu_event list"

definition table_at :: "phys_addr \<Rightarrow> u64" where
  "table_at frame = phys_to_virt (frame AND pte_address_mask)"

definition slot :: "u64 \<Rightarrow> u64 \<Rightarrow> u64" where
  "slot table i = table + 8 * i"

definition store :: "u64 \<Rightarrow> u64 \<Rightarrow> mmu \<Rightarrow> mmu" where
  "store a v s = s\<lparr>qmem := (qmem s)(a := v)\<rparr>"

definition emit :: "mmu_event \<Rightarrow> mmu \<Rightarrow> mmu" where
  "emit e s = s\<lparr>mmu_trace := mmu_trace s @ [e]\<rparr>"

definition invalidate :: "virt_addr \<Rightarrow> mmu \<Rightarrow> mmu" where
  "invalidate address s = emit (Invlpg address) s"

text \<open>The words of a table written one after the other.\<close>

definition fill_table :: "u64 \<Rightarrow> (u64 \<Rightarrow> u64) \<Rightarrow> mmu \<Rightarrow> mmu" where
  "fill_table table f s = fold (\<lambda>i. store (slot table (of_nat i)) (f (of_nat i))) [0..<512] s"

definition allocate_table :: "mmu \<Rightarrow> u64 option \<times> mmu" where
  "allocate_table s =
     (let (frame, fr) = alloc_page (frames s); s1 = s\<lparr>frames := fr\<rparr>
      in if frame = 0 then (None, s1)
         else let table = table_at frame
              in (Some table, fill_table table (\<lambda>_. 0) s1))"

definition index_of :: "virt_addr \<Rightarrow> nat \<Rightarrow> u64" where
  "index_of address level = drop_bit (12 + 9 * level) address AND 0x1FF"

section \<open>Walking and editing the tables\<close>

definition split_huge_page :: "u64 \<Rightarrow> virt_addr \<Rightarrow> mmu \<Rightarrow> bool \<times> mmu" where
  "split_huge_page directory_entry address s =
     (let entry = qmem s directory_entry;
          base = entry AND pte_address_mask;
          flags = entry AND NOT (pte_address_mask OR pte_huge)
      in case allocate_table s of
           (None, s1) \<Rightarrow> (False, s1)
         | (Some table, s1) \<Rightarrow>
             let s2 = fill_table table (\<lambda>i. (base + i * page_size) OR flags) s1;
                 s3 = store directory_entry (virt_to_phys table OR pte_present OR pte_write) s2
             in (True, invalidate address s3))"

text \<open>The first part of the loop body: a missing table is created on demand.\<close>

definition ensure_table :: "u64 \<Rightarrow> bool \<Rightarrow> mmu \<Rightarrow> bool \<times> mmu" where
  "ensure_table e create s =
     (if qmem s e AND pte_present = 0
      then if \<not> create then (False, s)
           else case allocate_table s of
                  (None, s1) \<Rightarrow> (False, s1)
                | (Some nxt, s1) \<Rightarrow> (True, store e (virt_to_phys nxt OR pte_present OR pte_write) s1)
      else (True, s))"

text \<open>The rest of it: the user bit along the path, and a huge page in the way.\<close>

definition descend :: "u64 \<Rightarrow> nat \<Rightarrow> virt_addr \<Rightarrow> bool \<Rightarrow> bool \<Rightarrow> mmu \<Rightarrow> bool \<times> mmu" where
  "descend e level address create user s =
     (let s1 = (if user then store e (qmem s e OR pte_user) s else s)
      in if level = 1 \<and> qmem s1 e AND pte_huge \<noteq> 0
         then if \<not> create then (False, s1) else split_huge_page e address s1
         else (True, s1))"

fun table_for_loop :: "nat \<Rightarrow> virt_addr \<Rightarrow> bool \<Rightarrow> bool \<Rightarrow> u64 \<Rightarrow> mmu \<Rightarrow> u64 option \<times> mmu" where
  "table_for_loop 0 address create user table s = (Some table, s)"
| "table_for_loop (Suc n) address create user table s =
     (let e = slot table (index_of address (Suc n))
      in case ensure_table e create s of
           (False, s1) \<Rightarrow> (None, s1)
         | (True, s1) \<Rightarrow>
             (case descend e (Suc n) address create user s1 of
                (False, s2) \<Rightarrow> (None, s2)
              | (True, s2) \<Rightarrow> table_for_loop n address create user (table_at (qmem s2 e)) s2))"

definition table_for :: "phys_addr \<Rightarrow> virt_addr \<Rightarrow> bool \<Rightarrow> bool \<Rightarrow> mmu \<Rightarrow> u64 option \<times> mmu" where
  "table_for root address create user s =
     table_for_loop 3 address create user (table_at root) s"

text \<open>
  The loop \<^verbatim>\<open>for (usize offset = 0; offset < length; offset += page_size)\<close> with a body that may
  fail, which ends it.
\<close>

function page_loop :: "(usize \<Rightarrow> 's \<Rightarrow> bool \<times> 's) \<Rightarrow> nat \<Rightarrow> nat \<Rightarrow> 's \<Rightarrow> bool \<times> 's" where
  "page_loop body len offset s =
     (if offset < len
      then case body (of_nat offset) s of
             (False, s1) \<Rightarrow> (False, s1)
           | (True, s1) \<Rightarrow> page_loop body len (offset + 4096) s1
      else (True, s))"
  by pat_completeness auto
termination
  by (relation "measure (\<lambda>(body, len, offset, s). len - offset)") auto

declare page_loop.simps [simp del]

definition map_page :: "phys_addr \<Rightarrow> virt_addr \<Rightarrow> phys_addr \<Rightarrow> PageFlags \<Rightarrow> mmu \<Rightarrow> bool \<times> mmu" where
  "map_page root address frame flags s =
     (case table_for root address True (has_flag flags Flag_User) s of
        (None, s1) \<Rightarrow> (False, s1)
      | (Some table, s1) \<Rightarrow>
          (True, invalidate address
             (store (slot table (index_of address 0))
                ((frame AND pte_address_mask) OR encode flags) s1)))"

definition as_map :: "phys_addr \<Rightarrow> virt_addr \<Rightarrow> phys_addr \<Rightarrow> usize \<Rightarrow> PageFlags \<Rightarrow> mmu \<Rightarrow> bool \<times> mmu" where
  "as_map root address frame len flags s =
     page_loop (\<lambda>offset. map_page root (address + offset) (frame + offset) flags) (unat len) 0 s"

definition unmap_page :: "phys_addr \<Rightarrow> virt_addr \<Rightarrow> mmu \<Rightarrow> bool \<times> mmu" where
  "unmap_page root address s =
     (case table_for root address True False s of
        (None, s1) \<Rightarrow> (False, s1)
      | (Some table, s1) \<Rightarrow>
          (True, invalidate address (store (slot table (index_of address 0)) 0 s1)))"

text \<open>\<open>cpus\<close> is the number of processors online.\<close>

definition as_unmap :: "nat \<Rightarrow> phys_addr \<Rightarrow> virt_addr \<Rightarrow> usize \<Rightarrow> mmu \<Rightarrow> bool \<times> mmu" where
  "as_unmap cpus root address len s =
     (case page_loop (\<lambda>offset. unmap_page root (address + offset)) (unat len) 0 s of
        (False, s1) \<Rightarrow> (False, s1)
      | (True, s1) \<Rightarrow> (True, if cpus > 1 then emit TlbShootdownIpi s1 else s1))"

definition protect_page :: "phys_addr \<Rightarrow> virt_addr \<Rightarrow> PageFlags \<Rightarrow> mmu \<Rightarrow> bool \<times> mmu" where
  "protect_page root address flags s =
     (case table_for root address True (has_flag flags Flag_User) s of
        (None, s1) \<Rightarrow> (False, s1)
      | (Some table, s1) \<Rightarrow>
          (let e = slot table (index_of address 0); entry = qmem s1 e
           in if entry AND pte_present = 0 then (False, s1)
              else (True, invalidate address
                     (store e ((entry AND pte_address_mask) OR encode flags) s1))))"

definition as_protect :: "phys_addr \<Rightarrow> virt_addr \<Rightarrow> usize \<Rightarrow> PageFlags \<Rightarrow> mmu \<Rightarrow> bool \<times> mmu" where
  "as_protect root address len flags s =
     page_loop (\<lambda>offset. protect_page root (address + offset) flags) (unat len) 0 s"

fun translate_loop :: "nat \<Rightarrow> virt_addr \<Rightarrow> u64 \<Rightarrow> (u64 \<Rightarrow> u64) \<Rightarrow> phys_addr" where
  "translate_loop 0 address table m =
     (let entry = m (slot table (index_of address 0))
      in if entry AND pte_present = 0 then 0
         else (entry AND pte_address_mask) + (address AND (page_size - 1)))"
| "translate_loop (Suc n) address table m =
     (let entry = m (slot table (index_of address (Suc n)))
      in if entry AND pte_present = 0 then 0
         else if entry AND pte_huge \<noteq> 0
              then (entry AND pte_address_mask) + (address AND (huge_page_size - 1))
              else translate_loop n address (table_at entry) m)"

definition as_translate :: "phys_addr \<Rightarrow> virt_addr \<Rightarrow> mmu \<Rightarrow> phys_addr" where
  "as_translate root address s = translate_loop 3 address (table_at root) (qmem s)"

definition as_mapped :: "phys_addr \<Rightarrow> virt_addr \<Rightarrow> mmu \<Rightarrow> bool" where
  "as_mapped root address s \<longleftrightarrow> as_translate root address s \<noteq> 0 \<or> address = 0"

definition as_activate :: "phys_addr \<Rightarrow> mmu \<Rightarrow> mmu" where
  "as_activate root s = emit (LoadCr3 root) (s\<lparr>cr3 := root\<rparr>)"

definition tlb_flush_local :: "mmu \<Rightarrow> mmu" where
  "tlb_flush_local s = emit (LoadCr3 (cr3 s)) s"

definition tlb_shootdown :: "nat \<Rightarrow> mmu \<Rightarrow> mmu" where
  "tlb_shootdown cpus s =
     (let s1 = tlb_flush_local s in if cpus > 1 then emit TlbShootdownIpi s1 else s1)"

definition enable_no_execute :: "mmu \<Rightarrow> mmu" where
  "enable_no_execute s = s\<lparr>efer := efer s OR push_bit 11 1\<rparr>"

definition enable_write_protect :: "mmu \<Rightarrow> mmu" where
  "enable_write_protect s = s\<lparr>cr0 := cr0 s OR push_bit 16 1\<rparr>"

end
