(* ===== verification/Paging_Tree.thy ===== *)
theory Paging_Tree
  imports Paging
begin

unbundle bit_operations_syntax

text \<open>
  The page tables as a tree. A walk follows a path of indices from the root; the tables are
  well formed if no frame is reached twice and every frame reached is in use. The walk of the
  code, with the tables it creates and the huge pages it splits, keeps them well formed and
  keeps the meaning of every address.
\<close>

named_theorems pte_simps "bits of page table entries"

lemma and_bit_eq_0: "(x :: 'a::len word) AND push_bit n 1 = 0 \<longleftrightarrow> \<not> bit x n"
  using bit_iff_and_push_bit_not_eq_0 [of x n] by blast

lemma bit_push_bit_one: "bit (push_bit n (1 :: 'a::len word)) k \<longleftrightarrow> k = n \<and> k < LENGTH('a)"
  by (auto simp: bit_simps)

lemma pte_present_iff [pte_simps]: "e AND pte_present = 0 \<longleftrightarrow> \<not> bit e 0"
  unfolding pte_present_def by (rule and_bit_eq_0)
lemma pte_user_iff [pte_simps]: "e AND pte_user = 0 \<longleftrightarrow> \<not> bit e 2"
  unfolding pte_user_def by (rule and_bit_eq_0)
lemma pte_huge_iff [pte_simps]: "e AND pte_huge = 0 \<longleftrightarrow> \<not> bit e 7"
  unfolding pte_huge_def by (rule and_bit_eq_0)

lemma bit_address_mask [pte_simps]: "bit pte_address_mask n \<longleftrightarrow> 12 \<le> n \<and> n < 52"
proof -
  have eq: "pte_address_mask = push_bit 12 (mask 40)"
    by (simp add: pte_address_mask_def mask_eq_exp_minus_1 push_bit_eq_mult)
  show ?thesis unfolding eq by (auto simp: bit_push_bit_iff bit_mask_iff)
qed

lemma bit_pte_flags [pte_simps]:
  "bit pte_present n \<longleftrightarrow> n = 0" "bit pte_write n \<longleftrightarrow> n = 1" "bit pte_user n \<longleftrightarrow> n = 2"
  "bit pte_write_through n \<longleftrightarrow> n = 3" "bit pte_no_cache n \<longleftrightarrow> n = 4" "bit pte_huge n \<longleftrightarrow> n = 7"
  "bit pte_global n \<longleftrightarrow> n = 8" "bit pte_no_execute n \<longleftrightarrow> n = 63"
  unfolding pte_present_def pte_write_def pte_user_def pte_write_through_def pte_no_cache_def
    pte_huge_def pte_global_def pte_no_execute_def
  by (simp_all only: bit_push_bit_one) auto

lemma page_aligned_bit: "page_aligned a \<longleftrightarrow> (\<forall>n < 12. \<not> bit a n)"
proof -
  have "page_aligned a \<longleftrightarrow> take_bit 12 a = 0"
    by (simp add: page_aligned_def dvd_eq_mod_eq_0 take_bit_eq_mod word_unat_eq_iff unat_mod_distrib)
  also have "\<dots> \<longleftrightarrow> (\<forall>n < 12. \<not> bit a n)"
    by (auto simp: bit_eq_iff bit_take_bit_iff)
  finally show ?thesis .
qed

lemma high_bits_zero:
  assumes "unat (a :: u64) < 2 ^ k" "k \<le> n"
  shows "\<not> bit a n"
proof -
  have "unat a < 2 ^ n"
    using assms by (meson less_le_trans one_le_numeral power_increasing)
  then have "\<not> bit (unat a) n" by (simp add: bit_iff_odd)
  then show ?thesis by (simp add: bit_unsigned_iff)
qed

lemma mask_frame: "page_aligned a \<Longrightarrow> unat a < 2 ^ 52 \<Longrightarrow> a AND pte_address_mask = a"
  using high_bits_zero [of a 52]
  by (intro bit_word_eqI) (auto simp: bit_and_iff bit_address_mask page_aligned_bit not_less, meson not_le)

lemma index_of_less [simp]: "index_of a l < 512"
proof -
  have "index_of a l = drop_bit (12 + 9 * l) a mod 512"
    using take_bit_eq_mask [of 9 "drop_bit (12 + 9 * l) a"]
    by (simp add: index_of_def take_bit_eq_mod mask_eq_exp_minus_1)
  then show ?thesis by (simp add: word_less_nat_alt unat_mod_distrib)
qed

lemma table_at_aligned [simp]: "page_aligned (table_at x)"
  by (auto simp: page_aligned_bit table_at_def phys_to_virt_def bit_and_iff bit_address_mask)


lemma unat_slot:
  assumes "page_aligned t" "i < 512"
  shows "unat (slot t i) = unat t + 8 * unat i"
proof -
  have i: "unat i < 512" using assms(2) by (simp add: word_less_nat_alt)
  have "unat t \<le> 18446744073709551616 - 4096"
    using assms(1) u64_bound [of t] by (auto simp: page_aligned_def)
  moreover have "unat (8 * i) = 8 * unat i" using i by (simp add: unat_u64_mult)
  ultimately show ?thesis using i by (simp add: slot_def unat_u64_add)
qed

lemma slot_eq_iff:
  assumes "page_aligned t" "page_aligned t'" "i < 512" "i' < 512"
  shows "slot t i = slot t' i' \<longleftrightarrow> t = t' \<and> i = i'"
proof
  assume eq: "slot t i = slot t' i'"
  have i: "unat i < 512" "unat i' < 512" using assms(3,4) by (simp_all add: word_less_nat_alt)
  have eq: "unat t + 8 * unat i = unat t' + 8 * unat i'"
    using eq assms by (metis unat_slot)
  obtain k k' where k: "unat t = 4096 * k" "unat t' = 4096 * k'"
    using assms(1,2) unfolding page_aligned_def dvd_def by blast
  have "(4096 * k + 8 * unat i) div 4096 = k" "(4096 * k' + 8 * unat i') div 4096 = k'"
    using i by simp_all
  then have "k = k'" using eq unfolding k by simp
  then show "t = t' \<and> i = i'" using eq k by (simp add: word_unat_eq_iff)
qed simp

section \<open>The tree of tables\<close>

text \<open>
  The path of an address is the list of its three upper indices. \<open>walk\<close> follows a path from a
  table of level \<open>l\<close>; a huge page on level 1 ends it like a missing entry.
\<close>

definition ent :: "(u64 \<Rightarrow> u64) \<Rightarrow> u64 \<Rightarrow> u64 \<Rightarrow> u64" where
  "ent m t i = m (slot t i)"

definition next_table :: "(u64 \<Rightarrow> u64) \<Rightarrow> nat \<Rightarrow> u64 \<Rightarrow> u64 \<Rightarrow> u64 option" where
  "next_table m l t i =
     (let e = ent m t i
      in if bit e 0 \<and> \<not> (l = 1 \<and> bit e 7) then Some (e AND pte_address_mask) else None)"

fun walk :: "(u64 \<Rightarrow> u64) \<Rightarrow> nat \<Rightarrow> u64 \<Rightarrow> u64 list \<Rightarrow> u64 option" where
  "walk m l t [] = Some t"
| "walk m l t (i # is) = Option.bind (next_table m l t i) (\<lambda>t'. walk m (l - 1) t' is)"

definition valid_path :: "u64 list \<Rightarrow> bool" where
  "valid_path p \<longleftrightarrow> length p \<le> 3 \<and> (\<forall>i \<in> set p. i < 512)"

text \<open>
  Well-formed tables below \<open>r\<close>: every table lies in a frame the allocator counts as used, no
  frame is reached on two paths, only level 1 has huge pages, and their base is aligned.
\<close>

definition wf_tables :: "(u64 \<Rightarrow> u64) \<Rightarrow> u64 \<Rightarrow> nat set \<Rightarrow> bool" where
  "wf_tables m r used \<longleftrightarrow> page_aligned r \<and>
     (\<forall>p t. valid_path p \<longrightarrow> walk m 3 r p = Some t \<longrightarrow> unat t div 4096 \<in> used) \<and>
     (\<forall>p q t. valid_path p \<longrightarrow> valid_path q \<longrightarrow> walk m 3 r p = Some t \<longrightarrow> walk m 3 r q = Some t \<longrightarrow> p = q) \<and>
     (\<forall>p t i. valid_path p \<longrightarrow> length p < 2 \<longrightarrow> walk m 3 r p = Some t \<longrightarrow> i < 512 \<longrightarrow>
        bit (ent m t i) 0 \<longrightarrow> \<not> bit (ent m t i) 7) \<and>
     (\<forall>p t i. valid_path p \<longrightarrow> length p = 2 \<longrightarrow> walk m 3 r p = Some t \<longrightarrow> i < 512 \<longrightarrow>
        bit (ent m t i) 0 \<longrightarrow> bit (ent m t i) 7 \<longrightarrow>
        2097152 dvd unat (ent m t i AND pte_address_mask))"

lemma walk_append:
  "walk m l t (p @ q) = Option.bind (walk m l t p) (\<lambda>t'. walk m (l - length p) t' q)"
  by (induction p arbitrary: l t) (auto simp: Option.bind_assoc)

lemma walk_snoc:
  "walk m 3 r (p @ [i]) = Option.bind (walk m 3 r p) (\<lambda>t. next_table m (3 - length p) t i)"
  by (simp add: walk_append)

lemma mask_aligned [simp]: "page_aligned (e AND pte_address_mask)"
  by (auto simp: page_aligned_bit bit_and_iff bit_address_mask)

lemma walk_aligned: "page_aligned t \<Longrightarrow> walk m l t p = Some t' \<Longrightarrow> page_aligned t'"
proof (induction p arbitrary: l t)
  case (Cons i p)
  then obtain t1 where "next_table m l t i = Some t1" and rest: "walk m (l - 1) t1 p = Some t'"
    by (auto simp: bind_eq_Some_conv)
  then have "page_aligned t1" by (auto simp: next_table_def Let_def split: if_splits)
  then show ?case using rest by (rule Cons.IH)
qed simp

lemma valid_path_Nil [simp]: "valid_path []"
  by (simp add: valid_path_def)

lemma valid_path_append: "valid_path (p @ q) \<Longrightarrow> valid_path p"
  by (auto simp: valid_path_def)

lemma valid_path_snoc [simp]: "valid_path (p @ [i]) \<longleftrightarrow> valid_path p \<and> length p < 3 \<and> i < 512"
  by (auto simp: valid_path_def)

lemma wf_root: "wf_tables m r used \<Longrightarrow> page_aligned r"
  by (simp add: wf_tables_def)

lemma wf_used: "wf_tables m r used \<Longrightarrow> valid_path p \<Longrightarrow> walk m 3 r p = Some t \<Longrightarrow> unat t div 4096 \<in> used"
  by (simp add: wf_tables_def)

lemma wf_inj:
  "wf_tables m r used \<Longrightarrow> valid_path p \<Longrightarrow> valid_path q \<Longrightarrow> walk m 3 r p = Some t \<Longrightarrow>
   walk m 3 r q = Some t \<Longrightarrow> p = q"
  unfolding wf_tables_def by blast

lemma wf_aligned: "wf_tables m r used \<Longrightarrow> walk m 3 r p = Some t \<Longrightarrow> page_aligned t"
  using walk_aligned wf_root by blast

lemma wf_not_huge:
  "wf_tables m r used \<Longrightarrow> valid_path p \<Longrightarrow> length p < 2 \<Longrightarrow> walk m 3 r p = Some t \<Longrightarrow> i < 512 \<Longrightarrow>
   bit (ent m t i) 0 \<Longrightarrow> \<not> bit (ent m t i) 7"
  unfolding wf_tables_def by blast

lemma wf_huge:
  "wf_tables m r used \<Longrightarrow> valid_path p \<Longrightarrow> length p = 2 \<Longrightarrow> walk m 3 r p = Some t \<Longrightarrow> i < 512 \<Longrightarrow>
   bit (ent m t i) 0 \<Longrightarrow> bit (ent m t i) 7 \<Longrightarrow> 2097152 dvd unat (ent m t i AND pte_address_mask)"
  unfolding wf_tables_def by blast

text \<open>Translation in terms of the walk.\<close>

definition dir_path :: "virt_addr \<Rightarrow> u64 list" where
  "dir_path v = [index_of v 3, index_of v 2]"

definition path_of :: "virt_addr \<Rightarrow> u64 list" where
  "path_of v = dir_path v @ [index_of v 1]"

definition leaf_address :: "u64 \<Rightarrow> u64 \<Rightarrow> u64 \<Rightarrow> u64" where
  "leaf_address e v low = (if bit e 0 then (e AND pte_address_mask) + (v AND low) else 0)"

text \<open>
  What an address means is a function of the entry that ends its walk, in a page table or, for
  a huge page, in a directory. \<open>resolve\<close> is the physical address; \<open>rights\<close> are the bits of the
  entry apart from the address, the page size and the user bit.
\<close>

definition view ::
  "(u64 \<Rightarrow> virt_addr \<Rightarrow> u64) \<Rightarrow> (u64 \<Rightarrow> virt_addr \<Rightarrow> u64) \<Rightarrow> (u64 \<Rightarrow> u64) \<Rightarrow> u64 \<Rightarrow> virt_addr \<Rightarrow> u64" where
  "view g h m r v =
     (case walk m 3 r (path_of v) of
        Some t \<Rightarrow> g (ent m t (index_of v 0)) v
      | None \<Rightarrow>
          (case walk m 3 r (dir_path v) of
             None \<Rightarrow> 0
           | Some t \<Rightarrow> h (ent m t (index_of v 1)) v))"

definition small_page :: "u64 \<Rightarrow> virt_addr \<Rightarrow> u64" where
  "small_page e v = leaf_address e v 4095"

definition huge_page :: "u64 \<Rightarrow> virt_addr \<Rightarrow> u64" where
  "huge_page e v = leaf_address e v 2097151"

definition rights_of :: "u64 \<Rightarrow> virt_addr \<Rightarrow> u64" where
  "rights_of e v = (if bit e 0 then e AND NOT (pte_address_mask OR pte_huge OR pte_user) else 0)"

definition resolve :: "(u64 \<Rightarrow> u64) \<Rightarrow> u64 \<Rightarrow> virt_addr \<Rightarrow> phys_addr" where
  "resolve = view small_page huge_page"

definition rights :: "(u64 \<Rightarrow> u64) \<Rightarrow> u64 \<Rightarrow> virt_addr \<Rightarrow> u64" where
  "rights = view rights_of rights_of"

lemma view_zero [simp]: "small_page 0 v = 0" "huge_page 0 v = 0" "rights_of 0 v = 0"
  by (simp_all add: small_page_def huge_page_def leaf_address_def rights_of_def)

lemma valid_path_of [simp]: "valid_path (path_of v)" "length (path_of v) = 3"
  by (simp_all add: valid_path_def path_of_def dir_path_def)

lemma valid_dir_path [simp]: "valid_path (dir_path v)" "length (dir_path v) = 2"
  by (simp_all add: valid_path_def dir_path_def)

lemma page_aligned_table_at: "unat t < 2 ^ 52 \<Longrightarrow> page_aligned t \<Longrightarrow> table_at t = t"
  by (simp add: table_at_def phys_to_virt_def mask_frame)

lemma table_at_mask: "table_at e = e AND pte_address_mask"
  by (simp add: table_at_def phys_to_virt_def)

lemma translate_level:
  "translate_loop 0 v t m = leaf_address (ent m t (index_of v 0)) v 4095"
  "translate_loop (Suc n) v t m =
     (let e = ent m t (index_of v (Suc n))
      in if \<not> bit e 0 then 0
         else if bit e 7 then leaf_address e v 2097151
         else translate_loop n v (e AND pte_address_mask) m)"
  by (simp_all add: Let_def ent_def table_at_mask pte_simps leaf_address_def huge_page_size_def)

lemma translate_levels:
  "translate_loop 3 v r m =
     (let e3 = ent m r (index_of v 3); e2 = ent m (e3 AND pte_address_mask) (index_of v 2);
          e1 = ent m (e2 AND pte_address_mask) (index_of v 1);
          e0 = ent m (e1 AND pte_address_mask) (index_of v 0)
      in if \<not> bit e3 0 then 0
         else if bit e3 7 then leaf_address e3 v 2097151
         else if \<not> bit e2 0 then 0
         else if bit e2 7 then leaf_address e2 v 2097151
         else if \<not> bit e1 0 then 0
         else if bit e1 7 then leaf_address e1 v 2097151
         else leaf_address e0 v 4095)"
  unfolding numeral_3_eq_3 numeral_2_eq_2 One_nat_def translate_level Let_def ..

lemma walk_levels:
  "walk m 3 r [i] = next_table m 3 r i"
  "walk m 3 r [i, j] = Option.bind (next_table m 3 r i) (\<lambda>t. next_table m 2 t j)"
  by (simp_all add: Option.bind_assoc)

lemma translate_resolve:
  assumes wf: "wf_tables m r used"
  shows "translate_loop 3 v r m = resolve m r v"
proof -
  define e3 where "e3 = ent m r (index_of v 3)"
  define t2 where "t2 = e3 AND pte_address_mask"
  define e2 where "e2 = ent m t2 (index_of v 2)"
  define t1 where "t1 = e2 AND pte_address_mask"
  define e1 where "e1 = ent m t1 (index_of v 1)"
  have h3: "bit e3 0 \<Longrightarrow> \<not> bit e3 7"
    using wf_not_huge [OF wf, of "[]" r "index_of v 3"] by (simp add: e3_def)
  have n3: "next_table m 3 r (index_of v 3) = (if bit e3 0 then Some t2 else None)"
    using h3 by (simp add: next_table_def e3_def [symmetric] Let_def t2_def)
  have h2: "bit e3 0 \<Longrightarrow> bit e2 0 \<Longrightarrow> \<not> bit e2 7"
    using wf_not_huge [OF wf, of "[index_of v 3]" t2 "index_of v 2"] n3
    by (simp add: valid_path_def walk_levels e2_def)
  have n2: "next_table m 2 t2 (index_of v 2) = (if bit e2 0 then Some t1 else None)"
    by (simp add: next_table_def e2_def [symmetric] Let_def t1_def)
  have n1: "next_table m 1 t1 (index_of v 1)
      = (if bit e1 0 \<and> \<not> bit e1 7 then Some (e1 AND pte_address_mask) else None)"
    unfolding next_table_def Let_def e1_def by simp
  have w2: "walk m 3 r (dir_path v) = (if bit e3 0 \<and> bit e2 0 then Some t1 else None)"
    by (simp add: dir_path_def walk_levels n3 n2)
  have w1: "walk m 3 r (path_of v) =
      (if bit e3 0 \<and> bit e2 0 \<and> bit e1 0 \<and> \<not> bit e1 7 then Some (e1 AND pte_address_mask) else None)"
    using n1 by (simp add: path_of_def walk_snoc w2)
  have "translate_loop 3 v r m =
     (if \<not> bit e3 0 then 0 else if \<not> bit e2 0 then 0 else if \<not> bit e1 0 then 0
      else if bit e1 7 then leaf_address e1 v 2097151
      else leaf_address (ent m (e1 AND pte_address_mask) (index_of v 0)) v 4095)"
    unfolding translate_levels Let_def e3_def [symmetric] t2_def [symmetric]
    unfolding e2_def [symmetric] t1_def [symmetric] unfolding e1_def [symmetric]
    using h3 h2 by auto
  then show ?thesis
    unfolding resolve_def view_def small_page_def huge_page_def w1 w2 by (simp add: leaf_address_def e1_def)
qed

declare walk.simps(2) [simp del]

section \<open>Changes to the tree\<close>

lemma walk_agree:
  assumes "\<And>p t i. valid_path (p @ [i]) \<Longrightarrow> walk m 3 r p = Some t \<Longrightarrow>
    next_table m' (3 - length p) t i = next_table m (3 - length p) t i"
  shows "valid_path p \<Longrightarrow> walk m' 3 r p = walk m 3 r p"
proof (induction p rule: rev_induct)
  case (snoc i p)
  then have "walk m' 3 r p = walk m 3 r p" by simp
  then show ?case
    using assms [OF snoc.prems] by (cases "walk m 3 r p") (simp_all add: walk_snoc)
qed simp

text \<open>A change that no walk can see: the user bit of the entries.\<close>

definition same_shape :: "(u64 \<Rightarrow> u64) \<Rightarrow> (u64 \<Rightarrow> u64) \<Rightarrow> bool" where
  "same_shape m m' \<longleftrightarrow> (\<forall>a n. n \<noteq> 2 \<longrightarrow> (bit (m' a) n \<longleftrightarrow> bit (m a) n))"

lemma same_shape_ent:
  assumes "same_shape m m'"
  shows "bit (ent m' t i) 0 \<longleftrightarrow> bit (ent m t i) 0" "bit (ent m' t i) 7 \<longleftrightarrow> bit (ent m t i) 7"
    "ent m' t i AND pte_address_mask = ent m t i AND pte_address_mask"
    "small_page (ent m' t i) v = small_page (ent m t i) v" "huge_page (ent m' t i) v = huge_page (ent m t i) v"
    "rights_of (ent m' t i) v = rights_of (ent m t i) v"
proof -
  have b: "n \<noteq> 2 \<Longrightarrow> bit (ent m' t i) n \<longleftrightarrow> bit (ent m t i) n" for n
    using assms by (simp add: same_shape_def ent_def)
  show z: "bit (ent m' t i) 0 \<longleftrightarrow> bit (ent m t i) 0" "bit (ent m' t i) 7 \<longleftrightarrow> bit (ent m t i) 7"
    by (simp_all add: b)
  show a: "ent m' t i AND pte_address_mask = ent m t i AND pte_address_mask"
    by (rule bit_word_eqI) (auto simp: bit_and_iff pte_simps b)
  show "small_page (ent m' t i) v = small_page (ent m t i) v"
    "huge_page (ent m' t i) v = huge_page (ent m t i) v"
    by (simp_all add: small_page_def huge_page_def leaf_address_def z a)
  have "ent m' t i AND NOT (pte_address_mask OR pte_huge OR pte_user)
      = ent m t i AND NOT (pte_address_mask OR pte_huge OR pte_user)"
    by (rule bit_word_eqI) (auto simp: bit_and_iff bit_or_iff bit_not_iff pte_simps b)
  then show "rights_of (ent m' t i) v = rights_of (ent m t i) v" by (simp add: rights_of_def z)
qed

lemma same_shape_walk: "same_shape m m' \<Longrightarrow> walk m' l r p = walk m l r p"
  by (induction p arbitrary: l r) (auto simp: walk.simps next_table_def same_shape_ent Let_def)

lemma same_shape_view:
  assumes "same_shape m m'"
  shows "resolve m' r v = resolve m r v" and "rights m' r v = rights m r v"
  using assms
  by (auto simp: resolve_def rights_def view_def same_shape_walk same_shape_ent split: option.splits)

lemma same_shape_wf: "same_shape m m' \<Longrightarrow> wf_tables m' r used \<longleftrightarrow> wf_tables m r used"
  by (simp add: wf_tables_def same_shape_walk same_shape_ent)

lemma same_shape_user: "same_shape m (m(a := m a OR pte_user))"
  by (auto simp: same_shape_def bit_or_iff pte_simps)

text \<open>A fresh table linked into an empty place, or into the place of a huge page.\<close>

definition links :: "(u64 \<Rightarrow> u64) \<Rightarrow> (u64 \<Rightarrow> u64) \<Rightarrow> u64 \<Rightarrow> nat set \<Rightarrow> u64 list \<Rightarrow> u64 \<Rightarrow> u64 \<Rightarrow> u64 \<Rightarrow> bool" where
  "links m m' r used p t i f \<longleftrightarrow> wf_tables m r used \<and>
     valid_path (p @ [i]) \<and> walk m 3 r p = Some t \<and> next_table m (3 - length p) t i = None \<and>
     page_aligned f \<and> unat f div 4096 \<notin> used \<and>
     bit (ent m' t i) 0 \<and> \<not> bit (ent m' t i) 7 \<and> ent m' t i AND pte_address_mask = f \<and>
     (\<forall>q t' j. valid_path q \<longrightarrow> walk m 3 r q = Some t' \<longrightarrow> j < 512 \<longrightarrow> (t', j) \<noteq> (t, i) \<longrightarrow>
        ent m' t' j = ent m t' j) \<and>
     (length p < 2 \<longrightarrow> (\<forall>j < 512. ent m' f j = 0))"

lemma linksD:
  assumes "links m m' r used p t i f"
  shows "wf_tables m r used" and "valid_path (p @ [i])" and "walk m 3 r p = Some t"
    and "next_table m (3 - length p) t i = None" and "unat f div 4096 \<notin> used"
    and "bit (ent m' t i) 0" and "\<not> bit (ent m' t i) 7" and "ent m' t i AND pte_address_mask = f"
    and "\<And>q t' j. valid_path q \<Longrightarrow> walk m 3 r q = Some t' \<Longrightarrow> j < 512 \<Longrightarrow> (t', j) \<noteq> (t, i) \<Longrightarrow>
      ent m' t' j = ent m t' j"
    and "\<And>j. length p < 2 \<Longrightarrow> j < 512 \<Longrightarrow> ent m' f j = 0"
  using assms unfolding links_def by blast+

lemma walk_linked:
  assumes L: "links m m' r used p t i f"
  shows "valid_path q \<Longrightarrow> walk m' 3 r q = (if q = p @ [i] then Some f else walk m 3 r q)"
proof (induction q rule: rev_induct)
  case (snoc j q)
  note t = linksD(3) [OF L] and empty = linksD(4) [OF L]
  from snoc have vq: "valid_path q" and j: "j < 512" and lq: "length q < 3" by simp_all
  show ?case
  proof (cases "q = p @ [i]")
    case True
    then have "length p < 2" using lq by simp
    then have "ent m' f j = 0" using linksD(10) [OF L] j by simp
    moreover have "walk m' 3 r q = Some f" using snoc.IH vq True by simp
    ultimately have "walk m' 3 r (q @ [j]) = None"
      unfolding walk_snoc [of _ _ q] by (simp add: next_table_def)
    moreover have "walk m 3 r q = None"
      using True t empty by (simp add: walk_snoc)
    then have "walk m 3 r (q @ [j]) = None" unfolding walk_snoc [of _ _ q] by simp
    moreover have "q @ [j] \<noteq> p @ [i]" using True by (metis append1_eq_conv append_self_conv not_Cons_self2)
    ultimately show ?thesis by simp
  next
    case False
    then have w: "walk m' 3 r q = walk m 3 r q" using snoc vq by simp
    show ?thesis
    proof (cases "walk m 3 r q")
      case None
      then show ?thesis using w t by (auto simp: walk_snoc)
    next
      case (Some t')
      show ?thesis
      proof (cases "t' = t \<and> j = i")
        case True
        then have "q = p" using wf_inj [OF linksD(1) [OF L] vq _ Some] t linksD(2) [OF L] by simp
        then show ?thesis
          using True w Some linksD(6-8) [OF L] by (simp add: walk_snoc next_table_def Let_def)
      next
        case other: False
        then have "q @ [j] \<noteq> p @ [i]" using Some t by auto
        moreover have "ent m' t' j = ent m t' j" using linksD(9) [OF L vq Some j] other by auto
        ultimately show ?thesis using w Some by (auto simp: walk_snoc next_table_def)
      qed
    qed
  qed
qed simp

lemma wf_linked:
  assumes L: "links m m' r used p t i f"
  shows "wf_tables m' r (insert (unat f div 4096) used)"
proof -
  note walk_linked = walk_linked [OF L] and wf = linksD(1) [OF L]
  have inj: "q = q'" if "valid_path q" "valid_path q'" "walk m' 3 r q = Some s" "walk m' 3 r q' = Some s" for q q' s
  proof -
    have "q = q'" if "q \<noteq> p @ [i]" "q' \<noteq> p @ [i]"
      using that \<open>valid_path q\<close> \<open>valid_path q'\<close> \<open>walk m' 3 r q = Some s\<close> \<open>walk m' 3 r q' = Some s\<close>
        walk_linked wf_inj [OF wf] by metis
    moreover have "q = q'" if "q = p @ [i] \<or> q' = p @ [i]"
      using that \<open>valid_path q\<close> \<open>valid_path q'\<close> \<open>walk m' 3 r q = Some s\<close> \<open>walk m' 3 r q' = Some s\<close>
        walk_linked wf_used [OF wf] linksD(5) [OF L] by (metis option.inject)
    ultimately show ?thesis by blast
  qed
  have used: "unat s div 4096 \<in> insert (unat f div 4096) used" if "valid_path q" "walk m' 3 r q = Some s" for q s
    using that walk_linked [of q] wf_used [OF wf, of q] by (auto split: if_splits)
  have entries: "bit (ent m' s j) 0 \<Longrightarrow> bit (ent m' s j) 7 \<Longrightarrow> walk m 3 r q = Some s \<and> ent m' s j = ent m s j"
    if "valid_path q" "length q < 3" "walk m' 3 r q = Some s" "j < 512" for q s j
  proof -
    assume h: "bit (ent m' s j) 0" "bit (ent m' s j) 7"
    have ne: "q \<noteq> p @ [i]"
    proof
      assume "q = p @ [i]"
      then have "s = f" "length p < 2" using that walk_linked [of q] by simp_all
      then show False using linksD(10) [OF L, of j] h that by simp
    qed
    then have w: "walk m 3 r q = Some s" using that walk_linked [of q] by simp
    moreover have "(s, j) \<noteq> (t, i)" using h linksD(7) [OF L] by auto
    ultimately show ?thesis using linksD(9) [OF L that(1) w that(4)] by simp
  qed
  show ?thesis
    unfolding wf_tables_def
  proof (intro conjI allI impI)
    show "page_aligned r" by (rule wf_root [OF wf])
  next
    fix q s assume "valid_path q" "walk m' 3 r q = Some s"
    then show "unat s div 4096 \<in> insert (unat f div 4096) used" by (rule used)
  next
    fix q q' s assume "valid_path q" "valid_path q'" "walk m' 3 r q = Some s" "walk m' 3 r q' = Some s"
    then show "q = q'" by (rule inj)
  next
    fix q s j assume "valid_path q" "length q < 2" "walk m' 3 r q = Some s" "j < 512" "bit (ent m' s j) 0"
    then show "\<not> bit (ent m' s j) 7" using entries [of q s j] wf_not_huge [OF wf, of q s j] by auto
  next
    fix q s j assume "valid_path q" "length q = 2" "walk m' 3 r q = Some s" "j < 512"
      "bit (ent m' s j) 0" "bit (ent m' s j) 7"
    then show "2097152 dvd unat (ent m' s j AND pte_address_mask)"
      using entries [of q s j] wf_huge [OF wf, of q s j] by auto
  qed
qed

lemma view_linked:
  assumes L: "links m m' r used p t i f" and zero: "h 0 v = 0"
    and content: "length p = 2 \<Longrightarrow> path_of v = p @ [i] \<Longrightarrow>
      g (ent m' f (index_of v 0)) v = h (ent m t i) v"
  shows "view g h m' r v = view g h m r v"
proof (cases "path_of v = p @ [i]")
  note walk_linked = walk_linked [OF L]
  case True
  then have p2: "p = dir_path v" "i = index_of v 1" by (simp_all add: path_of_def)
  then have "walk m' 3 r (path_of v) = Some f" "walk m 3 r (path_of v) = None"
    using walk_linked [of "path_of v"] True linksD(3,4) [OF L] by (simp_all add: walk_snoc)
  then show ?thesis using content True linksD(3) [OF L] p2 by (simp add: view_def)
next
  note walk_linked = walk_linked [OF L] and wf = linksD(1) [OF L] and t = linksD(3) [OF L]
    and p = linksD(2) [OF L] and others = linksD(9) [OF L]
  case False
  then have w: "walk m' 3 r (path_of v) = walk m 3 r (path_of v)" by (simp add: walk_linked)
  show ?thesis
  proof (cases "walk m 3 r (path_of v)")
    case (Some t0)
    have "t0 \<noteq> t" using wf_inj [OF wf, of "path_of v" p t0] Some t p by auto
    then have "ent m' t0 (index_of v 0) = ent m t0 (index_of v 0)"
      using others [of "path_of v" t0] Some by simp
    then show ?thesis using Some w by (simp add: view_def)
  next
    case None
    show ?thesis
    proof (cases "dir_path v = p @ [i]")
      case True
      then have "length p < 2" by (metis valid_dir_path(2) length_append_singleton lessI)
      then have "ent m' f (index_of v 1) = 0" using linksD(10) [OF L] by simp
      moreover have "walk m' 3 r (dir_path v) = Some f" using True walk_linked [of "dir_path v"] valid_dir_path(1) [of v] by metis
      moreover have "walk m 3 r (dir_path v) = None"
        using t linksD(4) [OF L] by (simp add: True walk_snoc)
      ultimately show ?thesis using None w by (simp add: view_def zero)
    next
      case q: False
      then have wq: "walk m' 3 r (dir_path v) = walk m 3 r (dir_path v)"
        using walk_linked [of "dir_path v"] by simp
      show ?thesis
      proof (cases "walk m 3 r (dir_path v)")
        case (Some t1)
        have "(t1, index_of v 1) \<noteq> (t, i)"
        proof
          assume "(t1, index_of v 1) = (t, i)"
          moreover from this have "dir_path v = p" using wf_inj [OF wf, of "dir_path v" p t] Some t p by simp
          ultimately show False using False by (auto simp: path_of_def)
        qed
        then have "ent m' t1 (index_of v 1) = ent m t1 (index_of v 1)"
          using others [of "dir_path v" t1] Some by simp
        then show ?thesis using None w wq Some by (simp add: view_def)
      qed (use None w wq in \<open>simp add: view_def\<close>)
    qed
  qed
qed

text \<open>A write to an entry of a page table.\<close>

lemma ent_update:
  "page_aligned t \<Longrightarrow> page_aligned t' \<Longrightarrow> i < 512 \<Longrightarrow> j < 512 \<Longrightarrow>
   ent (m(slot t i := e)) t' j = (if t' = t \<and> j = i then e else ent m t' j)"
  by (simp add: ent_def slot_eq_iff)

lemma leaf_write:
  fixes e :: u64
  assumes wf: "wf_tables m r used" and p: "valid_path p" "length p = 3"
    and t: "walk m 3 r p = Some t" and i: "i < 512"
  defines "m' \<equiv> m(slot t i := e)"
  shows walk_leaf_write: "valid_path q \<Longrightarrow> walk m' 3 r q = walk m 3 r q"
    and wf_leaf_write: "wf_tables m' r used"
    and view_leaf_write: "view g h m' r v =
      (if path_of v = p \<and> index_of v 0 = i then g e v else view g h m r v)"
proof -
  have other: "ent m' t' j = ent m t' j"
    if "valid_path q" "length q < 3" "walk m 3 r q = Some t'" "j < 512" for q t' j
  proof -
    have "t' \<noteq> t" using wf_inj [OF wf that(1) p(1) that(3)] t that(2) p(2) by auto
    then show ?thesis
      unfolding m'_def using wf_aligned [OF wf] t that(3,4) i by (simp add: ent_update)
  qed
  have walk: "walk m' 3 r q = walk m 3 r q" if "valid_path q" for q
    using that other by (intro walk_agree) (auto simp: next_table_def)
  then show "valid_path q \<Longrightarrow> walk m' 3 r q = walk m 3 r q" .
  show "wf_tables m' r used"
    unfolding wf_tables_def
  proof (intro conjI allI impI)
    fix q s j assume "valid_path q" "length q < 2" "walk m' 3 r q = Some s" "j < 512" "bit (ent m' s j) 0"
    then show "\<not> bit (ent m' s j) 7"
      using walk [of q] other [of q s j] wf_not_huge [OF wf, of q s j] by simp
  next
    fix q s j assume "valid_path q" "length q = 2" "walk m' 3 r q = Some s" "j < 512"
      "bit (ent m' s j) 0" "bit (ent m' s j) 7"
    then show "2097152 dvd unat (ent m' s j AND pte_address_mask)"
      using walk [of q] other [of q s j] wf_huge [OF wf, of q s j] by simp
  qed (use walk wf_root [OF wf] wf_used [OF wf] wf_inj [OF wf] in auto)
  show "view g h m' r v =
      (if path_of v = p \<and> index_of v 0 = i then g e v else view g h m r v)"
  proof (cases "walk m 3 r (path_of v)")
    case (Some t0)
    have "ent m' t0 (index_of v 0) = (if path_of v = p \<and> index_of v 0 = i then e else ent m t0 (index_of v 0))"
      unfolding m'_def using wf_aligned [OF wf] t Some i wf_inj [OF wf, of "path_of v" p t0] p(1)
      by (auto simp: ent_update)
    then show ?thesis using Some walk [of "path_of v"] by (simp add: view_def)
  next
    case None
    then have "path_of v \<noteq> p" using t by auto
    moreover have "ent m' t1 (index_of v 1) = ent m t1 (index_of v 1)" if "walk m 3 r (dir_path v) = Some t1" for t1
      using other [of "dir_path v" t1] that by simp
    ultimately show ?thesis
      using None walk [of "path_of v"] walk [of "dir_path v"]
      by (auto simp: view_def split: option.splits)
  qed
qed

section \<open>The invariant of an address space\<close>

definition vm_inv :: "phys_addr \<Rightarrow> mmu \<Rightarrow> bool" where
  "vm_inv root s \<longleftrightarrow> pa_good (frames s) \<and> wf_tables (qmem s) root (allocated (frames s))"

text \<open>
  What the walk keeps while it creates tables: the meaning of every address and the entries of
  the page tables that were there. New tables only come from frames that were free.
\<close>

definition tables_kept :: "phys_addr \<Rightarrow> mmu \<Rightarrow> mmu \<Rightarrow> bool" where
  "tables_kept root s s' \<longleftrightarrow> allocated (frames s) \<subseteq> allocated (frames s') \<and>
     (\<forall>p t. valid_path p \<longrightarrow> walk (qmem s') 3 root p = Some t \<longrightarrow>
        walk (qmem s) 3 root p = Some t \<or> unat t div 4096 \<notin> allocated (frames s))"

lemma tables_kept_refl: "tables_kept root s s"
  by (simp add: tables_kept_def)

lemma tables_kept_trans: "tables_kept root s s' \<Longrightarrow> tables_kept root s' s'' \<Longrightarrow> tables_kept root s s''"
  unfolding tables_kept_def by blast

definition vm_same :: "phys_addr \<Rightarrow> mmu \<Rightarrow> mmu \<Rightarrow> bool" where
  "vm_same root s s' \<longleftrightarrow> vm_inv root s' \<and>
     (\<forall>v. resolve (qmem s') root v = resolve (qmem s) root v \<and>
        rights (qmem s') root v = rights (qmem s) root v) \<and>
     (\<forall>p t. valid_path p \<longrightarrow> walk (qmem s) 3 root p = Some t \<longrightarrow> walk (qmem s') 3 root p = Some t) \<and>
     (\<forall>p t i. valid_path p \<longrightarrow> length p = 3 \<longrightarrow> walk (qmem s) 3 root p = Some t \<longrightarrow> i < 512 \<longrightarrow>
        ent (qmem s') t i = ent (qmem s) t i) \<and>
     tables_kept root s s'"

lemma vm_same_refl: "vm_inv root s \<Longrightarrow> vm_same root s s"
  by (simp add: vm_same_def tables_kept_refl)

lemma vm_same_trans: "vm_same root s s' \<Longrightarrow> vm_same root s' s'' \<Longrightarrow> vm_same root s s''"
  by (auto simp: vm_same_def elim: tables_kept_trans)

lemma allocated_frame_less: "unat t div 4096 \<in> allocated s \<Longrightarrow> unat t < 1073741824"
  using allocated_less [of "unat t div 4096" s] by (simp add: managed_pages_val)

lemma wf_tables_mono: "wf_tables m r used \<Longrightarrow> used \<subseteq> used' \<Longrightarrow> wf_tables m r used'"
  unfolding wf_tables_def by blast

lemma vm_inv_root: "vm_inv root s \<Longrightarrow> table_at root = root"
  using wf_used [of "qmem s" root "allocated (frames s)" "[]" root] allocated_frame_less [of root "frames s"]
    wf_root [of "qmem s" root]
  by (auto simp: vm_inv_def page_aligned_table_at)

lemma vm_inv_translate: "vm_inv root s \<Longrightarrow> as_translate root v s = resolve (qmem s) root v"
  using translate_resolve [of "qmem s" root _ v]
  by (auto simp: as_translate_def vm_inv_root vm_inv_def)

section \<open>Filling and allocating tables\<close>

lemma store_simps [simp]:
  "qmem (store a v s) = (qmem s)(a := v)" "frames (store a v s) = frames s"
  by (simp_all add: store_def)

lemma emit_simps [simp]: "qmem (emit e s) = qmem s" "frames (emit e s) = frames s"
  by (simp_all add: emit_def)

lemma invalidate_simps [simp]: "qmem (invalidate v s) = qmem s" "frames (invalidate v s) = frames s"
  by (simp_all add: invalidate_def)

lemma fill_table_frames [simp]: "frames (fill_table t f s) = frames s"
proof -
  have "frames (fold (\<lambda>i. store (slot t (of_nat i)) (f (of_nat i))) is s) = frames s" for "is"
    by (induction "is" arbitrary: s) simp_all
  then show ?thesis by (simp only: fill_table_def)
qed

lemma of_nat_512: "k < 512 \<Longrightarrow> (of_nat k :: u64) < 512"
  by (simp add: word_less_nat_alt unat_u64_of_nat)

lemma ent_fill_prefix:
  assumes "page_aligned t" "page_aligned t'" "j < 512" "n \<le> 512"
  shows "ent (qmem (fold (\<lambda>i. store (slot t (of_nat i)) (f (of_nat i))) [0..<n] s)) t' j
       = (if t' = t \<and> unat j < n then f j else ent (qmem s) t' j)"
  using assms(4)
proof (induction n)
  case (Suc n)
  have "(of_nat n :: u64) < 512" using Suc.prems by (intro of_nat_512) simp
  moreover have "j = of_nat n \<longleftrightarrow> unat j = n"
    using Suc.prems by (auto simp: unat_u64_of_nat)
  ultimately show ?case
    using Suc assms by (auto simp: ent_update less_Suc_eq simp del: fun_upd_apply)
qed simp

lemma ent_fill_table:
  assumes "page_aligned t" "page_aligned t'" "j < 512"
  shows "ent (qmem (fill_table t f s)) t' j = (if t' = t then f j else ent (qmem s) t' j)"
proof -
  have "unat j < 512" using assms(3) by (simp add: word_less_nat_alt)
  then show ?thesis
    unfolding fill_table_def using ent_fill_prefix [OF assms, of 512 f s] by simp
qed

lemma allocate_table_spec:
  assumes good: "pa_good (frames s)" and "allocate_table s = (res, s')"
  shows "case res of None \<Rightarrow> s' = s
    | Some t \<Rightarrow> pa_good (frames s') \<and> page_aligned t \<and> unat t div 4096 \<notin> allocated (frames s) \<and>
        allocated (frames s') = insert (unat t div 4096) (allocated (frames s)) \<and>
        (\<forall>t' j. page_aligned t' \<longrightarrow> j < 512 \<longrightarrow>
           ent (qmem s') t' j = (if t' = t then 0 else ent (qmem s) t' j))"
proof -
  obtain frame fr where a: "alloc_page (frames s) = (frame, fr)" by fastforce
  show ?thesis
  proof (cases "frame = 0")
    case True
    then have "fr = frames s" using frames.take_fails [OF good] a by simp
    then show ?thesis using True a assms(2) by (auto simp: allocate_table_def)
  next
    case False
    note fresh = frames.take_fresh [OF good a False]
    then have "unat frame div 4096 \<in> allocated fr" by simp
    then have "unat frame < 1073741824" by (rule allocated_frame_less)
    then have "table_at frame = frame" using fresh by (simp add: page_aligned_table_at)
    then have "res = Some frame" "s' = fill_table frame (\<lambda>_. 0) (s\<lparr>frames := fr\<rparr>)"
      using False a assms(2) by (auto simp: allocate_table_def)
    then show ?thesis using fresh by (simp add: ent_fill_table)
  qed
qed

section \<open>The steps of the walk\<close>

lemma linked_entry:
  assumes "page_aligned f" "unat f < 1073741824"
  shows "bit (virt_to_phys f OR pte_present OR pte_write) 0"
    and "\<not> bit (virt_to_phys f OR pte_present OR pte_write) 7"
    and "(virt_to_phys f OR pte_present OR pte_write) AND pte_address_mask = f"
proof -
  have low: "\<And>n. n < 12 \<Longrightarrow> \<not> bit f n" using assms(1) by (simp add: page_aligned_bit)
  then show "bit (virt_to_phys f OR pte_present OR pte_write) 0"
    and "\<not> bit (virt_to_phys f OR pte_present OR pte_write) 7"
    by (simp_all add: virt_to_phys_def bit_or_iff pte_simps)
  have "12 \<le> n \<and> n < 52" if "bit f n" for n
    using that low [of n] high_bits_zero [of f 30 n] assms(2) by fastforce
  then show "(virt_to_phys f OR pte_present OR pte_write) AND pte_address_mask = f"
    by (intro bit_word_eqI) (auto simp: virt_to_phys_def bit_or_iff bit_and_iff pte_simps)
qed

lemma link_state:
  assumes inv: "vm_inv root s" and p: "valid_path (p @ [i])" and t: "walk (qmem s) 3 root p = Some t"
    and empty: "next_table (qmem s) (3 - length p) t i = None"
    and good: "pa_good (frames s')" and f: "page_aligned f" "unat f div 4096 \<notin> allocated (frames s)"
    and used: "allocated (frames s') = insert (unat f div 4096) (allocated (frames s))"
    and mem: "\<And>t' j. page_aligned t' \<Longrightarrow> j < 512 \<Longrightarrow>
      ent (qmem s') t' j = (if t' = t \<and> j = i then virt_to_phys f OR pte_present OR pte_write
        else if t' = f then c j else ent (qmem s) t' j)"
    and zero: "\<And>j. length p < 2 \<Longrightarrow> c j = 0"
    and content: "\<And>v. length p = 2 \<Longrightarrow> path_of v = p @ [i] \<Longrightarrow>
      small_page (c (index_of v 0)) v = huge_page (ent (qmem s) t i) v \<and>
      rights_of (c (index_of v 0)) v = rights_of (ent (qmem s) t i) v"
  shows "vm_same root s s'" and "walk (qmem s') 3 root (p @ [i]) = Some f"
proof -
  have wf: "wf_tables (qmem s) root (allocated (frames s))" using inv by (simp add: vm_inv_def)
  have al: "page_aligned t" using wf_aligned [OF wf] t by blast
  have "unat t div 4096 \<in> allocated (frames s)" using wf_used [OF wf _ t] p by simp
  then have tf: "t \<noteq> f" using f(2) by auto
  have fl: "unat f < 1073741824" using used allocated_frame_less [of f "frames s'"] by simp
  have i: "i < 512" using p by simp
  have L: "links (qmem s) (qmem s') root (allocated (frames s)) p t i f"
    unfolding links_def
  proof (intro conjI allI impI)
    fix q t' j assume q: "valid_path q" "walk (qmem s) 3 root q = Some t'" "j < 512" "(t', j) \<noteq> (t, i)"
    have "t' \<noteq> f" using wf_used [OF wf q(1,2)] f(2) by auto
    then show "ent (qmem s') t' j = ent (qmem s) t' j"
      using q mem [OF wf_aligned [OF wf q(2)] q(3)] by auto
  qed (use wf p t empty f al i tf zero mem linked_entry [OF f(1) fl] in auto)
  note walk_linked = walk_linked [OF L]
  show walk: "walk (qmem s') 3 root (p @ [i]) = Some f" using walk_linked [OF p] by simp
  have "walk (qmem s) 3 root (p @ [i]) = None" using t empty by (simp add: walk_snoc)
  then have keep: "walk (qmem s') 3 root q = Some t'"
    if "valid_path q" "walk (qmem s) 3 root q = Some t'" for q t'
    using that walk_linked [OF that(1)] by auto
  have "resolve (qmem s') root v = resolve (qmem s) root v \<and>
      rights (qmem s') root v = rights (qmem s) root v" for v
    unfolding resolve_def rights_def
    using content [of v] mem [OF f(1), of "index_of v 0"] tf
    by (intro conjI view_linked [OF L]) simp_all
  moreover have "vm_inv root s'"
    using wf_linked [OF L] good used by (simp add: vm_inv_def)
  moreover have "ent (qmem s') t' j = ent (qmem s) t' j"
    if q: "valid_path q" "length q = 3" "walk (qmem s) 3 root q = Some t'" "j < 512" for q t' j
  proof -
    have "t' \<noteq> t" using wf_inj [OF wf q(1) _ q(3), of p] t p q(2) by auto
    then show ?thesis using linksD(9) [OF L q(1,3,4)] by simp
  qed
  moreover have "tables_kept root s s'"
    unfolding tables_kept_def using walk_linked f(2) used by (auto split: if_splits)
  ultimately show "vm_same root s s'" using keep unfolding vm_same_def by blast
qed

lemma ensure_table_spec:
  assumes inv: "vm_inv root s" and p: "valid_path (p @ [i])" and t: "walk (qmem s) 3 root p = Some t"
    and step: "ensure_table (slot t i) create s = (ok, s')"
  shows "vm_same root s s'" and "ok \<Longrightarrow> bit (ent (qmem s') t i) 0" and "create \<or> ok \<or> s' = s"
proof -
  have wf: "wf_tables (qmem s) root (allocated (frames s))" and good: "pa_good (frames s)"
    using inv by (simp_all add: vm_inv_def)
  have al: "page_aligned t" using wf_aligned [OF wf] t by blast
  have "vm_same root s s' \<and> (ok \<longrightarrow> bit (ent (qmem s') t i) 0) \<and> (create \<or> ok \<or> s' = s)"
  proof (cases "bit (ent (qmem s) t i) 0")
    case True
    then show ?thesis
      using step inv by (auto simp: ensure_table_def pte_simps ent_def vm_same_refl)
  next
    case False
    then have np: "\<not> bit (qmem s (slot t i)) 0" by (simp add: ent_def)
    show ?thesis
    proof (cases create)
      case True
      obtain res s1 where a: "allocate_table s = (res, s1)" by fastforce
      show ?thesis
      proof (cases res)
        case None
        then have "s1 = s" using allocate_table_spec [OF good a] by simp
        then show ?thesis
          using None a step np inv True by (auto simp: ensure_table_def pte_simps vm_same_refl)
      next
        case (Some f)
        note fresh = allocate_table_spec [OF good a, unfolded Some option.case]
        define e where "e = virt_to_phys f OR pte_present OR pte_write"
        have s': "ok" "s' = store (slot t i) e s1"
          using Some a step np True by (auto simp: ensure_table_def pte_simps e_def)
        have i: "i < 512" using p by simp
        have mem: "ent (qmem s') t' j = (if t' = t \<and> j = i then e
            else if t' = f then 0 else ent (qmem s) t' j)" if "page_aligned t'" "j < 512" for t' j
          using that fresh al i unfolding s' by (simp add: ent_update del: fun_upd_apply)
        have "vm_same root s s'"
          by (rule link_state(1) [OF inv p t _ _ _ _ _ mem [unfolded e_def]])
            (use False fresh s' in \<open>auto simp: next_table_def small_page_def huge_page_def leaf_address_def rights_of_def\<close>)
        moreover have "bit (ent (qmem s') t i) 0"
          using mem [OF al i] by (simp add: e_def bit_or_iff pte_simps)
        ultimately show ?thesis using True by blast
      qed
    next
      case False
      then show ?thesis using np step inv by (auto simp: ensure_table_def pte_simps vm_same_refl)
    qed
  qed
  then show "vm_same root s s'" and "ok \<Longrightarrow> bit (ent (qmem s') t i) 0" and "create \<or> ok \<or> s' = s"
    by blast+
qed

lemma unat_index_of: "unat (index_of v l) = unat v div 2 ^ (12 + 9 * l) mod 512"
proof -
  have "index_of v l = drop_bit (12 + 9 * l) v mod 512"
    using take_bit_eq_mask [of 9 "drop_bit (12 + 9 * l) v"]
    by (simp add: index_of_def take_bit_eq_mod mask_eq_exp_minus_1)
  then show ?thesis by (simp add: unat_mod_distrib unat_drop_bit_eq) (simp add: drop_bit_eq_div)
qed

lemma huge_offset: "v AND 2097151 = index_of v 0 * 4096 + (v AND 4095)"
proof (rule u64_eqI)
  have "v AND 2097151 = v mod 2097152"
    using take_bit_eq_mask [of 21 v] by (simp add: take_bit_eq_mod mask_eq_exp_minus_1)
  then have "unat (v AND 2097151) = unat v mod 2097152" by (simp add: unat_mod_distrib)
  also have "\<dots> = unat v div 4096 mod 512 * 4096 + unat v mod 4096"
    using mod_mult2_eq [of "unat v" 4096 512] by simp
  also have "\<dots> = unat (index_of v 0 * 4096 + (v AND 4095))"
  proof -
    have i: "unat (index_of v 0) = unat v div 4096 mod 512" by (simp add: unat_index_of)
    have "unat (index_of v 0 * 4096) = unat v div 4096 mod 512 * 4096"
      using i by (simp add: unat_u64_mult)
    then show ?thesis by (simp add: unat_u64_add unat_and_4095)
  qed
  finally show "unat (v AND 2097151) = unat (index_of v 0 * 4096 + (v AND 4095))" .
qed

lemma split_entry:
  assumes "bit e 0" and base: "2097152 dvd unat (e AND pte_address_mask)" and j: "j < 512"
  defines "c \<equiv> ((e AND pte_address_mask) + j * 4096) OR (e AND NOT (pte_address_mask OR pte_huge))"
  shows "bit c 0" and "c AND pte_address_mask = (e AND pte_address_mask) + j * 4096"
    and "((e AND pte_address_mask) + j * 4096) AND pte_address_mask = (e AND pte_address_mask) + j * 4096"
proof -
  let ?b = "e AND pte_address_mask"
  show "bit c 0"
    using assms(1) unfolding c_def by (simp only: bit_or_iff bit_and_iff bit_not_iff pte_simps) simp
  have j': "unat j < 512" using j by (simp add: word_less_nat_alt)
  have "?b \<le> pte_address_mask" by (rule word_and_le1)
  then have "unat ?b < 2 ^ 52" by (simp add: pte_address_mask_def word_le_nat_alt)
  then have lt: "unat ?b + 4096 * unat j < 2 ^ 52"
    using base j' by (auto simp: dvd_def)
  then have sum: "unat (?b + j * 4096) = unat ?b + 4096 * unat j"
    using j' by (simp add: unat_u64_add unat_u64_mult)
  have "page_aligned (?b + j * 4096)"
    using mask_aligned [of e] by (simp add: page_aligned_def sum)
  moreover have "unat (?b + j * 4096) < 2 ^ 52" using lt sum by simp
  ultimately have b: "(?b + j * 4096) AND pte_address_mask = ?b + j * 4096" by (rule mask_frame)
  then show "(?b + j * 4096) AND pte_address_mask = ?b + j * 4096" .
  moreover have "(e AND NOT (pte_address_mask OR pte_huge)) AND pte_address_mask = 0"
    by (rule bit_word_eqI) (auto simp: bit_simps)
  ultimately show "c AND pte_address_mask = ?b + j * 4096"
    using b unfolding c_def by (simp add: bit.conj_disj_distrib2)
qed

lemma split_leaf:
  fixes v :: virt_addr
  assumes "bit e 0" and "2097152 dvd unat (e AND pte_address_mask)"
  defines "c \<equiv> ((e AND pte_address_mask) + index_of v 0 * 4096) OR (e AND NOT (pte_address_mask OR pte_huge))"
  shows "small_page c v = huge_page e v \<and> rights_of c v = rights_of e v"
proof
  note entry = split_entry [OF assms(1,2), of "index_of v 0", folded c_def]
  show "small_page c v = huge_page e v"
    using entry assms(1) by (simp add: small_page_def huge_page_def leaf_address_def huge_offset add.assoc)
  let ?b = "(e AND pte_address_mask) + index_of v 0 * 4096"
  have "?b AND pte_address_mask = ?b"
    using split_entry(3) [OF assms(1,2), of "index_of v 0"] by simp
  then have b: "bit ?b n \<Longrightarrow> bit pte_address_mask n" for n
    by (metis bit_and_iff)
  have "c AND NOT (pte_address_mask OR pte_huge OR pte_user)
      = e AND NOT (pte_address_mask OR pte_huge OR pte_user)"
    by (rule bit_word_eqI) (use b in \<open>auto simp: c_def bit_and_iff bit_or_iff bit_not_iff\<close>)
  then show "rights_of c v = rights_of e v" using entry assms(1) by (simp add: rights_of_def)
qed

lemma split_huge_page_spec:
  assumes inv: "vm_inv root s" and p: "valid_path (p @ [i])" "length p = 2"
    and t: "walk (qmem s) 3 root p = Some t"
    and huge: "bit (ent (qmem s) t i) 0" "bit (ent (qmem s) t i) 7"
    and step: "split_huge_page (slot t i) address s = (ok, s')"
  shows "vm_same root s s'"
    and "ok \<Longrightarrow> walk (qmem s') 3 root (p @ [i]) = Some (table_at (qmem s' (slot t i)))"
    and "ok \<Longrightarrow> \<not> bit (qmem s' (slot t i)) 2"
proof -
  have wf: "wf_tables (qmem s) root (allocated (frames s))" and good: "pa_good (frames s)"
    using inv by (simp_all add: vm_inv_def)
  have al: "page_aligned t" using wf_aligned [OF wf] t by blast
  have i: "i < 512" using p by simp
  define e where "e = ent (qmem s) t i"
  define c where "c = (\<lambda>j. ((e AND pte_address_mask) + j * 4096) OR (e AND NOT (pte_address_mask OR pte_huge)))"
  have base: "2097152 dvd unat (e AND pte_address_mask)"
    using wf_huge [OF wf _ p(2) t i] p huge by (simp add: e_def)
  obtain res s1 where a: "allocate_table s = (res, s1)" by fastforce
  have "vm_same root s s' \<and> (ok \<longrightarrow>
    walk (qmem s') 3 root (p @ [i]) = Some (table_at (qmem s' (slot t i))) \<and> \<not> bit (qmem s' (slot t i)) 2)"
  proof (cases res)
    case None
    then have "s1 = s" using allocate_table_spec [OF good a] by simp
    then show ?thesis
      using None a step inv by (auto simp: split_huge_page_def Let_def vm_same_refl)
  next
    case (Some f)
    note fresh = allocate_table_spec [OF good a, unfolded Some option.case]
    define l where "l = virt_to_phys f OR pte_present OR pte_write"
    have s': "ok" "s' = invalidate address (store (slot t i) l (fill_table f c s1))"
      using Some a step by (auto simp: split_huge_page_def Let_def l_def c_def e_def ent_def)
    have mem: "ent (qmem s') t' j = (if t' = t \<and> j = i then l
        else if t' = f then c j else ent (qmem s) t' j)" if "page_aligned t'" "j < 512" for t' j
      using that fresh al i unfolding s' by (simp add: ent_update ent_fill_table del: fun_upd_apply)
    have content: "small_page (c (index_of v 0)) v = huge_page (ent (qmem s) t i) v \<and>
        rights_of (c (index_of v 0)) v = rights_of (ent (qmem s) t i) v" for v
      using split_leaf [OF _ base] huge by (simp add: c_def e_def)
    have "frames s' = frames s1" by (simp add: s')
    then have link: "vm_same root s s'" "walk (qmem s') 3 root (p @ [i]) = Some f"
      using link_state [OF inv p(1) t _ _ _ _ _ mem [unfolded l_def] _ content] fresh huge p(2)
      by (auto simp: next_table_def)
    have "unat f < 1073741824" using fresh allocated_frame_less [of f "frames s1"] by simp
    then have "table_at (qmem s' (slot t i)) = f"
      using linked_entry(3) [of f] fresh mem [OF al i] by (simp add: ent_def table_at_mask l_def)
    moreover have "\<not> bit l 2"
      using fresh by (simp add: l_def virt_to_phys_def bit_or_iff pte_simps page_aligned_bit)
    ultimately show ?thesis using link mem [OF al i] by (simp add: ent_def)
  qed
  then show "vm_same root s s'"
    and "ok \<Longrightarrow> walk (qmem s') 3 root (p @ [i]) = Some (table_at (qmem s' (slot t i)))"
    and "ok \<Longrightarrow> \<not> bit (qmem s' (slot t i)) 2" by blast+
qed

lemma user_bit_vm:
  assumes inv: "vm_inv root s" and p: "valid_path (p @ [i])" and t: "walk (qmem s) 3 root p = Some t"
  shows "vm_same root s (store (slot t i) (qmem s (slot t i) OR pte_user) s)"
proof -
  have wf: "wf_tables (qmem s) root (allocated (frames s))" using inv by (simp add: vm_inv_def)
  have "ent ((qmem s)(slot t i := e)) t' j = ent (qmem s) t' j"
    if q: "valid_path q" "length q = 3" "walk (qmem s) 3 root q = Some t'" "j < 512" for q t' j e
  proof -
    have "t' \<noteq> t" using wf_inj [OF wf q(1) _ q(3), of p] t p q(2) by auto
    then show ?thesis using wf_aligned [OF wf] t q p by (simp add: ent_update)
  qed
  then show ?thesis
    using inv same_shape_user [of "qmem s" "slot t i"]
    by (simp add: vm_same_def vm_inv_def same_shape_wf same_shape_walk same_shape_view tables_kept_def
        del: fun_upd_apply)
qed

lemma descend_spec:
  assumes inv: "vm_inv root s" and p: "valid_path (p @ [i])"
    and t: "walk (qmem s) 3 root p = Some t" and pr: "bit (ent (qmem s) t i) 0"
    and step: "descend (slot t i) (3 - length p) address create user s = (ok, s')"
  shows "vm_same root s s'"
    and "ok \<Longrightarrow> walk (qmem s') 3 root (p @ [i]) = Some (table_at (qmem s' (slot t i)))"
proof -
  define s1 where "s1 = (if user then store (slot t i) (qmem s (slot t i) OR pte_user) s else s)"
  have same: "same_shape (qmem s) (qmem s1)"
    using same_shape_user by (simp add: s1_def same_shape_def)
  have v1: "vm_same root s s1"
    using user_bit_vm [OF inv p t] inv by (simp add: s1_def vm_same_refl)
  then have inv1: "vm_inv root s1" and t1: "walk (qmem s1) 3 root p = Some t"
    using t p by (simp_all add: vm_same_def)
  have pr1: "bit (ent (qmem s1) t i) 0" using same pr by (simp add: same_shape_ent)
  have "vm_same root s s' \<and> (ok \<longrightarrow> walk (qmem s') 3 root (p @ [i]) = Some (table_at (qmem s' (slot t i))))"
  proof (cases "length p = 2 \<and> bit (ent (qmem s1) t i) 7")
    case True
    then have lv: "3 - length p = 1" and h: "qmem s1 (slot t i) AND pte_huge \<noteq> 0"
      by (simp_all add: ent_def pte_simps)
    show ?thesis
    proof (cases create)
      case True
      then have "split_huge_page (slot t i) address s1 = (ok, s')"
        using step lv h by (simp add: descend_def Let_def s1_def [symmetric])
      from split_huge_page_spec [OF inv1 p _ t1 pr1 _ this] \<open>length p = 2 \<and> _\<close>
      show ?thesis using vm_same_trans [OF v1] by blast
    next
      case False
      then show ?thesis using step lv h v1 by (auto simp: descend_def Let_def s1_def [symmetric])
    qed
  next
    case False
    have l: "length p \<le> 2" using p by simp
    then have "\<not> (3 - length p = 1 \<and> qmem s1 (slot t i) AND pte_huge \<noteq> 0)"
      using False by (auto simp: ent_def pte_simps)
    then have s': "ok" "s' = s1"
      using step by (auto simp: descend_def Let_def s1_def [symmetric])
    have "next_table (qmem s1) (3 - length p) t i = Some (ent (qmem s1) t i AND pte_address_mask)"
      using False pr1 l by (auto simp: next_table_def Let_def)
    then show ?thesis
      using v1 s' t1 by (simp add: walk_snoc table_at_mask ent_def)
  qed
  then show "vm_same root s s'"
    and "ok \<Longrightarrow> walk (qmem s') 3 root (p @ [i]) = Some (table_at (qmem s' (slot t i)))" by blast+
qed

end
