(* ===== verification/Paging_Map.thy ===== *)
theory Paging_Map
  imports Paging_Tree
begin

unbundle bit_operations_syntax

text \<open>
  What the operations on an address space do to its translations and rights: first for one
  page, then for the loops over a range, with the number of frames that is enough for them to
  succeed. The properties of \<^verbatim>\<open>AddressSpace::map\<close>, \<^verbatim>\<open>unmap\<close> and \<^verbatim>\<open>protect\<close> are at the end.
\<close>

lemma vm_sameD:
  assumes "vm_same root s s'"
  shows "vm_inv root s'" and "\<And>v. resolve (qmem s') root v = resolve (qmem s) root v"
    and "\<And>v. rights (qmem s') root v = rights (qmem s) root v"
    and "\<And>p t. valid_path p \<Longrightarrow> walk (qmem s) 3 root p = Some t \<Longrightarrow> walk (qmem s') 3 root p = Some t"
    and "\<And>p t i. valid_path p \<Longrightarrow> length p = 3 \<Longrightarrow> walk (qmem s) 3 root p = Some t \<Longrightarrow> i < 512 \<Longrightarrow>
      ent (qmem s') t i = ent (qmem s) t i"
    and "tables_kept root s s'"
  using assms by (simp_all add: vm_same_def)

lemma table_for_loop_spec:
  assumes "n \<le> 3" "vm_inv root s" "p = take (3 - n) (path_of v)" "walk (qmem s) 3 root p = Some t"
    and "table_for_loop n v create user t s = (res, s')"
  shows "vm_same root s s' \<and> (\<forall>t'. res = Some t' \<longrightarrow> walk (qmem s') 3 root (path_of v) = Some t')"
  using assms
proof (induction n arbitrary: s p t)
  case 0
  then show ?case by (simp add: vm_same_refl)
next
  case (Suc n)
  have len: "length p = 2 - n" "3 - length p = Suc n" using Suc.prems(1,3) by simp_all
  define i where "i = index_of v (Suc n)"
  have ext: "take (3 - n) (path_of v) = p @ [i]"
  proof -
    have "n = 0 \<or> n = 1 \<or> n = 2" using Suc.prems(1) by auto
    then show ?thesis using Suc.prems(3)
      by (auto simp: path_of_def dir_path_def i_def numeral_3_eq_3 numeral_2_eq_2)
  qed
  have p: "valid_path (p @ [i])"
    using valid_path_of(1) [of v] valid_path_append [of "p @ [i]" "drop (3 - n) (path_of v)"]
    by (simp add: ext [symmetric])
  obtain ok s1 where e: "ensure_table (slot t i) create s = (ok, s1)" by fastforce
  note E = ensure_table_spec [OF Suc.prems(2) p Suc.prems(4) e]
  show ?case
  proof (cases ok)
    case False
    then show ?thesis using Suc.prems(5) E(1) e by (auto simp: i_def [symmetric])
  next
    case True
    have t1: "walk (qmem s1) 3 root p = Some t" "vm_inv root s1"
      using vm_sameD [OF E(1)] p Suc.prems(4) by simp_all
    obtain ok2 s2 where d: "descend (slot t i) (Suc n) v create user s1 = (ok2, s2)" by fastforce
    note D = descend_spec [OF t1(2) p t1(1) E(2) [OF True], unfolded len(2), OF d]
    have v2: "vm_same root s s2" using vm_same_trans E(1) D(1) by blast
    show ?thesis
    proof (cases ok2)
      case False
      then show ?thesis using Suc.prems(5) True v2 e d by (auto simp: i_def [symmetric])
    next
      case ok2: True
      have "table_for_loop n v create user (table_at (qmem s2 (slot t i))) s2 = (res, s')"
        using Suc.prems(5) True ok2 e d by (simp add: i_def [symmetric])
      with Suc.IH [OF _ vm_sameD(1) [OF v2] ext [symmetric] D(2) [OF ok2]] Suc.prems(1)
      show ?thesis using vm_same_trans [OF v2] by auto
    qed
  qed
qed

lemma table_for_spec:
  assumes "vm_inv root s" and "table_for root v create user s = (res, s')"
  shows "vm_same root s s'" and "res = Some t \<Longrightarrow> walk (qmem s') 3 root (path_of v) = Some t"
  using table_for_loop_spec [of 3 root s "[]" v root create user res s'] assms
  by (auto simp: table_for_def vm_inv_root)

text \<open>Two addresses share a leaf entry if they agree on the bits 12 to 47.\<close>

definition vpn :: "virt_addr \<Rightarrow> nat" where
  "vpn v = unat v div 4096 mod 2 ^ 36"

lemma div_mod_cancel:
  fixes x :: nat
  assumes "0 < a" "b dvd k"
  shows "x mod (a * k) div a mod b = x div a mod b"
  using assms by (simp add: mod_mult2_eq mod_mod_cancel)

lemma unat_index_of_vpn:
  "unat (index_of x 0) = vpn x mod 512" "unat (index_of x 1) = vpn x div 512 mod 512"
  "unat (index_of x 2) = vpn x div 512 div 512 mod 512" "unat (index_of x 3) = vpn x div 512 div 512 div 512"
proof -
  have "vpn x mod 512 = unat x div 4096 mod 512"
    using div_mod_cancel [of 1 512 "2 ^ 36" "unat x div 4096"] by (simp add: vpn_def)
  then show "unat (index_of x 0) = vpn x mod 512" by (simp add: unat_index_of)
  have "vpn x div 512 mod 512 = unat x div 4096 div 512 mod 512"
    using div_mod_cancel [of 512 512 "2 ^ 27" "unat x div 4096"] by (simp add: vpn_def)
  then show "unat (index_of x 1) = vpn x div 512 mod 512"
    by (simp add: unat_index_of div_mult2_eq [symmetric])
  have "vpn x div 262144 mod 512 = unat x div 4096 div 262144 mod 512"
    using div_mod_cancel [of 262144 512 "2 ^ 18" "unat x div 4096"] by (simp add: vpn_def)
  then show "unat (index_of x 2) = vpn x div 512 div 512 mod 512"
    by (simp add: unat_index_of div_mult2_eq [symmetric])
  have "vpn x div 134217728 mod 512 = unat x div 4096 div 134217728 mod 512"
    using div_mod_cancel [of 134217728 512 "2 ^ 9" "unat x div 4096"] by (simp add: vpn_def)
  moreover have "vpn x div 134217728 mod 512 = vpn x div 134217728"
    by (simp add: vpn_def less_mult_imp_div_less)
  ultimately show "unat (index_of x 3) = vpn x div 512 div 512 div 512"
    by (simp add: unat_index_of div_mult2_eq [symmetric])
qed

lemma same_leaf: "path_of v = path_of w \<and> index_of v 0 = index_of w 0 \<longleftrightarrow> vpn v = vpn w"
proof
  assume "path_of v = path_of w \<and> index_of v 0 = index_of w 0"
  then have "vpn v div 512 div 512 div 512 = vpn w div 512 div 512 div 512"
    "vpn v div 512 div 512 mod 512 = vpn w div 512 div 512 mod 512"
    "vpn v div 512 mod 512 = vpn w div 512 mod 512" "vpn v mod 512 = vpn w mod 512"
    by (auto simp: path_of_def dir_path_def unat_index_of_vpn [symmetric])
  then show "vpn v = vpn w" by (metis div_mult_mod_eq)
next
  assume "vpn v = vpn w"
  then show "path_of v = path_of w \<and> index_of v 0 = index_of w 0"
    unfolding path_of_def dir_path_def word_unat_eq_iff list.inject append.simps by (simp add: unat_index_of_vpn unat_index_of_vpn(2) [unfolded One_nat_def] word_unat_eq_iff)
qed

lemma encode_bits:
  "bit (encode flags) 0" "\<not> bit (encode flags) 7" "12 \<le> n \<Longrightarrow> n < 52 \<Longrightarrow> \<not> bit (encode flags) n"
  by (auto simp: encode_def bit_or_iff pte_simps)

lemma leaf_entry:
  "bit ((frame AND pte_address_mask) OR encode flags) 0"
  "((frame AND pte_address_mask) OR encode flags) AND pte_address_mask = frame AND pte_address_mask"
proof -
  have "encode flags AND pte_address_mask = 0"
    by (rule bit_word_eqI) (use encode_bits in \<open>auto simp: bit_and_iff pte_simps\<close>)
  then show "((frame AND pte_address_mask) OR encode flags) AND pte_address_mask = frame AND pte_address_mask"
    by (simp add: bit.conj_disj_distrib2 and.assoc)
qed (simp add: bit_or_iff encode_bits)

lemma leaf_store_spec:
  assumes "vm_inv root s" and "walk (qmem s) 3 root (path_of v) = Some t"
  defines "s' \<equiv> \<lambda>e. store (slot t (index_of v 0)) e s"
  shows "vm_inv root (s' e)"
    and "resolve (qmem (s' e)) root w = (if vpn w = vpn v then small_page e w else resolve (qmem s) root w)"
    and "rights (qmem (s' e)) root w = (if vpn w = vpn v then rights_of e w else rights (qmem s) root w)"
  using wf_leaf_write [of "qmem s" root _ "path_of v" t "index_of v 0" e]
    view_leaf_write [of "qmem s" root _ "path_of v" t "index_of v 0" _ _ e w] assms(1,2)
  by (auto simp: s'_def vm_inv_def resolve_def rights_def same_leaf [symmetric] simp del: fun_upd_apply)

lemma leaf_store_tables_kept:
  assumes "vm_inv root s" and "walk (qmem s) 3 root (path_of v) = Some t"
  shows "tables_kept root s (store (slot t (index_of v 0)) e s)"
  using walk_leaf_write [of "qmem s" root _ "path_of v" t "index_of v 0" _ e] assms
  by (auto simp: tables_kept_def vm_inv_def simp del: fun_upd_apply)

lemma tables_kept_invalidate [simp]: "tables_kept root s (invalidate v s') \<longleftrightarrow> tables_kept root s s'"
  by (simp add: tables_kept_def)

lemma vm_inv_invalidate [simp]: "vm_inv root (invalidate v s) \<longleftrightarrow> vm_inv root s"
  by (simp add: vm_inv_def)

lemma vm_inv_emit [simp]: "vm_inv root (emit e s) \<longleftrightarrow> vm_inv root s"
  by (simp add: vm_inv_def)

definition flag_rights :: "PageFlags \<Rightarrow> u64" where
  "flag_rights flags = encode flags AND NOT pte_user"

lemma leaf_rights: "rights_of ((frame AND pte_address_mask) OR encode flags) w = flag_rights flags"
proof -
  have "((frame AND pte_address_mask) OR encode flags) AND NOT (pte_address_mask OR pte_huge OR pte_user)
      = flag_rights flags"
  proof (rule bit_word_eqI)
    fix n
    have "bit (encode flags) n \<Longrightarrow> \<not> bit pte_address_mask n \<and> n \<noteq> 7"
      using encode_bits(2,3) by (auto simp: pte_simps)
    then show "bit (((frame AND pte_address_mask) OR encode flags)
        AND NOT (pte_address_mask OR pte_huge OR pte_user)) n \<longleftrightarrow> bit (flag_rights flags) n"
      by (auto simp: flag_rights_def bit_and_iff bit_or_iff bit_not_iff bit_pte_flags)
  qed
  then show ?thesis by (simp add: rights_of_def leaf_entry)
qed

lemma map_page_spec:
  assumes inv: "vm_inv root s" and step: "map_page root v frame flags s = (ok, s')"
  shows "vm_inv root s'"
    and "resolve (qmem s') root w =
      (if ok \<and> vpn w = vpn v then (frame AND pte_address_mask) + (w AND 4095) else resolve (qmem s) root w)"
    and "rights (qmem s') root w =
      (if ok \<and> vpn w = vpn v then flag_rights flags else rights (qmem s) root w)"
proof -
  obtain res s1 where tf: "table_for root v True (has_flag flags Flag_User) s = (res, s1)" by fastforce
  note T = table_for_spec [OF inv tf]
  have "vm_inv root s' \<and> resolve (qmem s') root w =
      (if ok \<and> vpn w = vpn v then (frame AND pte_address_mask) + (w AND 4095) else resolve (qmem s) root w) \<and>
    rights (qmem s') root w = (if ok \<and> vpn w = vpn v then flag_rights flags else rights (qmem s) root w)"
  proof (cases res)
    case None
    then show ?thesis using step tf vm_sameD [OF T(1)] by (auto simp: map_page_def)
  next
    case (Some t)
    define e where "e = (frame AND pte_address_mask) OR encode flags"
    have e: "small_page e w = (frame AND pte_address_mask) + (w AND 4095)" "rights_of e w = flag_rights flags"
      unfolding e_def by (simp_all add: small_page_def leaf_address_def leaf_entry leaf_rights)
    have s': "ok" "s' = invalidate v (store (slot t (index_of v 0)) e s1)"
      using step tf Some by (auto simp: map_page_def e_def)
    show ?thesis
      using leaf_store_spec [OF vm_sameD(1) [OF T(1)] T(2) [OF Some], of e] e vm_sameD(2,3) [OF T(1)]
      by (simp add: s' del: fun_upd_apply store_simps(1))
  qed
  then show "vm_inv root s'"
    and "resolve (qmem s') root w =
      (if ok \<and> vpn w = vpn v then (frame AND pte_address_mask) + (w AND 4095) else resolve (qmem s) root w)"
    and "rights (qmem s') root w =
      (if ok \<and> vpn w = vpn v then flag_rights flags else rights (qmem s) root w)"
    by blast+
qed

lemma map_page_tables_kept:
  assumes inv: "vm_inv root s" and step: "map_page root v frame flags s = (ok, s')"
  shows "tables_kept root s s'"
proof -
  obtain res s1 where tf: "table_for root v True (has_flag flags Flag_User) s = (res, s1)" by fastforce
  note T = table_for_spec [OF inv tf]
  show ?thesis
  proof (cases res)
    case None
    then show ?thesis using step tf vm_sameD(6) [OF T(1)] by (auto simp: map_page_def)
  next
    case (Some t)
    then show ?thesis
      using step tf vm_sameD(6) [OF T(1)] leaf_store_tables_kept [OF vm_sameD(1) [OF T(1)] T(2) [OF Some]]
      by (auto simp: map_page_def intro: tables_kept_trans)
  qed
qed

lemma unmap_page_spec:
  assumes inv: "vm_inv root s" and step: "unmap_page root v s = (ok, s')"
  shows "vm_inv root s'"
    and "resolve (qmem s') root w = (if ok \<and> vpn w = vpn v then 0 else resolve (qmem s) root w)"
    and "rights (qmem s') root w = (if ok \<and> vpn w = vpn v then 0 else rights (qmem s) root w)"
proof -
  obtain res s1 where tf: "table_for root v True False s = (res, s1)" by fastforce
  note T = table_for_spec [OF inv tf]
  have "vm_inv root s' \<and>
    resolve (qmem s') root w = (if ok \<and> vpn w = vpn v then 0 else resolve (qmem s) root w) \<and>
    rights (qmem s') root w = (if ok \<and> vpn w = vpn v then 0 else rights (qmem s) root w)"
  proof (cases res)
    case None
    then show ?thesis using step tf vm_sameD [OF T(1)] by (auto simp: unmap_page_def)
  next
    case (Some t)
    have s': "ok" "s' = invalidate v (store (slot t (index_of v 0)) 0 s1)"
      using step tf Some by (auto simp: unmap_page_def)
    show ?thesis
      using leaf_store_spec [OF vm_sameD(1) [OF T(1)] T(2) [OF Some], of 0] vm_sameD(2,3) [OF T(1)]
      by (simp add: s' del: fun_upd_apply store_simps(1))
  qed
  then show "vm_inv root s'"
    and "resolve (qmem s') root w = (if ok \<and> vpn w = vpn v then 0 else resolve (qmem s) root w)"
    and "rights (qmem s') root w = (if ok \<and> vpn w = vpn v then 0 else rights (qmem s) root w)"
    by blast+
qed

lemma small_page_protect:
  assumes "bit e 0"
  shows "small_page ((e AND pte_address_mask) OR encode flags) w = small_page e w"
  using assms by (simp add: small_page_def leaf_address_def leaf_entry)

lemma vpn_small_page: "walk m 3 r (path_of v) = Some t \<Longrightarrow> vpn w = vpn v \<Longrightarrow>
    resolve m r w = small_page (ent m t (index_of v 0)) w"
  by (simp add: same_leaf [symmetric] resolve_def view_def)

lemma protect_page_spec:
  assumes inv: "vm_inv root s" and step: "protect_page root v flags s = (ok, s')"
  shows "vm_inv root s'" and "resolve (qmem s') root w = resolve (qmem s) root w"
    and "rights (qmem s') root w =
      (if ok \<and> vpn w = vpn v then flag_rights flags else rights (qmem s) root w)"
proof -
  obtain res s1 where tf: "table_for root v True (has_flag flags Flag_User) s = (res, s1)" by fastforce
  note T = table_for_spec [OF inv tf]
  have "vm_inv root s' \<and> resolve (qmem s') root w = resolve (qmem s) root w \<and>
    rights (qmem s') root w = (if ok \<and> vpn w = vpn v then flag_rights flags else rights (qmem s) root w)"
  proof (cases "\<exists>t. res = Some t \<and> bit (ent (qmem s1) t (index_of v 0)) 0")
    case False
    then have "\<not> ok \<and> s' = s1"
      using step tf by (auto simp: protect_page_def Let_def ent_def pte_simps split: option.splits if_splits)
    then show ?thesis using vm_sameD [OF T(1)] by simp
  next
    case True
    then obtain t where t: "res = Some t" "bit (ent (qmem s1) t (index_of v 0)) 0" by blast
    define e where "e = (ent (qmem s1) t (index_of v 0) AND pte_address_mask) OR encode flags"
    have s': "ok" "s' = invalidate v (store (slot t (index_of v 0)) e s1)"
      using step tf t by (auto simp: protect_page_def Let_def e_def ent_def pte_simps)
    have "vpn w = vpn v \<Longrightarrow> small_page e w = resolve (qmem s1) root w"
      using vpn_small_page [OF T(2) [OF t(1)]] small_page_protect [OF t(2)] by (simp add: e_def)
    moreover have "rights_of e w = flag_rights flags"
      unfolding e_def by (rule leaf_rights)
    ultimately show ?thesis
      using leaf_store_spec [OF vm_sameD(1) [OF T(1)] T(2) [OF t(1)], of e] vm_sameD(2,3) [OF T(1)]
      by (simp add: s' del: fun_upd_apply store_simps(1))
  qed
  then show "vm_inv root s'" and "resolve (qmem s') root w = resolve (qmem s) root w"
    and "rights (qmem s') root w =
      (if ok \<and> vpn w = vpn v then flag_rights flags else rights (qmem s) root w)" by blast+
qed

section \<open>The loops over a range\<close>

definition pages :: "nat \<Rightarrow> nat" where
  "pages len = (len + 4095) div 4096"

lemma less_pages: "4096 * k < len \<longleftrightarrow> k < pages len"
  by (auto simp: pages_def)

lemma page_loop_rule:
  assumes "page_loop body len (4096 * k) s = (ok, s')" and "k \<le> pages len" and "I k s"
    and "\<And>j t t' b. j < pages len \<Longrightarrow> I j t \<Longrightarrow> body (of_nat (4096 * j)) t = (b, t') \<Longrightarrow>
      (if b then I (Suc j) t' else I j t')"
  shows "\<exists>j \<le> pages len. I j s' \<and> (ok \<longleftrightarrow> j = pages len)"
  using assms(1-3)
proof (induction "pages len - k" arbitrary: k s)
  case 0
  then have "\<not> 4096 * k < len" by (simp add: less_pages)
  then show ?case using 0 by (auto simp: page_loop.simps [of body len "4096 * k" s])
next
  case (Suc n)
  then have k: "k < pages len" by simp
  then have lt: "4096 * k < len" by (simp add: less_pages)
  obtain b t where bt: "body (of_nat (4096 * k)) s = (b, t)" by fastforce
  show ?case
  proof (cases b)
    case True
    then have "page_loop body len (4096 * Suc k) t = (ok, s')"
      using Suc.prems(1) lt bt by (simp add: page_loop.simps [of body len "4096 * k" s] add.commute)
    then show ?thesis
      using Suc.hyps(1) [of "Suc k" t] Suc.hyps(2) k assms(4) [OF k Suc.prems(3) bt] True by simp
  next
    case False
    then have "ok = False" "s' = t"
      using Suc.prems(1) lt bt by (auto simp: page_loop.simps [of body len "4096 * k" s])
    then show ?thesis
      using assms(4) [OF k Suc.prems(3) bt] False k by (intro exI [of _ k]) simp
  qed
qed

lemma page_loop_succeeds:
  assumes "k \<le> pages len" and "I k s"
    and "\<And>j t. j < pages len \<Longrightarrow> I j t \<Longrightarrow> \<exists>t'. body (of_nat (4096 * j)) t = (True, t') \<and> I (Suc j) t'"
  shows "\<exists>s'. page_loop body len (4096 * k) s = (True, s') \<and> I (pages len) s'"
  using assms(1,2)
proof (induction "pages len - k" arbitrary: k s)
  case 0
  then have "\<not> 4096 * k < len" by (simp add: less_pages)
  then have "page_loop body len (4096 * k) s = (True, s)" by (simp add: page_loop.simps [of body len "4096 * k" s])
  moreover have "k = pages len" using 0 by simp
  ultimately show ?case using 0 by simp
next
  case (Suc n)
  then have k: "k < pages len" by simp
  then have lt: "4096 * k < len" by (simp add: less_pages)
  obtain t where t: "body (of_nat (4096 * k)) s = (True, t)" "I (Suc k) t"
    using assms(3) [OF k Suc.prems(2)] by blast
  then show ?case
    using Suc.hyps(1) [of "Suc k" t] Suc.hyps(2) k lt
    by (simp add: page_loop.simps [of body len "4096 * k" s] add.commute)
qed

text \<open>What a run of page updates from \<open>a\<close> on does to a view: \<open>g k\<close> on page \<open>k\<close>.\<close>

fun overlay :: "virt_addr \<Rightarrow> (nat \<Rightarrow> virt_addr \<Rightarrow> u64) \<Rightarrow> (virt_addr \<Rightarrow> u64) \<Rightarrow> nat \<Rightarrow> virt_addr \<Rightarrow> u64" where
  "overlay a g base 0 w = base w"
| "overlay a g base (Suc k) w =
     (if vpn w = vpn (a + of_nat (4096 * k)) then g k w else overlay a g base k w)"

lemma as_map_spec:
  assumes "vm_inv root s" and "as_map root a f len flags s = (ok, s')"
  shows "\<exists>j \<le> pages (unat len). (ok \<longleftrightarrow> j = pages (unat len)) \<and> vm_inv root s' \<and>
    (\<forall>w. resolve (qmem s') root w =
       overlay a (\<lambda>k w. ((f + of_nat (4096 * k)) AND pte_address_mask) + (w AND 4095)) (resolve (qmem s) root) j w) \<and>
    (\<forall>w. rights (qmem s') root w = overlay a (\<lambda>k w. flag_rights flags) (rights (qmem s) root) j w)"
proof -
  let ?I = "\<lambda>j t. vm_inv root t \<and>
    (\<forall>w. resolve (qmem t) root w =
       overlay a (\<lambda>k w. ((f + of_nat (4096 * k)) AND pte_address_mask) + (w AND 4095)) (resolve (qmem s) root) j w) \<and>
    (\<forall>w. rights (qmem t) root w = overlay a (\<lambda>k w. flag_rights flags) (rights (qmem s) root) j w)"
  have "\<exists>j \<le> pages (unat len). ?I j s' \<and> (ok \<longleftrightarrow> j = pages (unat len))"
  proof (rule page_loop_rule [where I = ?I])
    show "page_loop (\<lambda>offset. map_page root (a + offset) (f + offset) flags) (unat len) (4096 * 0) s = (ok, s')"
      using assms(2) by (simp add: as_map_def)
    show "?I 0 s" using assms(1) by simp
  next
    fix j t t' b
    assume "?I j t" and step: "map_page root (a + of_nat (4096 * j)) (f + of_nat (4096 * j)) flags t = (b, t')"
    then show "if b then ?I (Suc j) t' else ?I j t'"
      using map_page_spec [OF _ step] by simp
  qed simp
  then show ?thesis by blast
qed

lemma as_map_tables_kept:
  assumes "vm_inv root s" and "as_map root a f len flags s = (ok, s')"
  shows "tables_kept root s s'"
proof -
  let ?I = "\<lambda>j t. vm_inv root t \<and> tables_kept root s t"
  have "\<exists>j \<le> pages (unat len). ?I j s' \<and> (ok \<longleftrightarrow> j = pages (unat len))"
  proof (rule page_loop_rule [where I = ?I])
    show "page_loop (\<lambda>offset. map_page root (a + offset) (f + offset) flags) (unat len) (4096 * 0) s = (ok, s')"
      using assms(2) by (simp add: as_map_def)
    show "?I 0 s" using assms(1) by (simp add: tables_kept_refl)
  next
    fix j t t' b
    assume I: "?I j t" and step: "map_page root (a + of_nat (4096 * j)) (f + of_nat (4096 * j)) flags t = (b, t')"
    then have "?I j t'"
      using map_page_spec(1) [OF _ step] map_page_tables_kept [OF _ step] by (auto intro: tables_kept_trans)
    then show "if b then ?I (Suc j) t' else ?I j t'" by simp
  qed simp
  then show ?thesis by blast
qed

lemma as_unmap_spec:
  assumes "vm_inv root s" and "as_unmap cpus root a len s = (ok, s')"
  shows "\<exists>j \<le> pages (unat len). (ok \<longleftrightarrow> j = pages (unat len)) \<and> vm_inv root s' \<and>
    (\<forall>w. resolve (qmem s') root w = overlay a (\<lambda>k w. 0) (resolve (qmem s) root) j w) \<and>
    (\<forall>w. rights (qmem s') root w = overlay a (\<lambda>k w. 0) (rights (qmem s) root) j w)"
proof -
  let ?I = "\<lambda>j t. vm_inv root t \<and>
    (\<forall>w. resolve (qmem t) root w = overlay a (\<lambda>k w. 0) (resolve (qmem s) root) j w) \<and>
    (\<forall>w. rights (qmem t) root w = overlay a (\<lambda>k w. 0) (rights (qmem s) root) j w)"
  obtain s1 where s1: "page_loop (\<lambda>offset. unmap_page root (a + offset)) (unat len) (4096 * 0) s = (ok, s1)"
      "qmem s' = qmem s1" "frames s' = frames s1"
    using assms(2) by (auto simp: as_unmap_def split: prod.splits bool.splits if_splits)
  have "\<exists>j \<le> pages (unat len). ?I j s1 \<and> (ok \<longleftrightarrow> j = pages (unat len))"
  proof (rule page_loop_rule [OF s1(1), where I = ?I])
    show "?I 0 s" using assms(1) by simp
  next
    fix j t t' b
    assume "?I j t" and step: "unmap_page root (a + of_nat (4096 * j)) t = (b, t')"
    then show "if b then ?I (Suc j) t' else ?I j t'"
      using unmap_page_spec [OF _ step] by simp
  qed simp
  then show ?thesis using s1 by (auto simp: vm_inv_def)
qed

lemma as_protect_spec:
  assumes "vm_inv root s" and "as_protect root a len flags s = (ok, s')"
  shows "\<exists>j \<le> pages (unat len). (ok \<longleftrightarrow> j = pages (unat len)) \<and> vm_inv root s' \<and>
    (\<forall>w. resolve (qmem s') root w = resolve (qmem s) root w) \<and>
    (\<forall>w. rights (qmem s') root w = overlay a (\<lambda>k w. flag_rights flags) (rights (qmem s) root) j w)"
proof -
  let ?I = "\<lambda>j t. vm_inv root t \<and> (\<forall>w. resolve (qmem t) root w = resolve (qmem s) root w) \<and>
    (\<forall>w. rights (qmem t) root w = overlay a (\<lambda>k w. flag_rights flags) (rights (qmem s) root) j w)"
  have "\<exists>j \<le> pages (unat len). ?I j s' \<and> (ok \<longleftrightarrow> j = pages (unat len))"
  proof (rule page_loop_rule [where I = ?I])
    show "page_loop (\<lambda>offset. protect_page root (a + offset) flags) (unat len) (4096 * 0) s = (ok, s')"
      using assms(2) by (simp add: as_protect_def)
    show "?I 0 s" using assms(1) by simp
  next
    fix j t t' b
    assume "?I j t" and step: "protect_page root (a + of_nat (4096 * j)) flags t = (b, t')"
    then show "if b then ?I (Suc j) t' else ?I j t'"
      using protect_page_spec [OF _ step] by simp
  qed simp
  then show ?thesis by blast
qed

lemma vpn_offset:
  assumes "page_aligned a" "unat a + 4096 * n \<le> 2 ^ 48" "k < n" "unat w < 2 ^ 48"
  shows "vpn w = vpn (a + of_nat (4096 * k)) \<longleftrightarrow> unat w div 4096 = unat a div 4096 + k"
proof -
  have b: "unat (a + of_nat (4096 * k)) = unat a + 4096 * k"
    using assms(2,3) unat_u64_of_nat [of "4096 * k"] by (simp add: unat_u64_add del: of_nat_mult)
  have "vpn w = unat w div 4096" "vpn (a + of_nat (4096 * k)) = (unat a + 4096 * k) div 4096"
    using assms unfolding vpn_def b by (simp_all add: less_mult_imp_div_less)
  then show ?thesis by (simp add: add.commute)
qed

lemma div_4096_eq: "x div 4096 = (m :: nat) \<longleftrightarrow> 4096 * m \<le> x \<and> x < 4096 * m + 4096"
proof
  show "x div 4096 = m \<Longrightarrow> 4096 * m \<le> x \<and> x < 4096 * m + 4096"
    using div_mult_mod_eq [of x 4096] mod_less_divisor [of 4096 x] by linarith
qed (simp add: div_nat_eqI)

lemma overlay_range:
  assumes "page_aligned a" "unat a + 4096 * n \<le> 2 ^ 48" "unat w < 2 ^ 48"
  shows "overlay a g base n w =
    (if unat a \<le> unat w \<and> unat w < unat a + 4096 * n then g ((unat w - unat a) div 4096) w else base w)"
  using assms(2)
proof (induction n)
  case (Suc n)
  obtain q where q: "unat a = 4096 * q" using assms(1) unfolding page_aligned_def dvd_def by blast
  have v: "vpn w = vpn (a + of_nat (4096 * n)) \<longleftrightarrow> unat w div 4096 = q + n"
    using vpn_offset [OF assms(1) Suc.prems _ assms(3), of n] by (simp add: q)
  show ?case
  proof (cases "unat w div 4096 = q + n")
    case True
    then have "4096 * (q + n) \<le> unat w \<and> unat w < 4096 * (q + n) + 4096" by (simp add: div_4096_eq)
    moreover from this have "(unat w - 4096 * q) div 4096 = n" by (subst div_4096_eq) auto
    ultimately show ?thesis using v True by (simp add: q del: of_nat_mult)
  next
    case False
    then have "\<not> (4096 * (q + n) \<le> unat w \<and> unat w < 4096 * (q + n) + 4096)" by (simp add: div_4096_eq)
    then show ?thesis using v False Suc by (auto simp: q simp del: of_nat_mult)
  qed
qed auto

section \<open>Creating tables succeeds while frames are free\<close>

definition free_frames :: "mmu \<Rightarrow> nat" where
  "free_frames s = card ({..<managed_pages} - allocated (frames s))"

lemma allocate_table_succeeds:
  assumes good: "pa_good (frames s)" and "0 < free_frames s"
  obtains t s' where "allocate_table s = (Some t, s')" and "free_frames s' = free_frames s - 1"
proof -
  obtain res s' where a: "allocate_table s = (res, s')" by fastforce
  obtain g where g: "g < managed_pages" "g \<notin> allocated (frames s)"
    using assms(2) by (auto simp: free_frames_def card_gt_0_iff)
  obtain frame fr where fr: "alloc_page (frames s) = (frame, fr)" by fastforce
  have inv: "pa_inv (frames s)" using good by (simp add: pa_good_def)
  have "free_run (frames s) g (unat (1 :: u64))" using g by (simp add: free_run_def)
  then obtain f where "frame = of_nat f * 4096" "free_run (frames s) f 1"
    using alloc_pages_success [OF inv, of 1 g] fr unfolding alloc_page_def
    by (metis prod.inject unsigned_1 zero_neq_one)
  then have "frame \<noteq> 0"
    using good unat_page_address [of f] by (auto simp: free_run_def pa_good_def)
  then have "res \<noteq> None" using a fr by (auto simp: allocate_table_def Let_def)
  then obtain t where t: "res = Some t" by blast
  note spec = allocate_table_spec [OF good a, unfolded t option.case]
  then have "unat t div 4096 \<in> allocated (frames s')" by simp
  then have "unat t div 4096 < managed_pages" by (rule allocated_less)
  moreover have "{..<managed_pages} - allocated (frames s')
      = ({..<managed_pages} - allocated (frames s)) - {unat t div 4096}"
    using spec by auto
  ultimately have "free_frames s' = free_frames s - 1"
    using spec by (simp add: free_frames_def card_Diff_singleton)
  with a t that show thesis by simp
qed

lemma ensure_table_succeeds:
  assumes "vm_inv root s" and "0 < free_frames s"
  obtains s' where "ensure_table e True s = (True, s')"
    and "bit (qmem s e) 0 \<and> s' = s \<or>
      \<not> bit (qmem s e) 0 \<and> (\<exists>f. page_aligned f \<and> qmem s' e = virt_to_phys f OR pte_present OR pte_write) \<and>
      free_frames s' = free_frames s - 1"
proof (cases "bit (qmem s e) 0")
  case True
  then show thesis using that by (simp add: ensure_table_def pte_simps)
next
  case False
  have good: "pa_good (frames s)" using assms(1) by (simp add: vm_inv_def)
  obtain t s' where t: "allocate_table s = (Some t, s')" "free_frames s' = free_frames s - 1"
    using allocate_table_succeeds [OF good assms(2)] .
  then have "page_aligned t" using allocate_table_spec [OF good t(1)] by simp
  moreover have "free_frames (store e x s') = free_frames s'" for x
    by (simp add: free_frames_def)
  ultimately show thesis
    using that [of "store e (virt_to_phys t OR pte_present OR pte_write) s'"] t False
    by (auto simp: ensure_table_def pte_simps)
qed

lemma descend_succeeds:
  assumes good: "pa_good (frames s)" and "level = 1 \<and> bit (qmem s e) 7 \<Longrightarrow> 0 < free_frames s"
  obtains s' where "descend e level v True user s = (True, s')"
    and "free_frames s' = free_frames s \<or> bit (qmem s e) 7 \<and> free_frames s' = free_frames s - 1"
proof -
  define s1 where "s1 = (if user then store e (qmem s e OR pte_user) s else s)"
  have same: "frames s1 = frames s" "bit (qmem s1 e) 7 \<longleftrightarrow> bit (qmem s e) 7"
    by (simp_all add: s1_def bit_or_iff pte_simps)
  show thesis
  proof (cases "level = 1 \<and> bit (qmem s e) 7")
    case True
    then have "0 < free_frames s1" using assms(2) same by (simp add: free_frames_def)
    then obtain t s2 where t: "allocate_table s1 = (Some t, s2)" "free_frames s2 = free_frames s1 - 1"
      using allocate_table_succeeds [of s1] good same by metis
    obtain s' where s': "split_huge_page e v s1 = (True, s')" "frames s' = frames s2"
      using t(1) by (auto simp: split_huge_page_def Let_def)
    have "descend e level v True user s = (True, s')"
      using True same s' by (simp add: descend_def Let_def s1_def [symmetric] pte_simps)
    moreover have "free_frames s' = free_frames s - 1"
      using s'(2) t(2) same by (simp add: free_frames_def)
    ultimately show thesis using that True by blast
  next
    case False
    then have "descend e level v True user s = (True, s1)"
      using same by (auto simp: descend_def Let_def s1_def [symmetric] pte_simps)
    then show thesis using that same by (simp add: free_frames_def)
  qed
qed

lemma table_for_loop_succeeds:
  assumes "n \<le> 3" "vm_inv root s" "p = take (3 - n) (path_of v)" "walk (qmem s) 3 root p = Some t"
    and "n \<le> free_frames s"
  shows "\<exists>t' s'. table_for_loop n v True user t s = (Some t', s') \<and> free_frames s \<le> free_frames s' + n"
  using assms
proof (induction n arbitrary: s p t)
  case (Suc n)
  define i where "i = index_of v (Suc n)"
  define e where "e = slot t i"
  have len: "length p = 2 - n" "3 - length p = Suc n" using Suc.prems(1,3) by simp_all
  have ext: "take (3 - n) (path_of v) = p @ [i]"
  proof -
    have "n = 0 \<or> n = 1 \<or> n = 2" using Suc.prems(1) by auto
    then show ?thesis using Suc.prems(3)
      by (auto simp: path_of_def dir_path_def i_def numeral_3_eq_3 numeral_2_eq_2)
  qed
  have p: "valid_path (p @ [i])"
    using valid_path_of(1) [of v] valid_path_append [of "p @ [i]" "drop (3 - n) (path_of v)"]
    by (simp add: ext [symmetric])
  obtain s1 where s1: "ensure_table e True s = (True, s1)"
    "bit (qmem s e) 0 \<and> s1 = s \<or>
      \<not> bit (qmem s e) 0 \<and> (\<exists>f. page_aligned f \<and> qmem s1 e = virt_to_phys f OR pte_present OR pte_write) \<and>
      free_frames s1 = free_frames s - 1"
    using ensure_table_succeeds [OF Suc.prems(2), of e] Suc.prems(5) by auto
  note E = ensure_table_spec [OF Suc.prems(2) p Suc.prems(4) s1(1) [unfolded e_def]]
  have t1: "walk (qmem s1) 3 root p = Some t" "vm_inv root s1"
    using vm_sameD [OF E(1)] p Suc.prems(4) by simp_all
  have fresh: "s1 \<noteq> s \<Longrightarrow> \<not> bit (qmem s1 e) 7"
    using s1(2) by (auto simp: virt_to_phys_def bit_or_iff pte_simps page_aligned_bit)
  have "0 < free_frames s1" if "bit (qmem s1 e) 7"
    using that fresh Suc.prems(5) by (cases "s1 = s") auto
  then obtain s2 where s2: "descend e (Suc n) v True user s1 = (True, s2)"
    "free_frames s2 = free_frames s1 \<or> bit (qmem s1 e) 7 \<and> free_frames s2 = free_frames s1 - 1"
    using descend_succeeds [of s1 "Suc n" e v user] t1(2) by (auto simp: vm_inv_def)
  note D = descend_spec [OF t1(2) p t1(1) E(2), unfolded len(2), OF _ s2(1) [unfolded e_def]]
  have free: "free_frames s \<le> free_frames s2 + 1"
    using s1(2) s2(2) fresh by (cases "s1 = s") auto
  then obtain t' s' where "table_for_loop n v True user (table_at (qmem s2 e)) s2 = (Some t', s')"
      "free_frames s2 \<le> free_frames s' + n"
    using Suc.IH [OF _ vm_sameD(1) [OF D(1)] ext [symmetric] D(2)] Suc.prems(1,5) unfolding e_def by auto
  then show ?case
    using s1(1) s2(1) free by (simp add: i_def [symmetric] e_def [symmetric])
qed simp

lemma map_page_succeeds:
  assumes "vm_inv root s" and "3 \<le> free_frames s"
  shows "\<exists>s'. map_page root v f flags s = (True, s') \<and> free_frames s \<le> free_frames s' + 3"
proof -
  have "table_at root = root" using assms(1) by (rule vm_inv_root)
  then obtain t s1 where "table_for root v True (has_flag flags Flag_User) s = (Some t, s1)"
      "free_frames s \<le> free_frames s1 + 3"
    using table_for_loop_succeeds [of 3 root s "[]" v root "has_flag flags Flag_User"] assms
    by (auto simp: table_for_def)
  then show ?thesis by (auto simp: map_page_def free_frames_def)
qed

lemma as_map_succeeds:
  assumes "vm_inv root s" and "3 * pages (unat len) \<le> free_frames s"
  shows "\<exists>s'. as_map root a f len flags s = (True, s') \<and> free_frames s \<le> free_frames s' + 3 * pages (unat len)"
proof -
  let ?n = "pages (unat len)"
  let ?I = "\<lambda>j t. vm_inv root t \<and> 3 * (?n - j) \<le> free_frames t \<and> free_frames s \<le> free_frames t + 3 * j"
  have "\<exists>s'. page_loop (\<lambda>offset. map_page root (a + offset) (f + offset) flags) (unat len) (4096 * 0) s = (True, s') \<and>
      ?I ?n s'"
  proof (rule page_loop_succeeds [where I = ?I])
    fix j t assume j: "j < ?n" and I: "?I j t"
    then have "3 \<le> free_frames t" by linarith
    then obtain t' where t': "map_page root (a + of_nat (4096 * j)) (f + of_nat (4096 * j)) flags t = (True, t')"
        "free_frames t \<le> free_frames t' + 3"
      using map_page_succeeds I by blast
    moreover have "vm_inv root t'" using map_page_spec(1) [OF _ t'(1)] I by blast
    moreover have "3 * (?n - Suc j) \<le> free_frames t'" using I t'(2) j by linarith
    moreover have "free_frames s \<le> free_frames t' + 3 * Suc j" using I t'(2) by simp
    ultimately show "\<exists>t'. map_page root (a + of_nat (4096 * j)) (f + of_nat (4096 * j)) flags t = (True, t') \<and>
        ?I (Suc j) t'" by blast
  qed (use assms in simp_all)
  then show ?thesis by (auto simp: as_map_def)
qed

lemma pages_bound:
  assumes "page_aligned a" "unat a + n \<le> 2 ^ 48"
  shows "unat a + 4096 * pages n \<le> 2 ^ 48"
proof -
  obtain q where q: "unat a = 4096 * q" using assms(1) unfolding page_aligned_def dvd_def by blast
  have "4096 * (q + pages n) < 4096 * q + n + 4096" by (simp add: pages_def)
  also have "\<dots> \<le> 4096 * (2 ^ 36 + 1)" using assms(2) q by simp
  finally have "q + pages n \<le> 2 ^ 36" by simp
  then show ?thesis using q by simp
qed

lemma mapped_address:
  assumes "page_aligned a" "page_aligned f" "unat f + n \<le> 2 ^ 52" "unat a \<le> unat w"
    and "unat w < unat a + 4096 * pages n"
  shows "((f + of_nat (4096 * ((unat w - unat a) div 4096))) AND pte_address_mask) + (w AND 4095) = f + (w - a)"
proof -
  define k where "k = (unat w - unat a) div 4096"
  obtain q where q: "unat a = 4096 * q" using assms(1) unfolding page_aligned_def dvd_def by blast
  have "k < pages n" using assms(4,5) by (simp add: k_def less_mult_imp_div_less mult.commute)
  then have kn: "4096 * k < n" by (simp add: less_pages)
  have k64: "unat (of_nat (4096 * k) :: u64) = 4096 * k"
    using kn assms(3) by (intro unat_u64_of_nat) simp
  have fk: "unat (f + of_nat (4096 * k)) = unat f + 4096 * k"
    using kn assms(3) k64 by (simp add: unat_u64_add del: of_nat_mult)
  have "page_aligned (f + of_nat (4096 * k))"
    unfolding page_aligned_def fk using assms(2) by (simp add: page_aligned_def)
  then have m: "(f + of_nat (4096 * k)) AND pte_address_mask = f + of_nat (4096 * k)"
    using mask_frame fk kn assms(3) by simp
  have "w - a = of_nat (4096 * k) + (w AND 4095)"
  proof (rule u64_eqI)
    have "unat (w - a) = unat w - 4096 * q"
      using assms(4) q by (simp add: unat_u64_sub word_le_nat_alt)
    also have "\<dots> = 4096 * k + (unat w - 4096 * q) mod 4096"
      using q by (simp add: k_def)
    also have "(unat w - 4096 * q) mod 4096 = (unat w - 4096 * q + 4096 * q) mod 4096" by simp
    also have "unat w - 4096 * q + 4096 * q = unat w" using assms(4) q by simp
    also have "4096 * k + unat w mod 4096 = unat (of_nat (4096 * k) + (w AND 4095))"
      using k64 kn assms(3) by (simp add: unat_u64_add unat_and_4095 del: of_nat_mult)
    finally show "unat (w - a) = unat (of_nat (4096 * k) + (w AND 4095))" .
  qed
  then show ?thesis using m by (simp add: k_def add.assoc del: of_nat_mult)
qed

lemma as_map_range:
  assumes "vm_inv root s" and "page_aligned a" and "page_aligned f"
    and "unat a + unat len \<le> 2 ^ 48" and "unat f + unat len \<le> 2 ^ 52"
    and "as_map root a f len flags s = (ok, s')"
  shows "vm_inv root s' \<and> (\<forall>w. unat w < 2 ^ 48 \<longrightarrow>
    (if unat a \<le> unat w \<and> unat w < unat a + 4096 * pages (unat len)
     then ok \<longrightarrow> as_translate root w s' = f + (w - a) \<and> rights (qmem s') root w = flag_rights flags
     else as_translate root w s' = as_translate root w s \<and>
       rights (qmem s') root w = rights (qmem s) root w))"
proof -
  let ?n = "pages (unat len)"
  obtain j where j: "j \<le> ?n" "ok \<longleftrightarrow> j = ?n" "vm_inv root s'"
    "\<And>w. resolve (qmem s') root w = overlay a (\<lambda>k w. ((f + of_nat (4096 * k)) AND pte_address_mask) + (w AND 4095))
       (resolve (qmem s) root) j w"
    "\<And>w. rights (qmem s') root w = overlay a (\<lambda>k w. flag_rights flags) (rights (qmem s) root) j w"
    using as_map_spec [OF assms(1,6)] by blast
  have bound: "unat a + 4096 * ?n \<le> 2 ^ 48" using pages_bound assms(2,4) by blast
  then have bj: "unat a + 4096 * j \<le> 2 ^ 48" using j(1) by simp
  have "if unat a \<le> unat w \<and> unat w < unat a + 4096 * ?n
     then ok \<longrightarrow> as_translate root w s' = f + (w - a) \<and> rights (qmem s') root w = flag_rights flags
     else as_translate root w s' = as_translate root w s \<and>
       rights (qmem s') root w = rights (qmem s) root w" if "unat w < 2 ^ 48" for w
    unfolding vm_inv_translate [OF j(3)] vm_inv_translate [OF assms(1)] j(4,5)
      overlay_range [OF assms(2) bj that]
    using j(1,2) mapped_address [OF assms(2,3,5), of w] by auto
  then show ?thesis using j(3) by blast
qed

lemma as_unmap_range:
  assumes "vm_inv root s" and "page_aligned a" and "unat a + unat len \<le> 2 ^ 48"
    and "as_unmap cpus root a len s = (ok, s')"
  shows "vm_inv root s' \<and> (ok \<and> cpus > 1 \<longrightarrow> last (mmu_trace s') = TlbShootdownIpi) \<and>
    (\<forall>w. unat w < 2 ^ 48 \<longrightarrow>
      (if unat a \<le> unat w \<and> unat w < unat a + 4096 * pages (unat len)
       then ok \<longrightarrow> as_translate root w s' = 0 \<and> rights (qmem s') root w = 0
       else as_translate root w s' = as_translate root w s \<and>
         rights (qmem s') root w = rights (qmem s) root w))"
proof -
  let ?n = "pages (unat len)"
  obtain j where j: "j \<le> ?n" "ok \<longleftrightarrow> j = ?n" "vm_inv root s'"
    "\<And>w. resolve (qmem s') root w = overlay a (\<lambda>k w. 0) (resolve (qmem s) root) j w"
    "\<And>w. rights (qmem s') root w = overlay a (\<lambda>k w. 0) (rights (qmem s) root) j w"
    using as_unmap_spec [OF assms(1,4)] by blast
  have bound: "unat a + 4096 * ?n \<le> 2 ^ 48" using pages_bound assms(2,3) by blast
  then have bj: "unat a + 4096 * j \<le> 2 ^ 48" using j(1) by simp
  have "if unat a \<le> unat w \<and> unat w < unat a + 4096 * ?n
     then ok \<longrightarrow> as_translate root w s' = 0 \<and> rights (qmem s') root w = 0
     else as_translate root w s' = as_translate root w s \<and>
       rights (qmem s') root w = rights (qmem s) root w" if "unat w < 2 ^ 48" for w
    unfolding vm_inv_translate [OF j(3)] vm_inv_translate [OF assms(1)] j(4,5)
      overlay_range [OF assms(2) bj that]
    using j(1,2) by auto
  moreover have "ok \<and> cpus > 1 \<longrightarrow> last (mmu_trace s') = TlbShootdownIpi"
    using assms(4) by (auto simp: as_unmap_def emit_def split: prod.splits bool.splits)
  ultimately show ?thesis using j(3) by blast
qed

section \<open>Properties\<close>


text \<open>
  C5: three free frames for each page are enough for \<open>map\<close> to succeed.
\<close>

theorem as_map_enough_frames:
  assumes "vm_inv root s" and "3 * pages (unat len) \<le> free_frames s"
  shows "fst (as_map root a f len flags s)"
  using as_map_succeeds [OF assms, of a f flags] by auto

text \<open>
  C6: \<open>AddressSpace::unmap\<close>. On success nothing of the range is mapped any more and the other
  processors are told to flush; every other address keeps its translation and rights.
\<close>

theorem as_unmap_correct:
  assumes "vm_inv root s" and "page_aligned a" and "unat a + unat len \<le> 2 ^ 48"
    and "as_unmap cpus root a len s = (ok, s')"
  shows "vm_inv root s' \<and> (ok \<and> cpus > 1 \<longrightarrow> last (mmu_trace s') = TlbShootdownIpi) \<and>
    (\<forall>w. unat w < 2 ^ 48 \<longrightarrow>
      (if unat a \<le> unat w \<and> unat w < unat a + 4096 * pages (unat len)
       then ok \<longrightarrow> as_translate root w s' = 0 \<and> rights (qmem s') root w = 0
       else as_translate root w s' = as_translate root w s \<and>
         rights (qmem s') root w = rights (qmem s) root w))"
  using assms by (rule as_unmap_range)


section \<open>A user page inside a huge page\<close>

text \<open>
  The processor lets user code through only if every entry of the path has the user bit. The
  split of a huge page writes a new directory entry without it, after the walk had set it: a
  user page mapped into a huge page is not accessible until another walk passes.
\<close>

lemma table_for_step_present:
  assumes "bit (qmem s (slot t (index_of v (Suc n)))) 0" and "n \<noteq> 0"
  defines "s1 \<equiv> store (slot t (index_of v (Suc n))) (qmem s (slot t (index_of v (Suc n))) OR pte_user) s"
  shows "table_for_loop (Suc n) v create True t s
    = table_for_loop n v create True (qmem s (slot t (index_of v (Suc n))) AND pte_address_mask) s1"
proof -
  have "(x OR pte_user) AND pte_address_mask = x AND pte_address_mask" for x
    by (rule bit_word_eqI) (auto simp: bit_and_iff bit_or_iff pte_simps)
  then show ?thesis
    using assms(1,2) by (simp add: s1_def ensure_table_def descend_def Let_def pte_simps table_at_mask)
qed

theorem user_page_in_huge_page:
  assumes inv: "vm_inv root s" and d: "walk (qmem s) 3 root (dir_path v) = Some d"
    and huge: "bit (ent (qmem s) d (index_of v 1)) 0" "bit (ent (qmem s) d (index_of v 1)) 7"
    and user: "has_flag flags Flag_User" and ok: "map_page root v f flags s = (True, s')"
  shows "walk (qmem s') 3 root (dir_path v) = Some d \<and> \<not> bit (ent (qmem s') d (index_of v 1)) 2"
proof -
  have wf: "wf_tables (qmem s) root (allocated (frames s))" using inv by (simp add: vm_inv_def)
  define e3 where "e3 = slot root (index_of v 3)"
  define t2 where "t2 = qmem s e3 AND pte_address_mask"
  define e2 where "e2 = slot t2 (index_of v 2)"
  define e1 where "e1 = slot d (index_of v 1)"
  have p3: "bit (qmem s e3) 0" and w2: "walk (qmem s) 3 root [index_of v 3] = Some t2"
    and p2: "bit (qmem s e2) 0" and d2: "d = qmem s e2 AND pte_address_mask"
    using d by (auto simp: dir_path_def walk_levels next_table_def Let_def ent_def e3_def t2_def e2_def
        bind_eq_Some_conv split: if_splits)
  have v1: "valid_path [index_of v 3]" by (simp add: valid_path_def)
  have al: "page_aligned root" "page_aligned t2" "page_aligned d"
    using wf_root [OF wf] wf_aligned [OF wf w2] wf_aligned [OF wf d] by simp_all
  have "root \<noteq> t2" using wf_inj [OF wf valid_path_Nil v1, of t2] w2 by auto
  moreover have "root \<noteq> d" using wf_inj [OF wf valid_path_Nil valid_dir_path(1), of d v] d
    by (auto simp: dir_path_def)
  moreover have "t2 \<noteq> d" using wf_inj [OF wf v1 valid_dir_path(1), of d v] d w2
    by (auto simp: dir_path_def)
  ultimately have ne: "e3 \<noteq> e2" "e3 \<noteq> e1" "e2 \<noteq> e1"
    using al by (simp_all add: e3_def e2_def e1_def slot_eq_iff)
  define s1 where "s1 = store e3 (qmem s e3 OR pte_user) s"
  define s2 where "s2 = store e2 (qmem s e2 OR pte_user) s1"
  have inv1: "vm_inv root s1"
    using user_bit_vm [OF inv, of "[]" "index_of v 3" root] vm_sameD(1) by (simp add: s1_def e3_def valid_path_def)
  have w2': "walk (qmem s1) 3 root [index_of v 3] = Some t2"
    using w2 same_shape_walk [OF same_shape_user] by (simp add: s1_def del: fun_upd_apply)
  have q2: "qmem s1 e2 = qmem s e2" using ne by (simp add: s1_def)
  have same12: "vm_same root s1 s2"
    using user_bit_vm [OF inv1 _ w2', of "index_of v 2"] q2 by (simp add: s2_def e2_def valid_path_def)
  have d': "walk (qmem s2) 3 root (dir_path v) = Some d"
    using d same_shape_walk [OF same_shape_user]
    by (simp add: s2_def s1_def q2 [symmetric] del: fun_upd_apply)
  have h: "ent (qmem s2) d (index_of v 1) = ent (qmem s) d (index_of v 1)"
    using ne unfolding ent_def e1_def [symmetric] by (simp add: s2_def s1_def)
  have loop: "table_for root v True True s = table_for_loop 1 v True True d s2"
  proof -
    have "table_for root v True True s = table_for_loop (Suc 2) v True True root s"
      by (simp add: table_for_def vm_inv_root [OF inv])
    also have "\<dots> = table_for_loop 2 v True True t2 s1"
      using table_for_step_present [of s root v 2 True] p3 by (simp add: e3_def s1_def t2_def)
    also have "\<dots> = table_for_loop 1 v True True d s2"
      using table_for_step_present [of s1 t2 v 1 True] p2 q2 d2
      by (simp add: e2_def s2_def numeral_2_eq_2 del: table_for_loop.simps)
    finally show ?thesis .
  qed
  define s3 where "s3 = store e1 (qmem s2 e1 OR pte_user) s2"
  have inv2: "vm_inv root s2" using vm_sameD(1) [OF same12] .
  have s3: "vm_same root s2 s3"
    using user_bit_vm [OF inv2 _ d', of "index_of v 1"] by (simp add: s3_def e1_def)
  have d3: "walk (qmem s3) 3 root (dir_path v) = Some d" using vm_sameD(4) [OF s3 _ d'] by simp
  have huge3: "bit (ent (qmem s3) d (index_of v 1)) 0" "bit (ent (qmem s3) d (index_of v 1)) 7"
    using huge h by (simp_all add: s3_def ent_def e1_def bit_or_iff)
  obtain okk s4 where sp: "split_huge_page e1 v s3 = (okk, s4)" by fastforce
  have "okk" and tf: "table_for root v True True s = (Some (table_at (qmem s4 e1)), s4)"
  proof -
    have "bit (qmem s2 e1) 0" "bit (qmem s2 e1) 7"
      using huge h by (simp_all add: ent_def e1_def)
    then have e: "ensure_table e1 True s2 = (True, s2)" "descend e1 1 v True True s2 = (okk, s4)"
      using sp by (simp_all add: ensure_table_def descend_def Let_def pte_simps s3_def bit_or_iff)
    have "table_for_loop 1 v True True d s2
        = (if okk then (Some (table_at (qmem s4 e1)), s4) else (None, s4))"
      using table_for_loop.simps(2) [of 0 v True True d s2, folded One_nat_def, folded e1_def] e
      by (simp del: One_nat_def)
    then show "okk" and "table_for root v True True s = (Some (table_at (qmem s4 e1)), s4)"
      using loop ok user by (auto simp: map_page_def split: if_splits)
  qed
  have i3: "vm_inv root s3" using vm_sameD(1) [OF s3] .
  note split = split_huge_page_spec [OF i3 _ _ d3 huge3 sp [unfolded e1_def], simplified]
  have d4: "walk (qmem s4) 3 root (dir_path v) = Some d" using vm_sameD(4) [OF split(1) _ d3] by simp
  define t where "t = table_at (qmem s4 e1)"
  have t: "walk (qmem s4) 3 root (path_of v) = Some t"
    using split(2) \<open>okk\<close> by (simp add: path_of_def t_def e1_def)
  have inv4: "vm_inv root s4" using vm_sameD(1) [OF split(1)] .
  then have wf4: "wf_tables (qmem s4) root (allocated (frames s4))" by (simp add: vm_inv_def)
  have "t \<noteq> d" using wf_inj [OF wf4 _ _ t, of "dir_path v"] d4 by (auto simp: path_of_def)
  define e where "e = (f AND pte_address_mask) OR encode flags"
  have s': "qmem s' = (qmem s4)(slot t (index_of v 0) := e)"
    using ok tf user by (auto simp: map_page_def t_def e_def)
  have "walk (qmem s') 3 root (dir_path v) = Some d"
    using walk_leaf_write [OF wf4 _ _ t, of "index_of v 0" "dir_path v" e] d4 by (simp add: s' del: fun_upd_apply)
  moreover have "ent (qmem s') d (index_of v 1) = ent (qmem s4) d (index_of v 1)"
    using \<open>t \<noteq> d\<close> wf_aligned [OF wf4 t] wf_aligned [OF wf4 d4] by (simp add: s' ent_update del: fun_upd_apply)
  ultimately show ?thesis using split(3) \<open>okk\<close> by (simp add: ent_def e1_def)
qed

section \<open>Witnesses\<close>

text \<open>An empty address space with its root in frame 1; the 4096 frames from 16 on are free.\<close>

definition empty_vm :: mmu where
  "empty_vm = \<lparr>frames = free_pages 0x10000 4096 all_in_use, qmem = (\<lambda>_. 0), efer = 0, cr0 = 0,
     cr3 = 0, mmu_trace = []\<rparr>"

lemma empty_vm_frames:
  "pa_good (frames empty_vm)" "allocated (frames empty_vm) = {..<managed_pages} - {16..<4112}"
proof -
  have inv: "pa_inv all_in_use" and all: "allocated all_in_use = {..<managed_pages}"
    unfolding all_in_use_def by (rule all_used)+
  have "unat (0x10000 div 4096 :: u64) = 16" by (simp add: unat_div)
  then show a: "allocated (frames empty_vm) = {..<managed_pages} - {16..<4112}"
    using allocated_free_pages [OF inv, of "0x10000" 4096] by (simp add: empty_vm_def all)
  show "pa_good (frames empty_vm)"
    using free_pages_inv [OF inv] a by (simp add: pa_good_def empty_vm_def managed_pages_val)
qed

lemma empty_vm_walk: "walk (\<lambda>_. 0) l t p = (if p = [] then Some t else None)"
  by (cases p) (simp_all add: walk.simps next_table_def ent_def)

lemma empty_vm_inv: "vm_inv 0x1000 empty_vm"
proof -
  have "page_aligned 0x1000" by (simp add: page_aligned_def)
  then show ?thesis
    using empty_vm_frames
    by (auto simp: vm_inv_def wf_tables_def empty_vm_def empty_vm_walk ent_def managed_pages_val split: if_splits)
qed

lemma empty_vm_free: "free_frames empty_vm = 4096"
proof -
  have "{..<managed_pages} - allocated (frames empty_vm) = {16..<4112}"
    by (auto simp: empty_vm_frames managed_pages_val)
  then show ?thesis by (simp add: free_frames_def)
qed

lemma empty_vm_map: "\<exists>s'. as_map 0x1000 0x40000000 0x5000 8192 Flag_Write empty_vm = (True, s')"
  using as_map_succeeds [OF empty_vm_inv, of 8192 "0x40000000" "0x5000" Flag_Write] by (auto simp: empty_vm_free pages_def)


theorem as_map_enough_frames_witness:
  "fst (as_map 0x1000 0x40000000 0x5000 8192 Flag_Write empty_vm)"
  using as_map_enough_frames [OF empty_vm_inv, of 8192] by (simp add: empty_vm_free pages_def)

definition mapped_vm :: mmu where
  "mapped_vm = snd (as_map 0x1000 0x40000000 0x5000 8192 Flag_Write empty_vm)"

lemma mapped_vm_inv: "vm_inv 0x1000 mapped_vm"
proof -
  obtain s' where m: "as_map 0x1000 0x40000000 0x5000 8192 Flag_Write empty_vm = (True, s')"
    using empty_vm_map by blast
  then show ?thesis using as_map_spec [OF empty_vm_inv m] by (auto simp: mapped_vm_def)
qed

theorem as_unmap_correct_witness:
  "vm_inv 0x1000 (snd (as_unmap 2 0x1000 0x40000000 4096 mapped_vm)) \<and>
   as_translate 0x1000 0x40001234 (snd (as_unmap 2 0x1000 0x40000000 4096 mapped_vm))
     = as_translate 0x1000 0x40001234 mapped_vm"
proof -
  obtain ok s' where u: "as_unmap 2 0x1000 0x40000000 4096 mapped_vm = (ok, s')" by fastforce
  have al: "page_aligned 0x40000000" by (simp add: page_aligned_def)
  show ?thesis using as_unmap_correct [OF mapped_vm_inv al _ u] u by (simp add: pages_def)
qed


end
