(* ===== verification/Stacks.thy ===== *)
theory Stacks
  imports Paging_Map
begin

unbundle bit_operations_syntax

text \<open>
  The guard pages below the exception stacks and the boot stack, \<^verbatim>\<open>kernel/cpu/stacks.cpp\<close>, and
  the construction of the kernel address space, \<^verbatim>\<open>paging_init\<close> of \<^verbatim>\<open>kernel/mm/paging.cpp\<close>.

  Where the linker put the stacks and the sections of the image is a parameter.
\<close>

section \<open>Guard pages\<close>

definition exception_stack_size :: usize where "exception_stack_size = 16 * page_size"
definition exception_stacks :: nat where "exception_stacks = 3"
definition guard_pattern :: u8 where "guard_pattern = 0xA5"

definition sizeof_GuardedStack :: usize where
  "sizeof_GuardedStack = page_size + exception_stack_size"

definition stack_names :: "string list" where
  "stack_names = [''double fault'', ''nmi'', ''machine check'', ''kernel'']"

record guards =
  stacks_at :: virt_addr
  boot_stack_guard :: virt_addr
  guards_unmapped :: bool

definition guard_of :: "guards \<Rightarrow> nat \<Rightarrow> virt_addr" where
  "guard_of g index =
     (if index < exception_stacks then stacks_at g + of_nat index * sizeof_GuardedStack
      else boot_stack_guard g)"

definition guard_intact :: "guards \<Rightarrow> memory \<Rightarrow> nat \<Rightarrow> bool" where
  "guard_intact g m index \<longleftrightarrow>
     guards_unmapped g \<or> list_all (\<lambda>i. m (guard_of g index + of_nat i) = guard_pattern) [0..<4096]"

definition exception_stacks_init :: "guards \<Rightarrow> memory \<Rightarrow> memory" where
  "exception_stacks_init g m =
     fold (\<lambda>i m. memset m (guard_of g i) (ucast guard_pattern) page_size) [0..<exception_stacks + 1] m"

definition exception_stack_top :: "guards \<Rightarrow> u8 \<Rightarrow> virt_addr" where
  "exception_stack_top g ist_index =
     (if ist_index = 0 \<or> unat ist_index > exception_stacks then 0
      else stacks_at g + of_nat (unat ist_index - 1) * sizeof_GuardedStack + page_size + exception_stack_size)"

definition stack_guards_intact :: "guards \<Rightarrow> memory \<Rightarrow> bool" where
  "stack_guards_intact g m \<longleftrightarrow> list_all (guard_intact g m) [0..<exception_stacks + 1]"

definition unmap_stack_guards :: "nat \<Rightarrow> phys_addr \<Rightarrow> guards \<Rightarrow> mmu \<Rightarrow> guards \<times> mmu" where
  "unmap_stack_guards cpus root g s =
     (g\<lparr>guards_unmapped := True\<rparr>,
      fold (\<lambda>i s. snd (as_unmap cpus root (guard_of g i) page_size s)) [0..<exception_stacks + 1] s)"

definition guard_page_owner :: "guards \<Rightarrow> virt_addr \<Rightarrow> string option" where
  "guard_page_owner g address =
     (let page = address AND NOT (page_size - 1)
      in map_option (\<lambda>i. stack_names ! i) (find (\<lambda>i. guard_of g i = page) [0..<exception_stacks + 1]))"

definition overflowed_stack_name :: "guards \<Rightarrow> memory \<Rightarrow> string option" where
  "overflowed_stack_name g m =
     map_option (\<lambda>i. stack_names ! i) (find (\<lambda>i. \<not> guard_intact g m i) [0..<exception_stacks + 1])"

section \<open>The kernel address space\<close>

record image =
  image_start :: virt_addr
  text_start :: virt_addr
  text_end :: virt_addr
  rodata_start :: virt_addr
  rodata_end :: virt_addr
  data_start :: virt_addr
  data_end :: virt_addr

datatype paging_panic = NoTopLevelTable | NoDirectMap

definition direct_map :: "u64 \<Rightarrow> mmu \<Rightarrow> mmu" where
  "direct_map directory s =
     fold (\<lambda>i. store (slot directory (of_nat i))
             (of_nat i * huge_page_size OR pte_present OR pte_write OR pte_huge OR pte_no_execute))
       (takeWhile (\<lambda>i. of_nat i * huge_page_size < direct_limit) [0..<512]) s"

definition map_image :: "phys_addr \<Rightarrow> image \<Rightarrow> mmu \<Rightarrow> mmu" where
  "map_image root k s =
     (let s1 = snd (as_map root (image_start k) (virt_to_phys (image_start k))
                 (text_start k - image_start k) Flag_NoExecute s);
          s2 = snd (as_map root (text_start k) (virt_to_phys (text_start k))
                 (text_end k - text_start k) Flag_None s1);
          s3 = snd (as_map root (rodata_start k) (virt_to_phys (rodata_start k))
                 (rodata_end k - rodata_start k) Flag_NoExecute s2)
      in snd (as_map root (data_start k) (virt_to_phys (data_start k))
           (data_end k - data_start k) (Flag_Write OR Flag_NoExecute) s3))"

definition paging_init ::
  "nat \<Rightarrow> image \<Rightarrow> guards \<Rightarrow> mmu \<Rightarrow> paging_panic + phys_addr \<times> guards \<times> mmu" where
  "paging_init cpus k g s =
     (case allocate_table (enable_no_execute s) of
        (None, _) \<Rightarrow> Inl NoTopLevelTable
      | (Some pml4, s1) \<Rightarrow>
          let root = virt_to_phys pml4;
              (pdpt, s2) = allocate_table s1;
              (directory, s3) = allocate_table s2
          in case (pdpt, directory) of
               (Some p, Some d) \<Rightarrow>
                 let s4 = store (slot pml4 0) (virt_to_phys p OR pte_present OR pte_write) s3;
                     s5 = store (slot p 0) (virt_to_phys d OR pte_present OR pte_write) s4;
                     s6 = map_image root k (direct_map d s5);
                     s7 = enable_write_protect (as_activate root s6);
                     (g', s8) = unmap_stack_guards cpus root g s7
                 in Inr (root, g', s8)
             | _ \<Rightarrow> Inl NoDirectMap)"

section \<open>The tables of the direct map\<close>

lemma overlay_pred:
  assumes "\<And>k. k < n \<Longrightarrow> vpn w = vpn (a + of_nat (4096 * k)) \<Longrightarrow> Q (g k w)" and "Q (base w)"
  shows "Q (overlay a g base n w)"
  using assms by (induction n) auto

lemma mask_align_down:
  assumes "unat x < 2 ^ 52"
  shows "x AND pte_address_mask = x AND NOT 4095"
proof (rule bit_word_eqI)
  fix n assume "n < LENGTH(64)"
  have eq: "(4095 :: u64) = mask 12" by (simp add: mask_eq_exp_minus_1)
  have "bit (4095 :: u64) n \<longleftrightarrow> n < 12" unfolding eq by (simp only: bit_mask_iff) auto
  then show "bit (x AND pte_address_mask) n \<longleftrightarrow> bit (x AND NOT 4095) n"
    using high_bits_zero [OF assms, of n] \<open>n < LENGTH(64)\<close>
    unfolding bit_and_iff bit_not_iff bit_address_mask by (cases "52 \<le> n") auto
qed

lemma same_page:
  assumes "vpn w = vpn x" "unat w < 2 ^ 48" "unat x < 2 ^ 48"
  shows "(x AND pte_address_mask) + (w AND 4095) = w" and "unat w div 4096 = unat x div 4096"
proof -
  show d: "unat w div 4096 = unat x div 4096"
    using assms by (simp add: vpn_def less_mult_imp_div_less)
  have x: "x AND pte_address_mask = x AND NOT 4095" using assms(3) by (intro mask_align_down) simp
  have "unat (x AND NOT 4095) = unat w div 4096 * 4096"
    unfolding unat_page_align_down d by (simp add: minus_mod_eq_div_mult)
  then have "unat ((x AND NOT 4095) + (w AND 4095)) = unat w"
    using assms(2) unat_and_4095 [of w] by (subst unat_u64_add) (simp_all)
  then show "(x AND pte_address_mask) + (w AND 4095) = w" using x by (simp add: u64_eqI)
qed

lemma direct_map_fill:
  "direct_map d s = fill_table d (\<lambda>i. i * huge_page_size OR pte_present OR pte_write OR pte_huge OR pte_no_execute) s"
proof -
  have "(of_nat i * huge_page_size :: u64) < direct_limit" if "i < 512" for i
  proof -
    have "unat (of_nat i * huge_page_size :: u64) = i * 2097152"
      using that by (simp add: huge_page_size_def unat_u64_mult unat_u64_of_nat)
    then show ?thesis using that by (simp add: direct_limit_def word_less_nat_alt)
  qed
  then have "takeWhile (\<lambda>i. (of_nat i * huge_page_size :: u64) < direct_limit) [0..<512] = [0..<512]"
    by (subst takeWhile_eq_all_conv) (simp del: upt.simps)
  then show ?thesis unfolding direct_map_def fill_table_def by (simp only:)
qed

text \<open>The entries of the direct map.\<close>

definition direct_entry :: "u64 \<Rightarrow> u64" where
  "direct_entry i = i * huge_page_size OR pte_present OR pte_write OR pte_huge OR pte_no_execute"

lemma direct_entry_facts:
  assumes "i < 512"
  shows "bit (direct_entry i) 0" "bit (direct_entry i) 7"
    "direct_entry i AND pte_address_mask = i * 2097152" "unat (i * 2097152) = unat i * 2097152"
    "rights_of (direct_entry i) v = pte_present OR pte_write OR pte_no_execute"
proof -
  have i: "unat i < 512" using assms by (simp add: word_less_nat_alt)
  show u: "unat (i * 2097152) = unat i * 2097152" using i by (simp add: unat_u64_mult)
  have al: "page_aligned (i * 2097152)" unfolding page_aligned_def u by (simp add: dvd_mult)
  have m: "(i * 2097152) AND pte_address_mask = i * 2097152"
    using al u i by (intro mask_frame) simp_all
  have b: "bit (i * 2097152) n \<Longrightarrow> bit pte_address_mask n" for n using m by (metis bit_and_iff)
  have low: "\<And>n. n < 12 \<Longrightarrow> \<not> bit (i * 2097152) n" using al by (simp add: page_aligned_bit)
  show "bit (direct_entry i) 0" "bit (direct_entry i) 7"
    by (simp_all add: direct_entry_def bit_or_iff pte_simps)
  show "direct_entry i AND pte_address_mask = i * 2097152"
    by (rule bit_word_eqI) (use b in \<open>auto simp: direct_entry_def huge_page_size_def bit_and_iff bit_or_iff pte_simps\<close>)
  have "direct_entry i AND NOT (pte_address_mask OR pte_huge OR pte_user) = pte_present OR pte_write OR pte_no_execute"
    by (rule bit_word_eqI)
      (use b in \<open>auto simp: direct_entry_def huge_page_size_def bit_and_iff bit_or_iff bit_not_iff pte_simps\<close>)
  then show "rights_of (direct_entry i) v = pte_present OR pte_write OR pte_no_execute"
    by (simp add: rights_of_def direct_entry_def bit_or_iff pte_simps)
qed

lemma direct_tables_walk:
  assumes r: "\<And>i. i < 512 \<Longrightarrow> ent m r i = (if i = 0 then virt_to_phys p OR pte_present OR pte_write else 0)"
    and p: "\<And>i. i < 512 \<Longrightarrow> ent m p i = (if i = 0 then virt_to_phys d OR pte_present OR pte_write else 0)"
    and d: "\<And>i. i < 512 \<Longrightarrow> ent m d i = direct_entry i"
    and al: "page_aligned p" "unat p < 1073741824" "page_aligned d" "unat d < 1073741824"
    and q: "valid_path q"
  shows "walk m 3 r q = (if q = [] then Some r else if q = [0] then Some p else if q = [0, 0] then Some d else None)"
proof -
  have n3: "next_table m 3 r i = (if i = 0 then Some p else None)" if "i < 512" for i
    using linked_entry [OF al(1,2)] r [OF that] by (simp add: next_table_def Let_def)
  have n2: "next_table m 2 p i = (if i = 0 then Some d else None)" if "i < 512" for i
    using linked_entry [OF al(3,4)] p [OF that] by (simp add: next_table_def Let_def)
  have n1: "next_table m 1 d i = None" if "i < 512" for i
    using direct_entry_facts(1,2) [OF that] d [OF that] by (simp add: next_table_def Let_def)
  consider "q = []" | i where "q = [i]" "i < 512" | i j where "q = [i, j]" "i < 512" "j < 512"
    | i j k where "q = [i, j, k]" "i < 512" "j < 512" "k < 512"
    using q by (auto simp: valid_path_def le_Suc_eq numeral_3_eq_3 length_Suc_conv)
  then show ?thesis
    by cases (use n1 in \<open>auto simp: walk.simps n3 n2 One_nat_def [symmetric] simp del: One_nat_def\<close>)
qed

lemma direct_tables:
  assumes r: "\<And>i. i < 512 \<Longrightarrow> ent m r i = (if i = 0 then virt_to_phys p OR pte_present OR pte_write else 0)"
    and p: "\<And>i. i < 512 \<Longrightarrow> ent m p i = (if i = 0 then virt_to_phys d OR pte_present OR pte_write else 0)"
    and d: "\<And>i. i < 512 \<Longrightarrow> ent m d i = direct_entry i"
    and al: "page_aligned r" "page_aligned p" "unat p < 1073741824" "page_aligned d" "unat d < 1073741824"
    and used: "unat r div 4096 \<in> used" "unat p div 4096 \<in> used" "unat d div 4096 \<in> used"
    and ne: "r \<noteq> p" "r \<noteq> d" "p \<noteq> d"
  shows "wf_tables m r used"
    and "unat v < 2 ^ 48 \<Longrightarrow> resolve m r v = (if unat v < 2 ^ 30 then v else 0)"
    and "rights m r v \<in> {0, pte_present OR pte_write OR pte_no_execute}"
proof -
  have W: "walk m 3 r q = (if q = [] then Some r else if q = [0] then Some p else if q = [0, 0] then Some d else None)"
    if "valid_path q" for q
    using r p d al(2-5) that by (rule direct_tables_walk)
  show "wf_tables m r used"
    unfolding wf_tables_def
  proof (intro conjI allI impI)
    show "page_aligned r" by (rule al)
  next
    fix q t assume "valid_path q" "walk m 3 r q = Some t"
    then show "unat t div 4096 \<in> used" using W [of q] used by (auto split: if_splits)
  next
    fix q q' t assume "valid_path q" "valid_path q'" "walk m 3 r q = Some t" "walk m 3 r q' = Some t"
    then show "q = q'" using W [of q] W [of q'] ne by (auto split: if_splits)
  next
    fix q and t i :: u64 assume "valid_path q" "length q < 2" "walk m 3 r q = Some t" "i < 512" "bit (ent m t i) 0"
    then show "\<not> bit (ent m t i) 7"
      using W [of q] r [of i] p [of i] linked_entry(2) [OF al(2,3)] linked_entry(2) [OF al(4,5)]
      by (auto split: if_splits)
  next
    fix q and t i :: u64 assume q: "valid_path q" "length q = 2" "walk m 3 r q = Some t" "i < 512"
    then have "t = d" using W [of q] by (auto split: if_splits)
    then show "2097152 dvd unat (ent m t i AND pte_address_mask)"
      using d [OF q(4)] direct_entry_facts(3,4) [OF q(4)] by simp
  qed
  have zero: "index_of v 3 = 0 \<and> index_of v 2 = 0 \<longleftrightarrow> vpn v < 262144"
    unfolding word_unat_eq_iff unat_index_of_vpn using div_mult2_eq [of "vpn v" 512 512]
    by (auto simp: div_eq_0_iff mod_eq_self_iff_div_eq_0)
  have w: "walk m 3 r (path_of v) = None" "walk m 3 r (dir_path v) = (if vpn v < 262144 then Some d else None)"
    using W [OF valid_path_of(1) [of v]] W [OF valid_dir_path(1) [of v]] zero
    by (auto simp: path_of_def dir_path_def)
  show "rights m r v \<in> {0, pte_present OR pte_write OR pte_no_execute}"
    using w d [of "index_of v 1"] direct_entry_facts(5) [of "index_of v 1" v] by (simp add: rights_def view_def)
  assume v: "unat v < 2 ^ 48"
  then have vv: "vpn v = unat v div 4096" by (simp add: vpn_def less_mult_imp_div_less)
  have "huge_page (direct_entry (index_of v 1)) v = v" if "vpn v < 262144"
  proof -
    have "unat (index_of v 1) = unat v div 2097152"
      unfolding unat_index_of_vpn vv using that vv
      by (simp add: div_mult2_eq [symmetric] less_mult_imp_div_less)
    moreover have "v AND 2097151 = v mod 2097152"
      using take_bit_eq_mask [of 21 v] by (simp add: take_bit_eq_mod mask_eq_exp_minus_1)
    then have "unat (v AND 2097151) = unat v mod 2097152" by (simp add: unat_mod_distrib)
    ultimately have "unat (index_of v 1 * 2097152 + (v AND 2097151)) = unat v"
      using v direct_entry_facts(4) [of "index_of v 1"] by (subst unat_u64_add) simp_all
    then show ?thesis
      using direct_entry_facts(1,3) [of "index_of v 1"] by (simp add: huge_page_def leaf_address_def u64_eqI)
  qed
  moreover have "vpn v < 262144 \<longleftrightarrow> unat v < 2 ^ 30" unfolding vv by auto
  ultimately show "resolve m r v = (if unat v < 2 ^ 30 then v else 0)"
    using w d [of "index_of v 1"] by (simp add: resolve_def view_def)
qed

section \<open>Identity mapping without writable code\<close>

definition identity_map :: "phys_addr \<Rightarrow> mmu \<Rightarrow> bool" where
  "identity_map root s \<longleftrightarrow> (\<forall>v. unat v < 2 ^ 48 \<longrightarrow> resolve (qmem s) root v = (if unat v < 2 ^ 30 then v else 0))"

definition writable_code :: "u64 \<Rightarrow> bool" where
  "writable_code e \<longleftrightarrow> bit e 0 \<and> bit e 1 \<and> \<not> bit e 63"

lemma identity_map_range:
  assumes "vm_inv root s" and "identity_map root s" and "unat a + unat len \<le> 2 ^ 30"
    and "as_map root a (virt_to_phys a) len flags s = (ok, s')"
  shows "vm_inv root s'" "identity_map root s'"
proof -
  let ?g = "\<lambda>k w. ((a + of_nat (4096 * k)) AND pte_address_mask) + (w AND 4095)"
  obtain j where j: "j \<le> pages (unat len)" "vm_inv root s'"
    "\<And>w. resolve (qmem s') root w = overlay a ?g (resolve (qmem s) root) j w"
    using as_map_spec [OF assms(1,4)] by (auto simp: virt_to_phys_def)
  show "vm_inv root s'" by (rule j(2))
  show "identity_map root s'"
    unfolding identity_map_def
  proof (intro allI impI)
    fix w :: virt_addr assume w: "unat w < 2 ^ 48"
    show "resolve (qmem s') root w = (if unat w < 2 ^ 30 then w else 0)"
      unfolding j(3)
    proof (rule overlay_pred [where Q = "\<lambda>x. x = (if unat w < 2 ^ 30 then w else 0)"])
      fix k assume k: "k < j" and v: "vpn w = vpn (a + of_nat (4096 * k))"
      have "k < pages (unat len)" using k j(1) by simp
      then have kl: "4096 * k < unat len" by (simp add: less_pages)
      have x: "unat (a + of_nat (4096 * k)) = unat a + 4096 * k"
        using kl assms(3) unat_u64_of_nat [of "4096 * k"] by (simp add: unat_u64_add del: of_nat_mult)
      then have x30: "unat (a + of_nat (4096 * k)) < 2 ^ 30" using kl assms(3) by simp
      then have "unat (a + of_nat (4096 * k)) < 2 ^ 48" by simp
      note P = same_page [OF v w this]
      have "unat w < 2 ^ 30"
      proof -
        have "unat (a + of_nat (4096 * k)) div 4096 < 262144" using x30 by simp
        then have "unat w div 4096 < 262144" by (simp only: P(2))
        then show ?thesis by simp
      qed
      then show "?g k w = (if unat w < 2 ^ 30 then w else 0)" using P(1) by simp
    next
      show "resolve (qmem s) root w = (if unat w < 2 ^ 30 then w else 0)"
        using assms(2) w by (simp add: identity_map_def)
    qed
  qed
qed

lemma no_writable_code_map:
  assumes "vm_inv root s" and "\<forall>v. \<not> writable_code (rights (qmem s) root v)"
    and "\<not> writable_code (flag_rights flags)" and "as_map root a f len flags s = (ok, s')"
  shows "\<not> writable_code (rights (qmem s') root v)"
proof -
  obtain j where "\<And>w. rights (qmem s') root w = overlay a (\<lambda>k w. flag_rights flags) (rights (qmem s) root) j w"
    using as_map_spec [OF assms(1,4)] by blast
  then show ?thesis
    using assms(2,3) overlay_pred [where Q = "\<lambda>e. \<not> writable_code e" and g = "\<lambda>k w. flag_rights flags"] by metis
qed

lemma unmap_guard_page:
  assumes "vm_inv root s" and "as_unmap cpus root a page_size s = (ok, s')"
  shows "vm_inv root s'" "resolve (qmem s') root v = (if ok \<and> vpn v = vpn a then 0 else resolve (qmem s) root v)"
    "rights (qmem s') root v = (if ok \<and> vpn v = vpn a then 0 else rights (qmem s) root v)"
proof -
  have one: "pages (unat page_size) = 1" by (simp add: pages_def)
  obtain j where j: "j \<le> 1" "ok \<longleftrightarrow> j = 1" "vm_inv root s'"
    "\<And>w. resolve (qmem s') root w = overlay a (\<lambda>k w. 0) (resolve (qmem s) root) j w"
    "\<And>w. rights (qmem s') root w = overlay a (\<lambda>k w. 0) (rights (qmem s) root) j w"
    using as_unmap_spec [OF assms] unfolding one by blast
  then show "vm_inv root s'" by blast
  have "j = 0 \<or> j = Suc 0" using j(1) by auto
  then show "resolve (qmem s') root v = (if ok \<and> vpn v = vpn a then 0 else resolve (qmem s) root v)"
    "rights (qmem s') root v = (if ok \<and> vpn v = vpn a then 0 else rights (qmem s) root v)"
    using j by auto
qed

lemma unmap_guards_fold:
  fixes g :: guards and cpus :: nat
  assumes "vm_inv root s" and "\<forall>v. \<not> writable_code (rights (qmem s) root v)"
  defines "s' \<equiv> \<lambda>is. fold (\<lambda>i s. snd (as_unmap cpus root (guard_of g i) page_size s)) is s"
  shows "vm_inv root (s' is) \<and> (\<forall>v. \<not> writable_code (rights (qmem (s' is)) root v)) \<and>
    (\<forall>v. resolve (qmem (s' is)) root v \<in> {0, resolve (qmem s) root v}) \<and>
    (\<forall>v. (\<forall>i \<in> set is. vpn v \<noteq> vpn (guard_of g i)) \<longrightarrow> resolve (qmem (s' is)) root v = resolve (qmem s) root v)"
  unfolding s'_def using assms(1,2)
proof (induction "is" arbitrary: s)
  case (Cons i "is")
  obtain ok s1 where u: "as_unmap cpus root (guard_of g i) page_size s = (ok, s1)" by fastforce
  note U = unmap_guard_page [OF Cons.prems(1) u]
  have "\<forall>v. \<not> writable_code (rights (qmem s1) root v)"
    using U(3) Cons.prems(2) by (simp add: writable_code_def)
  note IH = Cons.IH [OF U(1) this]
  define t where "t = fold (\<lambda>i s. snd (as_unmap cpus root (guard_of g i) page_size s)) is s1"
  have t: "fold (\<lambda>i s. snd (as_unmap cpus root (guard_of g i) page_size s)) (i # is) s = t"
    using u by (simp add: t_def)
  have "resolve (qmem t) root v \<in> {0, resolve (qmem s) root v}" for v
    using IH U(2) [of v] by (metis t_def empty_iff insert_iff)
  moreover have "resolve (qmem t) root v = resolve (qmem s) root v"
    if "\<forall>j \<in> set (i # is). vpn v \<noteq> vpn (guard_of g j)" for v
    using IH U(2) [of v] that by (simp add: t_def)
  ultimately show ?case unfolding t using IH by (simp add: t_def)
qed simp

lemma register_simps [simp]:
  "qmem (enable_no_execute s) = qmem s" "frames (enable_no_execute s) = frames s"
  "qmem (enable_write_protect s) = qmem s" "frames (enable_write_protect s) = frames s"
  "qmem (as_activate r s) = qmem s" "frames (as_activate r s) = frames s"
  by (simp_all add: enable_no_execute_def enable_write_protect_def as_activate_def)

definition image_ok :: "image \<Rightarrow> bool" where
  "image_ok k \<longleftrightarrow> image_start k \<le> text_start k \<and> text_start k \<le> text_end k \<and>
     rodata_start k \<le> rodata_end k \<and> data_start k \<le> data_end k \<and>
     unat (text_start k) \<le> 2 ^ 30 \<and> unat (text_end k) \<le> 2 ^ 30 \<and>
     unat (rodata_end k) \<le> 2 ^ 30 \<and> unat (data_end k) \<le> 2 ^ 30"

lemma section_bound: "x \<le> y \<Longrightarrow> unat y \<le> 2 ^ 30 \<Longrightarrow> unat x + unat (y - x :: u64) \<le> 2 ^ 30"
  by (simp add: unat_u64_sub word_le_nat_alt)

lemma image_flags:
  "\<not> writable_code (flag_rights Flag_NoExecute)" "\<not> writable_code (flag_rights Flag_None)"
  "\<not> writable_code (flag_rights (Flag_Write OR Flag_NoExecute))"
  by (simp_all add: writable_code_def flag_rights_def encode_def has_flag_def Flag_NoExecute_def Flag_None_def
      Flag_Write_def Flag_User_def Flag_Global_def Flag_NoCache_def bit_and_iff bit_or_iff bit_not_iff pte_simps)

lemma map_image_spec:
  assumes "vm_inv root s" "identity_map root s" "\<forall>v. \<not> writable_code (rights (qmem s) root v)" "image_ok k"
  shows "vm_inv root (map_image root k s) \<and> identity_map root (map_image root k s) \<and>
    (\<forall>v. \<not> writable_code (rights (qmem (map_image root k s)) root v))"
proof -
  have step: "vm_inv root (snd (as_map root a (virt_to_phys a) len flags t)) \<and>
      identity_map root (snd (as_map root a (virt_to_phys a) len flags t)) \<and>
      (\<forall>v. \<not> writable_code (rights (qmem (snd (as_map root a (virt_to_phys a) len flags t))) root v))"
    if "vm_inv root t \<and> identity_map root t \<and> (\<forall>v. \<not> writable_code (rights (qmem t) root v))"
      "unat a + unat len \<le> 2 ^ 30" "\<not> writable_code (flag_rights flags)" for a len flags t
    using that identity_map_range [of root t a len flags] no_writable_code_map [of root t flags a _ len]
    by (cases "as_map root a (virt_to_phys a) len flags t") auto
  show ?thesis
    unfolding map_image_def Let_def
    by (intro step image_flags section_bound conjI)
      (use assms in \<open>auto simp: image_ok_def\<close>)
qed

lemma paging_init_tables:
  assumes good: "pa_good (frames s)" and "allocate_table s = (Some r, s1)"
    and "allocate_table s1 = (Some p, s2)" and "allocate_table s2 = (Some d, s3)"
  defines "s5 \<equiv> direct_map d (store (slot p 0) (virt_to_phys d OR pte_present OR pte_write)
      (store (slot r 0) (virt_to_phys p OR pte_present OR pte_write) s3))"
  shows "vm_inv r s5" "identity_map r s5" "\<not> writable_code (rights (qmem s5) r v)"
proof -
  note A = allocate_table_spec [OF good assms(2), unfolded option.case]
  then have g1: "pa_good (frames s1)" by blast
  note B = allocate_table_spec [OF g1 assms(3), unfolded option.case]
  then have g2: "pa_good (frames s2)" by blast
  note C = allocate_table_spec [OF g2 assms(4), unfolded option.case]
  have used: "allocated (frames s5) = allocated (frames s3)" "pa_good (frames s5)"
    using C by (simp_all add: s5_def direct_map_fill)
  have fr: "unat r div 4096 \<in> allocated (frames s3)" "unat p div 4096 \<in> allocated (frames s3)"
      "unat d div 4096 \<in> allocated (frames s3)"
    using A B C by simp_all
  have ne: "r \<noteq> p" "r \<noteq> d" "p \<noteq> d" using A B C by auto
  have al: "page_aligned r" "page_aligned p" "page_aligned d" using A B C by simp_all
  have lt: "unat p < 1073741824" "unat d < 1073741824" using fr allocated_frame_less by blast+
  have z: "ent (qmem s3) r j = 0" "ent (qmem s3) p j = 0" if "j < 512" for j
    using A B C al ne that by simp_all
  have er: "ent (qmem s5) r j = (if j = 0 then virt_to_phys p OR pte_present OR pte_write else 0)" if "j < 512" for j
    using al ne that z by (simp add: s5_def direct_map_fill ent_fill_table ent_update del: fun_upd_apply)
  have ep: "ent (qmem s5) p j = (if j = 0 then virt_to_phys d OR pte_present OR pte_write else 0)" if "j < 512" for j
    using al ne that z by (simp add: s5_def direct_map_fill ent_fill_table ent_update del: fun_upd_apply)
  have ed: "ent (qmem s5) d j = direct_entry j" if "j < 512" for j
    using al that by (simp add: s5_def direct_map_fill ent_fill_table direct_entry_def)
  note D = direct_tables [OF er ep ed al(1,2) lt(1) al(3) lt(2) fr ne]
  show "vm_inv r s5" using D(1) used by (simp add: vm_inv_def)
  show "identity_map r s5" using D(2) by (simp add: identity_map_def)
  show "\<not> writable_code (rights (qmem s5) r v)"
    using D(3) [of v] by (auto simp: writable_code_def bit_or_iff pte_simps)
qed

lemma memset_any:
  "memset m dest value cnt a = (if unat (a - dest) < unat cnt then ucast value else m a)"
  using memset_spec [of "unat (a - dest)" m dest _ cnt] u64_bound [of "a - dest"] by simp

lemma fold_memset_keeps:
  "m a = guard_pattern \<Longrightarrow>
   fold (\<lambda>i m. memset m (guard_of g i) (ucast guard_pattern) page_size) is m a = guard_pattern"
  by (induction "is" arbitrary: m) (simp_all add: memset_any guard_pattern_def)

lemma fold_memset_pattern:
  assumes "i \<in> set is" "k < 4096"
  shows "fold (\<lambda>i m. memset m (guard_of g i) (ucast guard_pattern) page_size) is m (guard_of g i + of_nat k) = guard_pattern"
  using assms(1)
proof (induction "is" arbitrary: m)
  case (Cons j "is")
  show ?case
  proof (cases "i = j")
    case True
    have "memset m (guard_of g i) (ucast guard_pattern) page_size (guard_of g i + of_nat k) = guard_pattern"
      using assms(2) by (simp add: memset_any unat_u64_of_nat guard_pattern_def)
    then show ?thesis using True
      by (simp add: fold_memset_keeps [unfolded page_size_def])
  next
    case False
    then show ?thesis using Cons by simp
  qed
qed simp

section \<open>Properties\<close>


text \<open>
  The guard pages as patterns. After \<open>exception_stacks_init\<close> every guard is intact, and a
  single byte changed in any guard page is noticed as long as the guards are not unmapped.
\<close>

lemma guard_pattern_detects:
  assumes "\<not> guards_unmapped g"
  shows "stack_guards_intact g (exception_stacks_init g m) \<and>
    (\<forall>i \<le> exception_stacks. \<forall>k < 4096. \<forall>b. b \<noteq> guard_pattern \<longrightarrow>
       \<not> stack_guards_intact g ((exception_stacks_init g m)(guard_of g i + of_nat k := b)) \<and>
       overflowed_stack_name g ((exception_stacks_init g m)(guard_of g i + of_nat k := b)) \<noteq> None)"
proof -
  define m' where "m' = exception_stacks_init g m"
  have filled: "m' (guard_of g i + of_nat k) = guard_pattern" if "i \<le> exception_stacks" "k < 4096" for i k
    using fold_memset_pattern [of i "[0..<exception_stacks + 1]" k g m] that
    by (simp add: m'_def exception_stacks_init_def del: upt.simps)
  have broken: "\<not> guard_intact g (m'(guard_of g i + of_nat k := b)) i" if "k < 4096" "b \<noteq> guard_pattern" for i k b
    using assms that by (auto simp: guard_intact_def list_all_iff simp del: upt.simps intro!: bexI [of _ k])
  have "stack_guards_intact g m'"
    using filled by (auto simp: stack_guards_intact_def guard_intact_def list_all_iff simp del: upt.simps)
  moreover have "\<not> stack_guards_intact g (m'(guard_of g i + of_nat k := b)) \<and>
       overflowed_stack_name g (m'(guard_of g i + of_nat k := b)) \<noteq> None"
    if "i \<le> exception_stacks" "k < 4096" "b \<noteq> guard_pattern" for i k b
  proof -
    have "i \<in> set [0..<exception_stacks + 1]" using that(1) by auto
    then show ?thesis
      using broken [OF that(2,3), of i]
      by (auto simp: stack_guards_intact_def overflowed_stack_name_def list_all_iff find_None_iff simp del: upt.simps)
  qed
  ultimately show ?thesis unfolding m'_def by blast
qed

section \<open>Witnesses\<close>

definition example_guards :: guards where
  "example_guards = \<lparr>stacks_at = 0x180000, boot_stack_guard = 0x1C0000, guards_unmapped = False\<rparr>"

definition example_image :: image where
  "example_image = \<lparr>image_start = 0x100000, text_start = 0x101000, text_end = 0x140000,
     rodata_start = 0x140000, rodata_end = 0x160000, data_start = 0x160000, data_end = 0x200000\<rparr>"

lemma example_paging_init: "\<exists>root g' s'. paging_init 1 example_image example_guards empty_vm = Inr (root, g', s')"
proof -
  have good: "pa_good (frames (enable_no_execute empty_vm))" by (simp add: empty_vm_frames)
  have f: "free_frames (enable_no_execute empty_vm) = 4096"
    using empty_vm_free by (simp add: free_frames_def)
  obtain r s1 where 1: "allocate_table (enable_no_execute empty_vm) = (Some r, s1)"
      "free_frames s1 = free_frames (enable_no_execute empty_vm) - 1"
    by (rule allocate_table_succeeds [OF good]) (simp add: f)
  have g1: "pa_good (frames s1)" using allocate_table_spec [OF good 1(1)] by simp
  obtain p s2 where 2: "allocate_table s1 = (Some p, s2)" "free_frames s2 = free_frames s1 - 1"
    by (rule allocate_table_succeeds [OF g1]) (simp add: 1(2) f)
  have g2: "pa_good (frames s2)" using allocate_table_spec [OF g1 2(1)] by simp
  obtain d s3 where 3: "allocate_table s2 = (Some d, s3)"
    by (rule allocate_table_succeeds [OF g2]) (simp add: 2(2) 1(2) f)
  show ?thesis
    using 1(1) 2(1) 3 by (simp add: paging_init_def Let_def unmap_stack_guards_def)
qed


lemma guard_pattern_detects_example:
  "stack_guards_intact example_guards (exception_stacks_init example_guards (\<lambda>_. 0)) \<and>
   \<not> stack_guards_intact example_guards
      ((exception_stacks_init example_guards (\<lambda>_. 0))(guard_of example_guards 2 + of_nat 4095 := 0))"
proof -
  have n: "\<not> guards_unmapped example_guards" by (simp add: example_guards_def)
  note D = guard_pattern_detects [OF n, of "\<lambda>_. 0"]
  have "2 \<le> exception_stacks" "(0 :: u8) \<noteq> guard_pattern"
    by (simp_all add: exception_stacks_def guard_pattern_def)
  then show ?thesis using conjunct1 [OF D] conjunct2 [OF D, rule_format, of 2 4095 0] by simp
qed

end
