(* ===== verification/Vmalloc.thy ===== *)
theory Vmalloc
  imports Paging_Map
begin

unbundle bit_operations_syntax

text \<open>
  Kernel virtual space, \<^verbatim>\<open>kernel/mm/vmalloc.cpp\<close>: a table of at most 64 free ranges above the
  directly mapped gigabyte, first fit, each reservation followed by a guard page; and the
  device windows that are mapped into it.

  The table is a list with the fixed length of the array, of which the first \<open>range_count\<close>
  entries are live. Addresses and lengths are 64 bit words.
\<close>

section \<open>The table of free ranges\<close>

definition vmalloc_base :: virt_addr where "vmalloc_base = push_bit 30 1"
definition vmalloc_end :: virt_addr where "vmalloc_end = push_bit 30 2"
definition max_ranges :: nat where "max_ranges = 64"

record Range =
  r_start :: virt_addr
  r_length :: usize

record vmalloc =
  free_ranges :: "Range list"
  range_count :: nat
  initialised :: bool

definition ensure_initialised :: "vmalloc \<Rightarrow> vmalloc" where
  "ensure_initialised s =
     (if initialised s then s
      else s\<lparr>free_ranges := (free_ranges s)[0 := \<lparr>r_start = vmalloc_base,
               r_length = vmalloc_end - vmalloc_base\<rparr>],
             range_count := 1, initialised := True\<rparr>)"

definition round_up :: "usize \<Rightarrow> usize" where
  "round_up len = (len + page_size - 1) AND NOT (page_size - 1)"

text \<open>The search loop of \<open>vmalloc_reserve\<close>: the first live range that is long enough.\<close>

function reserve_scan :: "vmalloc \<Rightarrow> usize \<Rightarrow> nat \<Rightarrow> nat option" where
  "reserve_scan s wanted i =
     (if i < range_count s
      then if r_length (free_ranges s ! i) < wanted then reserve_scan s wanted (i + 1) else Some i
      else None)"
  by pat_completeness auto
termination
  by (relation "measure (\<lambda>(s, wanted, i). range_count s - i)") auto

declare reserve_scan.simps [simp del]

definition vmalloc_reserve :: "usize \<Rightarrow> vmalloc \<Rightarrow> virt_addr \<times> vmalloc" where
  "vmalloc_reserve len s0 =
     (let s = ensure_initialised s0;
          wanted = round_up len + page_size
      in case reserve_scan s wanted 0 of
           None \<Rightarrow> (0, s)
         | Some i \<Rightarrow>
             let range = free_ranges s ! i;
                 range' = \<lparr>r_start = r_start range + wanted, r_length = r_length range - wanted\<rparr>;
                 s1 = s\<lparr>free_ranges := (free_ranges s)[i := range']\<rparr>
             in (r_start range,
                 if r_length range' = 0
                 then s1\<lparr>range_count := range_count s - 1,
                         free_ranges := (free_ranges s1)[i := free_ranges s1 ! (range_count s - 1)]\<rparr>
                 else s1))"

text \<open>
  The loop of \<open>vmalloc_release\<close>: the index of the first range the released one touches and
  what becomes of it.
\<close>

function release_scan :: "vmalloc \<Rightarrow> virt_addr \<Rightarrow> usize \<Rightarrow> nat \<Rightarrow> (nat \<times> Range) option" where
  "release_scan s address released i =
     (if i < range_count s
      then let range = free_ranges s ! i
           in if r_start range = address + released
              then Some (i, \<lparr>r_start = address, r_length = r_length range + released\<rparr>)
              else if r_start range + r_length range = address
              then Some (i, \<lparr>r_start = r_start range, r_length = r_length range + released\<rparr>)
              else release_scan s address released (i + 1)
      else None)"
  by pat_completeness auto
termination
  by (relation "measure (\<lambda>(s, address, released, i). range_count s - i)") auto

declare release_scan.simps [simp del]

definition vmalloc_release :: "virt_addr \<Rightarrow> usize \<Rightarrow> vmalloc \<Rightarrow> vmalloc" where
  "vmalloc_release address len s0 =
     (let s = ensure_initialised s0;
          released = round_up len + page_size
      in case release_scan s address released 0 of
           Some (i, merged) \<Rightarrow> s\<lparr>free_ranges := (free_ranges s)[i := merged]\<rparr>
         | None \<Rightarrow>
             if range_count s < max_ranges
             then s\<lparr>free_ranges := (free_ranges s)[range_count s := \<lparr>r_start = address, r_length = released\<rparr>],
                    range_count := range_count s + 1\<rparr>
             else s)"

section \<open>Device windows\<close>

definition map_device ::
  "phys_addr \<Rightarrow> phys_addr \<Rightarrow> usize \<Rightarrow> vmalloc \<times> mmu \<Rightarrow> virt_addr \<times> vmalloc \<times> mmu" where
  "map_device root address len st =
     (let (v, s) = st;
          aligned = address AND NOT (page_size - 1);
          offset = address - aligned;
          span = round_up (len + offset);
          (window, v1) = vmalloc_reserve span v
      in if window = 0 then (0, v1, s)
         else case as_map root window aligned span
                     (Flag_Write OR Flag_NoExecute OR Flag_NoCache) s of
                (False, s1) \<Rightarrow> (0, vmalloc_release window span v1, s1)
              | (True, s1) \<Rightarrow> (window + offset, v1, s1))"

definition unmap_device ::
  "nat \<Rightarrow> phys_addr \<Rightarrow> virt_addr \<Rightarrow> usize \<Rightarrow> vmalloc \<times> mmu \<Rightarrow> vmalloc \<times> mmu" where
  "unmap_device cpus root window len st =
     (let (v, s) = st
      in if window = 0 then (v, s)
         else let address = window AND NOT (page_size - 1);
                  span = round_up len
              in (vmalloc_release address span v, snd (as_unmap cpus root address span s)))"

definition region_name :: "virt_addr \<Rightarrow> virt_addr \<Rightarrow> virt_addr \<Rightarrow> string" where
  "region_name image_start image_end address =
     (if address < page_size then ''the null page''
      else if address \<ge> image_start \<and> address < image_end then ''the kernel image''
      else if address < push_bit 30 1 then ''the direct map''
      else if address \<ge> vmalloc_base \<and> address < vmalloc_end then ''the vmalloc area''
      else ''nothing mapped'')"

section \<open>The free addresses\<close>

definition span_of :: "Range \<Rightarrow> nat set" where
  "span_of r = {unat (r_start r)..<unat (r_start r) + unat (r_length r)}"

definition live :: "vmalloc \<Rightarrow> Range list" where
  "live s = take (range_count s) (free_ranges s)"

definition good_range :: "Range \<Rightarrow> bool" where
  "good_range r \<longleftrightarrow> page_aligned (r_start r) \<and> page_aligned (r_length r) \<and> r_length r \<noteq> 0 \<and>
     unat vmalloc_base \<le> unat (r_start r) \<and> unat (r_start r) + unat (r_length r) \<le> unat vmalloc_end"

definition free_set :: "vmalloc \<Rightarrow> nat set" where
  "free_set s = (\<Union>r \<in> set (live s). span_of r)"

text \<open>The live ranges are good and pairwise disjoint.\<close>

definition vmalloc_inv :: "vmalloc \<Rightarrow> bool" where
  "vmalloc_inv s \<longleftrightarrow> length (free_ranges s) = max_ranges \<and>
     (initialised s \<longrightarrow> range_count s \<le> max_ranges \<and>
       (\<forall>i < range_count s. good_range (free_ranges s ! i)) \<and>
       (\<forall>i < range_count s. \<forall>j < range_count s. i \<noteq> j \<longrightarrow>
          span_of (free_ranges s ! i) \<inter> span_of (free_ranges s ! j) = {}))"

lemma reserve_scan_spec:
  "case reserve_scan s wanted i of
     None \<Rightarrow> \<forall>j. i \<le> j \<and> j < range_count s \<longrightarrow> r_length (free_ranges s ! j) < wanted
   | Some k \<Rightarrow> i \<le> k \<and> k < range_count s \<and> wanted \<le> r_length (free_ranges s ! k) \<and>
       (\<forall>j. i \<le> j \<and> j < k \<longrightarrow> r_length (free_ranges s ! j) < wanted)"
proof (induction s wanted i rule: reserve_scan.induct)
  case (1 s wanted i)
  show ?case
  proof (cases "i < range_count s \<and> r_length (free_ranges s ! i) < wanted")
    case True
    have step: "i = j \<or> Suc i \<le> j" if "i \<le> j" for j using that by auto
    show ?thesis
      using 1 True step
      by (auto simp: reserve_scan.simps [of s wanted i] split: option.splits)
  next
    case False
    then show ?thesis by (auto simp: reserve_scan.simps [of s wanted i])
  qed
qed

lemma release_scan_spec:
  "case release_scan s a n i of
     None \<Rightarrow> \<forall>j. i \<le> j \<and> j < range_count s \<longrightarrow>
       r_start (free_ranges s ! j) \<noteq> a + n \<and> r_start (free_ranges s ! j) + r_length (free_ranges s ! j) \<noteq> a
   | Some (k, r') \<Rightarrow> k < range_count s \<and>
       (let r = free_ranges s ! k in
         r_start r = a + n \<and> r' = \<lparr>r_start = a, r_length = r_length r + n\<rparr> \<or>
         r_start r + r_length r = a \<and> r' = \<lparr>r_start = r_start r, r_length = r_length r + n\<rparr>)"
proof (induction s a n i rule: release_scan.induct)
  case (1 s a n i)
  let ?r = "free_ranges s ! i"
  show ?case
  proof (cases "i < range_count s \<and> r_start ?r \<noteq> a + n \<and> r_start ?r + r_length ?r \<noteq> a")
    case True
    have step: "i = j \<or> Suc i \<le> j" if "i \<le> j" for j using that by auto
    have "release_scan s a n i = release_scan s a n (Suc i)"
      using True by (simp add: release_scan.simps [of s a n i])
    moreover note "1.IH" [OF _ refl]
    ultimately show ?thesis
      using True step by (auto split: option.splits)
  next
    case False
    then show ?thesis by (auto simp: release_scan.simps [of s a n i] Let_def)
  qed
qed

lemma free_set_index: "vmalloc_inv s \<Longrightarrow> initialised s \<Longrightarrow> free_set s = (\<Union>i<range_count s. span_of (free_ranges s ! i))"
  using nth_image [of "range_count s" "free_ranges s"]
  by (auto simp: free_set_def live_def vmalloc_inv_def atLeast0LessThan [symmetric] simp flip: nth_image)

lemma vmalloc_invD:
  assumes "vmalloc_inv s" "initialised s"
  shows "length (free_ranges s) = 64" "range_count s \<le> 64"
    "\<And>i. i < range_count s \<Longrightarrow> good_range (free_ranges s ! i)"
    "\<And>i j. i < range_count s \<Longrightarrow> j < range_count s \<Longrightarrow> i \<noteq> j \<Longrightarrow>
       span_of (free_ranges s ! i) \<inter> span_of (free_ranges s ! j) = {}"
  using assms by (simp_all add: vmalloc_inv_def max_ranges_def)

lemma ensure_initialised_inv:
  assumes "vmalloc_inv s"
  shows "vmalloc_inv (ensure_initialised s)" "initialised (ensure_initialised s)"
proof -
  have l: "length (free_ranges s) = 64" using assms by (simp add: vmalloc_inv_def max_ranges_def)
  have "good_range \<lparr>r_start = vmalloc_base, r_length = vmalloc_end - vmalloc_base\<rparr>"
    by (simp add: good_range_def vmalloc_base_def vmalloc_end_def page_aligned_def)
  then show "vmalloc_inv (ensure_initialised s)" "initialised (ensure_initialised s)"
    using assms l by (auto simp: ensure_initialised_def vmalloc_inv_def max_ranges_def)
qed

lemma good_rangeD:
  assumes "good_range r"
  shows "unat (r_start r + r_length r) = unat (r_start r) + unat (r_length r)"
    "unat (r_start r) + unat (r_length r) \<le> 2147483648" "1073741824 \<le> unat (r_start r)"
    "0 < unat (r_length r)"
  using assms by (auto simp: good_range_def vmalloc_base_def vmalloc_end_def unat_u64_add unat_gt_0)

text \<open>Replacing a live range by another one, or dropping it.\<close>

lemma replace_range:
  assumes inv: "vmalloc_inv s" "initialised s" and k: "k < range_count s" and r: "good_range r"
    and apart: "\<And>j. j < range_count s \<Longrightarrow> j \<noteq> k \<Longrightarrow> span_of r \<inter> span_of (free_ranges s ! j) = {}"
  defines "s' \<equiv> s\<lparr>free_ranges := (free_ranges s)[k := r]\<rparr>"
  shows "vmalloc_inv s'" "free_set s' = (free_set s - span_of (free_ranges s ! k)) \<union> span_of r"
proof -
  note I = vmalloc_invD [OF inv]
  have nth: "free_ranges s' ! j = (if j = k then r else free_ranges s ! j)" if "j < range_count s" for j
    using that I(1,2) by (simp add: s'_def nth_list_update)
  show inv': "vmalloc_inv s'"
    unfolding vmalloc_inv_def
  proof (intro conjI impI allI)
    show "length (free_ranges s') = max_ranges" using I(1) by (simp add: s'_def max_ranges_def)
    show "range_count s' \<le> max_ranges" using I(2) by (simp add: s'_def max_ranges_def)
  next
    fix i assume "i < range_count s'"
    then show "good_range (free_ranges s' ! i)" using nth I(3) r by (simp add: s'_def)
  next
    fix i j assume "i < range_count s'" "j < range_count s'" "i \<noteq> j"
    then show "span_of (free_ranges s' ! i) \<inter> span_of (free_ranges s' ! j) = {}"
      using nth I(4) [of i j] apart [of i] apart [of j] by (simp add: s'_def) blast
  qed
  have ini: "initialised s'" using inv by (simp add: s'_def)
  have rc: "range_count s' = range_count s" by (simp add: s'_def)
  have "free_set s' = (\<Union>i<range_count s. if i = k then span_of r else span_of (free_ranges s ! i))"
    unfolding free_set_index [OF inv' ini] rc using nth by (intro SUP_cong) auto
  also have "\<dots> = (\<Union>i\<in>{..<range_count s} - {k}. span_of (free_ranges s ! i)) \<union> span_of r"
    using k by auto
  also have "(\<Union>i\<in>{..<range_count s} - {k}. span_of (free_ranges s ! i)) = free_set s - span_of (free_ranges s ! k)"
    unfolding free_set_index [OF inv] using I(4) k by blast
  finally show "free_set s' = (free_set s - span_of (free_ranges s ! k)) \<union> span_of r" .
qed

lemma drop_range:
  assumes inv: "vmalloc_inv s" "initialised s" and k: "k < range_count s" and ys: "length ys = 64"
  defines "n \<equiv> range_count s - 1"
  assumes moved: "\<And>j. j < n \<Longrightarrow> ys ! j = free_ranges s ! (if j = k then n else j)"
  defines "s' \<equiv> s\<lparr>range_count := n, free_ranges := ys\<rparr>"
  shows "vmalloc_inv s'" "free_set s' = free_set s - span_of (free_ranges s ! k)"
proof -
  note I = vmalloc_invD [OF inv]
  define f where "f = (\<lambda>j. if j = k then n else j)"
  have nth: "free_ranges s' ! j = free_ranges s ! f j" if "j < n" for j
    using that moved by (simp add: s'_def f_def)
  have f: "f j < range_count s" "f j \<noteq> k" if "j < n" for j using that k by (auto simp: f_def n_def)
  have finj: "f i \<noteq> f j" if "i < n" "j < n" "i \<noteq> j" for i j using that by (auto simp: f_def)
  have fimg: "f ` {..<n} = {..<range_count s} - {k}"
  proof
    show "f ` {..<n} \<subseteq> {..<range_count s} - {k}" using f by auto
    show "{..<range_count s} - {k} \<subseteq> f ` {..<n}"
    proof
      fix x assume x: "x \<in> {..<range_count s} - {k}"
      show "x \<in> f ` {..<n}"
      proof (cases "x = n")
        case True
        then have "k < n" using x k by (auto simp: n_def)
        then show ?thesis using True by (intro image_eqI [of _ _ k]) (auto simp: f_def)
      next
        case False
        then show ?thesis using x by (intro image_eqI [of _ _ x]) (auto simp: f_def n_def)
      qed
    qed
  qed
  show inv': "vmalloc_inv s'"
    unfolding vmalloc_inv_def
  proof (intro conjI impI allI)
    show "length (free_ranges s') = max_ranges" using ys by (simp add: s'_def max_ranges_def)
    show "range_count s' \<le> max_ranges" using I(2) by (simp add: s'_def n_def max_ranges_def)
  next
    fix i assume "i < range_count s'"
    then show "good_range (free_ranges s' ! i)" using nth I(3) f by (simp add: s'_def)
  next
    fix i j assume "i < range_count s'" "j < range_count s'" "i \<noteq> j"
    then show "span_of (free_ranges s' ! i) \<inter> span_of (free_ranges s' ! j) = {}"
      using nth I(4) f finj by (simp add: s'_def)
  qed
  have ini: "initialised s'" using inv by (simp add: s'_def)
  have "free_set s' = (\<Union>i<n. span_of (free_ranges s ! f i))"
    unfolding free_set_index [OF inv' ini] using nth by (intro SUP_cong) (auto simp: s'_def)
  also have "\<dots> = (\<Union>i\<in>f ` {..<n}. span_of (free_ranges s ! i))" by auto
  also have "\<dots> = free_set s - span_of (free_ranges s ! k)"
    unfolding fimg free_set_index [OF inv] using I(4) k by blast
  finally show "free_set s' = free_set s - span_of (free_ranges s ! k)" .
qed

lemma add_range:
  assumes inv: "vmalloc_inv s" "initialised s" and k: "range_count s < 64" and r: "good_range r"
    and apart: "span_of r \<inter> free_set s = {}"
  defines "s' \<equiv> s\<lparr>free_ranges := (free_ranges s)[range_count s := r], range_count := range_count s + 1\<rparr>"
  shows "vmalloc_inv s'" "free_set s' = free_set s \<union> span_of r"
proof -
  note I = vmalloc_invD [OF inv]
  let ?n = "range_count s"
  have nth: "free_ranges s' ! j = (if j = ?n then r else free_ranges s ! j)" if "j \<le> ?n" for j
    using that I(1) k by (simp add: s'_def nth_list_update)
  have ap: "span_of r \<inter> span_of (free_ranges s ! j) = {}" if "j < ?n" for j
    using apart that by (auto simp: free_set_index [OF inv])
  show inv': "vmalloc_inv s'"
    unfolding vmalloc_inv_def
  proof (intro conjI impI allI)
    show "length (free_ranges s') = max_ranges" using I(1) by (simp add: s'_def max_ranges_def)
    show "range_count s' \<le> max_ranges" using k by (simp add: s'_def max_ranges_def)
  next
    fix i assume "i < range_count s'"
    then have "i \<le> ?n" by (simp add: s'_def)
    then show "good_range (free_ranges s' ! i)" using nth [of i] I(3) [of i] r by (cases "i = ?n") auto
  next
    fix i j assume "i < range_count s'" "j < range_count s'" "i \<noteq> j"
    then have "i \<le> ?n" "j \<le> ?n" by (simp_all add: s'_def)
    then show "span_of (free_ranges s' ! i) \<inter> span_of (free_ranges s' ! j) = {}"
      using nth [of i] nth [of j] I(4) [of i j] ap [of i] ap [of j] \<open>i \<noteq> j\<close>
      by (cases "i = ?n"; cases "j = ?n") auto
  qed
  have ini: "initialised s'" using inv by (simp add: s'_def)
  have "free_set s' = (\<Union>i<Suc ?n. if i = ?n then span_of r else span_of (free_ranges s ! i))"
    unfolding free_set_index [OF inv' ini] using nth by (intro SUP_cong) (auto simp: s'_def)
  also have "\<dots> = free_set s \<union> span_of r"
    unfolding free_set_index [OF inv] by (auto simp: less_Suc_eq)
  finally show "free_set s' = free_set s \<union> span_of r" .
qed

text \<open>The size of a reservation, guard page included, when the rounding does not wrap.\<close>

definition footprint :: "usize \<Rightarrow> nat" where
  "footprint len = 4096 * pages (unat len) + 4096"

lemma unat_round_up:
  assumes "unat len \<le> 2 ^ 32"
  shows "unat (round_up len) = 4096 * pages (unat len)" "page_aligned (round_up len)"
    "unat (round_up len + 4096) = footprint len"
proof -
  have "round_up len = (len + 4095) AND NOT 4095"
    by (simp add: round_up_def add.commute)
  then show r: "unat (round_up len) = 4096 * pages (unat len)"
    using unat_page_round_up [of len] assms by (simp add: pages_def)
  then show "page_aligned (round_up len)" by (simp add: page_aligned_def)
  show "unat (round_up len + 4096) = footprint len"
    using r assms by (simp add: footprint_def unat_u64_add pages_def)
qed

lemma reserve_spec:
  assumes inv: "vmalloc_inv s" and len: "unat len \<le> 2 ^ 32" and res: "vmalloc_reserve len s = (a, s')"
  defines "s1 \<equiv> ensure_initialised s"
  shows "vmalloc_inv s'" "initialised s'"
    "a = 0 \<Longrightarrow> s' = s1 \<and> (\<forall>r \<in> set (live s1). unat (r_length r) < footprint len)"
    "a \<noteq> 0 \<Longrightarrow> page_aligned a \<and> unat vmalloc_base \<le> unat a \<and> unat a + footprint len \<le> unat vmalloc_end \<and>
      {unat a..<unat a + footprint len} \<subseteq> free_set s1 \<and>
      free_set s' = free_set s1 - {unat a..<unat a + footprint len}"
proof -
  let ?w = "round_up len + 4096"
  have inv1: "vmalloc_inv s1" "initialised s1"
    unfolding s1_def by (rule ensure_initialised_inv [OF inv])+
  note I = vmalloc_invD [OF inv1] and w = unat_round_up [OF len]
  have live: "set (live s1) = (\<lambda>i. free_ranges s1 ! i) ` {..<range_count s1}"
    using nth_image [of "range_count s1" "free_ranges s1"] I(1,2)
    by (auto simp: live_def atLeast0LessThan)
  have "vmalloc_inv s' \<and> initialised s' \<and>
    (if a = 0 then s' = s1 \<and> (\<forall>r \<in> set (live s1). unat (r_length r) < footprint len)
     else page_aligned a \<and> unat vmalloc_base \<le> unat a \<and> unat a + footprint len \<le> unat vmalloc_end \<and>
      {unat a..<unat a + footprint len} \<subseteq> free_set s1 \<and>
      free_set s' = free_set s1 - {unat a..<unat a + footprint len})"
  proof (cases "reserve_scan s1 ?w 0")
    case None
    then have "a = 0" "s' = s1" using res by (auto simp: vmalloc_reserve_def s1_def [symmetric])
    moreover have "\<forall>r \<in> set (live s1). unat (r_length r) < footprint len"
      using reserve_scan_spec [where s = s1 and wanted = ?w and i = 0] None w(3) by (auto simp: live word_less_nat_alt)
    ultimately show ?thesis using inv1 by simp
  next
    case (Some i)
    define r where "r = free_ranges s1 ! i"
    have i: "i < range_count s1" and fit: "footprint len \<le> unat (r_length r)"
      using reserve_scan_spec [where s = s1 and wanted = ?w and i = 0] Some w(3) by (auto simp: r_def word_le_nat_alt)
    have r: "good_range r" using I(3) i by (simp add: r_def)
    note G = good_rangeD [OF r]
    define r' where "r' = \<lparr>r_start = r_start r + ?w, r_length = r_length r - ?w\<rparr>"
    have a: "a = r_start r" "a \<noteq> 0"
      using res Some G(3) by (auto simp: vmalloc_reserve_def s1_def [symmetric] r_def Let_def)
    have st: "unat (r_start r') = unat a + footprint len"
      using a fit G(2) w(3) by (simp add: r'_def unat_u64_add)
    have ln: "unat (r_length r') = unat (r_length r) - footprint len"
      using fit w(3) by (simp add: r'_def unat_u64_sub word_le_nat_alt)
    have span: "span_of r = {unat a..<unat a + footprint len} \<union> span_of r'"
      using fit st ln a by (auto simp: span_of_def)
    have apart: "{unat a..<unat a + footprint len} \<inter> span_of r' = {}"
      using st by (auto simp: span_of_def)
    have sub: "span_of r \<subseteq> free_set s1"
      using i by (auto simp: free_set_index [OF inv1] r_def)
    have al: "page_aligned a" "unat vmalloc_base \<le> unat a" "unat a + footprint len \<le> unat vmalloc_end"
      using r a fit by (auto simp: good_range_def)
    have goal: ?thesis if "vmalloc_inv s'" "initialised s'" "free_set s' = (free_set s1 - span_of r) \<union> span_of r'"
      using that a(2) al span apart sub by auto
    show ?thesis
    proof (cases "r_length r' = 0")
      case True
      define ys where "ys = ((free_ranges s1)[i := r'])[i := (free_ranges s1)[i := r'] ! (range_count s1 - 1)]"
      have s': "s' = s1\<lparr>range_count := range_count s1 - 1, free_ranges := ys\<rparr>"
        using res Some True by (auto simp: vmalloc_reserve_def s1_def [symmetric] r_def [symmetric] r'_def ys_def Let_def)
      have ys: "ys ! j = free_ranges s1 ! (if j = i then range_count s1 - 1 else j)" if "j < range_count s1 - 1" for j
        using that I(1,2) i by (auto simp: ys_def nth_list_update)
      have "span_of r' = {}" using True by (simp add: span_of_def)
      then show ?thesis
        using drop_range [OF inv1 i _ ys] I(1) inv1(2) by (intro goal) (simp_all add: s' r_def ys_def)
    next
      case False
      have s': "s' = s1\<lparr>free_ranges := (free_ranges s1)[i := r']\<rparr>"
        using res Some False by (auto simp: vmalloc_reserve_def s1_def [symmetric] r_def [symmetric] r'_def Let_def)
      have "page_aligned (r_start r')" "page_aligned (r_length r')"
        using r a st ln fit by (auto simp: page_aligned_def good_range_def footprint_def intro: dvd_diff_nat)
      then have "good_range r'"
        using False r st ln fit a by (auto simp: good_range_def)
      moreover have "span_of r' \<inter> span_of (free_ranges s1 ! j) = {}" if "j < range_count s1" "j \<noteq> i" for j
        using I(4) [of i j] that i span by (auto simp: r_def)
      ultimately show ?thesis
        using replace_range [OF inv1 i, of r'] inv1(2) by (intro goal) (simp_all add: s' r_def)
    qed
  qed
  then show "vmalloc_inv s'" "initialised s'"
    "a = 0 \<Longrightarrow> s' = s1 \<and> (\<forall>r \<in> set (live s1). unat (r_length r) < footprint len)"
    "a \<noteq> 0 \<Longrightarrow> page_aligned a \<and> unat vmalloc_base \<le> unat a \<and> unat a + footprint len \<le> unat vmalloc_end \<and>
      {unat a..<unat a + footprint len} \<subseteq> free_set s1 \<and>
      free_set s' = free_set s1 - {unat a..<unat a + footprint len}"
    by (auto split: if_splits)
qed

text \<open>A reservation leaves either a spare entry or the rest of the range it was cut from.\<close>

lemma reserve_leaves_room:
  assumes inv: "vmalloc_inv s" and "vmalloc_reserve len s = (a, s')" and "a \<noteq> 0"
  shows "range_count s' < 64 \<or>
    (\<exists>j < range_count s'. r_start (free_ranges s' ! j) = a + (round_up len + 4096))"
proof -
  define s1 where "s1 = ensure_initialised s"
  have inv1: "vmalloc_inv s1" "initialised s1"
    unfolding s1_def by (rule ensure_initialised_inv [OF inv])+
  note I = vmalloc_invD [OF inv1]
  obtain i where i: "reserve_scan s1 (round_up len + 4096) 0 = Some i"
    using assms(2,3) by (auto simp: vmalloc_reserve_def s1_def [symmetric] Let_def split: option.splits)
  then have lt: "i < range_count s1"
    using reserve_scan_spec [where s = s1 and wanted = "round_up len + 4096" and i = 0] by simp
  show ?thesis
  proof (cases "r_length (free_ranges s1 ! i) - (round_up len + 4096) = 0")
    case True
    then have "range_count s' = range_count s1 - 1"
      using assms(2) i by (auto simp: vmalloc_reserve_def s1_def [symmetric] Let_def)
    then show ?thesis using lt I(2) by (intro disjI1) simp
  next
    case False
    then have "a = r_start (free_ranges s1 ! i)" "range_count s' = range_count s1"
      "r_start (free_ranges s' ! i) = a + (round_up len + 4096)"
      using assms(2) i lt I(1,2) by (auto simp: vmalloc_reserve_def s1_def [symmetric] Let_def)
    then show ?thesis using lt by auto
  qed
qed

lemma release_spec:
  assumes inv: "vmalloc_inv s" and len: "unat len \<le> 2 ^ 32" and al: "page_aligned a"
    and lo: "unat vmalloc_base \<le> unat a" and hi: "unat a + footprint len \<le> unat vmalloc_end"
  defines "s1 \<equiv> ensure_initialised s"
  assumes taken: "{unat a..<unat a + footprint len} \<inter> free_set s1 = {}"
  shows "vmalloc_inv (vmalloc_release a len s)"
    "free_set (vmalloc_release a len s) = free_set s1 \<union> {unat a..<unat a + footprint len} \<or>
     release_scan s1 a (round_up len + 4096) 0 = None \<and> range_count s1 = 64 \<and> vmalloc_release a len s = s1"
proof -
  let ?w = "round_up len + 4096" and ?R = "{unat a..<unat a + footprint len}"
  define s' where "s' = vmalloc_release a len s"
  have inv1: "vmalloc_inv s1" "initialised s1"
    unfolding s1_def by (rule ensure_initialised_inv [OF inv])+
  note I = vmalloc_invD [OF inv1] and w = unat_round_up [OF len]
  have fp: "0 < footprint len" by (simp add: footprint_def)
  have aw: "unat (a + ?w) = unat a + footprint len"
    using hi w(3) by (simp add: vmalloc_end_def unat_u64_add)
  have alw: "4096 dvd footprint len" by (simp add: footprint_def)
  have "vmalloc_inv s' \<and> (free_set s' = free_set s1 \<union> ?R \<or>
     release_scan s1 a ?w 0 = None \<and> range_count s1 = 64 \<and> s' = s1)"
  proof (cases "release_scan s1 a ?w 0")
    case None
    show ?thesis
    proof (cases "range_count s1 < 64")
      case True
      define r where "r = \<lparr>r_start = a, r_length = ?w\<rparr>"
      have s': "s' = s1\<lparr>free_ranges := (free_ranges s1)[range_count s1 := r], range_count := range_count s1 + 1\<rparr>"
        using None True by (simp add: s'_def vmalloc_release_def s1_def [symmetric] r_def max_ranges_def Let_def)
      have span: "span_of r = ?R" using w(3) by (simp add: span_of_def r_def)
      have "?w \<noteq> 0" using w(3) fp by (metis unsigned_0 less_irrefl)
      then have "good_range r"
        using al lo hi w(3) alw by (simp add: good_range_def r_def page_aligned_def)
      then show ?thesis
        using add_range [OF inv1 True, of r] taken unfolding s' span by simp
    next
      case False
      then show ?thesis
        using None I(2) inv1 by (simp add: s'_def vmalloc_release_def s1_def [symmetric] max_ranges_def Let_def)
    qed
  next
    case (Some kr)
    obtain k r' where kr: "kr = (k, r')" by fastforce
    define r where "r = free_ranges s1 ! k"
    have k: "k < range_count s1" and cases: "r_start r = a + ?w \<and> r' = \<lparr>r_start = a, r_length = r_length r + ?w\<rparr> \<or>
        r_start r + r_length r = a \<and> r' = \<lparr>r_start = r_start r, r_length = r_length r + ?w\<rparr>"
      using release_scan_spec [where s = s1 and a = a and n = ?w and i = 0] Some kr
      by (auto simp: r_def Let_def)
    have r: "good_range r" using I(3) k by (simp add: r_def)
    note G = good_rangeD [OF r]
    have s': "s' = s1\<lparr>free_ranges := (free_ranges s1)[k := r']\<rparr>"
      using Some kr by (simp add: s'_def vmalloc_release_def s1_def [symmetric] Let_def)
    have bound: "unat (r_length r) + footprint len < 18446744073709551616"
      using G(2) hi by (simp add: vmalloc_end_def)
    have ln: "unat (r_length r + ?w) = unat (r_length r) + footprint len"
      using bound w(3) by (simp add: unat_u64_add)
    have span: "span_of r' = span_of r \<union> ?R" and st: "page_aligned (r_start r')"
      "unat vmalloc_base \<le> unat (r_start r')" "unat (r_start r') + unat (r_length r') \<le> unat vmalloc_end"
      "r_length r' = r_length r + ?w"
      using cases aw ln G(1) al lo hi r by (auto simp: span_of_def good_range_def)
    have "r_length r' \<noteq> 0" using st(4) ln fp by (metis unsigned_0 add_is_0 less_irrefl)
    moreover have "page_aligned (r_length r')"
      using st(4) ln alw r by (simp add: page_aligned_def good_range_def)
    ultimately have good: "good_range r'" using st by (simp add: good_range_def)
    have "span_of (free_ranges s1 ! j) \<subseteq> free_set s1" if "j < range_count s1" for j
      using that by (auto simp: free_set_index [OF inv1])
    then have "span_of r' \<inter> span_of (free_ranges s1 ! j) = {}" if "j < range_count s1" "j \<noteq> k" for j
      using I(4) [of k j] that k taken unfolding span r_def by blast
    moreover have "span_of r \<subseteq> free_set s1" using k by (auto simp: free_set_index [OF inv1] r_def)
    ultimately show ?thesis
      using replace_range [OF inv1 k good] unfolding s' span r_def by blast
  qed
  then show "vmalloc_inv (vmalloc_release a len s)"
    "free_set (vmalloc_release a len s) = free_set s1 \<union> ?R \<or>
     release_scan s1 a (round_up len + 4096) 0 = None \<and> range_count s1 = 64 \<and> vmalloc_release a len s = s1"
    by (simp_all add: s'_def)
qed

lemma reserve_release:
  assumes inv: "vmalloc_inv s" and len: "unat len \<le> 2 ^ 32"
    and res: "vmalloc_reserve len s = (a, s')" "a \<noteq> 0"
  shows "vmalloc_inv (vmalloc_release a len s')"
    "free_set (vmalloc_release a len s') = free_set (ensure_initialised s)"
proof -
  note R = reserve_spec [OF inv len res(1)]
  have same: "ensure_initialised s' = s'" using R(2) by (simp add: ensure_initialised_def)
  have a: "page_aligned a" "unat vmalloc_base \<le> unat a" "unat a + footprint len \<le> unat vmalloc_end"
      "{unat a..<unat a + footprint len} \<subseteq> free_set (ensure_initialised s)"
      "free_set s' = free_set (ensure_initialised s) - {unat a..<unat a + footprint len}"
    using R(4) res(2) by auto
  have taken: "{unat a..<unat a + footprint len} \<inter> free_set (ensure_initialised s') = {}"
    using a(5) same by auto
  note L = release_spec [OF R(1) len a(1,2,3) taken, unfolded same]
  show "vmalloc_inv (vmalloc_release a len s')" by (rule L(1))
  have "\<not> (release_scan s' a (round_up len + 4096) 0 = None \<and> range_count s' = 64)"
  proof
    assume full: "release_scan s' a (round_up len + 4096) 0 = None \<and> range_count s' = 64"
    then have "\<forall>j < range_count s'. r_start (free_ranges s' ! j) \<noteq> a + (round_up len + 4096)"
      using release_scan_spec [where s = s' and a = a and n = "round_up len + 4096" and i = 0] by simp
    then show False using reserve_leaves_room [OF inv res] full by auto
  qed
  then show "free_set (vmalloc_release a len s') = free_set (ensure_initialised s)"
    using L(2) a(4,5) by auto
qed

section \<open>Device windows\<close>

lemma pages_multiple: "pages (4096 * n) = n"
  by (simp add: pages_def)

lemma map_device_spec:
  assumes vm: "vm_inv root s" and inv: "vmalloc_inv v"
    and len: "unat len \<le> 2 ^ 31" and phys: "unat address + unat len + 4096 \<le> 2 ^ 52"
    and dev: "map_device root address len (v, s) = (w, v', s')"
  defines "offset \<equiv> unat address mod 4096"
  shows "vm_inv root s'" "vmalloc_inv v'"
    "w = 0 \<Longrightarrow> free_set v' = free_set (ensure_initialised v)"
    "w \<noteq> 0 \<Longrightarrow> \<exists>a. page_aligned a \<and> w = a + of_nat offset \<and>
       {unat a..<unat a + 4096 * pages (unat len + offset) + 4096} \<subseteq> free_set (ensure_initialised v) \<and>
       free_set v' = free_set (ensure_initialised v) - {unat a..<unat a + 4096 * pages (unat len + offset) + 4096} \<and>
       unat a + 4096 * pages (unat len + offset) + 4096 \<le> 2 ^ 31 \<and>
       (\<forall>x. unat x < 2 ^ 48 \<longrightarrow>
         (if unat a \<le> unat x \<and> unat x < unat a + 4096 * pages (unat len + offset)
          then as_translate root x s' = (address AND NOT 4095) + (x - a)
          else as_translate root x s' = as_translate root x s))"
proof -
  define aligned where "aligned = address AND NOT 4095"
  have off1: "unat aligned = unat address - offset"
    by (simp only: unat_page_align_down aligned_def offset_def)
  moreover have "offset \<le> unat address" by (simp add: offset_def)
  ultimately have "unat (address - aligned) = offset"
    by (simp add: unat_u64_sub word_le_nat_alt)
  note off = off1 this
  have lo: "unat (len + (address - aligned)) = unat len + offset"
    using off len by (simp add: unat_u64_add offset_def)
  define span where "span = round_up (len + (address - aligned))"
  have small: "unat (len + (address - aligned)) \<le> 2 ^ 32" using lo len by (simp add: offset_def)
  have sp: "unat span = 4096 * pages (unat len + offset)"
    unfolding span_def unat_round_up(1) [OF small] lo ..
  have pl: "pages (unat len + offset) \<le> 2 ^ 20" using len by (simp add: pages_def offset_def)
  then have sp32: "unat span \<le> 2 ^ 32" using sp by simp
  have fp: "footprint span = 4096 * pages (unat len + offset) + 4096"
    by (simp add: footprint_def sp pages_multiple)
  obtain a v1 where a: "vmalloc_reserve span v = (a, v1)" by fastforce
  note R = reserve_spec [OF inv sp32 a]
  have "vm_inv root s' \<and> vmalloc_inv v' \<and>
    (if w = 0 then free_set v' = free_set (ensure_initialised v) else \<exists>a. page_aligned a \<and> w = a + of_nat offset \<and>
       {unat a..<unat a + footprint span} \<subseteq> free_set (ensure_initialised v) \<and>
       free_set v' = free_set (ensure_initialised v) - {unat a..<unat a + footprint span} \<and>
       unat a + footprint span \<le> 2 ^ 31 \<and>
       (\<forall>x. unat x < 2 ^ 48 \<longrightarrow>
         (if unat a \<le> unat x \<and> unat x < unat a + 4096 * pages (unat len + offset)
          then as_translate root x s' = aligned + (x - a)
          else as_translate root x s' = as_translate root x s)))"
  proof (cases "a = 0")
    case True
    then have "w = 0" "v' = v1" "s' = s"
      using dev a by (auto simp: map_device_def aligned_def span_def)
    then show ?thesis using True R vm by simp
  next
    case False
    obtain ok s1 where m: "as_map root a aligned span (Flag_Write OR Flag_NoExecute OR Flag_NoCache) s = (ok, s1)"
      by fastforce
    have A: "page_aligned a" "1073741824 \<le> unat a" "unat a + footprint span \<le> 2147483648"
        "{unat a..<unat a + footprint span} \<subseteq> free_set (ensure_initialised v)"
        "free_set v1 = free_set (ensure_initialised v) - {unat a..<unat a + footprint span}"
      using R(4) [OF False] by (simp_all add: vmalloc_base_def vmalloc_end_def)
    have al: "page_aligned aligned" unfolding aligned_def by (rule page_aligned_align_down)
    have b: "unat a + unat span \<le> 2 ^ 48" using A(3) sp fp by simp
    have "4096 * pages (unat len + offset) \<le> unat len + offset + 4095" by (simp add: pages_def)
    moreover have "offset \<le> unat address" by (simp add: offset_def)
    ultimately have p: "unat aligned + unat span \<le> 2 ^ 52" using phys off(1) sp by linarith
    note M = as_map_range [OF vm A(1) al b p m]
    have n: "pages (unat span) = pages (unat len + offset)" by (simp add: sp pages_multiple)
    show ?thesis
    proof (cases ok)
      case True
      have w: "w = a + (address - aligned)" "v' = v1" "s' = s1"
        using dev a False m True by (auto simp: map_device_def aligned_def span_def)
      have "address - aligned = of_nat offset"
        by (rule u64_eqI) (simp add: off(2) unat_u64_of_nat offset_def)
      moreover have "unat w = unat a + offset"
        using A(3) off(2) unfolding w(1) by (subst unat_u64_add) (simp_all add: offset_def)
      then have "w \<noteq> 0" using A(2) by (metis unsigned_0 add_is_0 le_zero_eq zero_neq_numeral)
      ultimately show ?thesis
        using M A R(1) w True n by (auto intro!: exI [of _ a])
    next
      case ok: False
      have w: "w = 0" "v' = vmalloc_release a span v1" "s' = s1"
        using dev a False m ok by (auto simp: map_device_def aligned_def span_def)
      then show ?thesis using M reserve_release [OF inv sp32 a False] by simp
    qed
  qed
  then show "vm_inv root s'" "vmalloc_inv v'"
    "w = 0 \<Longrightarrow> free_set v' = free_set (ensure_initialised v)"
    "w \<noteq> 0 \<Longrightarrow> \<exists>a. page_aligned a \<and> w = a + of_nat offset \<and>
       {unat a..<unat a + 4096 * pages (unat len + offset) + 4096} \<subseteq> free_set (ensure_initialised v) \<and>
       free_set v' = free_set (ensure_initialised v) - {unat a..<unat a + 4096 * pages (unat len + offset) + 4096} \<and>
       unat a + 4096 * pages (unat len + offset) + 4096 \<le> 2 ^ 31 \<and>
       (\<forall>x. unat x < 2 ^ 48 \<longrightarrow>
         (if unat a \<le> unat x \<and> unat x < unat a + 4096 * pages (unat len + offset)
          then as_translate root x s' = (address AND NOT 4095) + (x - a)
          else as_translate root x s' = as_translate root x s))"
    by (auto simp: fp aligned_def split: if_splits)
qed

section \<open>Properties\<close>

text \<open>
  C8: \<open>vmalloc_reserve\<close>. A reservation lies inside the window, page aligned, was completely free
  together with its guard page and is taken out of the free addresses; a failure changes nothing
  and only happens when no range is long enough. The ranges stay disjoint.
\<close>

theorem vmalloc_reserve_correct:
  assumes "vmalloc_inv s" and "unat len \<le> 2 ^ 32" and "vmalloc_reserve len s = (a, s')"
  shows "vmalloc_inv s' \<and>
    (if a = 0 then s' = ensure_initialised s \<and>
       (\<forall>r \<in> set (live (ensure_initialised s)). unat (r_length r) < footprint len)
     else page_aligned a \<and> unat vmalloc_base \<le> unat a \<and> unat a + footprint len \<le> unat vmalloc_end \<and>
       {unat a..<unat a + footprint len} \<subseteq> free_set (ensure_initialised s) \<and>
       free_set s' = free_set (ensure_initialised s) - {unat a..<unat a + footprint len})"
  using reserve_spec [OF assms] by auto

text \<open>
  Releasing a reservation gives back exactly its addresses: the free addresses are those
  from before, whichever neighbour it is merged with, and the table never overflows.
\<close>

lemma vmalloc_round_trip:
  assumes "vmalloc_inv s" and "unat len \<le> 2 ^ 32" and "vmalloc_reserve len s = (a, s')" and "a \<noteq> 0"
  shows "vmalloc_inv (vmalloc_release a len s') \<and>
    free_set (vmalloc_release a len s') = free_set (ensure_initialised s)"
  using reserve_release [OF assms] by blast

text \<open>
  \<open>map_device\<close>. Every byte of a window translates to its byte of the device, the window is
  cut out of the free addresses and no other translation changes; without a window the free
  addresses are those from before.
\<close>

lemma map_device_correct:
  assumes "vm_inv root s" and "vmalloc_inv v"
    and "unat len \<le> 2 ^ 31" and "unat address + unat len + 4096 \<le> 2 ^ 52"
    and "map_device root address len (v, s) = (w, v', s')"
  shows "vm_inv root s' \<and> vmalloc_inv v' \<and>
    (if w = 0 then free_set v' = free_set (ensure_initialised v)
     else (\<forall>k < unat len. as_translate root (w + of_nat k) s' = address + of_nat k) \<and>
       {unat w..<unat w + unat len} \<subseteq> free_set (ensure_initialised v) \<and>
       {unat w..<unat w + unat len} \<inter> free_set v' = {} \<and>
       (\<forall>x. unat x < 2 ^ 48 \<longrightarrow> unat x \<notin> free_set (ensure_initialised v) \<longrightarrow>
          as_translate root x s' = as_translate root x s))"
proof -
  note D = map_device_spec [OF assms]
  define offset where "offset = unat address mod 4096"
  show ?thesis
  proof (cases "w = 0")
    case True
    then show ?thesis using D by simp
  next
    case False
    then obtain a where a: "page_aligned a" "w = a + of_nat offset"
       "{unat a..<unat a + 4096 * pages (unat len + offset) + 4096} \<subseteq> free_set (ensure_initialised v)"
       "free_set v' = free_set (ensure_initialised v) - {unat a..<unat a + 4096 * pages (unat len + offset) + 4096}"
       "unat a + 4096 * pages (unat len + offset) + 4096 \<le> 2 ^ 31"
       "\<And>x. unat x < 2 ^ 48 \<Longrightarrow> (if unat a \<le> unat x \<and> unat x < unat a + 4096 * pages (unat len + offset)
          then as_translate root x s' = (address AND NOT 4095) + (x - a)
          else as_translate root x s' = as_translate root x s)"
      using D(4) by (auto simp: offset_def)
    have o64: "unat (of_nat offset :: u64) = offset" by (intro unat_u64_of_nat) (simp add: offset_def)
    have w: "unat w = unat a + offset"
      using a(2,5) o64 by (simp add: unat_u64_add offset_def)
    have pg: "unat len + offset \<le> 4096 * pages (unat len + offset)" by (simp add: pages_def)
    have tr: "as_translate root (w + of_nat k) s' = address + of_nat k" if "k < unat len" for k
    proof -
      have k64: "unat (of_nat k :: u64) = k" using that assms(3) by (intro unat_u64_of_nat) simp
      have x: "unat (w + of_nat k) = unat a + offset + k"
        using w k64 a(5) that pg by (simp add: unat_u64_add)
      have "as_translate root (w + of_nat k) s' = (address AND NOT 4095) + (w + of_nat k - a)"
        using a(6) [of "w + of_nat k"] x a(5) that pg by simp
      also have "\<dots> = (address AND NOT 4095) + of_nat offset + of_nat k" using a(2) by simp
      also have "of_nat offset = address AND 4095"
        by (rule u64_eqI, simp only: o64 unat_and_4095) (simp only: offset_def)
      also have "(address AND NOT 4095) + (address AND 4095) = address"
        unfolding word_split_mask [of address 4095] by simp
      finally show ?thesis .
    qed
    have "{unat w..<unat w + unat len} \<subseteq> {unat a..<unat a + 4096 * pages (unat len + offset) + 4096}"
      using w pg by auto
    then have "{unat w..<unat w + unat len} \<subseteq> free_set (ensure_initialised v)"
        "{unat w..<unat w + unat len} \<inter> free_set v' = {}" using a(3,4) by auto
    moreover have "as_translate root x s' = as_translate root x s"
      if "unat x < 2 ^ 48" "unat x \<notin> free_set (ensure_initialised v)" for x
    proof -
      have "\<not> (unat a \<le> unat x \<and> unat x < unat a + 4096 * pages (unat len + offset))"
        using subsetD [OF a(3), of "unat x"] that(2) by fastforce
      then show ?thesis using a(6) [OF that(1)] by simp
    qed
    ultimately show ?thesis using False D(1,2) tr by simp
  qed
qed

section \<open>What the code gets wrong\<close>

text \<open>A length close to \<open>2 ^ 64\<close> rounds up to zero, and the reservation is one guard page.\<close>

theorem reserve_length_wraps:
  assumes "18446744073709547520 < unat len"
  shows "vmalloc_reserve len s = vmalloc_reserve 0 s"
proof -
  have "unat (len + 4095) < 4096"
    using assms u64_bound [of len] unat_u64_add_wrap [of len 4095] by (simp add: le_mod_geq)
  then have "unat ((len + 4095) AND NOT 4095) = 0"
    unfolding unat_page_align_down by simp
  then have "round_up len = 0" "round_up 0 = 0"
    by (simp_all add: round_up_def add.commute unat_eq_0)
  then show ?thesis by (simp add: vmalloc_reserve_def)
qed

text \<open>
  \<open>unmap_device\<close> rounds the length without the offset of the window in its page. When that
  offset pushes the end into another page, the last page of the window stays mapped.
\<close>

theorem unmap_device_leaves_page:
  assumes vm: "vm_inv root s" and a: "page_aligned a" "a \<noteq> 0" and ofs: "unat ofs < 4096"
    and bound: "unat a + 4096 * pages (unat len) + 4096 \<le> 2 ^ 31"
    and u: "unmap_device cpus root (a + ofs) len (v, s) = (v', s')"
  defines "x \<equiv> a + of_nat (4096 * pages (unat len))"
  shows "as_translate root x s' = as_translate root x s"
proof -
  have "unat len \<le> 4096 * pages (unat len)" by (simp add: pages_def)
  then have len: "unat len \<le> 2 ^ 32" using bound by simp
  have sum: "unat (a + ofs) = unat a + unat ofs" using ofs bound by (simp add: unat_u64_add)
  have page: "(a + ofs) AND NOT 4095 = a"
  proof (rule u64_eqI)
    have "(unat a + unat ofs) mod 4096 = unat ofs"
      using a(1) ofs by (auto simp: page_aligned_def)
    then show "unat ((a + ofs) AND NOT 4095) = unat a"
      unfolding unat_page_align_down sum by simp
  qed
  have "unat a \<noteq> 0" using a(2) by (simp add: unat_eq_0)
  then have ne: "a + ofs \<noteq> 0" using sum by (metis unsigned_0 add_is_0)
  have span: "unat (round_up len) = 4096 * pages (unat len)" by (rule unat_round_up(1) [OF len])
  obtain ok where m: "as_unmap cpus root a (round_up len) s = (ok, s')"
    using u ne page by (auto simp: unmap_device_def Let_def split: prod.splits if_splits) (metis prod.collapse)
  have b: "unat a + unat (round_up len) \<le> 2 ^ 48" using span bound by simp
  have x: "unat x = unat a + 4096 * pages (unat len)"
    using bound unat_u64_of_nat [of "4096 * pages (unat len)"]
    by (simp add: x_def unat_u64_add del: of_nat_mult)
  then show ?thesis
    using as_unmap_range [OF vm a(1) b m] bound by (simp add: span pages_multiple)
qed

section \<open>Witnesses\<close>

definition fresh_vmalloc :: vmalloc where
  "fresh_vmalloc = \<lparr>free_ranges = replicate 64 \<lparr>r_start = 0, r_length = 0\<rparr>, range_count = 0, initialised = False\<rparr>"

lemma fresh_vmalloc_inv: "vmalloc_inv fresh_vmalloc"
  by (simp add: vmalloc_inv_def fresh_vmalloc_def max_ranges_def)

lemma fresh_reserve: "fst (vmalloc_reserve 8192 fresh_vmalloc) = 0x40000000"
  by (simp add: vmalloc_reserve_def fresh_vmalloc_def ensure_initialised_def reserve_scan.simps round_up_def
      vmalloc_base_def vmalloc_end_def Let_def)

theorem vmalloc_reserve_correct_witness:
  "\<exists>s'. vmalloc_reserve 8192 fresh_vmalloc = (0x40000000, s') \<and> vmalloc_inv s' \<and>
     free_set s' = free_set (ensure_initialised fresh_vmalloc) - {0x40000000..<0x40003000}"
proof -
  obtain s' where r: "vmalloc_reserve 8192 fresh_vmalloc = (0x40000000, s')"
    using fresh_reserve by (metis prod.collapse)
  then show ?thesis
    using vmalloc_reserve_correct [OF fresh_vmalloc_inv _ r] by (simp add: footprint_def pages_def)
qed

lemma vmalloc_round_trip_example:
  "\<exists>s'. vmalloc_reserve 8192 fresh_vmalloc = (0x40000000, s') \<and>
     free_set (vmalloc_release 0x40000000 8192 s') = free_set (ensure_initialised fresh_vmalloc)"
proof -
  obtain s' where r: "vmalloc_reserve 8192 fresh_vmalloc = (0x40000000, s')"
    using fresh_reserve by (metis prod.collapse)
  then show ?thesis using vmalloc_round_trip [OF fresh_vmalloc_inv _ r] by simp
qed

lemma map_device_correct_example:
  "\<exists>v' s'. map_device 0x1000 0xFEC00010 32 (fresh_vmalloc, empty_vm) = (0x40000010, v', s') \<and>
     as_translate 0x1000 0x40000014 s' = 0xFEC00014"
proof -
  have res: "fst (vmalloc_reserve 4096 fresh_vmalloc) = 0x40000000"
    by (simp add: vmalloc_reserve_def fresh_vmalloc_def ensure_initialised_def reserve_scan.simps round_up_def
        vmalloc_base_def vmalloc_end_def Let_def)
  then obtain v1 where v1: "vmalloc_reserve 4096 fresh_vmalloc = (0x40000000, v1)" by (metis prod.collapse)
  obtain s1 where s1: "as_map 0x1000 0x40000000 0xFEC00000 4096 (Flag_Write OR Flag_NoExecute OR Flag_NoCache) empty_vm
      = (True, s1)"
    using as_map_succeeds [OF empty_vm_inv, of 4096 "0x40000000" "0xFEC00000"
        "Flag_Write OR Flag_NoExecute OR Flag_NoCache"]
    by (auto simp: empty_vm_free pages_def)
  have m: "map_device 0x1000 0xFEC00010 32 (fresh_vmalloc, empty_vm) = (0x40000010, v1, s1)"
    using v1 s1 by (simp add: map_device_def round_up_def)
  have "\<forall>k < unat (32 :: usize). as_translate 0x1000 (0x40000010 + of_nat k) s1 = 0xFEC00010 + of_nat k"
    using map_device_correct [OF empty_vm_inv fresh_vmalloc_inv _ _ m] by simp
  from this [rule_format, of 4] show ?thesis using m by simp
qed

end
