(* ===== verification/Heap.thy ===== *)
theory Heap
  imports Vmalloc
begin

unbundle bit_operations_syntax

text \<open>
  The kernel heap, \<^verbatim>\<open>kernel/mm/heap.cpp\<close>: first fit over a doubly linked list of blocks with
  boundary merging, in virtual space that is committed page by page.

  The block headers are a store from addresses to records; the null pointer is address 0. The
  bytes between the headers belong to the clients, who stay inside their blocks. The walk of the
  free list follows the pointers, so it is partial: \<open>None\<close> is a walk that never ends, which the
  invariant excludes.
\<close>

section \<open>State\<close>

record BlockHeader =
  bh_size :: usize
  bh_free :: bool
  bh_next :: u64
  bh_prev :: u64

definition sizeof_BlockHeader :: usize where [simp]: "sizeof_BlockHeader = 32"
definition heap_reserved :: usize where [simp]: "heap_reserved = 64 * 1024 * 1024"
definition heap_growth_step :: usize where [simp]: "heap_growth_step = 2 * 1024 * 1024"
definition heap_alignment :: usize where [simp]: "heap_alignment = 16"

record heap =
  hp_head :: u64
  hp_tail :: u64
  hp_base :: virt_addr
  hp_committed :: usize
  hp_used :: usize
  hdr :: "u64 \<Rightarrow> BlockHeader"
  hp_vm :: mmu

definition set_hdr :: "u64 \<Rightarrow> (BlockHeader \<Rightarrow> BlockHeader) \<Rightarrow> heap \<Rightarrow> heap" where
  "set_hdr a f h = h\<lparr>hdr := (hdr h)(a := f (hdr h a))\<rparr>"

definition align_up :: "usize \<Rightarrow> usize" where
  "align_up x = (x + heap_alignment - 1) AND NOT (heap_alignment - 1)"

section \<open>Splitting and merging\<close>

definition split_block :: "u64 \<Rightarrow> usize \<Rightarrow> heap \<Rightarrow> heap" where
  "split_block block sz h =
     (let remaining = bh_size (hdr h block) - sz
      in if remaining < sizeof_BlockHeader + heap_alignment then h
         else let nxt = block + sizeof_BlockHeader + sz;
                  h1 = set_hdr nxt (\<lambda>_. \<lparr>bh_size = remaining - sizeof_BlockHeader, bh_free = True,
                         bh_next = bh_next (hdr h block), bh_prev = block\<rparr>) h;
                  h2 = (if bh_next (hdr h1 block) \<noteq> 0
                        then set_hdr (bh_next (hdr h1 block)) (\<lambda>b. b\<lparr>bh_prev := nxt\<rparr>) h1
                        else h1\<lparr>hp_tail := nxt\<rparr>)
              in set_hdr block (\<lambda>b. b\<lparr>bh_next := nxt, bh_size := sz\<rparr>) h2)"

text \<open>One half of \<open>merge\<close>: the block after \<open>block\<close> is swallowed.\<close>

definition absorb_next :: "u64 \<Rightarrow> u64 \<Rightarrow> heap \<Rightarrow> heap" where
  "absorb_next block victim h =
     (let h1 = set_hdr block (\<lambda>b. b\<lparr>bh_size := bh_size b + (sizeof_BlockHeader + bh_size (hdr h victim)),
                                  bh_next := bh_next (hdr h victim)\<rparr>) h;
          nxt = bh_next (hdr h1 block)
      in if nxt \<noteq> 0 then set_hdr nxt (\<lambda>b. b\<lparr>bh_prev := block\<rparr>) h1
         else h1\<lparr>hp_tail := block\<rparr>)"

definition merge :: "u64 \<Rightarrow> heap \<Rightarrow> heap" where
  "merge block h =
     (let nxt = bh_next (hdr h block);
          h1 = (if nxt \<noteq> 0 \<and> bh_free (hdr h nxt) then absorb_next block nxt h else h);
          prev = bh_prev (hdr h1 block)
      in if prev \<noteq> 0 \<and> bh_free (hdr h1 prev) then absorb_next prev block h1 else h1)"

section \<open>Growing\<close>

partial_function (option) growth :: "usize \<Rightarrow> usize \<Rightarrow> usize option" where
  "growth step wanted =
     (if step < wanted + sizeof_BlockHeader then growth (step + heap_growth_step) wanted
      else Some step)"

definition commit_page :: "phys_addr \<Rightarrow> virt_addr \<Rightarrow> mmu \<Rightarrow> bool \<times> mmu" where
  "commit_page root address s =
     (let (frame, fr) = alloc_page (frames s); s1 = s\<lparr>frames := fr\<rparr>
      in if frame = 0 then (False, s1)
         else case as_map root address frame page_size (Flag_Write OR Flag_NoExecute) s1 of
                (False, s2) \<Rightarrow> (False, s2\<lparr>frames := free_page frame (frames s2)\<rparr>)
              | (True, s2) \<Rightarrow> (True, s2))"

definition append_block :: "virt_addr \<Rightarrow> usize \<Rightarrow> heap \<Rightarrow> heap" where
  "append_block where_at step h =
     (let h1 = set_hdr where_at (\<lambda>_. \<lparr>bh_size = step - sizeof_BlockHeader, bh_free = True,
                 bh_next = 0, bh_prev = hp_tail h\<rparr>) h;
          h2 = (if hp_tail h1 \<noteq> 0 then set_hdr (hp_tail h1) (\<lambda>b. b\<lparr>bh_next := where_at\<rparr>) h1 else h1);
          h3 = h2\<lparr>hp_tail := where_at\<rparr>;
          h4 = (if hp_head h3 = 0 then h3\<lparr>hp_head := where_at\<rparr> else h3);
          h5 = h4\<lparr>hp_committed := hp_committed h4 + step\<rparr>
      in merge where_at h5)"

definition grow :: "phys_addr \<Rightarrow> usize \<Rightarrow> heap \<Rightarrow> (bool \<times> heap) option" where
  "grow root wanted h =
     map_option (\<lambda>step.
       if hp_committed h + step > heap_reserved then (False, h)
       else let where_at = hp_base h + hp_committed h
            in case page_loop (\<lambda>offset. commit_page root (where_at + offset)) (unat step) 0 (hp_vm h) of
                 (False, s) \<Rightarrow> (False, h\<lparr>hp_vm := s\<rparr>)
               | (True, s) \<Rightarrow> (True, append_block where_at step (h\<lparr>hp_vm := s\<rparr>)))
       (growth heap_growth_step wanted)"

datatype heap_panic = NoVirtualSpace | NoFirstCommit

definition heap_init ::
  "phys_addr \<Rightarrow> vmalloc \<Rightarrow> heap \<Rightarrow> (heap_panic + vmalloc \<times> heap) option" where
  "heap_init root v h =
     (let (base, v1) = vmalloc_reserve heap_reserved v
      in if base = 0 then Some (Inl NoVirtualSpace)
         else case grow root page_size (h\<lparr>hp_base := base, hp_head := 0, hp_tail := 0,
                       hp_committed := 0, hp_used := 0\<rparr>) of
                None \<Rightarrow> None
              | Some (False, _) \<Rightarrow> Some (Inl NoFirstCommit)
              | Some (True, h1) \<Rightarrow> Some (Inr (v1, h1)))"

section \<open>Allocation\<close>

partial_function (option) find_block :: "(u64 \<Rightarrow> BlockHeader) \<Rightarrow> usize \<Rightarrow> u64 \<Rightarrow> u64 option" where
  "find_block s wanted block =
     (if block = 0 then Some 0
      else if \<not> bh_free (s block) \<or> bh_size (s block) < wanted
      then find_block s wanted (bh_next (s block))
      else Some block)"

definition take_block :: "u64 \<Rightarrow> usize \<Rightarrow> heap \<Rightarrow> u64 \<times> heap" where
  "take_block block wanted h =
     (let h1 = set_hdr block (\<lambda>b. b\<lparr>bh_free := False\<rparr>) (split_block block wanted h);
          h2 = h1\<lparr>hp_used := hp_used h1 + bh_size (hdr h1 block)\<rparr>
      in (block + sizeof_BlockHeader, h2))"

fun kmalloc_attempts :: "nat \<Rightarrow> phys_addr \<Rightarrow> usize \<Rightarrow> heap \<Rightarrow> (u64 \<times> heap) option" where
  "kmalloc_attempts 0 root wanted h = Some (0, h)"
| "kmalloc_attempts (Suc n) root wanted h =
     Option.bind (find_block (hdr h) wanted (hp_head h)) (\<lambda>block.
       if block \<noteq> 0 then Some (take_block block wanted h)
       else Option.bind (grow root wanted h) (\<lambda>(ok, h1).
         if \<not> ok then Some (0, h1) else kmalloc_attempts n root wanted h1))"

definition kmalloc :: "phys_addr \<Rightarrow> usize \<Rightarrow> heap \<Rightarrow> (u64 \<times> heap) option" where
  "kmalloc root sz h =
     (if sz = 0 \<or> sz > heap_reserved then Some (0, h)
      else kmalloc_attempts 2 root (align_up sz) h)"

text \<open>\<open>kzalloc\<close> also writes the bytes of the block.\<close>

definition kzalloc :: "phys_addr \<Rightarrow> usize \<Rightarrow> heap \<times> memory \<Rightarrow> (u64 \<times> heap \<times> memory) option" where
  "kzalloc root sz st =
     (let (h, m) = st
      in map_option (\<lambda>(ptr, h1). (ptr, h1, if ptr \<noteq> 0 then memset m ptr 0 sz else m))
           (kmalloc root sz h))"

definition kfree :: "u64 \<Rightarrow> heap \<Rightarrow> heap" where
  "kfree ptr h =
     (if ptr = 0 then h
      else let block = ptr - sizeof_BlockHeader
           in if bh_free (hdr h block) then h
              else let h1 = set_hdr block (\<lambda>b. b\<lparr>bh_free := True\<rparr>) h;
                       h2 = h1\<lparr>hp_used := hp_used h1 - bh_size (hdr h1 block)\<rparr>
                   in merge block h2)"

definition heap_used :: "heap \<Rightarrow> usize" where "heap_used h = hp_used h"
definition heap_capacity :: "heap \<Rightarrow> usize" where "heap_capacity h = hp_committed h"

end
