(* ===== verification/Heap_Blocks.thy ===== *)
theory Heap_Blocks
  imports Heap
begin

unbundle bit_operations_syntax

text \<open>
  The heap as a list of blocks. The headers form a doubly linked list whose blocks lie one
  behind the other from the base of the heap to the end of the committed space. Splitting,
  merging, taking, freeing and appending a block are operations on that list.
\<close>

section \<open>The list of blocks\<close>

type_synonym blk = "u64 \<times> usize \<times> bool"

text \<open>A doubly linked segment from \<open>a\<close>, whose first block points back to \<open>p\<close>, to its last block \<open>q\<close>, which points on to \<open>b\<close>.\<close>

fun seg :: "(u64 \<Rightarrow> BlockHeader) \<Rightarrow> u64 \<Rightarrow> u64 \<Rightarrow> blk list \<Rightarrow> u64 \<Rightarrow> u64 \<Rightarrow> bool" where
  "seg s p a [] q b \<longleftrightarrow> a = b \<and> p = q"
| "seg s p a ((x, sz, fr) # xs) q b \<longleftrightarrow> a = x \<and> x \<noteq> 0 \<and> bh_size (s x) = sz \<and> bh_free (s x) = fr \<and>
     bh_prev (s x) = p \<and> seg s x (bh_next (s x)) xs q b"

fun laid :: "nat \<Rightarrow> blk list \<Rightarrow> bool" where
  "laid a [] \<longleftrightarrow> True"
| "laid a ((x, sz, fr) # xs) \<longleftrightarrow> unat x = a \<and> laid (a + 32 + unat sz) xs"

fun total :: "blk list \<Rightarrow> nat" where
  "total [] = 0"
| "total ((x, sz, fr) # xs) = 32 + unat sz + total xs"

lemma total_append [simp]: "total (xs @ ys) = total xs + total ys"
  by (induction xs rule: total.induct) simp_all

lemma laid_append [simp]: "laid a (xs @ ys) \<longleftrightarrow> laid a xs \<and> laid (a + total xs) ys"
  by (induction a xs rule: laid.induct) (auto simp: add.assoc)

lemma laid_bounds: "laid a xs \<Longrightarrow> (x, sz, fr) \<in> set xs \<Longrightarrow> a \<le> unat x \<and> unat x + 32 + unat sz \<le> a + total xs"
  by (induction a xs rule: laid.induct) fastforce+

lemma laid_distinct: "laid a xs \<Longrightarrow> distinct (map fst xs)"
proof (induction a xs rule: laid.induct)
  case (2 a x sz fr xs)
  have "y \<noteq> x" if "(y, sz', fr') \<in> set xs" for y sz' fr'
    using laid_bounds [of _ xs y sz' fr'] that 2 by fastforce
  then show ?case using 2 by fastforce
qed simp

lemma seg_append: "seg s p a (xs @ ys) q b \<longleftrightarrow> (\<exists>p' a'. seg s p a xs p' a' \<and> seg s p' a' ys q b)"
  by (induction s p a xs q b rule: seg.induct) auto

lemma seg_frame:
  "(\<And>x. x \<in> fst ` set xs \<Longrightarrow> s' x = s x) \<Longrightarrow> seg s' p a xs q b \<longleftrightarrow> seg s p a xs q b"
  by (induction s p a xs q b rule: seg.induct) auto

lemma seg_nonzero: "seg s p a xs q b \<Longrightarrow> x \<in> fst ` set xs \<Longrightarrow> x \<noteq> 0"
  by (induction s p a xs q b rule: seg.induct) auto

lemma seg_relink:
  assumes "seg s p a ys q 0" and "distinct (map fst ys)"
  shows "seg (if a \<noteq> 0 then s(a := (s a)\<lparr>bh_prev := p'\<rparr>) else s) p' a ys (if a \<noteq> 0 then q else p') 0"
proof (cases ys)
  case Nil
  then show ?thesis using assms by simp
next
  case (Cons y ys')
  obtain x sz fr where y: "y = (x, sz, fr)" by (cases y)
  have "seg (s(x := (s x)\<lparr>bh_prev := p'\<rparr>)) x (bh_next (s x)) ys' q 0 \<longleftrightarrow> seg s x (bh_next (s x)) ys' q 0"
    using assms(2) Cons y by (intro seg_frame) auto
  then show ?thesis using assms(1) Cons y by simp
qed

lemma seg_first: "seg s p a ys q 0 \<Longrightarrow> a \<noteq> 0 \<Longrightarrow> a \<in> fst ` set ys"
  by (cases ys) (auto simp: image_iff)

lemma seg_split:
  assumes S: "seg s 0 h0 (xs @ (x, sz, fr) # ys) t0 0" and nx: "nx \<noteq> 0"
    and D: "distinct (map fst (xs @ (x, w, fr) # (nx, r, True) # ys))"
  defines "n \<equiv> bh_next (s x)"
  defines "s1 \<equiv> s(nx := \<lparr>bh_size = r, bh_free = True, bh_next = n, bh_prev = x\<rparr>)"
  defines "s2 \<equiv> (if n \<noteq> 0 then s1(n := (s1 n)\<lparr>bh_prev := nx\<rparr>) else s1)"
  shows "seg (s2(x := (s2 x)\<lparr>bh_next := nx, bh_size := w\<rparr>)) 0 h0 (xs @ (x, w, fr) # (nx, r, True) # ys)
    (if n \<noteq> 0 then t0 else nx) 0"
proof -
  let ?s3 = "s2(x := (s2 x)\<lparr>bh_next := nx, bh_size := w\<rparr>)"
  obtain p where p: "seg s 0 h0 xs p x" "x \<noteq> 0" "bh_size (s x) = sz" "bh_free (s x) = fr" "bh_prev (s x) = p"
      and ys: "seg s x n ys t0 0"
    using S by (auto simp: seg_append n_def)
  have nin: "n \<noteq> 0 \<Longrightarrow> n \<in> fst ` set ys" using seg_first [OF ys] .
  have xsd: "y \<noteq> x \<and> y \<noteq> nx \<and> y \<notin> fst ` set ys" if "y \<in> fst ` set xs" for y
    using D that by auto
  have ysd: "y \<noteq> x \<and> y \<noteq> nx" if "y \<in> fst ` set ys" for y using D that by auto
  have nxx: "nx \<noteq> x" using D by auto
  have "seg ?s3 0 h0 xs p x"
  proof (subst seg_frame)
    show "seg s 0 h0 xs p x" by (rule p(1))
    fix y assume y: "y \<in> fst ` set xs"
    then have "n \<noteq> 0 \<Longrightarrow> y \<noteq> n" using xsd nin by blast
    then show "?s3 y = s y" using xsd [OF y] by (auto simp: s2_def s1_def)
  qed
  moreover have xs2: "s2 x = s x" using nxx nin ysd by (auto simp: s2_def s1_def)
  moreover have s3nx: "?s3 nx = \<lparr>bh_size = r, bh_free = True, bh_next = n, bh_prev = x\<rparr>"
    using nxx nin ysd by (auto simp: s2_def s1_def)
  moreover have "seg ?s3 nx n ys (if n \<noteq> 0 then t0 else nx) 0"
  proof -
    have "seg s1 x n ys t0 0"
      using ys ysd by (subst seg_frame [of _ s1 s]) (auto simp: s1_def)
    then have "seg s2 nx n ys (if n \<noteq> 0 then t0 else nx) 0"
      unfolding s2_def using D by (intro seg_relink) auto
    then show ?thesis using ysd by (subst seg_frame [of _ _ s2]) auto
  qed
  ultimately show ?thesis using p nx by (auto simp: seg_append)
qed

lemma seg_absorb:
  fixes z :: usize
  assumes S: "seg s 0 h0 (xs @ (x, sz, fr) # (v, vsz, vfr) # ys) t0 0"
    and D: "distinct (map fst (xs @ (x, sz, fr) # (v, vsz, vfr) # ys))"
  defines "n \<equiv> bh_next (s v)"
  defines "s1 \<equiv> s(x := (s x)\<lparr>bh_size := z, bh_next := n\<rparr>)"
  shows "seg (if n \<noteq> 0 then s1(n := (s1 n)\<lparr>bh_prev := x\<rparr>) else s1) 0 h0 (xs @ (x, z, fr) # ys)
    (if n \<noteq> 0 then t0 else x) 0"
proof -
  let ?s2 = "if n \<noteq> 0 then s1(n := (s1 n)\<lparr>bh_prev := x\<rparr>) else s1"
  obtain p where p: "seg s 0 h0 xs p x" "x \<noteq> 0" "bh_size (s x) = sz" "bh_free (s x) = fr" "bh_prev (s x) = p"
      and v: "bh_next (s x) = v" and ys: "seg s v n ys t0 0"
    using S by (auto simp: seg_append n_def)
  have nin: "n \<noteq> 0 \<Longrightarrow> n \<in> fst ` set ys" using seg_first [OF ys] .
  have xsd: "y \<noteq> x \<and> y \<notin> fst ` set ys" if "y \<in> fst ` set xs" for y using D that by auto
  have ysd: "y \<noteq> x" if "y \<in> fst ` set ys" for y using D that by auto
  have "seg ?s2 0 h0 xs p x"
  proof (subst seg_frame)
    show "seg s 0 h0 xs p x" by (rule p(1))
    fix y assume y: "y \<in> fst ` set xs"
    then have "n \<noteq> 0 \<Longrightarrow> y \<noteq> n" using xsd nin by blast
    then show "?s2 y = s y" using xsd [OF y] by (auto simp: s1_def)
  qed
  moreover have "?s2 x = (s x)\<lparr>bh_size := z, bh_next := n\<rparr>"
    using nin ysd by (auto simp: s1_def)
  moreover have "seg ?s2 x n ys (if n \<noteq> 0 then t0 else x) 0"
  proof -
    have "seg s1 v n ys t0 0"
      using ys ysd by (subst seg_frame [of _ s1 s]) (auto simp: s1_def)
    then show ?thesis using D by (intro seg_relink) auto
  qed
  ultimately show ?thesis using p by (auto simp: seg_append)
qed

section \<open>The representation invariant\<close>

fun used_sum :: "blk list \<Rightarrow> nat" where
  "used_sum [] = 0"
| "used_sum ((x, sz, fr) # xs) = (if fr then 0 else unat sz) + used_sum xs"

lemma used_sum_append [simp]: "used_sum (xs @ ys) = used_sum xs + used_sum ys"
  by (induction xs rule: used_sum.induct) simp_all

definition blk_free :: "blk \<Rightarrow> bool" where "blk_free b = snd (snd b)"
definition blk_size :: "blk \<Rightarrow> usize" where "blk_size b = fst (snd b)"

lemma blk_simps [simp]: "blk_free (x, sz, fr) = fr" "blk_size (x, sz, fr) = sz"
  by (simp_all add: blk_free_def blk_size_def)

definition coalesced :: "blk list \<Rightarrow> bool" where
  "coalesced = successively (\<lambda>b c. \<not> (blk_free b \<and> blk_free c))"

definition heap_rep :: "heap \<Rightarrow> blk list \<Rightarrow> bool" where
  "heap_rep h bs \<longleftrightarrow> seg (hdr h) 0 (hp_head h) bs (hp_tail h) 0 \<and> laid (unat (hp_base h)) bs \<and>
     total bs = unat (hp_committed h) \<and> (\<forall>b \<in> set bs. 16 dvd unat (blk_size b)) \<and>
     used_sum bs = unat (hp_used h) \<and> 4096 dvd unat (hp_base h) \<and> 1073741824 \<le> unat (hp_base h) \<and>
     unat (hp_base h) + 67108864 \<le> 2147483648 \<and> unat (hp_committed h) \<le> 67108864"

lemma heap_repD:
  assumes "heap_rep h bs"
  shows "seg (hdr h) 0 (hp_head h) bs (hp_tail h) 0" "laid (unat (hp_base h)) bs"
    "total bs = unat (hp_committed h)" "\<And>b. b \<in> set bs \<Longrightarrow> 16 dvd unat (blk_size b)"
    "used_sum bs = unat (hp_used h)" "4096 dvd unat (hp_base h)" "1073741824 \<le> unat (hp_base h)"
    "unat (hp_base h) + 67108864 \<le> 2147483648" "unat (hp_committed h) \<le> 67108864"
  using assms unfolding heap_rep_def by blast+

lemma set_hdr_simps [simp]:
  "hdr (set_hdr a f h) = (hdr h)(a := f (hdr h a))" "hp_head (set_hdr a f h) = hp_head h"
  "hp_tail (set_hdr a f h) = hp_tail h" "hp_base (set_hdr a f h) = hp_base h"
  "hp_committed (set_hdr a f h) = hp_committed h" "hp_used (set_hdr a f h) = hp_used h"
  "hp_vm (set_hdr a f h) = hp_vm h"
  by (simp_all add: set_hdr_def)

lemma heap_rep_middle:
  assumes "heap_rep h (xs @ (x, sz, fr) # ys)"
  shows "unat x = unat (hp_base h) + total xs" "unat x + 32 + unat sz + total ys = unat (hp_base h) + unat (hp_committed h)"
    "unat x + 32 + unat sz \<le> 2147483648" "x \<noteq> 0" "bh_size (hdr h x) = sz" "bh_free (hdr h x) = fr" "16 dvd unat sz"
proof -
  note R = heap_repD [OF assms]
  show "unat x = unat (hp_base h) + total xs" using R(2) by simp
  then show "unat x + 32 + unat sz + total ys = unat (hp_base h) + unat (hp_committed h)" using R(3) by simp
  then show "unat x + 32 + unat sz \<le> 2147483648" using R(8,9) by linarith
  show "x \<noteq> 0" "bh_size (hdr h x) = sz" "bh_free (hdr h x) = fr" using R(1) by (auto simp: seg_append)
  show "16 dvd unat sz" using R(4) [of "(x, sz, fr)"] by simp
qed

definition split_result :: "blk list \<Rightarrow> u64 \<Rightarrow> usize \<Rightarrow> blk list \<Rightarrow> usize \<Rightarrow> blk list" where
  "split_result xs x sz ys w =
     (if unat sz - unat w < 48 then xs @ (x, sz, True) # ys
      else xs @ (x, w, True) # (x + 32 + w, sz - w - 32, True) # ys)"

lemma split_block_rep:
  assumes rep: "heap_rep h (xs @ (x, sz, True) # ys)" and w: "unat w \<le> unat sz" "16 dvd unat w"
  shows "heap_rep (split_block x w h) (split_result xs x sz ys w)" and "hp_vm (split_block x w h) = hp_vm h"
proof -
  note R = heap_repD [OF rep] and M = heap_rep_middle [OF rep]
  have rem: "unat (sz - w) = unat sz - unat w" using w by (simp add: unat_u64_sub word_le_nat_alt)
  have "heap_rep (split_block x w h) (split_result xs x sz ys w) \<and> hp_vm (split_block x w h) = hp_vm h"
  proof (cases "unat sz - unat w < 48")
    case True
    then have "sz - w < 48" using rem by (simp add: word_less_nat_alt)
    then show ?thesis using True rep M(5) by (simp add: split_block_def split_result_def)
  next
    case False
    then have ge: "\<not> sz - w < 48" using rem by (simp add: word_less_nat_alt)
    define nx where "nx = x + 32 + w"
    define r where "r = sz - w - 32"
    have r: "unat r = unat sz - unat w - 32"
      using False rem by (simp add: r_def unat_u64_sub word_le_nat_alt)
    have nx: "unat nx = unat x + 32 + unat w"
      using M(3) w by (simp add: nx_def unat_u64_add add.assoc)
    have nx0: "nx \<noteq> 0" using nx by (metis unsigned_0 add_is_0 zero_neq_numeral)
    let ?bs = "xs @ (x, w, True) # (nx, r, True) # ys"
    have res: "split_result xs x sz ys w = ?bs" using False by (simp add: split_result_def nx_def r_def)
    have laid: "laid (unat (hp_base h)) ?bs"
      using R(2) nx r False by (auto simp: algebra_simps)
    have tot: "total ?bs = unat (hp_committed h)" using R(3) r False by simp
    let ?n = "bh_next (hdr h x)"
    define s1 where "s1 = (hdr h)(nx := \<lparr>bh_size = r, bh_free = True, bh_next = ?n, bh_prev = x\<rparr>)"
    define s2 where "s2 = (if ?n \<noteq> 0 then s1(?n := (s1 ?n)\<lparr>bh_prev := nx\<rparr>) else s1)"
    have D: "distinct (map fst ?bs)" using laid by (rule laid_distinct)
    then have "nx \<noteq> x" by auto
    then have xn: "s1 x = hdr h x" by (simp add: s1_def)
    have h': "hdr (split_block x w h) = s2(x := (s2 x)\<lparr>bh_next := nx, bh_size := w\<rparr>)"
      "hp_tail (split_block x w h) = (if ?n \<noteq> 0 then hp_tail h else nx)"
      "hp_head (split_block x w h) = hp_head h" "hp_base (split_block x w h) = hp_base h"
      "hp_committed (split_block x w h) = hp_committed h" "hp_used (split_block x w h) = hp_used h"
      "hp_vm (split_block x w h) = hp_vm h"
      using ge xn M(5) by (simp_all add: split_block_def Let_def s2_def s1_def nx_def [symmetric] r_def [symmetric])
    have "seg (hdr (split_block x w h)) 0 (hp_head h) ?bs (hp_tail (split_block x w h)) 0"
      using seg_split [OF R(1) nx0 D] unfolding h' s2_def s1_def .
    moreover have "16 dvd unat r"
      unfolding r using M(7) w(2) by (auto intro!: dvd_diff_nat)
    then have "\<forall>b \<in> set ?bs. 16 dvd unat (blk_size b)" using R(4) w(2) by auto
    moreover have "used_sum ?bs = unat (hp_used h)" using R(5) by simp
    ultimately show ?thesis
      unfolding res heap_rep_def using laid tot R(6-9) by (simp add: h'(3-7))
  qed
  then show "heap_rep (split_block x w h) (split_result xs x sz ys w)" "hp_vm (split_block x w h) = hp_vm h" by blast+
qed

lemma absorb_next_rep:
  assumes rep: "heap_rep h (xs @ (x, sz, True) # (v, vsz, True) # ys)"
  shows "heap_rep (absorb_next x v h) (xs @ (x, sz + (32 + vsz), True) # ys)" "hp_vm (absorb_next x v h) = hp_vm h"
proof -
  note R = heap_repD [OF rep] and M = heap_rep_middle [OF rep]
  note V = heap_rep_middle [where xs = "xs @ [(x, sz, True)]", simplified, OF rep]
  have D: "distinct (map fst (xs @ (x, sz, True) # (v, vsz, True) # ys))" using R(2) by (rule laid_distinct)
  have z: "unat (sz + (32 + vsz)) = unat sz + 32 + unat vsz"
    using M(2) R(8,9) by (simp add: unat_u64_add)
  let ?bs = "xs @ (x, sz + (32 + vsz), True) # ys"
  let ?n = "bh_next (hdr h v)"
  define s1 where "s1 = (hdr h)(x := (hdr h x)\<lparr>bh_size := sz + (32 + vsz), bh_next := ?n\<rparr>)"
  have h': "hdr (absorb_next x v h) = (if ?n \<noteq> 0 then s1(?n := (s1 ?n)\<lparr>bh_prev := x\<rparr>) else s1)"
    "hp_tail (absorb_next x v h) = (if ?n \<noteq> 0 then hp_tail h else x)"
    "hp_head (absorb_next x v h) = hp_head h" "hp_base (absorb_next x v h) = hp_base h"
    "hp_committed (absorb_next x v h) = hp_committed h" "hp_used (absorb_next x v h) = hp_used h"
    "hp_vm (absorb_next x v h) = hp_vm h"
    using M(5) V(5) by (simp_all add: absorb_next_def Let_def s1_def)
  show "hp_vm (absorb_next x v h) = hp_vm h" by (rule h')
  have "seg (hdr (absorb_next x v h)) 0 (hp_head h) ?bs (hp_tail (absorb_next x v h)) 0"
    using seg_absorb [OF R(1) D] unfolding h'(1,2) s1_def .
  moreover have "laid (unat (hp_base h)) ?bs" using R(2) z by (simp add: algebra_simps)
  moreover have "16 dvd unat (sz + (32 + vsz))"
    unfolding z using M(7) V(7) by (intro dvd_add) simp_all
  then have "\<forall>b \<in> set ?bs. 16 dvd unat (blk_size b)" using R(4) by auto
  ultimately show "heap_rep (absorb_next x v h) ?bs"
    unfolding heap_rep_def using R(3,5-9) z by (simp add: h'(3-6))
qed

lemma seg_next:
  "seg s p a (xs @ (x, sz, fr) # ys) q 0 \<Longrightarrow> bh_next (s x) = (case ys of [] \<Rightarrow> 0 | y # _ \<Rightarrow> fst y)"
  by (auto simp: seg_append split: list.splits)

lemma seg_last: "seg s p a xs q b \<Longrightarrow> q = (if xs = [] then p else fst (last xs))"
  by (induction s p a xs q b rule: seg.induct) auto

lemma seg_prev:
  "seg s 0 a (xs @ (x, sz, fr) # ys) q 0 \<Longrightarrow> bh_prev (s x) = (if xs = [] then 0 else fst (last xs))"
  using seg_last by (fastforce simp: seg_append)

text \<open>What a freed block and its free neighbours become.\<close>

fun merge_right :: "usize \<Rightarrow> blk list \<Rightarrow> usize \<times> blk list" where
  "merge_right sz ((v, vsz, True) # ys) = (sz + (32 + vsz), ys)"
| "merge_right sz ys = (sz, ys)"

definition merge_left :: "blk list \<Rightarrow> u64 \<Rightarrow> usize \<Rightarrow> blk list \<Rightarrow> blk list" where
  "merge_left xs x sz ys =
     (if xs \<noteq> [] \<and> blk_free (last xs)
      then butlast xs @ (fst (last xs), blk_size (last xs) + (32 + sz), True) # ys
      else xs @ (x, sz, True) # ys)"

definition merge_result :: "blk list \<Rightarrow> u64 \<Rightarrow> usize \<Rightarrow> blk list \<Rightarrow> blk list" where
  "merge_result xs x sz ys = (let (z, zs) = merge_right sz ys in merge_left xs x z zs)"

lemma merge_right_rep:
  assumes rep: "heap_rep h (xs @ (x, sz, True) # ys)"
  defines "nxt \<equiv> bh_next (hdr h x)"
  defines "h1 \<equiv> (if nxt \<noteq> 0 \<and> bh_free (hdr h nxt) then absorb_next x nxt h else h)"
  shows "heap_rep h1 (xs @ (x, fst (merge_right sz ys), True) # snd (merge_right sz ys))" "hp_vm h1 = hp_vm h"
proof -
  note R = heap_repD [OF rep]
  have "heap_rep h1 (xs @ (x, fst (merge_right sz ys), True) # snd (merge_right sz ys)) \<and> hp_vm h1 = hp_vm h"
  proof (cases ys)
    case Nil
    then have "nxt = 0" using seg_next [OF R(1)] by (simp add: nxt_def)
    then show ?thesis using rep Nil by (simp add: h1_def)
  next
    case (Cons y ys')
    obtain v vsz vfr where y: "y = (v, vsz, vfr)" by (cases y)
    note V = heap_rep_middle [where xs = "xs @ [(x, sz, True)]", simplified, OF rep [unfolded Cons y]]
    have n: "nxt = v" using seg_next [OF R(1)] Cons y by (simp add: nxt_def)
    show ?thesis
    proof (cases vfr)
      case True
      then show ?thesis
        using absorb_next_rep [of h xs x sz v vsz ys'] rep Cons y n V(4,6) by (simp add: h1_def)
    next
      case False
      then show ?thesis using rep Cons y n V(6) by (simp add: h1_def)
    qed
  qed
  then show "heap_rep h1 (xs @ (x, fst (merge_right sz ys), True) # snd (merge_right sz ys))" "hp_vm h1 = hp_vm h"
    by blast+
qed

lemma merge_rep:
  assumes rep: "heap_rep h (xs @ (x, sz, True) # ys)"
  shows "heap_rep (merge x h) (merge_result xs x sz ys)" "hp_vm (merge x h) = hp_vm h"
proof -
  define nxt where "nxt = bh_next (hdr h x)"
  define h1 where "h1 = (if nxt \<noteq> 0 \<and> bh_free (hdr h nxt) then absorb_next x nxt h else h)"
  obtain z zs where z: "merge_right sz ys = (z, zs)" by fastforce
  have rep1: "heap_rep h1 (xs @ (x, z, True) # zs)" and vm1: "hp_vm h1 = hp_vm h"
    using merge_right_rep [OF rep, folded nxt_def, folded h1_def] z by simp_all
  note R = heap_repD [OF rep1]
  define pv where "pv = bh_prev (hdr h1 x)"
  have m: "merge x h = (if pv \<noteq> 0 \<and> bh_free (hdr h1 pv) then absorb_next pv x h1 else h1)"
    by (simp add: merge_def Let_def h1_def nxt_def pv_def)
  have r: "merge_result xs x sz ys = merge_left xs x z zs" by (simp add: merge_result_def z)
  have "heap_rep (merge x h) (merge_result xs x sz ys) \<and> hp_vm (merge x h) = hp_vm h"
  proof (cases "xs = []")
    case True
    then have "pv = 0" using seg_prev [OF R(1)] by (simp add: pv_def)
    then show ?thesis unfolding m r merge_left_def using rep1 vm1 True by simp
  next
    case False
    obtain p psz pfr where l: "last xs = (p, psz, pfr)" by (cases "last xs")
    then have xs: "xs = butlast xs @ [(p, psz, pfr)]" using False by (metis append_butlast_last_id)
    have pv: "pv = p" using seg_prev [OF R(1)] False l by (simp add: pv_def)
    have rep2: "heap_rep h1 (butlast xs @ (p, psz, pfr) # (x, z, True) # zs)"
      using rep1 xs by (metis append.assoc append_Cons append_Nil)
    note P = heap_rep_middle [OF rep2]
    show ?thesis
    proof (cases pfr)
      case True
      then show ?thesis
        using absorb_next_rep [of h1 "butlast xs" p psz x z zs] rep2 P(4,6) pv False l vm1
        by (simp add: m r merge_left_def)
    next
      case pf: False
      then show ?thesis using rep1 P(6) pv False l vm1 by (simp add: m r merge_left_def)
    qed
  qed
  then show "heap_rep (merge x h) (merge_result xs x sz ys)" "hp_vm (merge x h) = hp_vm h" by blast+
qed

text \<open>The allocations: payload address and size of the blocks in use.\<close>

definition allocations :: "blk list \<Rightarrow> (u64 \<times> usize) set" where
  "allocations bs = {(x + 32, sz) | x sz. (x, sz, False) \<in> set bs}"

lemma allocations_append [simp]: "allocations (xs @ ys) = allocations xs \<union> allocations ys"
  by (auto simp: allocations_def)

lemma allocations_Cons [simp]: "allocations ((x, sz, fr) # xs) = (if fr then allocations xs else insert (x + 32, sz) (allocations xs))"
  by (auto simp: allocations_def)

lemma allocations_Nil [simp]: "allocations [] = {}"
  by (simp add: allocations_def)

lemma allocations_merge_right: "allocations (snd (merge_right sz ys)) = allocations ys"
  by (cases "(sz, ys)" rule: merge_right.cases) auto

lemma allocations_merge_left: "allocations (merge_left xs x sz ys) = allocations xs \<union> allocations ys"
proof (cases "xs \<noteq> [] \<and> blk_free (last xs)")
  case True
  obtain p psz pfr where l: "last xs = (p, psz, pfr)" by (cases "last xs")
  then have "xs = butlast xs @ [(p, psz, True)]" using True by (metis append_butlast_last_id blk_simps(1))
  then have "allocations xs = allocations (butlast xs)"
    by (metis allocations_append allocations_Cons allocations_Nil sup_bot_right)
  then show ?thesis using True l by (simp add: merge_left_def)
qed (auto simp: merge_left_def)

lemma allocations_merge_result: "allocations (merge_result xs x sz ys) = allocations xs \<union> allocations ys"
  using allocations_merge_right [of sz ys] by (auto simp: merge_result_def allocations_merge_left split: prod.splits)

lemma coalesced_merge_result:
  assumes "coalesced xs" and "coalesced ys"
  shows "coalesced (merge_result xs x sz ys)"
proof -
  obtain z zs where z: "merge_right sz ys = (z, zs)" by fastforce
  have zs: "coalesced zs" "zs \<noteq> [] \<Longrightarrow> \<not> blk_free (hd zs)"
    using assms(2) z by (cases "(sz, ys)" rule: merge_right.cases;
      auto simp: coalesced_def successively_Cons)+
  have xs: "coalesced (butlast xs)"
    "xs \<noteq> [] \<Longrightarrow> blk_free (last xs) \<Longrightarrow> butlast xs \<noteq> [] \<Longrightarrow> \<not> blk_free (last (butlast xs))"
    using assms(1) successively_append_iff [of "\<lambda>b c. \<not> (blk_free b \<and> blk_free c)" "butlast xs" "[last xs]"]
    by (cases "xs = []"; auto simp: coalesced_def)+
  show ?thesis
    using assms(1) zs xs z
    by (auto simp: merge_result_def merge_left_def coalesced_def successively_append_iff successively_Cons)
qed

section \<open>The operations\<close>

lemma find_block_step:
  "find_block s w 0 = Some 0"
  "x \<noteq> 0 \<Longrightarrow> bh_free (s x) \<Longrightarrow> w \<le> bh_size (s x) \<Longrightarrow> find_block s w x = Some x"
  "x \<noteq> 0 \<Longrightarrow> \<not> (bh_free (s x) \<and> w \<le> bh_size (s x)) \<Longrightarrow> find_block s w x = find_block s w (bh_next (s x))"
  by (subst find_block.simps, auto simp: not_le)+

text \<open>The walk ends, at the first free block that is large enough or at the end of the list.\<close>

lemma find_block_spec:
  assumes "seg s p a bs q 0"
  shows "(find_block s w a = Some 0 \<and> (\<forall>b \<in> set bs. \<not> (blk_free b \<and> w \<le> blk_size b))) \<or>
    (\<exists>xs x sz ys. bs = xs @ (x, sz, True) # ys \<and> w \<le> sz \<and> x \<noteq> 0 \<and> find_block s w a = Some x \<and>
      (\<forall>b \<in> set xs. \<not> (blk_free b \<and> w \<le> blk_size b)))"
  using assms
proof (induction bs arbitrary: p a)
  case Nil
  then show ?case by (simp add: find_block_step)
next
  case (Cons b bs)
  obtain x sz fr where b: "b = (x, sz, fr)" by (cases b)
  have x: "a = x" "x \<noteq> 0" "bh_size (s x) = sz" "bh_free (s x) = fr" "seg s x (bh_next (s x)) bs q 0"
    using Cons.prems b by auto
  show ?case
  proof (cases "fr \<and> w \<le> sz")
    case True
    then have "find_block s w a = Some x" using x find_block_step(2) [of x s w] by simp
    then show ?thesis using True b x
      by (intro disjI2 exI [of _ "[]"] exI [of _ x] exI [of _ sz] exI [of _ bs]) simp
  next
    case False
    then have f: "find_block s w a = find_block s w (bh_next (s x))"
      using x find_block_step(3) [of x s w] by simp
    from Cons.IH [OF x(5)] show ?thesis
    proof
      assume "find_block s w (bh_next (s x)) = Some 0 \<and> (\<forall>b \<in> set bs. \<not> (blk_free b \<and> w \<le> blk_size b))"
      then show ?thesis using f False b by auto
    next
      assume "\<exists>xs y sz ys. bs = xs @ (y, sz, True) # ys \<and> w \<le> sz \<and> y \<noteq> 0 \<and>
        find_block s w (bh_next (s x)) = Some y \<and> (\<forall>b \<in> set xs. \<not> (blk_free b \<and> w \<le> blk_size b))"
      then obtain xs y sz' ys where "bs = xs @ (y, sz', True) # ys" "w \<le> sz'" "y \<noteq> 0"
        "find_block s w (bh_next (s x)) = Some y" "\<forall>b \<in> set xs. \<not> (blk_free b \<and> w \<le> blk_size b)" by blast
      then show ?thesis using f False b
        by (intro disjI2 exI [of _ "b # xs"] exI [of _ y] exI [of _ sz'] exI [of _ ys]) auto
    qed
  qed
qed

text \<open>Changing the state of a block in the middle.\<close>

lemma seg_set_free:
  assumes "seg s p a (xs @ (x, sz, fr) # ys) q b" and "distinct (map fst (xs @ (x, sz, fr) # ys))"
  shows "seg (s(x := (s x)\<lparr>bh_free := fr'\<rparr>)) p a (xs @ (x, sz, fr') # ys) q b"
proof -
  let ?s = "s(x := (s x)\<lparr>bh_free := fr'\<rparr>)"
  have "seg ?s p a xs p' a' \<longleftrightarrow> seg s p a xs p' a'" for p' a'
    using assms(2) by (intro seg_frame) auto
  moreover have "seg ?s p' a' ys q b \<longleftrightarrow> seg s p' a' ys q b" for p' a'
    using assms(2) by (intro seg_frame) auto
  ultimately show ?thesis using assms(1) by (auto simp: seg_append simp del: fun_upd_apply) (auto)
qed

lemma used_bound:
  assumes "heap_rep h bs" shows "used_sum bs \<le> total bs"
proof -
  have "used_sum bs \<le> total bs" by (induction bs rule: used_sum.induct) auto
  then show ?thesis .
qed

lemma set_used_rep:
  assumes rep: "heap_rep h (xs @ (x, sz, True) # ys)"
  defines "h1 \<equiv> set_hdr x (\<lambda>b. b\<lparr>bh_free := False\<rparr>) h"
  shows "heap_rep (h1\<lparr>hp_used := hp_used h1 + bh_size (hdr h1 x)\<rparr>) (xs @ (x, sz, False) # ys)"
proof -
  note R = heap_repD [OF rep] and M = heap_rep_middle [OF rep]
  have D: "distinct (map fst (xs @ (x, sz, True) # ys))" using R(2) by (rule laid_distinct)
  have "used_sum (xs @ (x, sz, True) # ys) \<le> total (xs @ (x, sz, True) # ys)" by (rule used_bound [OF rep])
  then have u: "unat (hp_used h + sz) = unat (hp_used h) + unat sz"
    using R(3,5,8,9) M(3) by (simp add: unat_u64_add)
  show ?thesis
    using seg_set_free [OF R(1) D, of False] R M(5,7) u
    by (auto simp: heap_rep_def h1_def simp del: fun_upd_apply) simp
qed

lemma set_free_rep:
  assumes rep: "heap_rep h (xs @ (x, sz, False) # ys)"
  defines "h1 \<equiv> set_hdr x (\<lambda>b. b\<lparr>bh_free := True\<rparr>) h"
  shows "heap_rep (h1\<lparr>hp_used := hp_used h1 - bh_size (hdr h1 x)\<rparr>) (xs @ (x, sz, True) # ys)"
proof -
  note R = heap_repD [OF rep] and M = heap_rep_middle [OF rep]
  have D: "distinct (map fst (xs @ (x, sz, False) # ys))" using R(2) by (rule laid_distinct)
  have u: "unat (hp_used h - sz) = unat (hp_used h) - unat sz"
    using R(5) by (simp add: unat_u64_sub word_le_nat_alt)
  show ?thesis
    using seg_set_free [OF R(1) D, of True] R M(5,7) u
    by (auto simp: heap_rep_def h1_def simp del: fun_upd_apply) simp
qed

definition take_result :: "blk list \<Rightarrow> u64 \<Rightarrow> usize \<Rightarrow> blk list \<Rightarrow> usize \<Rightarrow> usize \<times> blk list" where
  "take_result xs x sz ys w =
     (if unat sz - unat w < 48 then (sz, xs @ (x, sz, False) # ys)
      else (w, xs @ (x, w, False) # (x + 32 + w, sz - w - 32, True) # ys))"

lemma take_block_rep:
  assumes rep: "heap_rep h (xs @ (x, sz, True) # ys)" and w: "w \<le> sz" "16 dvd unat w"
    and t: "take_block x w h = (p, h')"
  shows "p = x + 32" "heap_rep h' (snd (take_result xs x sz ys w))" "hp_vm h' = hp_vm h"
proof -
  have le: "unat w \<le> unat sz" using w(1) by (simp add: word_le_nat_alt)
  note S = split_block_rep [OF rep le w(2)]
  show "p = x + 32" using t by (simp add: take_block_def Let_def)
  have h': "h' = (set_hdr x (\<lambda>b. b\<lparr>bh_free := False\<rparr>) (split_block x w h))
      \<lparr>hp_used := hp_used (set_hdr x (\<lambda>b. b\<lparr>bh_free := False\<rparr>) (split_block x w h)) +
        bh_size (hdr (set_hdr x (\<lambda>b. b\<lparr>bh_free := False\<rparr>) (split_block x w h)) x)\<rparr>"
    using t by (simp add: take_block_def Let_def)
  show "hp_vm h' = hp_vm h" unfolding h' using S(2) by simp
  show "heap_rep h' (snd (take_result xs x sz ys w))"
    unfolding h' using set_used_rep S(1) by (auto simp: split_result_def take_result_def split: if_splits)
qed

lemma kfree_rep:
  assumes rep: "heap_rep h (xs @ (x, sz, False) # ys)"
  shows "heap_rep (kfree (x + 32) h) (merge_result xs x sz ys)" "hp_vm (kfree (x + 32) h) = hp_vm h"
proof -
  note M = heap_rep_middle [OF rep]
  have "unat (x + 32) = unat x + 32" using M(3) by (simp add: unat_u64_add)
  then have "x + 32 \<noteq> 0" by (metis unsigned_0 add_is_0 zero_neq_numeral)
  then have k: "kfree (x + 32) h = merge x ((set_hdr x (\<lambda>b. b\<lparr>bh_free := True\<rparr>) h)
      \<lparr>hp_used := hp_used (set_hdr x (\<lambda>b. b\<lparr>bh_free := True\<rparr>) h) -
        bh_size (hdr (set_hdr x (\<lambda>b. b\<lparr>bh_free := True\<rparr>) h) x)\<rparr>)"
    using M(6) by (simp add: kfree_def Let_def)
  note F = set_free_rep [OF rep]
  show "heap_rep (kfree (x + 32) h) (merge_result xs x sz ys)" "hp_vm (kfree (x + 32) h) = hp_vm h"
    unfolding k using merge_rep [OF F] by simp_all
qed

lemma append_block_rep:
  assumes rep: "heap_rep h bs" and step: "unat (hp_committed h) + unat step \<le> 67108864"
    and st: "32 < unat step" "16 dvd unat step"
  defines "at \<equiv> hp_base h + hp_committed h"
  shows "heap_rep (append_block at step h) (merge_result bs at (step - 32) [])"
    "hp_vm (append_block at step h) = hp_vm h"
proof -
  note R = heap_repD [OF rep]
  have a: "unat at = unat (hp_base h) + unat (hp_committed h)"
    using R(8) step by (simp add: at_def unat_u64_add)
  have a0: "at \<noteq> 0" using a R(7) by (metis unsigned_0 add_is_0 le_zero_eq zero_neq_numeral)
  have sz: "unat (step - 32) = unat step - 32" using st by (simp add: unat_u64_sub word_le_nat_alt)
  have com: "unat (hp_committed h + step) = unat (hp_committed h) + unat step"
    using step by (simp add: unat_u64_add)
  let ?bs = "bs @ [(at, step - 32, True)]"
  have laid: "laid (unat (hp_base h)) ?bs" using R(2,3) a by simp
  have D: "distinct (map fst ?bs)" using laid by (rule laid_distinct)
  let ?N = "\<lparr>bh_size = step - 32, bh_free = True, bh_next = 0, bh_prev = hp_tail h\<rparr>"
  define s1 where "s1 = (hdr h)(at := ?N)"
  define s2 where "s2 = (if hp_tail h \<noteq> 0 then s1(hp_tail h := (s1 (hp_tail h))\<lparr>bh_next := at\<rparr>) else s1)"
  define h5 where "h5 = h\<lparr>hdr := s2, hp_tail := at, hp_head := (if hp_head h = 0 then at else hp_head h),
    hp_committed := hp_committed h + step\<rparr>"
  have ap: "append_block at step h = merge at h5"
    by (simp add: append_block_def Let_def h5_def s2_def s1_def set_hdr_def)
  have "seg s2 0 (hp_head h5) ?bs at 0"
  proof (cases "bs = []")
    case True
    then have "hp_head h = 0" "hp_tail h = 0" using R(1) by auto
    then show ?thesis using True a0 by (simp add: h5_def s2_def s1_def)
  next
    case False
    obtain l lsz lfr where l: "last bs = (l, lsz, lfr)" by (cases "last bs")
    then have bs: "bs = butlast bs @ [(l, lsz, lfr)]" using False by (metis append_butlast_last_id)
    have tl: "hp_tail h = l" using seg_last [OF R(1)] False l by simp
    have segl: "seg (hdr h) 0 (hp_head h) (butlast bs @ [(l, lsz, lfr)]) l 0"
      using R(1) bs tl by metis
    then obtain p where p: "seg (hdr h) 0 (hp_head h) (butlast bs) p l" "l \<noteq> 0" "bh_size (hdr h l) = lsz"
        "bh_free (hdr h l) = lfr" "bh_prev (hdr h l) = p"
      by (auto simp: seg_append)
    have hd: "hp_head h \<noteq> 0"
      using R(1) False seg_nonzero [OF R(1)] by (cases bs) auto
    have dl: "distinct (map fst (butlast bs @ [(l, lsz, lfr), (at, step - 32, True)]))"
      using D bs by (metis append.assoc append_Cons append_Nil)
    then have ne: "at \<noteq> l" "\<And>y. y \<in> fst ` set (butlast bs) \<Longrightarrow> y \<noteq> l \<and> y \<noteq> at" by auto
    have "seg s2 0 (hp_head h) (butlast bs) p l"
      using p(1) ne tl by (subst seg_frame [of _ s2 "hdr h"]) (auto simp: s2_def s1_def)
    moreover have "s2 l = (hdr h l)\<lparr>bh_next := at\<rparr>" "s2 at = ?N" using p(2) ne(1) tl by (auto simp: s2_def s1_def)
    ultimately have "seg s2 0 (hp_head h) (butlast bs @ [(l, lsz, lfr), (at, step - 32, True)]) at 0"
      using p a0 tl by (auto simp: seg_append)
    then show ?thesis using bs hd by (simp add: h5_def) (metis append.assoc append_Cons append_Nil)
  qed
  moreover have "16 dvd unat (step - 32)" unfolding sz using st by (auto intro: dvd_diff_nat)
  then have "\<forall>b \<in> set ?bs. 16 dvd unat (blk_size b)" using R(4) by auto
  ultimately have rep5: "heap_rep h5 (bs @ (at, step - 32, True) # [])"
    unfolding heap_rep_def using laid R(3,5-9) sz com st step by (simp add: h5_def)
  show "heap_rep (append_block at step h) (merge_result bs at (step - 32) [])"
    "hp_vm (append_block at step h) = hp_vm h"
    unfolding ap using merge_rep [OF rep5] by (simp_all add: h5_def)
qed

end
