(* ===== verification/Heap_Alloc.thy ===== *)
theory Heap_Alloc
  imports Heap_Blocks
begin

unbundle bit_operations_syntax

text \<open>
  The operations of the kernel heap on a whole heap: growing it by mapped pages, allocating,
  freeing and the first commit. \<open>heap_inv\<close> says that the block list tiles the committed space,
  that no two free blocks are neighbours and that every committed byte is mapped; \<open>heap_ok\<close>
  abstracts a heap to the set of its live allocations.
\<close>

section \<open>Committing pages\<close>

lemma growth_spec:
  assumes "unat wanted \<le> 67108864 + 64" "unat step \<le> unat wanted + 32 + 2097152" "2097152 dvd unat step" "0 < unat step"
  shows "\<exists>t. growth step wanted = Some t \<and> unat wanted + 32 \<le> unat t \<and>
    unat t \<le> unat wanted + 32 + 2097152 \<and> 2097152 dvd unat t \<and> 0 < unat t"
  using assms(2-4)
proof (induction "unat wanted + 32 + 2097152 - unat step" arbitrary: step rule: less_induct)
  case less
  have w: "unat (wanted + 32) = unat wanted + 32" using assms(1) by (simp add: unat_u64_add)
  show ?case
  proof (cases "step < wanted + 32")
    case True
    then have lt: "unat step < unat wanted + 32" using w by (simp add: word_less_nat_alt)
    have s: "unat (step + 2097152) = unat step + 2097152"
      using less.prems assms(1) by (simp add: unat_u64_add)
    have "growth step wanted = growth (step + 2097152) wanted"
      using True by (subst growth.simps) simp
    then show ?thesis using less.hyps [of "step + 2097152"] less.prems lt s by simp
  next
    case False
    then have "growth step wanted = Some step" by (subst growth.simps) simp
    then show ?thesis using False less.prems w by (simp add: word_less_nat_alt)
  qed
qed

lemma vm_inv_take_frame:
  assumes "vm_inv root s" and "alloc_page (frames s) = (frame, fr)" and "frame \<noteq> 0"
  shows "vm_inv root (s\<lparr>frames := fr\<rparr>)" "page_aligned frame" "unat frame div 4096 \<notin> allocated (frames s)"
    "allocated fr = insert (unat frame div 4096) (allocated (frames s))" "unat frame < 1073741824" "4096 \<le> unat frame"
proof -
  have good: "pa_good (frames s)" using assms(1) by (simp add: vm_inv_def)
  note F = frames.take_fresh [OF good assms(2,3)]
  show "vm_inv root (s\<lparr>frames := fr\<rparr>)"
    using F assms(1) wf_tables_mono [of "qmem s" root "allocated (frames s)" "allocated fr"]
    by (auto simp: vm_inv_def)
  show "page_aligned frame" "unat frame div 4096 \<notin> allocated (frames s)"
    "allocated fr = insert (unat frame div 4096) (allocated (frames s))" using F by blast+
  then show "unat frame < 1073741824" using allocated_frame_less [of frame fr] by simp
  show "4096 \<le> unat frame"
    using F assms(3) dvd_imp_le [of 4096 "unat frame"] by (auto simp: page_aligned_def unat_gt_0)
qed

text \<open>A frame that is no table may be given back.\<close>

lemma vm_inv_give_frame:
  assumes "vm_inv root s" and "page_aligned frame" "frame \<noteq> 0"
    and "\<And>p t. valid_path p \<Longrightarrow> walk (qmem s) 3 root p = Some t \<Longrightarrow> unat t div 4096 \<noteq> unat frame div 4096"
  shows "vm_inv root (s\<lparr>frames := free_page frame (frames s)\<rparr>)"
proof -
  have good: "pa_good (frames s)" and wf: "wf_tables (qmem s) root (allocated (frames s))"
    using assms(1) by (simp_all add: vm_inv_def)
  note G = frames.give_back [OF good assms(2,3)]
  have "wf_tables (qmem s) root (allocated (frames s) - {unat frame div 4096})"
    using wf assms(4) unfolding wf_tables_def by auto
  then show ?thesis using G by (simp add: vm_inv_def)
qed

lemma commit_page_spec:
  assumes inv: "vm_inv root s" and step: "commit_page root v s = (ok, s')"
  shows "vm_inv root s'" "\<And>w. \<not> (ok \<and> vpn w = vpn v) \<Longrightarrow> resolve (qmem s') root w = resolve (qmem s) root w"
    "\<And>w. ok \<Longrightarrow> vpn w = vpn v \<Longrightarrow> resolve (qmem s') root w \<noteq> 0"
proof -
  obtain frame fr where a: "alloc_page (frames s) = (frame, fr)" by fastforce
  have "vm_inv root s' \<and> (\<forall>w. (ok \<and> vpn w = vpn v \<longrightarrow> resolve (qmem s') root w \<noteq> 0) \<and>
    (\<not> (ok \<and> vpn w = vpn v) \<longrightarrow> resolve (qmem s') root w = resolve (qmem s) root w))"
  proof (cases "frame = 0")
    case True
    have "fr = frames s" using frames.take_fails a True inv by (simp add: vm_inv_def)
    then show ?thesis using step a True inv by (auto simp: commit_page_def)
  next
    case False
    note T = vm_inv_take_frame [OF inv a False]
    let ?s1 = "s\<lparr>frames := fr\<rparr>"
    obtain b s2 where m: "as_map root v frame page_size (Flag_Write OR Flag_NoExecute) ?s1 = (b, s2)" by fastforce
    have one: "pages (unat page_size) = 1" by (simp add: pages_def)
    obtain j where j: "j \<le> 1" "b \<longleftrightarrow> j = 1" "vm_inv root s2"
      "\<And>w. resolve (qmem s2) root w = overlay v (\<lambda>k w. ((frame + of_nat (4096 * k)) AND pte_address_mask) + (w AND 4095))
         (resolve (qmem s) root) j w"
      using as_map_spec [OF T(1) m] unfolding one by auto
    show ?thesis
    proof (cases b)
      case True
      then have s': "ok" "s' = s2" using step a False m by (auto simp: commit_page_def)
      have "frame AND pte_address_mask = frame" using T(2,5) by (intro mask_frame) simp_all
      moreover have "frame + (w AND 4095) \<noteq> 0" for w
      proof -
        have "unat (frame + (w AND 4095)) = unat frame + unat w mod 4096"
          using T(5) by (simp add: unat_u64_add unat_and_4095)
        then show ?thesis using T(6) by (metis unsigned_0 add_is_0 le_zero_eq zero_neq_numeral)
      qed
      moreover have "j = Suc 0" using True j(2) by simp
      ultimately show ?thesis using j(3,4) s' by simp
    next
      case nb: False
      then have s': "\<not> ok" "s' = s2\<lparr>frames := free_page frame (frames s2)\<rparr>"
        using step a False m by (auto simp: commit_page_def)
      have "j = 0" using nb j(1,2) by simp
      moreover have "unat t div 4096 \<noteq> unat frame div 4096" if "valid_path p" "walk (qmem s2) 3 root p = Some t" for p t
      proof -
        have "walk (qmem s) 3 root p = Some t \<or> unat t div 4096 \<notin> allocated fr"
          using as_map_tables_kept [OF T(1) m] that by (auto simp: tables_kept_def)
        then show ?thesis
          using wf_used [of "qmem s" root "allocated (frames s)" p t] inv that(1) T(3,4) by (auto simp: vm_inv_def)
      qed
      then have "vm_inv root s'" unfolding s' using j(3) T(2) False by (intro vm_inv_give_frame) auto
      ultimately show ?thesis using j(4) s' by simp
    qed
  qed
  then show "vm_inv root s'" "\<And>w. \<not> (ok \<and> vpn w = vpn v) \<Longrightarrow> resolve (qmem s') root w = resolve (qmem s) root w"
    "\<And>w. ok \<Longrightarrow> vpn w = vpn v \<Longrightarrow> resolve (qmem s') root w \<noteq> 0" by blast+
qed

lemma commit_loop_spec:
  assumes inv: "vm_inv root s" and al: "page_aligned a" and len: "unat a + 4096 * pages len \<le> 2 ^ 48"
    and loop: "page_loop (\<lambda>offset. commit_page root (a + offset)) len 0 s = (ok, s')"
  shows "vm_inv root s'"
    "\<And>w. unat w < 2 ^ 48 \<Longrightarrow> \<not> (unat a \<le> unat w \<and> unat w < unat a + 4096 * pages len) \<Longrightarrow>
       as_translate root w s' = as_translate root w s"
    "\<And>w. ok \<Longrightarrow> unat a \<le> unat w \<Longrightarrow> unat w < unat a + len \<Longrightarrow> as_translate root w s' \<noteq> 0"
proof -
  let ?in = "\<lambda>w k. unat a div 4096 \<le> unat w div 4096 \<and> unat w div 4096 < unat a div 4096 + k"
  let ?I = "\<lambda>j t. vm_inv root t \<and> (\<forall>w. unat w < 2 ^ 48 \<longrightarrow>
    (if ?in w j then resolve (qmem t) root w \<noteq> 0
     else resolve (qmem t) root w = resolve (qmem s) root w))"
  have "\<exists>j \<le> pages len. ?I j s' \<and> (ok \<longleftrightarrow> j = pages len)"
  proof (rule page_loop_rule [where I = ?I])
    show "page_loop (\<lambda>offset. commit_page root (a + offset)) len (4096 * 0) s = (ok, s')" using loop by simp
    show "?I 0 s" using inv by auto
  next
    fix j t t' b
    assume j: "j < pages len" and I: "?I j t" and step: "commit_page root (a + of_nat (4096 * j)) t = (b, t')"
    have itv: "vm_inv root t" using I by blast
    note C = commit_page_spec [OF itv step]
    have v: "vpn w = vpn (a + of_nat (4096 * j)) \<longleftrightarrow> unat w div 4096 = unat a div 4096 + j" if "unat w < 2 ^ 48" for w
      using vpn_offset [OF al len j that] .
    have "if ?in w (if b then Suc j else j) then resolve (qmem t') root w \<noteq> 0
       else resolve (qmem t') root w = resolve (qmem s) root w" if w: "unat w < 2 ^ 48" for w
      using I w v [OF w] C(2) [of w] C(3) [of w] by (cases b) (auto simp: less_Suc_eq split: if_splits)
    then show "if b then ?I (Suc j) t' else ?I j t'" using C(1) by (auto split: if_splits)
  qed simp
  then obtain j where j: "j \<le> pages len" "ok \<longleftrightarrow> j = pages len" and I: "?I j s'" by blast
  show inv': "vm_inv root s'" using I by blast
  obtain q where q: "unat a = 4096 * q" using al unfolding page_aligned_def dvd_def by blast
  show "as_translate root w s' = as_translate root w s"
    if "unat w < 2 ^ 48" "\<not> (unat a \<le> unat w \<and> unat w < unat a + 4096 * pages len)" for w
  proof -
    have "\<not> ?in w j"
    proof
      assume "?in w j"
      then have "q \<le> unat w div 4096" "unat w div 4096 < q + pages len" using j(1) q by simp_all
      then have "4096 * q \<le> unat w" "unat w < 4096 * (q + pages len)"
        by (simp_all add: div_less_iff_less_mult less_eq_div_iff_mult_less_eq mult.commute)
      then show False using that(2) q by simp
    qed
    then show ?thesis
      unfolding vm_inv_translate [OF inv'] vm_inv_translate [OF inv] using I that(1) by simp
  qed
  show "as_translate root w s' \<noteq> 0" if "ok" "unat a \<le> unat w" "unat w < unat a + len" for w
  proof -
    have pl: "len \<le> 4096 * pages len" by (simp add: pages_def)
    then have "unat w < 2 ^ 48" using that(3) len by simp
    moreover have "?in w j"
    proof -
      have "unat w < 4096 * (q + pages len)" using that(3) pl q by simp
      then have "unat w div 4096 < q + pages len" by (simp add: div_less_iff_less_mult mult.commute)
      moreover have "q \<le> unat w div 4096" using that(2) q by (simp add: less_eq_div_iff_mult_less_eq)
      ultimately show ?thesis using that(1) j(2) q by simp
    qed
    ultimately show ?thesis unfolding vm_inv_translate [OF inv'] using I by simp
  qed
qed

section \<open>Growing the heap\<close>

definition heap_inv :: "phys_addr \<Rightarrow> heap \<Rightarrow> blk list \<Rightarrow> bool" where
  "heap_inv root h bs \<longleftrightarrow> heap_rep h bs \<and> coalesced bs \<and> vm_inv root (hp_vm h) \<and> 4096 dvd unat (hp_committed h) \<and>
     (\<forall>w. unat (hp_base h) \<le> unat w \<and> unat w < unat (hp_base h) + unat (hp_committed h) \<longrightarrow>
        as_translate root w (hp_vm h) \<noteq> 0)"

lemma append_block_fields:
  "hp_base (append_block a step h) = hp_base h"
  "hp_committed (append_block a step h) = hp_committed h + step"
  by (simp_all add: append_block_def merge_def absorb_next_def Let_def)

lemma size_le_total: "b \<in> set bs \<Longrightarrow> unat (blk_size b) \<le> total bs"
  by (induction bs rule: total.induct) auto

lemma merge_result_fits:
  assumes "total bs + unat sz < 2 ^ 32"
  shows "\<exists>b \<in> set (merge_result bs a sz []). blk_free b \<and> sz \<le> blk_size b"
proof (cases "bs \<noteq> [] \<and> blk_free (last bs)")
  case False
  then show ?thesis by (auto simp: merge_result_def merge_left_def)
next
  case True
  obtain p psz pfr where l: "last bs = (p, psz, pfr)" by (cases "last bs")
  then have m: "merge_result bs a sz [] = butlast bs @ (p, psz + (32 + sz), True) # []"
    using True by (simp add: merge_result_def merge_left_def)
  have "last bs \<in> set bs" using True by simp
  then have "unat psz \<le> total bs" using size_le_total l by fastforce
  then have "unat (psz + (32 + sz)) = unat psz + (32 + unat sz)"
    using assms by (simp add: unat_u64_add)
  then show ?thesis by (simp add: m word_le_nat_alt)
qed

lemma grow_spec:
  assumes inv: "heap_inv root h bs" and w: "unat wanted \<le> 67108864 + 16"
  shows "\<exists>ok h'. grow root wanted h = Some (ok, h') \<and>
    (\<exists>bs'. heap_inv root h' bs' \<and> allocations bs' = allocations bs \<and>
      (if ok then (\<exists>b \<in> set bs'. blk_free b \<and> wanted \<le> blk_size b) else bs' = bs))"
proof -
  have rep: "heap_rep h bs" and co: "coalesced bs" and vm: "vm_inv root (hp_vm h)"
    and c4: "4096 dvd unat (hp_committed h)"
    and mapped: "\<And>w. unat (hp_base h) \<le> unat w \<Longrightarrow> unat w < unat (hp_base h) + unat (hp_committed h) \<Longrightarrow>
        as_translate root w (hp_vm h) \<noteq> 0"
    using inv by (simp_all add: heap_inv_def)
  note R = heap_repD [OF rep]
  obtain step where g: "growth 2097152 wanted = Some step" and st: "unat wanted + 32 \<le> unat step"
      "unat step \<le> unat wanted + 32 + 2097152" "2097152 dvd unat step" "0 < unat step"
    using growth_spec [of wanted 2097152] w by auto
  have sum: "unat (hp_committed h + step) = unat (hp_committed h) + unat step"
    using R(9) st(2) w by (simp add: unat_u64_add)
  show ?thesis
  proof (cases "hp_committed h + step > 67108864")
    case True
    then show ?thesis using g inv by (auto simp: grow_def intro!: exI [of _ bs])
  next
    case False
    then have fit: "unat (hp_committed h) + unat step \<le> 67108864"
      using sum by (simp add: word_less_nat_alt)
    define a where "a = hp_base h + hp_committed h"
    have ua: "unat a = unat (hp_base h) + unat (hp_committed h)"
      using R(8) fit by (simp add: a_def unat_u64_add)
    have al: "page_aligned a" using R(6) c4 by (simp add: page_aligned_def ua)
    have s4: "4096 dvd unat step" using st(3) by (rule dvd_trans [rotated]) simp
    then have ps: "4096 * pages (unat step) = unat step" by (auto simp: pages_def)
    obtain ok s where l: "page_loop (\<lambda>offset. commit_page root (a + offset)) (unat step) 0 (hp_vm h) = (ok, s)"
      by fastforce
    have "unat a + 4096 * pages (unat step) \<le> 2 ^ 48" using ua fit R(8) ps by simp
    note C = commit_loop_spec [OF vm al this l, unfolded ps]
    have keep: "as_translate root w s \<noteq> 0" if "unat (hp_base h) \<le> unat w" "unat w < unat (hp_base h) + unat (hp_committed h)" for w
      using C(2) [of w] mapped [OF that] that ua R(8,9) by simp
    show ?thesis
    proof (cases ok)
      case nok: False
      then have "grow root wanted h = Some (False, h\<lparr>hp_vm := s\<rparr>)"
        using g False l by (simp add: grow_def a_def [symmetric] Let_def)
      moreover have "heap_inv root (h\<lparr>hp_vm := s\<rparr>) bs"
        using rep co C(1) c4 keep by (simp add: heap_inv_def heap_rep_def)
      ultimately show ?thesis by auto
    next
      case True
      let ?h = "h\<lparr>hp_vm := s\<rparr>"
      let ?bs = "merge_result bs a (step - 32) []"
      have gr: "grow root wanted h = Some (True, append_block a step ?h)"
        using True g False l by (simp add: grow_def a_def [symmetric] Let_def)
      have rep1: "heap_rep ?h bs" using rep by (simp add: heap_rep_def)
      have s16: "16 dvd unat step" using st(3) by (rule dvd_trans [rotated]) simp
      have "32 < unat step" using st(3,4) dvd_imp_le [OF st(3,4)] by simp
      note A = append_block_rep [OF rep1 _ this s16, simplified, folded a_def, OF fit]
      have sz: "unat (step - 32) = unat step - 32" using \<open>32 < unat step\<close> by (simp add: unat_u64_sub word_le_nat_alt)
      have "\<exists>b \<in> set ?bs. blk_free b \<and> step - 32 \<le> blk_size b"
        using merge_result_fits [of bs "step - 32" a] R(3,9) sz fit by simp
      moreover have "wanted \<le> step - 32" using sz st(1) by (simp add: word_le_nat_alt)
      ultimately have fits: "\<exists>b \<in> set ?bs. blk_free b \<and> wanted \<le> blk_size b" by force
      have "as_translate root w s \<noteq> 0"
        if "unat (hp_base h) \<le> unat w" "unat w < unat (hp_base h) + (unat (hp_committed h) + unat step)" for w
        using keep [of w] C(3) [of w] that True ua by (cases "unat w < unat a") auto
      moreover have "4096 dvd unat (hp_committed h) + unat step" using c4 s4 by (rule dvd_add)
      ultimately have "heap_inv root (append_block a step ?h) ?bs"
        using A C(1) coalesced_merge_result [OF co, of "[]"] sum
        by (simp add: heap_inv_def append_block_fields) (simp add: coalesced_def)
      moreover have "allocations ?bs = allocations bs" by (simp add: allocations_merge_result)
      ultimately show ?thesis using gr fits by auto
    qed
  qed
qed

section \<open>Allocating and freeing\<close>

lemma and_15_mod: "(x :: u64) AND 15 = x mod 16"
  using take_bit_eq_mask [of 4 x] by (simp add: take_bit_eq_mod mask_eq_exp_minus_1)

lemma align_up_spec:
  assumes "unat x \<le> 67108864"
  shows "unat x \<le> unat (align_up x)" "unat (align_up x) < unat x + 16" "16 dvd unat (align_up x)"
proof -
  have s: "unat (x + 15) = unat x + 15" using assms by (simp add: unat_u64_add)
  have a: "align_up x = (x + 15) AND NOT 15" by (simp add: align_up_def add.commute)
  have m: "unat ((x + 15) AND 15) = (unat x + 15) mod 16" by (simp add: and_15_mod unat_mod_distrib s)
  have "(x + 15) AND 15 \<le> x + 15" by (simp add: word_le_nat_alt m s)
  then have "unat (align_up x) = unat x + 15 - (unat x + 15) mod 16"
    unfolding a word_split_mask [of "x + 15" 15] by (simp add: unat_u64_sub m s)
  then have "unat (align_up x) = (unat x + 15) div 16 * 16" by (simp add: minus_mod_eq_div_mult)
  then show "unat x \<le> unat (align_up x)" "unat (align_up x) < unat x + 16" "16 dvd unat (align_up x)" by simp_all
qed

lemma coalesced_take_result:
  "coalesced (xs @ (x, sz, True) # ys) \<Longrightarrow> coalesced (snd (take_result xs x sz ys w))"
  by (auto simp: take_result_def coalesced_def successively_append_iff successively_Cons)

lemma allocations_take_result:
  "allocations (snd (take_result xs x sz ys w)) = insert (x + 32, fst (take_result xs x sz ys w)) (allocations (xs @ ys))"
  by (auto simp: take_result_def)

lemma take_block_fields:
  "hp_base (snd (take_block x w h)) = hp_base h" "hp_committed (snd (take_block x w h)) = hp_committed h"
  by (simp_all add: take_block_def split_block_def Let_def)

lemma kfree_fields: "hp_base (kfree p h) = hp_base h" "hp_committed (kfree p h) = hp_committed h"
  by (simp_all add: kfree_def merge_def absorb_next_def Let_def)

text \<open>Allocations lie in the committed space, are aligned to 16 bytes and do not overlap.\<close>

definition apart :: "u64 \<times> usize \<Rightarrow> u64 \<times> usize \<Rightarrow> bool" where
  "apart a b \<longleftrightarrow> unat (fst a) + unat (snd a) \<le> unat (fst b) \<or> unat (fst b) + unat (snd b) \<le> unat (fst a)"

lemma laid_apart:
  assumes "laid a bs" "(x, sz, fr) \<in> set bs" "(y, tz, gr) \<in> set bs" "x \<noteq> y"
  shows "unat x + 32 + unat sz \<le> unat y \<or> unat y + 32 + unat tz \<le> unat x"
  using assms
proof (induction a bs rule: laid.induct)
  case (2 a z wz hr bs)
  then have "laid (a + 32 + unat wz) bs" "unat z = a" by simp_all
  note B = laid_bounds [OF this(1)]
  have "x = z \<and> (x, sz, fr) = (z, wz, hr) \<or> (x, sz, fr) \<in> set bs"
    "y = z \<and> (y, tz, gr) = (z, wz, hr) \<or> (y, tz, gr) \<in> set bs" using 2 by auto
  then show ?case using 2 B [of x sz fr] B [of y tz gr] by auto
qed simp

lemma allocations_good:
  assumes rep: "heap_rep h bs" and a: "(p, sz) \<in> allocations bs"
  shows "16 dvd unat p" "unat (hp_base h) + 32 \<le> unat p" "unat p + unat sz \<le> unat (hp_base h) + unat (hp_committed h)"
    "(q, tz) \<in> allocations bs \<Longrightarrow> (q, tz) \<noteq> (p, sz) \<Longrightarrow> apart (p, sz) (q, tz)"
proof -
  note R = heap_repD [OF rep]
  have blk: "\<exists>x. p = x + 32 \<and> (x, sz, False) \<in> set bs \<and> unat p = unat x + 32 \<and>
      unat (hp_base h) \<le> unat x \<and> unat x + 32 + unat sz \<le> unat (hp_base h) + unat (hp_committed h)"
    if pa: "(p, sz) \<in> allocations bs" for p sz
  proof -
    obtain x where x: "p = x + 32" "(x, sz, False) \<in> set bs" using pa unfolding allocations_def by blast
    note B = laid_bounds [OF R(2) x(2)]
    then have "unat p = unat x + 32" using x(1) R(3,8,9) by (simp add: unat_u64_add)
    then show ?thesis using x B R(3) by auto
  qed
  obtain x where x: "p = x + 32" "(x, sz, False) \<in> set bs" "unat p = unat x + 32"
      "unat (hp_base h) \<le> unat x" "unat x + 32 + unat sz \<le> unat (hp_base h) + unat (hp_committed h)"
    using blk [OF a] by blast
  show "unat (hp_base h) + 32 \<le> unat p" "unat p + unat sz \<le> unat (hp_base h) + unat (hp_committed h)"
    using x by simp_all
  obtain xs ys where bs: "bs = xs @ (x, sz, False) # ys" using x(2) by (meson split_list)
  have ux: "unat x = unat (hp_base h) + total xs" using heap_rep_middle(1) [OF rep [unfolded bs]] .
  have "16 dvd total xs"
  proof -
    have "\<forall>b \<in> set zs. 16 dvd unat (blk_size b) \<Longrightarrow> 16 dvd total zs" for zs
      by (induction zs rule: total.induct) (auto intro!: dvd_add)
    then show ?thesis using R(4) unfolding bs by auto
  qed
  then have "16 dvd unat x" unfolding ux using R(6) by (auto intro!: dvd_add elim: dvd_trans [rotated])
  then show "16 dvd unat p" using x(3) by simp
  show "apart (p, sz) (q, tz)" if q: "(q, tz) \<in> allocations bs" "(q, tz) \<noteq> (p, sz)"
  proof -
    obtain y where y: "q = y + 32" "(y, tz, False) \<in> set bs" "unat q = unat y + 32" using blk [OF q(1)] by blast
    have "x \<noteq> y"
    proof
      assume "x = y"
      then have "(x, sz, False) = (y, tz, False)"
        using x(2) y(2) laid_distinct [OF R(2)] eq_key_imp_eq_value [of bs x "(sz, False)" "(tz, False)"] by auto
      then show False using q(2) x(1) y(1) by simp
    qed
    then show ?thesis using laid_apart [OF R(2) x(2) y(2)] x(3) y(3) by (auto simp: apart_def)
  qed
qed

lemma kmalloc_found:
  assumes inv: "heap_inv root h bs" and bs: "bs = xs @ (x, sz, True) # ys" and w: "w \<le> sz" "16 dvd unat w"
    and t: "take_block x w h = (p, h')"
  shows "p \<noteq> 0" "\<exists>z bs'. w \<le> z \<and> heap_inv root h' bs' \<and> (p, z) \<notin> allocations bs \<and>
    allocations bs' = insert (p, z) (allocations bs)"
proof -
  have rep: "heap_rep h bs" and co: "coalesced bs" using inv by (simp_all add: heap_inv_def)
  note T = take_block_rep [OF rep [unfolded bs] w t]
  let ?bs = "snd (take_result xs x sz ys w)" and ?z = "fst (take_result xs x sz ys w)"
  have f: "hp_base h' = hp_base h" "hp_committed h' = hp_committed h" using take_block_fields [of x w h] t by simp_all
  have M: "unat x + 32 + unat sz \<le> 2147483648" using heap_rep_middle(3) [OF rep [unfolded bs]] .
  then have up: "unat p = unat x + 32" using T(1) by (simp add: unat_u64_add)
  then show "p \<noteq> 0" by (metis unsigned_0 add_is_0 zero_neq_numeral)
  have inv': "heap_inv root h' ?bs"
    using inv T(2,3) coalesced_take_result [OF co [unfolded bs]] f by (simp add: heap_inv_def)
  have z: "w \<le> ?z" using w by (simp add: take_result_def)
  have "(p, ?z) \<notin> allocations bs"
  proof
    assume "(p, ?z) \<in> allocations bs"
    then obtain y where y: "p = y + 32" "(y, ?z, False) \<in> set bs" unfolding allocations_def by blast
    then have "y = x" using T(1) by simp
    then have "(x, ?z, False) = (x, sz, True)"
      using y(2) bs laid_distinct [OF heap_repD(2) [OF rep]]
        eq_key_imp_eq_value [of bs x "(?z, False)" "(sz, True)"] by auto
    then show False by simp
  qed
  moreover have "allocations ?bs = insert (p, ?z) (allocations bs)"
    using allocations_take_result [of xs x sz ys w] T(1) bs by simp
  ultimately show "\<exists>z bs'. w \<le> z \<and> heap_inv root h' bs' \<and> (p, z) \<notin> allocations bs \<and>
    allocations bs' = insert (p, z) (allocations bs)" using inv' z by blast
qed

lemma find_in_heap:
  assumes "heap_inv root h bs"
  shows "(find_block (hdr h) w (hp_head h) = Some 0 \<and> (\<forall>b \<in> set bs. \<not> (blk_free b \<and> w \<le> blk_size b))) \<or>
    (\<exists>xs x sz ys. bs = xs @ (x, sz, True) # ys \<and> w \<le> sz \<and> x \<noteq> 0 \<and> find_block (hdr h) w (hp_head h) = Some x \<and>
      (\<forall>b \<in> set xs. \<not> (blk_free b \<and> w \<le> blk_size b)))"
  using find_block_spec heap_repD(1) assms unfolding heap_inv_def by blast

lemma kmalloc_total:
  assumes inv: "heap_inv root h bs"
  shows "\<exists>p h' bs'. kmalloc root sz h = Some (p, h') \<and> heap_inv root h' bs' \<and>
    (if p = 0 then allocations bs' = allocations bs \<and>
       (sz = 0 \<or> sz > heap_reserved \<or> (\<forall>b \<in> set bs. \<not> (blk_free b \<and> align_up sz \<le> blk_size b)))
     else \<exists>z. sz \<le> z \<and> (p, z) \<notin> allocations bs \<and> allocations bs' = insert (p, z) (allocations bs))"
proof (cases "sz = 0 \<or> sz > heap_reserved")
  case True
  then show ?thesis using inv by (auto simp: kmalloc_def intro!: exI [of _ bs])
next
  case False
  then have le: "unat sz \<le> 67108864" by (simp add: word_less_nat_alt)
  define w where "w = align_up sz"
  note A = align_up_spec [OF le, folded w_def]
  have szw: "sz \<le> w" using A(1) by (simp add: word_le_nat_alt)
  have km: "kmalloc root sz h = kmalloc_attempts (Suc (Suc 0)) root w h"
    using False by (simp add: kmalloc_def w_def numeral_2_eq_2)
  have found: "\<exists>p h' bs'. kmalloc_attempts (Suc n) root w h1 = Some (p, h') \<and> heap_inv root h' bs' \<and> p \<noteq> 0 \<and>
      (\<exists>z. sz \<le> z \<and> (p, z) \<notin> allocations cs \<and> allocations bs' = insert (p, z) (allocations cs))"
    if i1: "heap_inv root h1 cs" and i2: "\<exists>b \<in> set cs. blk_free b \<and> w \<le> blk_size b" for n h1 cs
  proof -
    obtain xs x s ys where x: "cs = xs @ (x, s, True) # ys" "w \<le> s" "x \<noteq> 0" "find_block (hdr h1) w (hp_head h1) = Some x"
      using find_in_heap [OF i1, of w] i2 by blast
    obtain p h' where t: "take_block x w h1 = (p, h')" by fastforce
    note K = kmalloc_found [OF i1 x(1,2) A(3) t]
    have "kmalloc_attempts (Suc n) root w h1 = Some (p, h')" using x(3,4) t by simp
    then show ?thesis using K szw order_trans by blast
  qed
  show ?thesis
  proof (cases "\<exists>b \<in> set bs. blk_free b \<and> w \<le> blk_size b")
    case True
    then show ?thesis using found [OF inv True, of "Suc 0"] km by auto
  next
    case none: False
    then have f: "find_block (hdr h) w (hp_head h) = Some 0" using find_in_heap [OF inv, of w] by auto
    have "unat w \<le> 67108864 + 16" using A(2) le by simp
    from grow_spec [OF inv this] obtain ok h1 cs where g: "grow root w h = Some (ok, h1)" "heap_inv root h1 cs"
      "allocations cs = allocations bs" "if ok then (\<exists>b \<in> set cs. blk_free b \<and> w \<le> blk_size b) else cs = bs"
      by blast
    show ?thesis
    proof (cases ok)
      case True
      then have "kmalloc root sz h = kmalloc_attempts (Suc 0) root w h1"
        using km f g(1) by simp
      then show ?thesis using found [OF g(2), of 0] g(3,4) True by auto
    next
      case nok: False
      then have "kmalloc root sz h = Some (0, h1)" using km f g(1) by simp
      then show ?thesis using g(2,3,4) nok none by (auto simp: w_def)
    qed
  qed
qed

lemma kfree_total:
  assumes inv: "heap_inv root h bs" and p: "(p, sz) \<in> allocations bs"
  shows "\<exists>bs'. heap_inv root (kfree p h) bs' \<and> allocations bs' = allocations bs - {(p, sz)}"
proof -
  have rep: "heap_rep h bs" and co: "coalesced bs" using inv by (simp_all add: heap_inv_def)
  obtain x where x: "p = x + 32" "(x, sz, False) \<in> set bs" using p unfolding allocations_def by blast
  obtain xs ys where bs: "bs = xs @ (x, sz, False) # ys" using x(2) by (meson split_list)
  note F = kfree_rep [OF rep [unfolded bs]]
  have "coalesced xs" "coalesced ys"
    using co unfolding bs by (auto simp: coalesced_def successively_append_iff successively_Cons)
  then have "coalesced (merge_result xs x sz ys)" by (rule coalesced_merge_result)
  then have inv': "heap_inv root (kfree p h) (merge_result xs x sz ys)"
    using inv F by (simp add: heap_inv_def kfree_fields x(1))
  have "distinct (map fst bs)" using laid_distinct [OF heap_repD(2) [OF rep]] .
  then have "(p, sz) \<notin> allocations (xs @ ys)"
    unfolding allocations_def bs x(1) by (force simp: image_iff)
  then have "allocations (merge_result xs x sz ys) = allocations bs - {(p, sz)}"
    unfolding allocations_merge_result bs using x(1) by auto
  then show ?thesis using inv' by blast
qed

end
