(* ===== verification/Heap_Correct.thy ===== *)
theory Heap_Correct
  imports Heap_Alloc
begin

unbundle bit_operations_syntax

text \<open>
  The contract of the kernel heap: a set of live allocations that \<open>kmalloc\<close> extends and
  \<open>kfree\<close> shrinks, as an interface for the parts of the kernel that allocate, with the heap as
  its instance.
\<close>

section \<open>The heap as a set of allocations\<close>

definition heap_ok :: "phys_addr \<Rightarrow> heap \<Rightarrow> (u64 \<times> usize) set \<Rightarrow> bool" where
  "heap_ok root h A \<longleftrightarrow> (\<exists>bs. heap_inv root h bs \<and> allocations bs = A)"

lemma used_sum_allocations:
  assumes "laid a bs"
  shows "finite (allocations bs)" "used_sum bs = (\<Sum>(p, z) \<in> allocations bs. unat z)"
  using assms
proof (induction a bs rule: laid.induct)
  case (2 a x sz fr bs)
  {
    case 1
    then show ?case using 2 by simp
  next
    case 2
    have "(x + 32, sz) \<notin> allocations bs"
    proof
      assume "(x + 32, sz) \<in> allocations bs"
      then have "(x, sz, False) \<in> set bs" unfolding allocations_def by auto
      then show False using laid_distinct [OF 2] by force
    qed
    then show ?case using "2.IH" 2 by simp
  }
qed simp_all

lemma heap_ok_facts:
  assumes "heap_ok root h A"
  shows "finite A" "unat (heap_used h) = (\<Sum>(p, z) \<in> A. unat z)"
    "(p, z) \<in> A \<Longrightarrow> 16 dvd unat p \<and> p \<noteq> 0"
    "(p, z) \<in> A \<Longrightarrow> unat (hp_base h) + 32 \<le> unat p \<and> unat p + unat z \<le> unat (hp_base h) + unat (heap_capacity h)"
    "(p, z) \<in> A \<Longrightarrow> unat p \<le> unat w \<Longrightarrow> unat w < unat p + unat z \<Longrightarrow> as_translate root w (hp_vm h) \<noteq> 0"
    "(p, z) \<in> A \<Longrightarrow> (q, y) \<in> A \<Longrightarrow> (q, y) \<noteq> (p, z) \<Longrightarrow> apart (p, z) (q, y)"
proof -
  obtain bs where bs: "heap_inv root h bs" "allocations bs = A" using assms unfolding heap_ok_def by blast
  have rep: "heap_rep h bs"
    and mapped: "\<And>w. unat (hp_base h) \<le> unat w \<Longrightarrow> unat w < unat (hp_base h) + unat (hp_committed h) \<Longrightarrow>
        as_translate root w (hp_vm h) \<noteq> 0"
    using bs(1) by (simp_all add: heap_inv_def)
  note R = heap_repD [OF rep]
  show "finite A" "unat (heap_used h) = (\<Sum>(p, z) \<in> A. unat z)"
    using used_sum_allocations [OF R(2)] R(5) bs(2) by (simp_all add: heap_used_def)
  note G = allocations_good [OF rep, unfolded bs(2)]
  show pz: "(p, z) \<in> A \<Longrightarrow> unat (hp_base h) + 32 \<le> unat p \<and> unat p + unat z \<le> unat (hp_base h) + unat (heap_capacity h)"
    using G(2,3) by (simp add: heap_capacity_def)
  show "(p, z) \<in> A \<Longrightarrow> 16 dvd unat p \<and> p \<noteq> 0" using G(1,2) by fastforce
  show "(p, z) \<in> A \<Longrightarrow> unat p \<le> unat w \<Longrightarrow> unat w < unat p + unat z \<Longrightarrow> as_translate root w (hp_vm h) \<noteq> 0"
    using pz mapped [of w] by (simp add: heap_capacity_def)
  show "(p, z) \<in> A \<Longrightarrow> (q, y) \<in> A \<Longrightarrow> (q, y) \<noteq> (p, z) \<Longrightarrow> apart (p, z) (q, y)" using G(4) by blast
qed

text \<open>
  What the rest of the kernel relies on: an allocator hands out blocks that are new, large
  enough and apart from the live ones, and takes a live one back.
\<close>

locale allocator =
  fixes take :: "usize \<Rightarrow> 'h \<Rightarrow> (u64 \<times> 'h) option"
    and give :: "u64 \<Rightarrow> 'h \<Rightarrow> 'h"
    and holds :: "'h \<Rightarrow> (u64 \<times> usize) set \<Rightarrow> bool"
  assumes take_total: "holds h A \<Longrightarrow> \<exists>p h'. take sz h = Some (p, h') \<and>
      (if p = 0 then holds h' A
       else \<exists>z. sz \<le> z \<and> (p, z) \<notin> A \<and> holds h' (insert (p, z) A))"
    and give_back: "holds h A \<Longrightarrow> (p, z) \<in> A \<Longrightarrow> holds (give p h) (A - {(p, z)})"
    and live_apart: "holds h A \<Longrightarrow> a \<in> A \<Longrightarrow> b \<in> A \<Longrightarrow> a \<noteq> b \<Longrightarrow> apart a b"
begin

lemma take_result:
  assumes "holds h A" "take sz h = Some (p, h')" "p \<noteq> 0"
  obtains z where "sz \<le> z" "(p, z) \<notin> A" "holds h' (insert (p, z) A)" "\<And>a. a \<in> A \<Longrightarrow> apart (p, z) a"
proof -
  obtain z where z: "sz \<le> z" "(p, z) \<notin> A" "holds h' (insert (p, z) A)"
    using take_total [OF assms(1), of sz] assms(2,3) by auto
  moreover have "apart (p, z) a" if "a \<in> A" for a using live_apart [OF z(3), of "(p, z)" a] that z(2) by auto
  ultimately show thesis using that by blast
qed

lemma take_give:
  assumes "holds h A" "take sz h = Some (p, h')" "p \<noteq> 0"
  shows "holds (give p h') A"
proof -
  obtain z where "(p, z) \<notin> A" "holds h' (insert (p, z) A)" using take_result [OF assms] by blast
  then show ?thesis using give_back [of h' "insert (p, z) A" p z] by simp
qed

end

lemma kmalloc_allocates:
  assumes "heap_ok root h A"
  shows "\<exists>p h'. kmalloc root sz h = Some (p, h') \<and>
    (if p = 0 then heap_ok root h' A
     else \<exists>z. sz \<le> z \<and> (p, z) \<notin> A \<and> heap_ok root h' (insert (p, z) A))"
proof -
  obtain bs where bs: "heap_inv root h bs" "allocations bs = A" using assms unfolding heap_ok_def by blast
  obtain p h' bs' where k: "kmalloc root sz h = Some (p, h')" "heap_inv root h' bs'"
    "if p = 0 then allocations bs' = A
     else \<exists>z. sz \<le> z \<and> (p, z) \<notin> A \<and> allocations bs' = insert (p, z) A"
    using kmalloc_total [OF bs(1), of sz] unfolding bs(2) by (metis (no_types, lifting))
  then show ?thesis unfolding heap_ok_def by (auto split: if_splits)
qed

interpretation kheap: allocator "kmalloc root" kfree "heap_ok root" for root
proof
  fix h A sz assume "heap_ok root h A"
  then show "\<exists>p h'. kmalloc root sz h = Some (p, h') \<and>
    (if p = 0 then heap_ok root h' A
     else \<exists>z. sz \<le> z \<and> (p, z) \<notin> A \<and> heap_ok root h' (insert (p, z) A))" by (rule kmalloc_allocates)
next
  fix h A p z assume "heap_ok root h A" "(p, z) \<in> A"
  then show "heap_ok root (kfree p h) (A - {(p, z)})" unfolding heap_ok_def using kfree_total by blast
next
  fix h A a b assume "heap_ok root h A" "a \<in> A" "b \<in> A" "a \<noteq> b"
  then show "apart a b" using heap_ok_facts(6) [of root h A "fst a" "snd a" "fst b" "snd b"] by auto
qed

section \<open>The first commit\<close>

lemma commit_page_succeeds:
  assumes inv: "vm_inv root s" and free: "4 \<le> free_frames s"
  shows "\<exists>s'. commit_page root v s = (True, s') \<and> free_frames s \<le> free_frames s' + 4"
proof -
  obtain frame fr where a: "alloc_page (frames s) = (frame, fr)" by fastforce
  have good: "pa_good (frames s)" using inv by (simp add: vm_inv_def)
  obtain t s1 where t: "allocate_table s = (Some t, s1)" "free_frames s1 = free_frames s - 1"
    using allocate_table_succeeds [OF good] free by auto
  then have fr: "frame \<noteq> 0" "frames s1 = fr" using a by (auto simp: allocate_table_def Let_def split: if_splits)
  let ?s1 = "s\<lparr>frames := fr\<rparr>"
  have f1: "free_frames ?s1 = free_frames s - 1" using t(2) fr(2) by (simp add: free_frames_def)
  then have "3 * pages (unat page_size) \<le> free_frames ?s1" using free by (simp add: pages_def)
  from as_map_succeeds [OF vm_inv_take_frame(1) [OF inv a fr(1)] this]
  obtain s2 where "as_map root v frame page_size (Flag_Write OR Flag_NoExecute) ?s1 = (True, s2)"
      "free_frames ?s1 \<le> free_frames s2 + 3 * pages (unat page_size)" by blast
  moreover have "3 * pages (unat page_size) = 3" by (simp add: pages_def)
  ultimately show ?thesis using a fr(1) f1 free by (auto simp: commit_page_def)
qed

lemma commit_loop_succeeds:
  assumes "vm_inv root s" "4 * pages len \<le> free_frames s"
  shows "\<exists>s'. page_loop (\<lambda>offset. commit_page root (a + offset)) len 0 s = (True, s')"
proof -
  let ?I = "\<lambda>j t. vm_inv root t \<and> 4 * (pages len - j) \<le> free_frames t"
  have "\<exists>s'. page_loop (\<lambda>offset. commit_page root (a + offset)) len (4096 * 0) s = (True, s') \<and> ?I (pages len) s'"
  proof (rule page_loop_succeeds [where I = ?I])
    fix j t assume j: "j < pages len" and I: "?I j t"
    then have "4 \<le> free_frames t" by linarith
    then obtain t' where t': "commit_page root (a + of_nat (4096 * j)) t = (True, t')" "free_frames t \<le> free_frames t' + 4"
      using commit_page_succeeds I by blast
    moreover have "vm_inv root t'" using commit_page_spec(1) [OF _ t'(1)] I by blast
    moreover have "4 * (pages len - Suc j) \<le> free_frames t'" using I t'(2) j by linarith
    ultimately show "\<exists>t'. commit_page root (a + of_nat (4096 * j)) t = (True, t') \<and> ?I (Suc j) t'" by blast
  qed (use assms in simp_all)
  then show ?thesis by auto
qed

lemma heap_init_total:
  assumes v: "vmalloc_inv v" and vm: "vm_inv root (hp_vm h)"
  shows "\<exists>r. heap_init root v h = Some r \<and>
    (case r of
       Inl NoVirtualSpace \<Rightarrow> fst (vmalloc_reserve heap_reserved v) = 0
     | Inl NoFirstCommit \<Rightarrow> free_frames (hp_vm h) < 2048
     | Inr (v', h') \<Rightarrow> heap_ok root h' {} \<and> vmalloc_inv v' \<and>
         hp_base h' = fst (vmalloc_reserve heap_reserved v) \<and> heap_used h' = 0)"
proof -
  obtain base v1 where r: "vmalloc_reserve heap_reserved v = (base, v1)" by fastforce
  have l: "unat heap_reserved \<le> 2 ^ 32" by simp
  note R = reserve_spec [OF v l r]
  show ?thesis
  proof (cases "base = 0")
    case True
    then show ?thesis using r by (auto simp: heap_init_def)
  next
    case False
    have fp: "footprint heap_reserved = 67112960" by (simp add: footprint_def pages_def)
    have B: "page_aligned base" "1073741824 \<le> unat base" "unat base + 67108864 \<le> 2147483648"
      using R(4) [OF False] unfolding fp by (simp_all add: vmalloc_base_def vmalloc_end_def)
    define h0 where "h0 = h\<lparr>hp_base := base, hp_head := 0, hp_tail := 0, hp_committed := 0, hp_used := 0\<rparr>"
    have inv0: "heap_inv root h0 []"
      using B vm by (auto simp: heap_inv_def h0_def heap_rep_def coalesced_def page_aligned_def)
    have w: "unat page_size \<le> 67108864 + 16" by simp
    from grow_spec [OF inv0 w] obtain ok h1 cs where g: "grow root page_size h0 = Some (ok, h1)"
        "heap_inv root h1 cs" "allocations cs = {}" by auto
    show ?thesis
    proof (cases ok)
      case True
      have hi: "heap_init root v h = Some (Inr (v1, h1))" using r False g(1) True by (simp add: heap_init_def h0_def)
      have ok1: "heap_ok root h1 {}" using g(2,3) unfolding heap_ok_def by blast
      have "hp_base h1 = base"
        using g(1) by (auto simp: grow_def h0_def Let_def append_block_fields split: prod.splits bool.splits if_splits)
      moreover have "heap_used h1 = 0" using heap_ok_facts(2) [OF ok1] by (simp add: unat_eq_0)
      ultimately show ?thesis using hi ok1 R(1) r by simp
    next
      case nok: False
      have hi: "heap_init root v h = Some (Inl NoFirstCommit)" using r False g(1) nok by (simp add: heap_init_def h0_def)
      have gr: "growth 2097152 4096 = Some 2097152" by (subst growth.simps) simp
      have "\<not> 2048 \<le> free_frames (hp_vm h)"
      proof
        assume "2048 \<le> free_frames (hp_vm h)"
        then obtain s' where "page_loop (\<lambda>offset. commit_page root (base + offset)) 2097152 0 (hp_vm h) = (True, s')"
          using commit_loop_succeeds [OF vm, of 2097152 base] by (auto simp: pages_def)
        then show False using g(1) nok gr by (auto simp: grow_def h0_def)
      qed
      then show ?thesis using hi by simp
    qed
  qed
qed

lemma kmalloc_null_only:
  assumes inv: "heap_inv root h bs" and k: "kmalloc root sz h = Some (0, h')"
  shows "sz = 0 \<or> sz > heap_reserved \<or>
    (\<forall>b \<in> set bs. \<not> (blk_free b \<and> align_up sz \<le> blk_size b)) \<and>
    map_option fst (grow root (align_up sz) h) = Some False"
proof (rule ccontr)
  assume neg: "\<not> ?thesis"
  then have r: "sz \<noteq> 0" "\<not> sz > heap_reserved" by blast+
  then have le: "unat sz \<le> 67108864" by (simp add: word_less_nat_alt)
  define w where "w = align_up sz"
  note A = align_up_spec [OF le, folded w_def]
  have km: "kmalloc root sz h = kmalloc_attempts (Suc (Suc 0)) root w h"
    using r by (simp add: kmalloc_def w_def numeral_2_eq_2)
  have found: "kmalloc_attempts (Suc n) root w h1 \<noteq> Some (0, h')"
    if i1: "heap_inv root h1 cs" and i2: "\<exists>b \<in> set cs. blk_free b \<and> w \<le> blk_size b" for n h1 cs
  proof -
    obtain xs x s ys where x: "cs = xs @ (x, s, True) # ys" "w \<le> s" "x \<noteq> 0" "find_block (hdr h1) w (hp_head h1) = Some x"
      using find_in_heap [OF i1, of w] i2 by blast
    obtain p h2 where t: "take_block x w h1 = (p, h2)" by fastforce
    then show ?thesis using kmalloc_found(1) [OF i1 x(1,2) A(3) t] x(3,4) by simp
  qed
  have none: "\<not> (\<exists>b \<in> set bs. blk_free b \<and> w \<le> blk_size b)"
    using found [OF inv, of "Suc 0"] k km by metis
  then have f: "find_block (hdr h) w (hp_head h) = Some 0" using find_in_heap [OF inv, of w] by auto
  have "unat w \<le> 67108864 + 16" using A(2) le by simp
  from grow_spec [OF inv this] obtain ok h1 cs where g: "grow root w h = Some (ok, h1)" "heap_inv root h1 cs"
    "if ok then (\<exists>b \<in> set cs. blk_free b \<and> w \<le> blk_size b) else cs = bs" by blast
  have ok using neg none g(1) by (auto simp: w_def)
  then have "kmalloc root sz h = kmalloc_attempts (Suc 0) root w h1" using km f g(1) by simp
  then show False using found [OF g(2), of 0] g(3) \<open>ok\<close> k by simp
qed

section \<open>Properties\<close>

text \<open>
  C10: \<open>kmalloc\<close>. On a sound heap the call ends; a null result leaves the live allocations as
  they are, and any other result is a new block of at least the size asked for, 16-byte aligned,
  apart from every live block, with every byte of it mapped, and the heap stays sound.
\<close>

theorem kmalloc_correct:
  assumes "heap_ok root h A"
  shows "\<exists>p h'. kmalloc root sz h = Some (p, h') \<and>
    (if p = 0 then heap_ok root h' A
     else \<exists>z. sz \<le> z \<and> (p, z) \<notin> A \<and> heap_ok root h' (insert (p, z) A) \<and> 16 dvd unat p \<and>
       (\<forall>a \<in> A. apart (p, z) a) \<and> unat (heap_used h') = unat (heap_used h) + unat z \<and>
       (\<forall>w. unat p \<le> unat w \<and> unat w < unat p + unat z \<longrightarrow> as_translate root w (hp_vm h') \<noteq> 0))"
proof -
  obtain p h' where k: "kmalloc root sz h = Some (p, h')"
    "if p = 0 then heap_ok root h' A else \<exists>z. sz \<le> z \<and> (p, z) \<notin> A \<and> heap_ok root h' (insert (p, z) A)"
    using kheap.take_total [OF assms] by blast
  show ?thesis
  proof (cases "p = 0")
    case False
    then obtain z where z: "sz \<le> z" "(p, z) \<notin> A" "heap_ok root h' (insert (p, z) A)" "\<And>a. a \<in> A \<Longrightarrow> apart (p, z) a"
      using kheap.take_result [OF assms k(1)] by metis
    moreover have "unat (heap_used h') = unat (heap_used h) + unat z"
      using heap_ok_facts(1,2) [OF assms] heap_ok_facts(2) [OF z(3)] z(2) by simp
    ultimately show ?thesis using k(1) False heap_ok_facts(3,5) [OF z(3), of p z] by auto
  qed (use k in auto)
qed

text \<open>
  \<open>kmalloc\<close> only answers null when it has to: the size is zero or above the reserve, or no
  free block is large enough and the heap could not grow.
\<close>

lemma kmalloc_null:
  assumes "heap_inv root h bs" and "kmalloc root sz h = Some (0, h')"
  shows "sz = 0 \<or> sz > heap_reserved \<or>
    (\<forall>b \<in> set bs. \<not> (blk_free b \<and> align_up sz \<le> blk_size b)) \<and>
    map_option fst (grow root (align_up sz) h) = Some False"
  using kmalloc_null_only [OF assms] .

text \<open>
  C11: \<open>kfree\<close> of a live allocation removes exactly it, gives its bytes back and keeps the heap
  sound; freeing what \<open>kmalloc\<close> returned restores the live allocations.
\<close>

theorem kfree_correct:
  assumes "heap_ok root h A" and "(p, z) \<in> A"
  shows "heap_ok root (kfree p h) (A - {(p, z)}) \<and>
    unat (heap_used (kfree p h)) = unat (heap_used h) - unat z"
proof -
  have ok: "heap_ok root (kfree p h) (A - {(p, z)})" using assms by (rule kheap.give_back)
  moreover have "(\<Sum>(p, z) \<in> A. unat z) = unat z + (\<Sum>(p, z) \<in> A - {(p, z)}. unat z)"
    using sum.remove [OF heap_ok_facts(1) [OF assms(1)] assms(2), of "\<lambda>(p, z). unat z"] by simp
  ultimately show ?thesis using heap_ok_facts(2) [OF assms(1)] heap_ok_facts(2) [OF ok] by simp
qed

text \<open>
  \<open>heap_init\<close> ends in a sound empty heap at the reserved address, and panics only when the
  reservation fails or fewer than 2048 frames are free.
\<close>

lemma heap_init_correct:
  assumes "vmalloc_inv v" and "vm_inv root (hp_vm h)"
  shows "\<exists>r. heap_init root v h = Some r \<and>
    (case r of
       Inl NoVirtualSpace \<Rightarrow> fst (vmalloc_reserve heap_reserved v) = 0
     | Inl NoFirstCommit \<Rightarrow> free_frames (hp_vm h) < 2048
     | Inr (v', h') \<Rightarrow> heap_ok root h' {} \<and> vmalloc_inv v' \<and>
         hp_base h' = fst (vmalloc_reserve heap_reserved v) \<and> heap_used h' = 0)"
  using heap_init_total [OF assms] .

section \<open>Witnesses\<close>

text \<open>A heap of two mapped pages with one free block.\<close>

definition small_heap :: heap where
  "small_heap = \<lparr>hp_head = 0x40000000, hp_tail = 0x40000000, hp_base = 0x40000000, hp_committed = 8192,
     hp_used = 0, hdr = (\<lambda>_. \<lparr>bh_size = 8160, bh_free = True, bh_next = 0, bh_prev = 0\<rparr>), hp_vm = mapped_vm\<rparr>"

lemma small_heap_mapped:
  assumes "1073741824 \<le> unat w" "unat w < 1073750016"
  shows "as_translate 0x1000 w mapped_vm \<noteq> 0"
proof -
  obtain s' where m: "as_map 0x1000 0x40000000 0x5000 8192 Flag_Write empty_vm = (True, s')"
    using empty_vm_map by blast
  have al: "page_aligned 0x40000000" "page_aligned 0x5000" by (simp_all add: page_aligned_def)
  have "as_translate 0x1000 w s' = 0x5000 + (w - 0x40000000)"
    using as_map_range [OF empty_vm_inv al _ _ m] assms by (simp add: pages_def)
  moreover have "unat (0x5000 + (w - 0x40000000)) = 20480 + (unat w - 1073741824)"
    using assms by (simp add: unat_u64_add unat_u64_sub word_le_nat_alt)
  ultimately show ?thesis using m by (metis mapped_vm_def snd_conv unsigned_0 add_is_0 zero_neq_numeral)
qed

lemma small_heap_inv: "heap_inv 0x1000 small_heap [(0x40000000, 8160, True)]"
  using mapped_vm_inv small_heap_mapped
  by (simp add: heap_inv_def heap_rep_def coalesced_def small_heap_def)

lemma small_heap_ok: "heap_ok 0x1000 small_heap {}"
  unfolding heap_ok_def using small_heap_inv by force

lemma small_heap_alloc: "\<exists>h'. kmalloc 0x1000 100 small_heap = Some (0x40000020, h')"
proof -
  have "kmalloc_attempts 2 r w h = kmalloc_attempts (Suc (Suc 0)) r w h" for r w h by (simp only: numeral_2_eq_2)
  then show ?thesis by (simp add: kmalloc_def small_heap_def align_up_def find_block.simps take_block_def)
qed

theorem kmalloc_correct_witness:
  "\<exists>h' z. kmalloc 0x1000 100 small_heap = Some (0x40000020, h') \<and> 100 \<le> z \<and>
     heap_ok 0x1000 h' {(0x40000020, z)} \<and> unat (heap_used h') = unat z"
  using kmalloc_correct [OF small_heap_ok, of 100] small_heap_alloc by (auto simp: small_heap_def heap_used_def)

lemma small_heap_full: "\<exists>h'. kmalloc 0x1000 0x3FFFFF0 small_heap = Some (0, h')"
proof -
  have two: "kmalloc_attempts 2 r w h = kmalloc_attempts (Suc (Suc 0)) r w h" for r w h by (simp only: numeral_2_eq_2)
  obtain t where t: "growth 2097152 0x3FFFFF0 = Some t" "67108864 \<le> unat t" "unat t \<le> 69206032"
    using growth_spec [of "0x3FFFFF0" 2097152] by auto
  have "unat (8192 + t) = 8192 + unat t" using t(3) by (simp add: unat_u64_add)
  then have "8192 + t > 67108864" using t(2) by (simp add: word_less_nat_alt)
  then show ?thesis using t(1)
    by (simp add: two kmalloc_def small_heap_def align_up_def find_block.simps grow_def)
qed

lemma kmalloc_null_example:
  "\<exists>h'. kmalloc 0x1000 0x3FFFFF0 small_heap = Some (0, h') \<and>
     map_option fst (grow 0x1000 (align_up 0x3FFFFF0) small_heap) = Some False"
proof -
  obtain h' where k: "kmalloc 0x1000 0x3FFFFF0 small_heap = Some (0, h')" using small_heap_full by blast
  then show ?thesis using kmalloc_null [OF small_heap_inv k] by auto
qed

theorem kfree_correct_witness:
  "\<exists>h'. kmalloc 0x1000 100 small_heap = Some (0x40000020, h') \<and> heap_ok 0x1000 (kfree 0x40000020 h') {}"
proof -
  obtain h' where k: "kmalloc 0x1000 100 small_heap = Some (0x40000020, h')" using small_heap_alloc by blast
  then obtain z where "heap_ok 0x1000 h' {(0x40000020, z)}"
    using kheap.take_result [OF small_heap_ok k] by auto
  then show ?thesis using kfree_correct [of "0x1000" h' "{(0x40000020, z)}" "0x40000020" z] k by auto
qed

lemma heap_init_correct_example:
  "\<exists>v' h'. heap_init 0x1000 fresh_vmalloc (small_heap\<lparr>hp_vm := empty_vm\<rparr>) = Some (Inr (v', h')) \<and>
     hp_base h' = 0x40000000 \<and> heap_ok 0x1000 h' {}"
proof -
  have b: "fst (vmalloc_reserve heap_reserved fresh_vmalloc) = 0x40000000"
    by (simp add: vmalloc_reserve_def fresh_vmalloc_def ensure_initialised_def reserve_scan.simps round_up_def
        vmalloc_base_def vmalloc_end_def Let_def)
  have inv: "vm_inv 0x1000 (hp_vm (small_heap\<lparr>hp_vm := empty_vm\<rparr>))" using empty_vm_inv by simp
  obtain r where r: "heap_init 0x1000 fresh_vmalloc (small_heap\<lparr>hp_vm := empty_vm\<rparr>) = Some r"
    "case r of
       Inl NoVirtualSpace \<Rightarrow> fst (vmalloc_reserve heap_reserved fresh_vmalloc) = 0
     | Inl NoFirstCommit \<Rightarrow> free_frames (hp_vm (small_heap\<lparr>hp_vm := empty_vm\<rparr>)) < 2048
     | Inr (v', h') \<Rightarrow> heap_ok 0x1000 h' {} \<and> vmalloc_inv v' \<and>
         hp_base h' = fst (vmalloc_reserve heap_reserved fresh_vmalloc) \<and> heap_used h' = 0"
    using heap_init_correct [OF fresh_vmalloc_inv inv] by blast
  show ?thesis
  proof (cases r)
    case (Inl e)
    then show ?thesis using r b by (cases e) (simp_all add: empty_vm_free)
  next
    case (Inr x)
    then show ?thesis using r b by (cases x) auto
  qed
qed

end
