(* ===== verification/Sched.thy ===== *)
theory Sched
  imports Heap_Correct
begin

unbundle bit_operations_syntax

text \<open>
  Threads and the scheduler, \<^verbatim>\<open>kernel/sched/scheduler.cpp\<close>, \<^verbatim>\<open>include/eris/thread.hpp\<close>,
  \<^verbatim>\<open>kernel/sched/switch.asm\<close> and the per-processor fields they use.

  A thread is a record in a store from addresses to threads; the queues are the pointers the
  code follows. A processor is its index. Every operation below runs under the scheduler lock,
  so it is one step of the system; the lock itself is modelled in its own theory. The context
  switch works on the registers of the processor and on memory in cells of eight bytes.
\<close>

section \<open>State\<close>

datatype ThreadState = Ready | Running | Sleeping | Blocked | Dead

record Thread =
  t_name :: string
  t_id :: u32
  t_cpu :: u32
  t_state :: ThreadState
  t_sp :: u64
  t_stack_base :: virt_addr
  t_stack_pages :: usize
  t_wake_at :: u64
  t_syscall_stack :: virt_addr
  t_space_root :: u64
  t_qnext :: u64
  t_lnext :: u64

record regs =
  rbp :: u64
  rbx :: u64
  r12 :: u64
  r13 :: u64
  r14 :: u64
  r15 :: u64
  rsp :: u64
  rip :: u64

record PerCpu =
  c_current :: u64
  c_idle :: u64
  c_preempt_count :: u32
  c_kernel_stack_top :: virt_addr
  c_tss_rsp0 :: u64
  c_cr3 :: u64
  c_regs :: regs

record sched =
  thr :: "u64 \<Rightarrow> Thread"
  run_queue_head :: u64
  run_queue_tail :: u64
  all_threads :: u64
  threads_alive :: usize
  next_thread_id :: u32
  running :: bool
  sleepers :: u64
  wait_heads :: "u64 \<Rightarrow> u64"
  cpus :: "u32 \<Rightarrow> PerCpu"
  cells :: "u64 \<Rightarrow> u64"

definition stack_pages :: usize where [simp]: "stack_pages = 8"
definition max_threads :: usize where [simp]: "max_threads = 64"
definition name_length :: nat where [simp]: "name_length = 24"

definition set_thread :: "u64 \<Rightarrow> (Thread \<Rightarrow> Thread) \<Rightarrow> sched \<Rightarrow> sched" where
  "set_thread t f s = s\<lparr>thr := (thr s)(t := f (thr s t))\<rparr>"

definition set_percpu :: "u32 \<Rightarrow> (PerCpu \<Rightarrow> PerCpu) \<Rightarrow> sched \<Rightarrow> sched" where
  "set_percpu c f s = s\<lparr>cpus := (cpus s)(c := f (cpus s c))\<rparr>"

section \<open>Queues\<close>

definition enqueue :: "u64 \<Rightarrow> sched \<Rightarrow> sched" where
  "enqueue t s =
     (let s1 = set_thread t (\<lambda>x. x\<lparr>t_qnext := 0, t_state := Ready\<rparr>) s
      in if run_queue_tail s1 = 0 then s1\<lparr>run_queue_head := t, run_queue_tail := t\<rparr>
         else (set_thread (run_queue_tail s1) (\<lambda>x. x\<lparr>t_qnext := t\<rparr>) s1)\<lparr>run_queue_tail := t\<rparr>)"

definition dequeue :: "sched \<Rightarrow> u64 \<times> sched" where
  "dequeue s =
     (let t = run_queue_head s
      in if t = 0 then (0, s)
         else let s1 = s\<lparr>run_queue_head := t_qnext (thr s t)\<rparr>;
                  s2 = (if run_queue_head s1 = 0 then s1\<lparr>run_queue_tail := 0\<rparr> else s1)
              in (t, set_thread t (\<lambda>x. x\<lparr>t_qnext := 0\<rparr>) s2))"

definition park_sleeper_at :: "u64 \<Rightarrow> u64 \<Rightarrow> sched \<Rightarrow> sched" where
  "park_sleeper_at t deadline s =
     (set_thread t (\<lambda>x. x\<lparr>t_wake_at := deadline, t_state := Sleeping, t_qnext := sleepers s\<rparr>) s)\<lparr>sleepers := t\<rparr>"

definition next_in_list :: "u64 \<Rightarrow> sched \<Rightarrow> u64" where
  "next_in_list t s = t_lnext (thr s t)"

partial_function (option) wake_expired_loop :: "u64 \<Rightarrow> u64 \<Rightarrow> sched \<Rightarrow> sched option" where
  "wake_expired_loop now remaining s =
     (if sleepers s = 0 then Some (s\<lparr>sleepers := remaining\<rparr>)
      else let t = sleepers s; s1 = s\<lparr>sleepers := t_qnext (thr s t)\<rparr>
           in if t_wake_at (thr s1 t) \<le> now then wake_expired_loop now remaining (enqueue t s1)
              else wake_expired_loop now t (set_thread t (\<lambda>x. x\<lparr>t_qnext := remaining\<rparr>) s1))"

definition wake_expired_sleepers :: "u64 \<Rightarrow> sched \<Rightarrow> sched option" where
  "wake_expired_sleepers now s = wake_expired_loop now 0 s"

text \<open>\<open>link\<close> is the address of the pointer being looked at: the head, or a thread's \<open>queue_next_\<close>.\<close>

datatype link = Head | NextOf u64

definition read_link :: "link \<Rightarrow> sched \<Rightarrow> u64" where
  "read_link l s = (case l of Head \<Rightarrow> sleepers s | NextOf t \<Rightarrow> t_qnext (thr s t))"

definition write_link :: "link \<Rightarrow> u64 \<Rightarrow> sched \<Rightarrow> sched" where
  "write_link l v s = (case l of Head \<Rightarrow> s\<lparr>sleepers := v\<rparr> | NextOf t \<Rightarrow> set_thread t (\<lambda>x. x\<lparr>t_qnext := v\<rparr>) s)"

partial_function (option) detach_loop :: "u64 \<Rightarrow> link \<Rightarrow> sched \<Rightarrow> sched option" where
  "detach_loop t l s =
     (if read_link l s = 0 then Some s
      else if read_link l s = t then Some (write_link l (t_qnext (thr s t)) s)
      else detach_loop t (NextOf (read_link l s)) s)"

definition detach_from_sleepers :: "u64 \<Rightarrow> sched \<Rightarrow> sched option" where
  "detach_from_sleepers t s = detach_loop t Head s"

definition block_on :: "u64 \<Rightarrow> u64 \<Rightarrow> sched \<Rightarrow> sched" where
  "block_on q t s =
     (set_thread t (\<lambda>x. x\<lparr>t_state := Blocked, t_qnext := wait_heads s q\<rparr>) s)\<lparr>wait_heads := (wait_heads s)(q := t)\<rparr>"

definition take_from :: "u64 \<Rightarrow> sched \<Rightarrow> u64 \<times> sched" where
  "take_from q s =
     (let t = wait_heads s q
      in if t = 0 then (0, s)
         else (t, set_thread t (\<lambda>x. x\<lparr>t_qnext := 0\<rparr>) (s\<lparr>wait_heads := (wait_heads s)(q := t_qnext (thr s t))\<rparr>)))"

section \<open>The context switch\<close>

definition push :: "u64 \<Rightarrow> regs \<times> (u64 \<Rightarrow> u64) \<Rightarrow> regs \<times> (u64 \<Rightarrow> u64)" where
  "push v st = (let (r, m) = st in (r\<lparr>rsp := rsp r - 8\<rparr>, m(rsp r - 8 := v)))"

definition pop :: "(u64 \<Rightarrow> regs \<Rightarrow> regs) \<Rightarrow> regs \<times> (u64 \<Rightarrow> u64) \<Rightarrow> regs \<times> (u64 \<Rightarrow> u64)" where
  "pop load st = (let (r, m) = st in (load (m (rsp r)) (r\<lparr>rsp := rsp r + 8\<rparr>), m))"

text \<open>
  \<open>context_switch\<close>, from the call that pushes the return address on: the registers are pushed,
  the stack pointer is handed out, and the other stack is popped up to its return address.
\<close>

definition save_context :: "regs \<times> (u64 \<Rightarrow> u64) \<Rightarrow> regs \<times> (u64 \<Rightarrow> u64)" where
  "save_context st =
     (let (r, m) = st
      in push (r15 r) (push (r14 r) (push (r13 r) (push (r12 r) (push (rbx r) (push (rbp r) (push (rip r) st)))))))"

definition resume_context :: "u64 \<Rightarrow> regs \<times> (u64 \<Rightarrow> u64) \<Rightarrow> regs \<times> (u64 \<Rightarrow> u64)" where
  "resume_context sp st =
     (let (r, m) = st
      in pop (\<lambda>v r. r\<lparr>rip := v\<rparr>) (pop (\<lambda>v r. r\<lparr>rbp := v\<rparr>) (pop (\<lambda>v r. r\<lparr>rbx := v\<rparr>) (pop (\<lambda>v r. r\<lparr>r12 := v\<rparr>)
           (pop (\<lambda>v r. r\<lparr>r13 := v\<rparr>) (pop (\<lambda>v r. r\<lparr>r14 := v\<rparr>) (pop (\<lambda>v r. r\<lparr>r15 := v\<rparr>) (r\<lparr>rsp := sp\<rparr>, m))))))))"

definition context_switch :: "u32 \<Rightarrow> u64 \<Rightarrow> u64 \<Rightarrow> sched \<Rightarrow> sched" where
  "context_switch c previous resume_from s =
     (let (r1, m1) = save_context (c_regs (cpus s c), cells s);
          s1 = set_thread previous (\<lambda>x. x\<lparr>t_sp := rsp r1\<rparr>) s;
          (r2, m2) = resume_context resume_from (r1, m1)
      in (set_percpu c (\<lambda>p. p\<lparr>c_regs := r2\<rparr>) s1)\<lparr>cells := m2\<rparr>)"

definition set_current :: "u32 \<Rightarrow> u64 \<Rightarrow> sched \<Rightarrow> sched" where
  "set_current c t s =
     set_thread t (\<lambda>x. x\<lparr>t_cpu := c, t_state := Running\<rparr>) (set_percpu c (\<lambda>p. p\<lparr>c_current := t\<rparr>) s)"

definition tss_set_kernel_stack :: "u32 \<Rightarrow> virt_addr \<Rightarrow> sched \<Rightarrow> sched" where
  "tss_set_kernel_stack c stack_top s = set_percpu c (\<lambda>p. p\<lparr>c_kernel_stack_top := stack_top, c_tss_rsp0 := stack_top\<rparr>) s"

definition kernel_stack_of :: "Thread \<Rightarrow> virt_addr" where
  "kernel_stack_of t =
     (if t_syscall_stack t \<noteq> 0 then t_syscall_stack t
      else if t_stack_base t \<noteq> 0 then t_stack_base t + t_stack_pages t * page_size else 0)"

definition switch_to :: "u64 \<Rightarrow> u32 \<Rightarrow> u64 \<Rightarrow> sched \<Rightarrow> sched" where
  "switch_to kernel_root c nxt s =
     (let previous = c_current (cpus s c)
      in if previous = nxt then set_current c nxt s
         else let s1 = set_current c nxt s;
                  kernel_stack = kernel_stack_of (thr s1 nxt);
                  s2 = (if kernel_stack \<noteq> 0 then tss_set_kernel_stack c kernel_stack s1 else s1);
                  wanted = (if t_space_root (thr s2 nxt) \<noteq> 0 then t_space_root (thr s2 nxt) else kernel_root);
                  s3 = (if wanted \<noteq> c_cr3 (cpus s2 c) then set_percpu c (\<lambda>p. p\<lparr>c_cr3 := wanted\<rparr>) s2 else s2)
              in context_switch c previous (t_sp (thr s3 nxt)) s3)"

section \<open>Operations\<close>

definition adopt :: "u64 \<Rightarrow> sched \<Rightarrow> sched" where
  "adopt t s =
     (let s1 = (set_thread t (\<lambda>x. x\<lparr>t_id := next_thread_id s, t_lnext := all_threads s\<rparr>) s)
            \<lparr>next_thread_id := next_thread_id s + 1, all_threads := t, threads_alive := threads_alive s + 1\<rparr>
      in enqueue t s1)"

definition mark_dead :: "u64 \<Rightarrow> sched \<Rightarrow> sched" where
  "mark_dead t s = (set_thread t (\<lambda>x. x\<lparr>t_state := Dead\<rparr>) s)\<lparr>threads_alive := threads_alive s - 1\<rparr>"

definition next_or_idle :: "u32 \<Rightarrow> sched \<Rightarrow> u64 \<times> sched" where
  "next_or_idle c s = (let (nxt, s1) = dequeue s in (if nxt = 0 then c_idle (cpus s1 c) else nxt, s1))"

definition thread_wake :: "u64 \<Rightarrow> sched \<Rightarrow> sched option" where
  "thread_wake t s =
     (if t_state (thr s t) = Blocked \<or> t_state (thr s t) = Sleeping
      then map_option (enqueue t) (detach_from_sleepers t s) else Some s)"

definition yield :: "u64 \<Rightarrow> u32 \<Rightarrow> u64 \<Rightarrow> sched \<Rightarrow> sched option" where
  "yield kernel_root c now s =
     (if \<not> running s then Some s
      else map_option (\<lambda>s1.
        let (nxt, s2) = dequeue s1; self = c_current (cpus s2 c)
        in if nxt = 0 then s2
           else let s3 = (if self \<noteq> 0 \<and> self \<noteq> c_idle (cpus s2 c) then enqueue self s2 else s2)
                in switch_to kernel_root c nxt s3)
        (wake_expired_sleepers now s))"

definition thread_sleep_ns :: "u64 \<Rightarrow> u32 \<Rightarrow> u64 \<Rightarrow> u64 \<Rightarrow> sched \<Rightarrow> sched" where
  "thread_sleep_ns kernel_root c now nanoseconds s =
     (if \<not> running s then s
      else let self = c_current (cpus s c);
               (nxt, s2) = next_or_idle c (park_sleeper_at self (now + nanoseconds) s)
           in switch_to kernel_root c nxt s2)"

definition thread_sleep_ms :: "u64 \<Rightarrow> u32 \<Rightarrow> u64 \<Rightarrow> u64 \<Rightarrow> sched \<Rightarrow> sched" where
  "thread_sleep_ms kernel_root c now milliseconds s = thread_sleep_ns kernel_root c now (milliseconds * 1000000) s"

definition thread_exit :: "u64 \<Rightarrow> u32 \<Rightarrow> sched \<Rightarrow> sched" where
  "thread_exit kernel_root c s =
     (let self = c_current (cpus s c); (nxt, s2) = next_or_idle c (mark_dead self s)
      in switch_to kernel_root c nxt s2)"

definition preempt_disable :: "u32 \<Rightarrow> sched \<Rightarrow> sched" where
  "preempt_disable c s = set_percpu c (\<lambda>p. p\<lparr>c_preempt_count := c_preempt_count p + 1\<rparr>) s"

definition preempt_enable :: "u32 \<Rightarrow> sched \<Rightarrow> sched" where
  "preempt_enable c s =
     (if c_preempt_count (cpus s c) > 0 then set_percpu c (\<lambda>p. p\<lparr>c_preempt_count := c_preempt_count p - 1\<rparr>) s else s)"

definition preempt_allowed :: "u32 \<Rightarrow> sched \<Rightarrow> bool" where
  "preempt_allowed c s \<longleftrightarrow> c_preempt_count (cpus s c) = 0"

definition sched_tick :: "u64 \<Rightarrow> u32 \<Rightarrow> u64 \<Rightarrow> sched \<Rightarrow> sched option" where
  "sched_tick kernel_root c now s =
     (if \<not> running s \<or> \<not> preempt_allowed c s then Some s else yield kernel_root c now s)"

definition queue_wait :: "u64 \<Rightarrow> u32 \<Rightarrow> u64 \<Rightarrow> sched \<Rightarrow> sched" where
  "queue_wait kernel_root c q s =
     (let self = c_current (cpus s c); (nxt, s2) = next_or_idle c (block_on q self s)
      in switch_to kernel_root c nxt s2)"

definition wake_one :: "u64 \<Rightarrow> sched \<Rightarrow> sched" where
  "wake_one q s = (let (t, s1) = take_from q s in if t \<noteq> 0 then enqueue t s1 else s1)"

partial_function (option) wake_all :: "u64 \<Rightarrow> sched \<Rightarrow> sched option" where
  "wake_all q s = (let (t, s1) = take_from q s in if t \<noteq> 0 then wake_all q (enqueue t s1) else Some s1)"

definition thread_count :: "sched \<Rightarrow> usize" where
  "thread_count s = threads_alive s"

fun walk_threads :: "nat \<Rightarrow> u64 \<Rightarrow> sched \<Rightarrow> u64" where
  "walk_threads 0 t s = t"
| "walk_threads (Suc n) t s = (if t = 0 then 0 else walk_threads n (next_in_list t s) s)"

definition thread_at :: "usize \<Rightarrow> sched \<Rightarrow> u64" where
  "thread_at index s = walk_threads (unat index) (all_threads s) s"

definition thread_state_name :: "ThreadState \<Rightarrow> string" where
  "thread_state_name st = (case st of Ready \<Rightarrow> ''ready'' | Running \<Rightarrow> ''running'' | Sleeping \<Rightarrow> ''sleeping''
     | Blocked \<Rightarrow> ''blocked'' | Dead \<Rightarrow> ''dead'')"

section \<open>Creating threads\<close>

text \<open>A thread object is allocated zeroed (\<open>kzalloc\<close>): every field has its initial value.\<close>

definition new_thread :: Thread where
  "new_thread = \<lparr>t_name = [], t_id = 0, t_cpu = 0, t_state = Ready, t_sp = 0, t_stack_base = 0,
     t_stack_pages = 0, t_wake_at = 0, t_syscall_stack = 0, t_space_root = 0, t_qnext = 0, t_lnext = 0\<rparr>"

text \<open>The frame the first switch to a thread pops.\<close>

definition first_frame :: "u64 \<Rightarrow> u64 \<Rightarrow> u64 \<Rightarrow> u64 \<Rightarrow> (u64 \<Rightarrow> u64) \<Rightarrow> (u64 \<Rightarrow> u64)" where
  "first_frame trampoline entry argument stack_top m =
     m(stack_top - 8 := trampoline, stack_top - 16 := 0, stack_top - 24 := 0, stack_top - 32 := entry, stack_top - 40 := argument,
       stack_top - 48 := 0, stack_top - 56 := 0)"

definition prepare :: "u64 \<Rightarrow> u64 \<Rightarrow> string \<Rightarrow> u64 \<Rightarrow> u64 \<Rightarrow> sched \<Rightarrow> sched" where
  "prepare trampoline t name entry argument s =
     (let s1 = set_thread t (\<lambda>x. x\<lparr>t_name := take (name_length - 1) name\<rparr>) s;
          stack_top = t_stack_base (thr s1 t) + t_stack_pages (thr s1 t) * page_size;
          s2 = s1\<lparr>cells := first_frame trampoline entry argument stack_top (cells s1)\<rparr>
      in set_thread t (\<lambda>x. x\<lparr>t_sp := stack_top - 56, t_state := Ready\<rparr>) s2)"

definition make_idle :: "u32 \<Rightarrow> u64 \<Rightarrow> sched \<Rightarrow> sched" where
  "make_idle c idle s =
     set_percpu c (\<lambda>p. p\<lparr>c_idle := idle, c_current := idle\<rparr>)
       (set_thread idle (\<lambda>x. x\<lparr>t_id := 0, t_cpu := c, t_state := Running, t_name := ''idle''\<rparr>) s)"

text \<open>The stack pages of a new thread: a frame for each, mapped above the guard page.\<close>

fun map_stack :: "phys_addr \<Rightarrow> virt_addr \<Rightarrow> nat \<Rightarrow> nat \<Rightarrow> mmu \<Rightarrow> bool \<times> mmu" where
  "map_stack root region i 0 m = (True, m)"
| "map_stack root region i (Suc n) m =
     (let (frame, fr) = alloc_page (frames m); m1 = m\<lparr>frames := fr\<rparr>
      in if frame = 0 then (False, m1)
         else let (_, m2) = as_map root (region + (of_nat i + 1) * page_size) frame page_size (Flag_Write OR Flag_NoExecute) m1
              in map_stack root region (Suc i) n m2)"

record kernel =
  k_heap :: heap
  k_vm :: vmalloc
  k_sched :: sched

definition spawn :: "phys_addr \<Rightarrow> u64 \<Rightarrow> usize \<Rightarrow> string \<Rightarrow> u64 \<Rightarrow> u64 \<Rightarrow> kernel \<Rightarrow> (u64 \<times> kernel) option" where
  "spawn root trampoline sizeof_Thread name entry argument k =
     (if threads_alive (k_sched k) \<ge> max_threads then Some (0, k)
      else Option.bind (kmalloc root sizeof_Thread (k_heap k)) (\<lambda>(t, h1).
        if t = 0 then Some (0, k\<lparr>k_heap := h1\<rparr>)
        else let s1 = set_thread t (\<lambda>_. new_thread) (k_sched k);
                 (region, v1) = vmalloc_reserve ((stack_pages + 1) * page_size) (k_vm k)
             in if region = 0 then Some (0, k\<lparr>k_heap := kfree t h1, k_vm := v1, k_sched := s1\<rparr>)
                else case map_stack root region 0 (unat stack_pages) (hp_vm h1) of
                       (False, m) \<Rightarrow> Some (0, k\<lparr>k_heap := kfree t (h1\<lparr>hp_vm := m\<rparr>),
                          k_vm := vmalloc_release region ((stack_pages + 1) * page_size) v1, k_sched := s1\<rparr>)
                     | (True, m) \<Rightarrow>
                         let s2 = set_thread t (\<lambda>x. x\<lparr>t_stack_base := region + page_size, t_stack_pages := stack_pages\<rparr>) s1
                         in Some (t, k\<lparr>k_heap := h1\<lparr>hp_vm := m\<rparr>, k_vm := v1,
                              k_sched := adopt t (prepare trampoline t name entry argument s2)\<rparr>)))"

definition sched_start_cpu :: "phys_addr \<Rightarrow> usize \<Rightarrow> u32 \<Rightarrow> kernel \<Rightarrow> (unit + kernel) option" where
  "sched_start_cpu root sizeof_Thread c k =
     Option.bind (kmalloc root sizeof_Thread (k_heap k)) (\<lambda>(idle, h1).
       if idle = 0 then Some (Inl ())
       else Some (Inr (k\<lparr>k_heap := h1, k_sched := make_idle c idle (set_thread idle (\<lambda>_. new_thread) (k_sched k))\<rparr>)))"

definition sched_init :: "phys_addr \<Rightarrow> usize \<Rightarrow> u32 \<Rightarrow> kernel \<Rightarrow> (unit + kernel) option" where
  "sched_init root sizeof_Thread c k =
     map_option (map_sum id (\<lambda>k1. k1\<lparr>k_sched := (k_sched k1)\<lparr>running := True\<rparr>\<rparr>))
       (sched_start_cpu root sizeof_Thread c k)"

end
