(* ===== verification/Sched_Queues.thy ===== *)
theory Sched_Queues
  imports Sched
begin

text \<open>
  The queues of the scheduler as lists. A queue is the list its pointers thread through the
  thread store; the operations of the scheduler are described by what they do to these lists and
  to the few fields of a thread the scheduler reads.
\<close>

section \<open>Null-terminated chains\<close>

fun chain :: "(u64 \<Rightarrow> u64) \<Rightarrow> u64 \<Rightarrow> u64 list \<Rightarrow> bool" where
  "chain nx a [] \<longleftrightarrow> a = 0"
| "chain nx a (x # xs) \<longleftrightarrow> a = x \<and> x \<noteq> 0 \<and> chain nx (nx x) xs"

lemma chain_upd [simp]: "x \<notin> set xs \<Longrightarrow> chain (nx(x := v)) a xs \<longleftrightarrow> chain nx a xs"
  by (induction xs arbitrary: a) auto

lemma chain_unique: "chain nx a xs \<Longrightarrow> chain nx a ys \<Longrightarrow> xs = ys"
proof (induction xs arbitrary: a ys)
  case Nil
  then show ?case by (cases ys) auto
next
  case (Cons x xs)
  then show ?case by (cases ys) auto
qed

lemma chain_suffix: "chain nx a (xs @ ys) \<Longrightarrow> \<exists>b. chain nx b ys"
  by (induction xs arbitrary: a) auto

lemma chain_distinct: "chain nx a xs \<Longrightarrow> distinct xs"
proof (induction xs arbitrary: a)
  case (Cons x xs)
  have "x \<notin> set xs"
  proof
    assume "x \<in> set xs"
    then obtain us vs where uv: "xs = us @ x # vs" by (meson split_list)
    then have "chain nx (nx x) (us @ x # vs)" using Cons.prems by simp
    then obtain b where "chain nx b (x # vs)" using chain_suffix by blast
    then have "chain nx x (x # vs)" by auto
    moreover have "chain nx x (x # xs)" using Cons.prems by auto
    ultimately show False using chain_unique [of nx x "x # vs" "x # xs"] uv by auto
  qed
  then show ?case using Cons by auto
qed simp

lemma chain_zero: "chain nx a xs \<Longrightarrow> 0 \<notin> set xs"
  by (induction xs arbitrary: a) auto

lemma chain_snoc:
  assumes "chain nx a xs" "xs \<noteq> []" "z \<noteq> 0" "z \<notin> set xs"
  shows "chain (nx(z := 0, last xs := z)) a (xs @ [z])"
  using assms
proof (induction xs arbitrary: a)
  case (Cons x xs)
  have d: "x \<notin> set xs" using chain_distinct [OF Cons.prems(1)] by simp
  show ?case
  proof (cases xs)
    case Nil
    then show ?thesis using Cons.prems by auto
  next
    case (Cons y ys)
    then have "chain (nx(z := 0, last xs := z)) (nx x) (xs @ [z])"
      using Cons.IH [of "nx x"] Cons.prems by (metis Cons.prems(1) chain.simps(2) list.distinct(1) list.set_intros(2))
    moreover have "last (x # xs) = last xs" using Cons by simp
    moreover have "x \<noteq> last xs" using d Cons by auto
    moreover have "(nx(z := 0, last xs := z)) x = nx x" using calculation(3) Cons.prems(4) by auto
    ultimately show ?thesis using Cons.prems by (simp del: fun_upd_apply)
  qed
qed simp

section \<open>What the scheduler reads\<close>

definition qn :: "sched \<Rightarrow> u64 \<Rightarrow> u64" where "qn s t = t_qnext (thr s t)"
definition ln :: "sched \<Rightarrow> u64 \<Rightarrow> u64" where "ln s t = t_lnext (thr s t)"
definition st :: "sched \<Rightarrow> u64 \<Rightarrow> ThreadState" where "st s t = t_state (thr s t)"
definition on_cpu :: "sched \<Rightarrow> u64 \<Rightarrow> u32" where "on_cpu s t = t_cpu (thr s t)"
definition wk :: "sched \<Rightarrow> u64 \<Rightarrow> u64" where "wk s t = t_wake_at (thr s t)"
definition cur :: "sched \<Rightarrow> u32 \<Rightarrow> u64" where "cur s c = c_current (cpus s c)"
definition idl :: "sched \<Rightarrow> u32 \<Rightarrow> u64" where "idl s c = c_idle (cpus s c)"

lemmas view_defs = qn_def ln_def st_def on_cpu_def wk_def cur_def idl_def

lemma view_sleepers [simp]: "qn (s\<lparr>sleepers := x\<rparr>) = qn s" "st (s\<lparr>sleepers := x\<rparr>) = st s" "wk (s\<lparr>sleepers := x\<rparr>) = wk s"
  by (simp_all add: fun_eq_iff view_defs)

text \<open>The parts of the state that the queue operations leave alone.\<close>

definition kept :: "sched \<Rightarrow> sched \<Rightarrow> bool" where
  "kept s s' \<longleftrightarrow> ln s' = ln s \<and> on_cpu s' = on_cpu s \<and> wk s' = wk s \<and> cpus s' = cpus s \<and>
     all_threads s' = all_threads s \<and> threads_alive s' = threads_alive s \<and> running s' = running s \<and>
     next_thread_id s' = next_thread_id s \<and> cells s' = cells s"

lemma kept_refl [simp]: "kept s s" by (simp add: kept_def)
lemma kept_trans: "kept s s1 \<Longrightarrow> kept s1 s2 \<Longrightarrow> kept s s2" by (simp add: kept_def)

lemma kept_cpu: "kept s s' \<Longrightarrow> cur s' = cur s" "kept s s' \<Longrightarrow> idl s' = idl s"
  by (auto simp: kept_def cur_def idl_def)

text \<open>The run queue, the sleepers and the wait queues hold the lists \<open>rq\<close>, \<open>sl\<close> and \<open>wl\<close>.\<close>

definition queues :: "sched \<Rightarrow> u64 list \<Rightarrow> u64 list \<Rightarrow> (u64 \<Rightarrow> u64 list) \<Rightarrow> bool" where
  "queues s rq sl wl \<longleftrightarrow> chain (qn s) (run_queue_head s) rq \<and>
     run_queue_tail s = (if rq = [] then 0 else last rq) \<and>
     chain (qn s) (sleepers s) sl \<and> (\<forall>q. chain (qn s) (wait_heads s q) (wl q)) \<and>
     set rq \<inter> set sl = {} \<and> (\<forall>q. set rq \<inter> set (wl q) = {}) \<and> (\<forall>q. set sl \<inter> set (wl q) = {}) \<and>
     (\<forall>q r. q \<noteq> r \<longrightarrow> set (wl q) \<inter> set (wl r) = {})"

definition queued :: "u64 list \<Rightarrow> u64 list \<Rightarrow> (u64 \<Rightarrow> u64 list) \<Rightarrow> u64 set" where
  "queued rq sl wl = set rq \<union> set sl \<union> (\<Union>q. set (wl q))"

lemma enqueue_view:
  "qn (enqueue t s) = (if run_queue_tail s = 0 then (qn s)(t := 0) else ((qn s)(t := 0))(run_queue_tail s := t))"
  "st (enqueue t s) = (st s)(t := Ready)" "kept s (enqueue t s)"
  "run_queue_head (enqueue t s) = (if run_queue_tail s = 0 then t else run_queue_head s)"
  "run_queue_tail (enqueue t s) = t" "sleepers (enqueue t s) = sleepers s" "wait_heads (enqueue t s) = wait_heads s"
  by (auto simp: enqueue_def set_thread_def view_defs kept_def Let_def fun_eq_iff)

lemma enqueue_queues:
  assumes "queues s rq sl wl" and "t \<noteq> 0" and "t \<notin> queued rq sl wl"
  shows "queues (enqueue t s) (rq @ [t]) sl wl"
proof -
  note Q = assms(1) [unfolded queues_def]
  have n: "t \<notin> set rq" "t \<notin> set sl" "\<And>q. t \<notin> set (wl q)" using assms(3) by (auto simp: queued_def)
  show ?thesis
  proof (cases "rq = []")
    case True
    then show ?thesis using Q n assms(2) unfolding queues_def by (auto simp: enqueue_view)
  next
    case False
    then have l: "last rq \<in> set rq" "run_queue_tail s = last rq" using Q by simp_all
    then have "last rq \<noteq> 0" using Q chain_zero by metis
    moreover have "last rq \<notin> set sl" "\<And>q. last rq \<notin> set (wl q)" using Q l(1) by blast+
    moreover have "chain ((qn s)(t := 0, last rq := t)) (run_queue_head s) (rq @ [t])"
      using chain_snoc Q False assms(2) n(1) by metis
    ultimately show ?thesis using Q n assms(2) l False unfolding queues_def by (auto simp: enqueue_view)
  qed
qed

lemma dequeue_empty: "queues s [] sl wl \<Longrightarrow> dequeue s = (0, s)"
  by (simp add: queues_def dequeue_def)

lemma dequeue_queues:
  assumes "queues s (t # rq) sl wl"
  obtains s' where "dequeue s = (t, s')" "queues s' rq sl wl" "st s' = st s" "kept s s'"
proof -
  note Q = assms [unfolded queues_def]
  have h: "run_queue_head s = t" "t \<noteq> 0" "chain (qn s) (qn s t) rq" using Q by auto
  have d: "t \<notin> set rq" using Q chain_distinct [of "qn s" _ "t # rq"] by auto
  define s' where "s' = snd (dequeue s)"
  have s': "dequeue s = (t, s')" using h by (simp add: dequeue_def s'_def Let_def)
  have v: "qn s' = (qn s)(t := 0)" "st s' = st s" "kept s s'" "run_queue_head s' = qn s t"
    "run_queue_tail s' = (if qn s t = 0 then 0 else run_queue_tail s)" "sleepers s' = sleepers s"
    "wait_heads s' = wait_heads s"
    using h by (auto simp: s'_def dequeue_def set_thread_def view_defs kept_def Let_def fun_eq_iff)
  have "qn s t = 0 \<longleftrightarrow> rq = []" using h(3) by (cases rq) auto
  then have "queues s' rq sl wl" using Q d h(3) unfolding queues_def by (auto simp: v)
  then show thesis using that s' v(2,3) by blast
qed

text \<open>
  Waking the sleepers: those whose time has come go to the end of the run queue in the order of
  the list, the others are collected in reverse. \<open>rem\<close> is what has been collected so far.
\<close>

lemma wake_expired_loop_spec:
  assumes "queues s rq sl wl" and "chain (qn s) remaining rem" and "set rem \<inter> queued rq sl wl = {}"
  shows "\<exists>s'. wake_expired_loop now remaining s = Some s' \<and>
    queues s' (rq @ filter (\<lambda>t. wk s t \<le> now) sl) (rev (filter (\<lambda>t. \<not> wk s t \<le> now) sl) @ rem) wl \<and>
    st s' = (\<lambda>t. if t \<in> set sl \<and> wk s t \<le> now then Ready else st s t) \<and> kept s s'"
  using assms
proof (induction sl arbitrary: s rq remaining rem)
  case Nil
  then have "sleepers s = 0" by (simp add: queues_def)
  then have "wake_expired_loop now remaining s = Some (s\<lparr>sleepers := remaining\<rparr>)"
    by (simp add: wake_expired_loop.simps)
  moreover have "queues (s\<lparr>sleepers := remaining\<rparr>) rq rem wl"
    using Nil by (auto simp: queues_def queued_def)
  moreover have "st (s\<lparr>sleepers := remaining\<rparr>) = st s" "kept s (s\<lparr>sleepers := remaining\<rparr>)"
    by (auto simp: view_defs kept_def fun_eq_iff)
  ultimately show ?case by auto
next
  case (Cons t sl)
  note Q = Cons.prems(1) [unfolded queues_def]
  let ?s1 = "s\<lparr>sleepers := t_qnext (thr s t)\<rparr>"
  have h: "sleepers s = t" "t \<noteq> 0" "chain (qn s) (qn s t) sl" "t \<notin> set sl"
    using Q chain_distinct [of "qn s" _ "t # sl"] by auto
  have t: "t \<notin> set rq" "\<And>q. t \<notin> set (wl q)" using Q by auto
  have q1: "queues ?s1 rq sl wl" using Q h(3) unfolding queues_def by (auto simp: qn_def [symmetric])
  have v1: "qn ?s1 = qn s" "st ?s1 = st s" "wk ?s1 = wk s" "kept s ?s1"
    by (auto simp: view_defs kept_def fun_eq_iff)
  have tr: "t \<notin> set rem" using Cons.prems(3) by (auto simp: queued_def)
  have tq: "t \<notin> queued rq sl wl" using t h(4) by (auto simp: queued_def)
  show ?case
  proof (cases "wk s t \<le> now")
    case True
    have step: "wake_expired_loop now remaining s = wake_expired_loop now remaining (enqueue t ?s1)"
      using True h(1,2) by (subst wake_expired_loop.simps) (simp add: wk_def Let_def)
    have q2: "queues (enqueue t ?s1) (rq @ [t]) sl wl" by (rule enqueue_queues [OF q1 h(2) tq])
    have "run_queue_tail ?s1 \<notin> set rem"
    proof
      assume "run_queue_tail ?s1 \<in> set rem"
      then show False using Cons.prems(3) Q chain_zero [OF Cons.prems(2)]
        by (cases "rq = []") (auto simp: queued_def)
    qed
    then have c2: "chain (qn (enqueue t ?s1)) remaining rem"
      using Cons.prems(2) tr by (simp add: enqueue_view v1)
    have "set rem \<inter> queued (rq @ [t]) sl wl = {}" using Cons.prems(3) tr by (auto simp: queued_def)
    from Cons.IH [OF q2 c2 this]
    obtain s' where s': "wake_expired_loop now remaining (enqueue t ?s1) = Some s'"
      "queues s' ((rq @ [t]) @ filter (\<lambda>u. wk (enqueue t ?s1) u \<le> now) sl)
         (rev (filter (\<lambda>u. \<not> wk (enqueue t ?s1) u \<le> now) sl) @ rem) wl"
      "st s' = (\<lambda>u. if u \<in> set sl \<and> wk (enqueue t ?s1) u \<le> now then Ready else st (enqueue t ?s1) u)"
      "kept (enqueue t ?s1) s'" by blast
    have w: "wk (enqueue t ?s1) = wk s" using enqueue_view(3) [of ?s1 t] v1(3) by (simp add: kept_def)
    show ?thesis
      using s' step True w v1(2) kept_trans [OF v1(4) kept_trans [OF enqueue_view(3) s'(4)]]
      by (auto simp: enqueue_view fun_eq_iff)
  next
    case False
    let ?s2 = "set_thread t (\<lambda>x. x\<lparr>t_qnext := remaining\<rparr>) ?s1"
    have step: "wake_expired_loop now remaining s = wake_expired_loop now t ?s2"
      using False h(1,2) by (subst wake_expired_loop.simps) (simp add: wk_def Let_def)
    have v2: "qn ?s2 = (qn s)(t := remaining)" "st ?s2 = st s" "wk ?s2 = wk s" "kept s ?s2"
      "run_queue_head ?s2 = run_queue_head s" "run_queue_tail ?s2 = run_queue_tail s" "sleepers ?s2 = qn s t"
      "wait_heads ?s2 = wait_heads s"
      by (auto simp: view_defs kept_def set_thread_def fun_eq_iff)
    have q2: "queues ?s2 rq sl wl" using Q h t unfolding queues_def v2 by auto
    have c2: "chain (qn ?s2) t (t # rem)" using Cons.prems(2) h(2) tr by (simp add: v2)
    have "set (t # rem) \<inter> queued rq sl wl = {}" using Cons.prems(3) tq by (auto simp: queued_def)
    from Cons.IH [OF q2 c2 this]
    obtain s' where s': "wake_expired_loop now t ?s2 = Some s'"
      "queues s' (rq @ filter (\<lambda>u. wk ?s2 u \<le> now) sl) (rev (filter (\<lambda>u. \<not> wk ?s2 u \<le> now) sl) @ t # rem) wl"
      "st s' = (\<lambda>u. if u \<in> set sl \<and> wk ?s2 u \<le> now then Ready else st ?s2 u)" "kept ?s2 s'" by blast
    show ?thesis
      using s' step False v2(2,3) kept_trans [OF v2(4) s'(4)] by (auto simp: fun_eq_iff)
  qed
qed

lemma wake_expired_spec:
  assumes "queues s rq sl wl"
  obtains s' where "wake_expired_sleepers now s = Some s'"
    "queues s' (rq @ filter (\<lambda>t. wk s t \<le> now) sl) (rev (filter (\<lambda>t. \<not> wk s t \<le> now) sl)) wl"
    "st s' = (\<lambda>t. if t \<in> set sl \<and> wk s t \<le> now then Ready else st s t)" "kept s s'"
  using wake_expired_loop_spec [OF assms, of 0 "[]" now] that unfolding wake_expired_sleepers_def by auto

end
