(* ===== verification/Sched_Inv.thy ===== *)
theory Sched_Inv
  imports Sched_Queues
begin

text \<open>
  The invariant of the scheduler: every live thread is in exactly one place (the run queue, the
  sleepers, one wait queue, or running on one processor), the processors run different threads,
  and the idle threads are in no queue. Every operation keeps it.
\<close>

section \<open>Removing from the middle\<close>

lemma chain_remove:
  assumes "chain nx a (xs @ t # ys)" "xs \<noteq> []"
  shows "chain (nx(last xs := nx t)) a (xs @ ys)"
  using assms
proof (induction xs arbitrary: a)
  case (Cons x xs)
  have d: "distinct (x # xs @ t # ys)" using chain_distinct [OF Cons.prems(1)] by simp
  show ?case
  proof (cases xs)
    case Nil
    have "chain nx (nx t) ys" using Cons.prems Nil by simp
    then have "chain (nx(x := nx t)) (nx t) ys" using d by (subst chain_upd) auto
    then show ?thesis using Cons.prems Nil by (simp del: fun_upd_apply add: fun_upd_same)
  next
    case (Cons y zs)
    have "chain nx (nx x) (xs @ t # ys)" using Cons.prems by simp
    moreover have "xs \<noteq> []" using Cons by simp
    ultimately have "chain (nx(last xs := nx t)) (nx x) (xs @ ys)" by (rule Cons.IH)
    moreover have "last (x # xs) = last xs" "x \<noteq> last xs" using d Cons by auto
    moreover have "(nx(last xs := nx t)) x = nx x" using calculation(3) by auto
    ultimately show ?thesis using Cons.prems by (simp del: fun_upd_apply)
  qed
qed simp

lemma detach_loop_found:
  assumes "chain (qn s) (read_link l s) (xs @ t # ys)"
  shows "detach_loop t l s = Some (write_link (if xs = [] then l else NextOf (last xs)) (qn s t) s)"
  using assms
proof (induction xs arbitrary: l)
  case Nil
  then show ?case by (subst detach_loop.simps) (auto simp: qn_def)
next
  case (Cons x xs)
  then have x: "read_link l s = x" "x \<noteq> 0" "x \<noteq> t" "chain (qn s) (qn s x) (xs @ t # ys)"
    using chain_distinct [OF Cons.prems] by auto
  have "detach_loop t l s = detach_loop t (NextOf x) s"
    using x(1-3) by (subst detach_loop.simps) simp
  moreover have "read_link (NextOf x) s = qn s x" by (simp add: read_link_def qn_def)
  ultimately show ?case using Cons.IH [of "NextOf x"] x(4) by simp
qed

lemma detach_loop_absent:
  assumes "chain (qn s) (read_link l s) xs" "t \<notin> set xs"
  shows "detach_loop t l s = Some s"
  using assms
proof (induction xs arbitrary: l)
  case Nil
  then show ?case by (subst detach_loop.simps) simp
next
  case (Cons x xs)
  then have "detach_loop t l s = detach_loop t (NextOf x) s" by (subst detach_loop.simps) auto
  moreover have "read_link (NextOf x) s = qn s x" by (simp add: read_link_def qn_def)
  ultimately show ?case using Cons by simp
qed

lemma detach_queues:
  assumes q: "queues s rq (xs @ t # ys) wl"
  obtains s' where "detach_from_sleepers t s = Some s'" "queues s' rq (xs @ ys) wl" "st s' = st s" "kept s s'"
proof -
  note Q = q [unfolded queues_def]
  have r: "read_link Head s = sleepers s" by (simp add: read_link_def)
  define s' where "s' = write_link (if xs = [] then Head else NextOf (last xs)) (qn s t) s"
  have d: "detach_from_sleepers t s = Some s'"
    unfolding detach_from_sleepers_def s'_def using Q r by (intro detach_loop_found [where ys = ys]) simp
  have "queues s' rq (xs @ ys) wl \<and> st s' = st s \<and> kept s s'"
  proof (cases "xs = []")
    case True
    then have "s' = s\<lparr>sleepers := qn s t\<rparr>" by (simp add: s'_def write_link_def)
    then show ?thesis using Q True unfolding queues_def by (auto simp: kept_def view_defs)
  next
    case False
    have s': "s' = set_thread (last xs) (\<lambda>x. x\<lparr>t_qnext := qn s t\<rparr>) s"
      using False by (simp add: s'_def write_link_def)
    have v: "qn s' = (qn s)(last xs := qn s t)" "st s' = st s" "kept s s'" "run_queue_head s' = run_queue_head s"
      "run_queue_tail s' = run_queue_tail s" "sleepers s' = sleepers s" "wait_heads s' = wait_heads s"
      by (auto simp: s' set_thread_def view_defs kept_def fun_eq_iff)
    have "last xs \<in> set xs" using False by simp
    then have "last xs \<notin> set rq" "\<And>q. last xs \<notin> set (wl q)" using Q by auto
    moreover have "chain (qn s') (sleepers s) (xs @ ys)" using chain_remove Q False v(1) by metis
    ultimately show ?thesis using Q v(2,3) unfolding queues_def v by auto
  qed
  then show thesis using that d by blast
qed

section \<open>The switch\<close>

lemma context_switch_view:
  "qn (context_switch c p sp s) = qn s" "ln (context_switch c p sp s) = ln s" "st (context_switch c p sp s) = st s"
  "on_cpu (context_switch c p sp s) = on_cpu s" "wk (context_switch c p sp s) = wk s"
  "cur (context_switch c p sp s) = cur s" "idl (context_switch c p sp s) = idl s"
  "run_queue_head (context_switch c p sp s) = run_queue_head s" "run_queue_tail (context_switch c p sp s) = run_queue_tail s"
  "sleepers (context_switch c p sp s) = sleepers s" "wait_heads (context_switch c p sp s) = wait_heads s"
  "all_threads (context_switch c p sp s) = all_threads s" "threads_alive (context_switch c p sp s) = threads_alive s"
  "running (context_switch c p sp s) = running s"
  by (auto simp: context_switch_def set_thread_def set_percpu_def view_defs fun_eq_iff split: prod.splits)

lemma set_current_view:
  "qn (set_current c t s) = qn s" "ln (set_current c t s) = ln s" "st (set_current c t s) = (st s)(t := Running)"
  "on_cpu (set_current c t s) = (on_cpu s)(t := c)" "wk (set_current c t s) = wk s"
  "cur (set_current c t s) = (cur s)(c := t)" "idl (set_current c t s) = idl s"
  "run_queue_head (set_current c t s) = run_queue_head s" "run_queue_tail (set_current c t s) = run_queue_tail s"
  "sleepers (set_current c t s) = sleepers s" "wait_heads (set_current c t s) = wait_heads s"
  "all_threads (set_current c t s) = all_threads s" "threads_alive (set_current c t s) = threads_alive s"
  "running (set_current c t s) = running s"
  by (auto simp: set_current_def set_thread_def set_percpu_def view_defs fun_eq_iff)

lemma set_percpu_view:
  assumes "\<And>p. c_current (f p) = c_current p" "\<And>p. c_idle (f p) = c_idle p"
  shows "qn (set_percpu c f s) = qn s" "ln (set_percpu c f s) = ln s" "st (set_percpu c f s) = st s"
  "on_cpu (set_percpu c f s) = on_cpu s" "wk (set_percpu c f s) = wk s"
  "cur (set_percpu c f s) = cur s" "idl (set_percpu c f s) = idl s"
  "run_queue_head (set_percpu c f s) = run_queue_head s" "run_queue_tail (set_percpu c f s) = run_queue_tail s"
  "sleepers (set_percpu c f s) = sleepers s" "wait_heads (set_percpu c f s) = wait_heads s"
  "all_threads (set_percpu c f s) = all_threads s" "threads_alive (set_percpu c f s) = threads_alive s"
  "running (set_percpu c f s) = running s"
  using assms by (auto simp: set_percpu_def view_defs fun_eq_iff)

lemma switch_to_view:
  "qn (switch_to k c t s) = qn s" "ln (switch_to k c t s) = ln s" "st (switch_to k c t s) = (st s)(t := Running)"
  "on_cpu (switch_to k c t s) = (on_cpu s)(t := c)" "wk (switch_to k c t s) = wk s"
  "cur (switch_to k c t s) = (cur s)(c := t)" "idl (switch_to k c t s) = idl s"
  "run_queue_head (switch_to k c t s) = run_queue_head s" "run_queue_tail (switch_to k c t s) = run_queue_tail s"
  "sleepers (switch_to k c t s) = sleepers s" "wait_heads (switch_to k c t s) = wait_heads s"
  "all_threads (switch_to k c t s) = all_threads s" "threads_alive (switch_to k c t s) = threads_alive s"
  "running (switch_to k c t s) = running s"
  by (simp_all add: switch_to_def Let_def context_switch_view set_current_view tss_set_kernel_stack_def set_percpu_view)

section \<open>The invariant\<close>

text \<open>
  \<open>placed P s rq sl wl t\<close> says where a thread is, \<open>P\<close> being the processors that run something.
\<close>

definition placed :: "u32 set \<Rightarrow> sched \<Rightarrow> u64 list \<Rightarrow> u64 list \<Rightarrow> (u64 \<Rightarrow> u64 list) \<Rightarrow> u64 \<Rightarrow> bool" where
  "placed P s rq sl wl t \<longleftrightarrow> (case st s t of
       Ready \<Rightarrow> t \<in> set rq | Sleeping \<Rightarrow> t \<in> set sl | Blocked \<Rightarrow> (\<exists>q. t \<in> set (wl q))
     | Running \<Rightarrow> (\<exists>c \<in> P. cur s c = t) | Dead \<Rightarrow> True)"

text \<open>
  \<open>sched_inv C P\<close>: \<open>C\<close> are the processors that are up, \<open>P\<close> those whose current thread is
  settled; inside an operation the calling processor is not.
\<close>

definition sched_inv :: "u32 set \<Rightarrow> u32 set \<Rightarrow> sched \<Rightarrow> u64 list \<Rightarrow> u64 list \<Rightarrow> (u64 \<Rightarrow> u64 list) \<Rightarrow> u64 list \<Rightarrow> bool" where
  "sched_inv C P s rq sl wl al \<longleftrightarrow> queues s rq sl wl \<and> chain (ln s) (all_threads s) al \<and>
     (\<forall>t \<in> set rq. st s t = Ready) \<and> (\<forall>t \<in> set sl. st s t = Sleeping) \<and> (\<forall>q. \<forall>t \<in> set (wl q). st s t = Blocked) \<and>
     queued rq sl wl \<subseteq> set al \<and> (\<forall>t \<in> set al. placed P s rq sl wl t) \<and>
     (\<forall>c \<in> C. idl s c \<noteq> 0 \<and> idl s c \<notin> set al \<and> st s (idl s c) = Running \<and> on_cpu s (idl s c) = c) \<and>
     (\<forall>c \<in> P. (cur s c = idl s c \<or> cur s c \<in> set al) \<and> st s (cur s c) = Running \<and> on_cpu s (cur s c) = c) \<and>
     unat (threads_alive s) = length (filter (\<lambda>t. st s t \<noteq> Dead) al)"

lemma sched_invD:
  assumes "sched_inv C P s rq sl wl al"
  shows "queues s rq sl wl" "chain (ln s) (all_threads s) al" "t \<in> set rq \<Longrightarrow> st s t = Ready"
    "t \<in> set sl \<Longrightarrow> st s t = Sleeping" "t \<in> set (wl q) \<Longrightarrow> st s t = Blocked" "queued rq sl wl \<subseteq> set al"
    "t \<in> set al \<Longrightarrow> placed P s rq sl wl t"
    "c \<in> C \<Longrightarrow> idl s c \<noteq> 0 \<and> idl s c \<notin> set al \<and> st s (idl s c) = Running \<and> on_cpu s (idl s c) = c"
    "c \<in> P \<Longrightarrow> (cur s c = idl s c \<or> cur s c \<in> set al) \<and> st s (cur s c) = Running \<and> on_cpu s (cur s c) = c"
    "unat (threads_alive s) = length (filter (\<lambda>t. st s t \<noteq> Dead) al)"
  using assms unfolding sched_inv_def by blast+

lemma queues_frame:
  assumes "qn s' = qn s" "run_queue_head s' = run_queue_head s" "run_queue_tail s' = run_queue_tail s"
    "sleepers s' = sleepers s" "wait_heads s' = wait_heads s"
  shows "queues s' rq sl wl \<longleftrightarrow> queues s rq sl wl"
  by (simp add: queues_def assms)

lemma sched_invI:
  assumes "queues s rq sl wl" "chain (ln s) (all_threads s) al" "\<And>t. t \<in> set rq \<Longrightarrow> st s t = Ready"
    "\<And>t. t \<in> set sl \<Longrightarrow> st s t = Sleeping" "\<And>t q. t \<in> set (wl q) \<Longrightarrow> st s t = Blocked" "queued rq sl wl \<subseteq> set al"
    "\<And>t. t \<in> set al \<Longrightarrow> placed P s rq sl wl t"
    "\<And>c. c \<in> C \<Longrightarrow> idl s c \<noteq> 0 \<and> idl s c \<notin> set al \<and> st s (idl s c) = Running \<and> on_cpu s (idl s c) = c"
    "\<And>c. c \<in> P \<Longrightarrow> (cur s c = idl s c \<or> cur s c \<in> set al) \<and> st s (cur s c) = Running \<and> on_cpu s (cur s c) = c"
    "unat (threads_alive s) = length (filter (\<lambda>t. st s t \<noteq> Dead) al)"
  shows "sched_inv C P s rq sl wl al"
  using assms unfolding sched_inv_def by blast

text \<open>The second half of every operation that gives up the processor: run \<open>t\<close>, which is in no queue.\<close>

lemma switch_to_inv:
  assumes inv: "sched_inv C (C - {c}) s rq sl wl al" and c: "c \<in> C"
    and q: "queues s' rq' sl wl" and rq: "set rq = set rq' \<union> (set al \<inter> {t})" and t: "t \<notin> set rq'" "t = idl s c \<or> t \<in> set rq"
    and k: "st s' = st s" "kept s s'"
  shows "sched_inv C C (switch_to kr c t s') rq' sl wl al"
proof (rule sched_invI)
  note I = sched_invD [OF inv]
  have v: "ln s' = ln s" "on_cpu s' = on_cpu s" "cur s' = cur s" "idl s' = idl s" "all_threads s' = all_threads s"
    "threads_alive s' = threads_alive s"
    using k(2) by (auto simp: kept_def cur_def idl_def fun_eq_iff)
  have tst: "st s t = Ready \<or> t = idl s c \<and> t \<notin> set al" using t(2) I(3,8) c by blast
  have al: "set sl \<subseteq> set al" "\<And>q. set (wl q) \<subseteq> set al" "set rq \<subseteq> set al" using I(6) unfolding queued_def by blast+
  have nsl: "t \<notin> set sl" and nwl: "\<And>q. t \<notin> set (wl q)" using tst al I(4,5) by fastforce+
  show "queues (switch_to kr c t s') rq' sl wl" using q queues_frame [of "switch_to kr c t s'" s'] by (simp add: switch_to_view)
  show "chain (ln (switch_to kr c t s')) (all_threads (switch_to kr c t s')) al"
    using I(2) v by (simp add: switch_to_view)
  show "st (switch_to kr c t s') u = Ready" if "u \<in> set rq'" for u
    using that I(3) rq t(1) k(1) by (auto simp: switch_to_view)
  show "st (switch_to kr c t s') u = Sleeping" if "u \<in> set sl" for u
    using that I(4) nsl k(1) by (auto simp: switch_to_view)
  show "st (switch_to kr c t s') u = Blocked" if "u \<in> set (wl p)" for u p
    using that I(5) nwl k(1) by (auto simp: switch_to_view)
  show "queued rq' sl wl \<subseteq> set al" using I(6) rq by (auto simp: queued_def)
  show "placed C (switch_to kr c t s') rq' sl wl u" if "u \<in> set al" for u
    using I(7) [OF that] rq that c k(1) v(3)
    by (cases "u = t") (auto simp: placed_def switch_to_view split: ThreadState.splits)
  show "idl (switch_to kr c t s') d \<noteq> 0 \<and> idl (switch_to kr c t s') d \<notin> set al \<and>
      st (switch_to kr c t s') (idl (switch_to kr c t s') d) = Running \<and>
      on_cpu (switch_to kr c t s') (idl (switch_to kr c t s') d) = d" if "d \<in> C" for d
  proof -
    have "idl s d = t \<Longrightarrow> d = c" using I(8) [OF that] I(8) [OF c] t(2) al(3) by (metis subsetD)
    then have "((on_cpu s)(t := c)) (idl s d) = d" using I(8) [OF that] by simp
    moreover have "((st s)(t := Running)) (idl s d) = Running" using I(8) [OF that] by simp
    ultimately show ?thesis using I(8) [OF that] unfolding switch_to_view k(1) v by blast
  qed
  show "(cur (switch_to kr c t s') d = idl (switch_to kr c t s') d \<or> cur (switch_to kr c t s') d \<in> set al) \<and>
      st (switch_to kr c t s') (cur (switch_to kr c t s') d) = Running \<and>
      on_cpu (switch_to kr c t s') (cur (switch_to kr c t s') d) = d" if d: "d \<in> C" for d
  proof (cases "d = c")
    case True
    moreover have "t = idl s c \<or> t \<in> set al" using t(2) al(3) by blast
    ultimately show ?thesis unfolding switch_to_view k(1) v by simp
  next
    case False
    then have D: "d \<in> C - {c}" using d by simp
    have "cur s d \<noteq> t" using I(9) [OF D] tst I(8) [OF c] False by (metis ThreadState.distinct(1))
    then have "((cur s)(c := t)) d = cur s d" "((st s)(t := Running)) (cur s d) = st s (cur s d)"
      "((on_cpu s)(t := c)) (cur s d) = on_cpu s (cur s d)" using False by simp_all
    then show ?thesis using I(9) [OF D] unfolding switch_to_view k(1) v by metis
  qed
  have "filter (\<lambda>u. st (switch_to kr c t s') u \<noteq> Dead) al = filter (\<lambda>u. st s u \<noteq> Dead) al"
    using tst k(1) by (intro filter_cong) (auto simp: switch_to_view)
  then show "unat (threads_alive (switch_to kr c t s')) = length (filter (\<lambda>u. st (switch_to kr c t s') u \<noteq> Dead) al)"
    using I(10) v by (simp add: switch_to_view)
qed

lemma switch_next:
  assumes inv: "sched_inv C (C - {c}) s rq sl wl al" and c: "c \<in> C"
    and n: "next_or_idle c s = (nxt, s2)"
  shows "sched_inv C C (switch_to k c nxt s2) (tl rq) sl wl al" "nxt = (if rq = [] then idl s c else hd rq)"
proof -
  note I = sched_invD [OF inv]
  have "sched_inv C C (switch_to k c nxt s2) (tl rq) sl wl al \<and> nxt = (if rq = [] then idl s c else hd rq)"
  proof (cases rq)
    case Nil
    then have s2: "s2 = s" "nxt = idl s c"
      using n dequeue_empty [of s sl wl] I(1) by (auto simp: next_or_idle_def idl_def)
    have "idl s c \<notin> set al" using I(8) [OF c] by blast
    then show ?thesis using switch_to_inv [OF inv c, of s "[]" "idl s c"] I(1) Nil s2 by simp
  next
    case (Cons t rest)
    then have Q: "queues s (t # rest) sl wl" using I(1) by simp
    obtain s' where s': "dequeue s = (t, s')" "queues s' rest sl wl" "st s' = st s" "kept s s'"
      using dequeue_queues [OF Q] by blast
    have "t \<noteq> 0" "t \<notin> set rest" using Q chain_distinct [of "qn s" _ "t # rest"] by (auto simp: queues_def)
    moreover from this have "s2 = s'" "nxt = t" using n s'(1) by (auto simp: next_or_idle_def)
    moreover have "t \<in> set al" using I(6) Cons by (auto simp: queued_def)
    ultimately show ?thesis using switch_to_inv [OF inv c s'(2), of t] s'(3,4) Cons by simp
  qed
  then show "sched_inv C C (switch_to k c nxt s2) (tl rq) sl wl al" "nxt = (if rq = [] then idl s c else hd rq)" by blast+
qed

section \<open>Moving threads\<close>

text \<open>The threads of \<open>W\<close>, which wait or sleep, become ready.\<close>

lemma moved_inv:
  assumes inv: "sched_inv C P s rq sl wl al" and q: "queues s' rq' sl' wl'"
    and W: "W \<subseteq> queued rq sl wl" and st: "st s' = (\<lambda>t. if t \<in> W then Ready else st s t)" and k: "kept s s'"
    and sets: "set rq' = set rq \<union> W" "set sl' = set sl - W" "\<And>q. set (wl' q) = set (wl q) - W"
  shows "sched_inv C P s' rq' sl' wl' al"
proof -
  note I = sched_invD [OF inv]
  have v: "ln s' = ln s" "on_cpu s' = on_cpu s" "cur s' = cur s" "idl s' = idl s" "all_threads s' = all_threads s"
    "threads_alive s' = threads_alive s"
    using k by (auto simp: kept_def cur_def idl_def fun_eq_iff)
  have Wst: "st s t \<noteq> Running \<and> st s t \<noteq> Dead" if "t \<in> W" for t
    using W I(3-5) that unfolding queued_def by fastforce
  have Wal: "W \<subseteq> set al" using W I(6) by blast
  show ?thesis
  proof (rule sched_invI [OF q], unfold v)
    show "chain (ln s) (all_threads s) al" by (rule I(2))
    show "st s' t = Ready" if "t \<in> set rq'" for t using that I(3) sets(1) st by auto
    show "st s' t = Sleeping" if "t \<in> set sl'" for t using that I(4) sets(2) st by auto
    show "st s' t = Blocked" if "t \<in> set (wl' r)" for t r using that I(5) sets(3) st by auto
    show "queued rq' sl' wl' \<subseteq> set al" using I(6) Wal sets unfolding queued_def by auto
    show "placed P s' rq' sl' wl' t" if "t \<in> set al" for t
      using I(7) [OF that] sets st v(3) by (auto simp: placed_def split: ThreadState.splits)
    show "idl s c \<noteq> 0 \<and> idl s c \<notin> set al \<and> st s' (idl s c) = Running \<and> on_cpu s (idl s c) = c" if "c \<in> C" for c
      using I(8) [OF that] Wal st by auto
    show "(cur s c = idl s c \<or> cur s c \<in> set al) \<and> st s' (cur s c) = Running \<and> on_cpu s (cur s c) = c" if "c \<in> P" for c
      using I(9) [OF that] Wst st by auto
    have "filter (\<lambda>t. st s' t \<noteq> Dead) al = filter (\<lambda>t. st s t \<noteq> Dead) al"
      using Wst st by (intro filter_cong) auto
    then show "unat (threads_alive s) = length (filter (\<lambda>t. st s' t \<noteq> Dead) al)" using I(10) by simp
  qed
qed

text \<open>The current thread of processor \<open>c\<close> gives up the processor.\<close>

lemma put_away_inv:
  assumes inv: "sched_inv C C s rq sl wl al" and c: "c \<in> C" and al: "cur s c \<in> set al"
    and q: "queues s' rq' sl' wl'" and st: "st s' = (st s)(cur s c := X)" "X \<noteq> Running"
    and v: "ln s' = ln s" "on_cpu s' = on_cpu s" "cur s' = cur s" "idl s' = idl s" "all_threads s' = all_threads s"
    and alive: "unat (threads_alive s') = length (filter (\<lambda>t. ((st s)(cur s c := X)) t \<noteq> Dead) al)"
    and sets: "set rq' = set rq \<union> (if X = Ready then {cur s c} else {})"
      "set sl' = set sl \<union> (if X = Sleeping then {cur s c} else {})"
      "\<And>r. set (wl' r) = set (wl r) \<union> (if X = Blocked \<and> r = b then {cur s c} else {})"
  shows "sched_inv C (C - {c}) s' rq' sl' wl' al"
proof -
  note I = sched_invD [OF inv]
  have run: "st s (cur s c) = Running" "on_cpu s (cur s c) = c" using I(9) [OF c] by blast+
  then have nq: "cur s c \<notin> set rq" "cur s c \<notin> set sl" "\<And>r. cur s c \<notin> set (wl r)" using I(3-5) by force+
  show ?thesis
  proof (rule sched_invI [OF q], unfold v)
    show "chain (ln s) (all_threads s) al" by (rule I(2))
    show "st s' t = Ready" if "t \<in> set rq'" for t using that I(3) sets(1) st nq by (auto split: if_splits)
    show "st s' t = Sleeping" if "t \<in> set sl'" for t using that I(4) sets(2) st nq by (auto split: if_splits)
    show "st s' t = Blocked" if "t \<in> set (wl' r)" for t r using that I(5) sets(3) st nq by (auto split: if_splits)
    show "queued rq' sl' wl' \<subseteq> set al" using I(6) al sets unfolding queued_def by (auto split: if_splits)
    show "placed (C - {c}) s' rq' sl' wl' t" if "t \<in> set al" for t
    proof (cases "t = cur s c")
      case True
      then show ?thesis using st sets by (cases X) (auto simp: placed_def)
    next
      case False
      have "set rq \<subseteq> set rq'" "set sl \<subseteq> set sl'" "\<And>r. set (wl r) \<subseteq> set (wl' r)" using sets by auto
      then show ?thesis using I(7) [OF that] False st v(3) unfolding placed_def
        by (cases "st s t"; auto; blast)
    qed
    show "idl s d \<noteq> 0 \<and> idl s d \<notin> set al \<and> st s' (idl s d) = Running \<and> on_cpu s (idl s d) = d" if "d \<in> C" for d
      using I(8) [OF that] al st by auto
    show "(cur s d = idl s d \<or> cur s d \<in> set al) \<and> st s' (cur s d) = Running \<and> on_cpu s (cur s d) = d"
      if d: "d \<in> C - {c}" for d
    proof -
      have "cur s d \<noteq> cur s c" using I(9) [of d] d run(2) by auto
      then show ?thesis using I(9) [of d] d st by simp
    qed
    show "unat (threads_alive s') = length (filter (\<lambda>t. st s' t \<noteq> Dead) al)" using alive st by simp
  qed
qed

text \<open>An idle thread gives up the processor without going anywhere.\<close>

lemma idle_away_inv:
  assumes inv: "sched_inv C C s rq sl wl al" and c: "c \<in> C" and i: "cur s c = idl s c"
  shows "sched_inv C (C - {c}) s rq sl wl al"
proof -
  note I = sched_invD [OF inv]
  have "placed (C - {c}) s rq sl wl t" if "t \<in> set al" for t
  proof -
    have "cur s c \<noteq> t" using I(8) [OF c] i that by auto
    then show ?thesis using I(7) [OF that] by (auto simp: placed_def split: ThreadState.splits)
  qed
  then show ?thesis using inv unfolding sched_inv_def by blast
qed

section \<open>The operations keep the invariant\<close>

lemma not_idle_in_list:
  assumes "sched_inv C C s rq sl wl al" "c \<in> C" "cur s c \<noteq> idl s c"
  shows "cur s c \<in> set al" "cur s c \<noteq> 0" "cur s c \<notin> queued rq sl wl"
proof -
  note I = sched_invD [OF assms(1)]
  show a: "cur s c \<in> set al" using I(9) [OF assms(2)] assms(3) by blast
  then show "cur s c \<noteq> 0" using chain_zero [OF I(2)] by metis
  have "st s (cur s c) = Running" using I(9) [OF assms(2)] by blast
  then show "cur s c \<notin> queued rq sl wl" using I(3-5) unfolding queued_def by force
qed

lemma alive_kept:
  assumes inv: "sched_inv C C s rq sl wl al" and c: "c \<in> C" and X: "X \<noteq> Dead"
  shows "unat (threads_alive s) = length (filter (\<lambda>t. ((st s)(cur s c := X)) t \<noteq> Dead) al)"
proof -
  note I = sched_invD [OF inv]
  have "filter (\<lambda>t. ((st s)(cur s c := X)) t \<noteq> Dead) al = filter (\<lambda>t. st s t \<noteq> Dead) al"
    using I(9) [OF c] X by (intro filter_cong) auto
  then show ?thesis using I(10) by simp
qed

lemma park_inv:
  assumes inv: "sched_inv C C s rq sl wl al" and c: "c \<in> C" and n: "cur s c \<noteq> idl s c"
  shows "sched_inv C (C - {c}) (park_sleeper_at (cur s c) d s) rq (cur s c # sl) wl al"
proof -
  let ?t = "cur s c" and ?s = "park_sleeper_at (cur s c) d s"
  note L = not_idle_in_list [OF inv c n] and I = sched_invD [OF inv]
  have v: "qn ?s = (qn s)(?t := sleepers s)" "st ?s = (st s)(?t := Sleeping)" "ln ?s = ln s" "on_cpu ?s = on_cpu s"
    "cur ?s = cur s" "idl ?s = idl s" "all_threads ?s = all_threads s" "threads_alive ?s = threads_alive s"
    "run_queue_head ?s = run_queue_head s" "run_queue_tail ?s = run_queue_tail s" "sleepers ?s = ?t"
    "wait_heads ?s = wait_heads s"
    by (auto simp: park_sleeper_at_def set_thread_def view_defs fun_eq_iff)
  have "queues ?s rq (?t # sl) wl" using I(1) L(2,3) unfolding queues_def queued_def v by auto
  then show ?thesis
    by (rule put_away_inv [where X = Sleeping, OF inv c L(1)]) (use alive_kept [OF inv c] in \<open>simp_all add: v\<close>)
qed

lemma block_inv:
  assumes inv: "sched_inv C C s rq sl wl al" and c: "c \<in> C" and n: "cur s c \<noteq> idl s c"
  shows "sched_inv C (C - {c}) (block_on q (cur s c) s) rq sl (wl(q := cur s c # wl q)) al"
proof -
  let ?t = "cur s c" and ?s = "block_on q (cur s c) s"
  note L = not_idle_in_list [OF inv c n] and I = sched_invD [OF inv]
  have v: "qn ?s = (qn s)(?t := wait_heads s q)" "st ?s = (st s)(?t := Blocked)" "ln ?s = ln s" "on_cpu ?s = on_cpu s"
    "cur ?s = cur s" "idl ?s = idl s" "all_threads ?s = all_threads s" "threads_alive ?s = threads_alive s"
    "run_queue_head ?s = run_queue_head s" "run_queue_tail ?s = run_queue_tail s" "sleepers ?s = sleepers s"
    "wait_heads ?s = (wait_heads s)(q := ?t)"
    by (auto simp: block_on_def set_thread_def view_defs fun_eq_iff)
  have "queues ?s rq sl (wl(q := ?t # wl q))" using I(1) L(2,3) unfolding queues_def queued_def v by auto
  then show ?thesis
    by (rule put_away_inv [where X = Blocked and b = q, OF inv c L(1)]) (use alive_kept [OF inv c] in \<open>simp_all add: v\<close>)
qed

lemma dead_inv:
  assumes inv: "sched_inv C C s rq sl wl al" and c: "c \<in> C" and n: "cur s c \<noteq> idl s c"
  shows "sched_inv C (C - {c}) (mark_dead (cur s c) s) rq sl wl al"
    "unat (threads_alive (mark_dead (cur s c) s)) = unat (threads_alive s) - 1"
proof -
  let ?t = "cur s c" and ?s = "mark_dead (cur s c) s"
  note L = not_idle_in_list [OF inv c n] and I = sched_invD [OF inv]
  have v: "qn ?s = qn s" "st ?s = (st s)(?t := Dead)" "ln ?s = ln s" "on_cpu ?s = on_cpu s"
    "cur ?s = cur s" "idl ?s = idl s" "all_threads ?s = all_threads s" "threads_alive ?s = threads_alive s - 1"
    "run_queue_head ?s = run_queue_head s" "run_queue_tail ?s = run_queue_tail s" "sleepers ?s = sleepers s"
    "wait_heads ?s = wait_heads s"
    by (auto simp: mark_dead_def set_thread_def view_defs fun_eq_iff)
  have "st s ?t \<noteq> Dead" using I(9) [OF c] by simp
  moreover have "distinct al" using chain_distinct [OF I(2)] .
  ultimately have len: "length (filter (\<lambda>t. st s t \<noteq> Dead) al) = Suc (length (filter (\<lambda>t. ((st s)(?t := Dead)) t \<noteq> Dead) al))"
    using L(1)
  proof (induction al)
    case (Cons a al)
    show ?case
    proof (cases "a = ?t")
      case True
      then have "?t \<notin> set al" using Cons.prems by simp
      then have "filter (\<lambda>t. ((st s)(?t := Dead)) t \<noteq> Dead) al = filter (\<lambda>t. st s t \<noteq> Dead) al"
        by (intro filter_cong) auto
      then show ?thesis using True Cons.prems by simp
    qed (use Cons in auto)
  qed simp
  then have "1 \<le> threads_alive s" using I(10) by (simp add: word_le_nat_alt)
  then show a: "unat (threads_alive ?s) = unat (threads_alive s) - 1" by (simp add: v unat_sub)
  have "queues ?s rq sl wl" using I(1) by (simp add: queues_def v)
  then show "sched_inv C (C - {c}) ?s rq sl wl al"
    by (rule put_away_inv [where X = Dead, OF inv c L(1)]) (use a len I(10) in \<open>simp_all add: v\<close>)
qed

lemma wake_expired_inv:
  assumes inv: "sched_inv C P s rq sl wl al"
  obtains s' where "wake_expired_sleepers now s = Some s'"
    "sched_inv C P s' (rq @ filter (\<lambda>t. wk s t \<le> now) sl) (rev (filter (\<lambda>t. \<not> wk s t \<le> now) sl)) wl al" "kept s s'"
proof -
  note I = sched_invD [OF inv]
  obtain s' where s': "wake_expired_sleepers now s = Some s'"
    "queues s' (rq @ filter (\<lambda>t. wk s t \<le> now) sl) (rev (filter (\<lambda>t. \<not> wk s t \<le> now) sl)) wl"
    "st s' = (\<lambda>t. if t \<in> set sl \<and> wk s t \<le> now then Ready else st s t)" "kept s s'"
    using wake_expired_spec [OF I(1)] by blast
  let ?W = "{t \<in> set sl. wk s t \<le> now}"
  have d: "set (wl q) = set (wl q) - ?W" for q using I(1) unfolding queues_def by blast
  have "sched_inv C P s' (rq @ filter (\<lambda>t. wk s t \<le> now) sl) (rev (filter (\<lambda>t. \<not> wk s t \<le> now) sl)) wl al"
    by (rule moved_inv [where W = ?W, OF inv s'(2) _ _ s'(4)]) (use s'(3) d in \<open>auto simp: queued_def\<close>)
  then show thesis using that s'(1,4) by blast
qed

lemma ready_inv:
  assumes inv: "sched_inv C C s rq sl wl al" and c: "c \<in> C" and n: "cur s c \<noteq> idl s c"
  shows "sched_inv C (C - {c}) (enqueue (cur s c) s) (rq @ [cur s c]) sl wl al"
proof -
  let ?t = "cur s c" and ?s = "enqueue (cur s c) s"
  note L = not_idle_in_list [OF inv c n] and I = sched_invD [OF inv]
  have v: "ln ?s = ln s" "on_cpu ?s = on_cpu s" "all_threads ?s = all_threads s" "threads_alive ?s = threads_alive s"
    using enqueue_view(3) [of s ?t] by (simp_all add: kept_def)
  note w = kept_cpu [OF enqueue_view(3), of ?t s]
  have "queues ?s (rq @ [?t]) sl wl" by (rule enqueue_queues [OF I(1) L(2,3)])
  then show ?thesis
    by (rule put_away_inv [where X = Ready, OF inv c L(1)])
      (use alive_kept [OF inv c] in \<open>simp_all add: v w enqueue_view(2)\<close>)
qed

lemma yield_inv:
  fixes now :: u64
  assumes inv: "sched_inv C C s rq sl wl al" and c: "c \<in> C" and r: "running s"
  defines "rq1 \<equiv> rq @ filter (\<lambda>t. wk s t \<le> now) sl"
  shows "\<exists>s'. yield k c now s = Some s' \<and>
    sched_inv C C s'
      (if rq1 = [] then [] else tl rq1 @ (if cur s c = idl s c then [] else [cur s c]))
      (rev (filter (\<lambda>t. \<not> wk s t \<le> now) sl)) wl al \<and>
    cur s' c = (if rq1 = [] then cur s c else hd rq1)"
proof -
  let ?sl = "rev (filter (\<lambda>t. \<not> wk s t \<le> now) sl)"
  obtain s1 where s1: "wake_expired_sleepers now s = Some s1" "sched_inv C C s1 rq1 ?sl wl al" "kept s s1"
    using wake_expired_inv [OF inv, of now] unfolding rq1_def by blast
  note I = sched_invD [OF s1(2)]
  have v1: "cur s1 = cur s" "idl s1 = idl s" using kept_cpu [OF s1(3)] by blast+
  show ?thesis
  proof (cases rq1)
    case Nil
    then have "dequeue s1 = (0, s1)" using dequeue_empty I(1) by simp
    then have "yield k c now s = Some s1" using r s1(1) by (simp add: yield_def)
    then show ?thesis using s1(2) Nil v1 by auto
  next
    case (Cons t rest)
    then have Q: "queues s1 (t # rest) ?sl wl" using I(1) by simp
    obtain s2 where s2: "dequeue s1 = (t, s2)" "queues s2 rest ?sl wl" "st s2 = st s1" "kept s1 s2"
      using dequeue_queues [OF Q] by blast
    have t: "t \<noteq> 0" "t \<notin> set rest" "t \<notin> set ?sl" "\<And>q. t \<notin> set (wl q)" "t \<in> set al"
      using Q chain_distinct [of "qn s1" _ "t # rest"] I(6) Cons by (auto simp: queues_def queued_def)
    have v2: "cur s2 = cur s1" "idl s2 = idl s1" using kept_cpu [OF s2(4)] by blast+
    have e: "c_current (cpus s2 c) = cur s c" "c_idle (cpus s2 c) = idl s c"
      using v1 v2 by (metis cur_def, metis idl_def)
    show ?thesis
    proof (cases "cur s c = idl s c")
      case True
      have "yield k c now s = Some (switch_to k c t s2)"
        using r s1(1) s2(1) t(1) True e by (simp add: yield_def Let_def)
      moreover have "sched_inv C C (switch_to k c t s2) rest ?sl wl al"
        using idle_away_inv [OF s1(2) c] True v1 Cons t s2
        by (intro switch_to_inv [where s = s1 and rq = rq1, OF _ c]) auto
      ultimately show ?thesis using True Cons by (auto simp: switch_to_view)
    next
      case False
      let ?s3 = "enqueue (cur s c) s2"
      have F: "cur s1 c \<noteq> idl s1 c" using False v1 by simp
      note L = not_idle_in_list [OF s1(2) c F, unfolded v1]
      have y: "yield k c now s = Some (switch_to k c t ?s3)"
        using r s1(1) s2(1) t(1) False L(2) e by (simp add: yield_def Let_def)
      have nq: "cur s c \<notin> queued rest ?sl wl" "cur s c \<noteq> t" using L(3) Cons by (auto simp: queued_def)
      have q3: "queues ?s3 (rest @ [cur s c]) ?sl wl" by (rule enqueue_queues [OF s2(2) L(2) nq(1)])
      have k3: "kept (enqueue (cur s c) s1) ?s3"
        using enqueue_view(3) [of s1 "cur s c"] enqueue_view(3) [of s2 "cur s c"] s2(4) by (simp add: kept_def)
      have "sched_inv C C (switch_to k c t ?s3) (rest @ [cur s c]) ?sl wl al"
      proof (rule switch_to_inv [OF _ c q3 _ _ _ _ k3])
        show "sched_inv C (C - {c}) (enqueue (cur s c) s1) (rq1 @ [cur s c]) ?sl wl al"
          using ready_inv [OF s1(2) c F] v1 by simp
        show "st ?s3 = st (enqueue (cur s c) s1)" using s2(3) by (simp add: enqueue_view)
      qed (use Cons t nq in auto)
      moreover have "cur (switch_to k c t ?s3) c = t" by (simp add: switch_to_view)
      ultimately show ?thesis using y False Cons by auto
    qed
  qed
qed

lemma sleep_inv:
  assumes inv: "sched_inv C C s rq sl wl al" and c: "c \<in> C" and n: "cur s c \<noteq> idl s c" and r: "running s"
  shows "sched_inv C C (thread_sleep_ns k c now ns s) (tl rq) (cur s c # sl) wl al"
    "cur (thread_sleep_ns k c now ns s) c = (if rq = [] then idl s c else hd rq)"
proof -
  let ?s1 = "park_sleeper_at (cur s c) (now + ns) s"
  obtain nxt s2 where n2: "next_or_idle c ?s1 = (nxt, s2)" by fastforce
  have e: "thread_sleep_ns k c now ns s = switch_to k c nxt s2"
    using r n2 by (simp add: thread_sleep_ns_def cur_def)
  have "idl ?s1 = idl s" by (auto simp: park_sleeper_at_def set_thread_def idl_def fun_eq_iff)
  then show "sched_inv C C (thread_sleep_ns k c now ns s) (tl rq) (cur s c # sl) wl al"
    "cur (thread_sleep_ns k c now ns s) c = (if rq = [] then idl s c else hd rq)"
    using switch_next [OF park_inv [OF inv c n] c n2] by (simp_all add: e switch_to_view)
qed

lemma wait_inv:
  assumes inv: "sched_inv C C s rq sl wl al" and c: "c \<in> C" and n: "cur s c \<noteq> idl s c"
  shows "sched_inv C C (queue_wait k c q s) (tl rq) sl (wl(q := cur s c # wl q)) al"
    "cur (queue_wait k c q s) c = (if rq = [] then idl s c else hd rq)"
proof -
  let ?s1 = "block_on q (cur s c) s"
  obtain nxt s2 where n2: "next_or_idle c ?s1 = (nxt, s2)" by fastforce
  have e: "queue_wait k c q s = switch_to k c nxt s2" using n2 by (simp add: queue_wait_def cur_def)
  have "idl ?s1 = idl s" by (auto simp: block_on_def set_thread_def idl_def fun_eq_iff)
  then show "sched_inv C C (queue_wait k c q s) (tl rq) sl (wl(q := cur s c # wl q)) al"
    "cur (queue_wait k c q s) c = (if rq = [] then idl s c else hd rq)"
    using switch_next [OF block_inv [OF inv c n] c n2] by (simp_all add: e switch_to_view)
qed

lemma exit_inv:
  assumes inv: "sched_inv C C s rq sl wl al" and c: "c \<in> C" and n: "cur s c \<noteq> idl s c"
  shows "sched_inv C C (thread_exit k c s) (tl rq) sl wl al"
    "cur (thread_exit k c s) c = (if rq = [] then idl s c else hd rq)"
    "st (thread_exit k c s) (cur s c) = Dead"
proof -
  let ?s1 = "mark_dead (cur s c) s"
  obtain nxt s2 where n2: "next_or_idle c ?s1 = (nxt, s2)" by fastforce
  have e: "thread_exit k c s = switch_to k c nxt s2" using n2 by (simp add: thread_exit_def cur_def)
  have v: "idl ?s1 = idl s" "st ?s1 = (st s)(cur s c := Dead)"
    by (auto simp: mark_dead_def set_thread_def idl_def st_def fun_eq_iff)
  note S = switch_next [OF dead_inv(1) [OF inv c n] c n2]
  show "sched_inv C C (thread_exit k c s) (tl rq) sl wl al"
    "cur (thread_exit k c s) c = (if rq = [] then idl s c else hd rq)"
    using S v by (simp_all add: e switch_to_view)
  have "st s2 = st ?s1" using n2 by (auto simp: next_or_idle_def dequeue_def set_thread_def st_def Let_def fun_eq_iff
        split: if_splits)
  moreover have "nxt \<noteq> cur s c"
    using S(2) v(1) n not_idle_in_list(3) [OF inv c n] by (cases rq) (auto simp: queued_def)
  ultimately show "st (thread_exit k c s) (cur s c) = Dead" using v(2) by (simp add: e switch_to_view)
qed

lemma take_from_queues:
  assumes q: "queues s rq sl wl" and w: "wl r = t # ts"
  obtains s' where "take_from r s = (t, s')" "queues s' rq sl (wl(r := ts))" "st s' = st s" "kept s s'" "t \<noteq> 0"
proof -
  note Q = q [unfolded queues_def]
  have c: "chain (qn s) (wait_heads s r) (t # ts)" using Q w by metis
  then have h: "wait_heads s r = t" "t \<noteq> 0" "chain (qn s) (qn s t) ts" by auto
  have tw: "t \<in> set (wl r)" using w by simp
  have d: "t \<notin> set ts" using chain_distinct [OF c] by simp
  have o: "t \<notin> set rq" "t \<notin> set sl" "\<And>p. p \<noteq> r \<Longrightarrow> t \<notin> set (wl p)" using Q tw by blast+
  define s' where "s' = snd (take_from r s)"
  have e: "take_from r s = (t, s')" using h by (simp add: take_from_def s'_def Let_def)
  have v: "qn s' = (qn s)(t := 0)" "st s' = st s" "kept s s'" "run_queue_head s' = run_queue_head s"
    "run_queue_tail s' = run_queue_tail s" "sleepers s' = sleepers s" "wait_heads s' = (wait_heads s)(r := qn s t)"
    using h by (auto simp: s'_def take_from_def set_thread_def view_defs kept_def Let_def fun_eq_iff)
  have "set ts \<subseteq> set (wl r)" using w by auto
  then have ts: "set rq \<inter> set ts = {}" "set sl \<inter> set ts = {}" "\<And>p. p \<noteq> r \<Longrightarrow> set ts \<inter> set (wl p) = {}"
    using Q by blast+
  have "chain (qn s') (wait_heads s' p) ((wl(r := ts)) p)" for p
    using Q h(3) d o(3) [of p] by (cases "p = r") (simp_all add: v)
  then have "queues s' rq sl (wl(r := ts))"
    using Q ts o unfolding queues_def v by (auto simp: Int_commute)
  then show thesis using that e v(2,3) h(2) by blast
qed

lemma wake_one_inv:
  assumes inv: "sched_inv C P s rq sl wl al"
  shows "sched_inv C P (wake_one r s) (rq @ take 1 (wl r)) sl (wl(r := drop 1 (wl r))) al \<and> kept s (wake_one r s)"
proof (cases "wl r")
  case Nil
  then have "wait_heads s r = 0" using sched_invD(1) [OF inv] unfolding queues_def by (metis chain.simps(1))
  then have "wake_one r s = s" by (simp add: wake_one_def take_from_def)
  moreover have "wl(r := drop 1 (wl r)) = wl" using Nil by auto
  ultimately show ?thesis using inv Nil by simp
next
  case (Cons t ts)
  note I = sched_invD [OF inv]
  obtain s1 where s1: "take_from r s = (t, s1)" "queues s1 rq sl (wl(r := ts))" "st s1 = st s" "kept s s1" "t \<noteq> 0"
    using take_from_queues [OF I(1) Cons] by blast
  have "chain (qn s) (wait_heads s r) (t # ts)" using I(1) Cons unfolding queues_def by metis
  then have tw: "t \<in> set (wl r)" "t \<notin> set ts" using chain_distinct Cons by fastforce+
  then have o: "t \<notin> set rq" "t \<notin> set sl" "\<And>p. p \<noteq> r \<Longrightarrow> t \<notin> set (wl p)" using I(1) unfolding queues_def by blast+
  then have nq: "t \<notin> queued rq sl (wl(r := ts))" using tw(2) by (auto simp: queued_def)
  have q2: "queues (enqueue t s1) (rq @ [t]) sl (wl(r := ts))" by (rule enqueue_queues [OF s1(2,5) nq])
  have w: "wake_one r s = enqueue t s1" using s1(1,5) by (simp add: wake_one_def)
  have k: "kept s (enqueue t s1)" using kept_trans [OF s1(4) enqueue_view(3)] .
  have W: "{t} \<subseteq> queued rq sl wl" using tw(1) unfolding queued_def by blast
  have "sched_inv C P (enqueue t s1) (rq @ [t]) sl (wl(r := ts)) al"
    by (rule moved_inv [where W = "{t}", OF inv q2 W _ k])
      (use tw o s1(3) Cons in \<open>auto simp: queued_def enqueue_view fun_eq_iff\<close>)
  then show ?thesis using w k Cons by simp
qed

lemma wake_all_inv:
  assumes "sched_inv C P s rq sl wl al"
  shows "\<exists>s'. wake_all r s = Some s' \<and> sched_inv C P s' (rq @ wl r) sl (wl(r := [])) al \<and> kept s s'"
  using assms
proof (induction "wl r" arbitrary: s rq wl)
  case Nil
  then have "wait_heads s r = 0" using sched_invD(1) [OF Nil.prems] unfolding queues_def by (metis chain.simps(1))
  then have "wake_all r s = Some s" by (subst wake_all.simps) (simp add: take_from_def)
  moreover have "wl(r := []) = wl" using Nil by auto
  ultimately show ?case using Nil by simp
next
  case (Cons t ts)
  note W = Cons.hyps(2) [symmetric]
  obtain s1 where s1: "take_from r s = (t, s1)" "t \<noteq> 0"
    using take_from_queues [OF sched_invD(1) [OF Cons.prems] W] by blast
  have step: "wake_all r s = wake_all r (wake_one r s)"
    using s1 by (subst wake_all.simps) (simp add: wake_one_def)
  have one: "sched_inv C P (wake_one r s) (rq @ [t]) sl (wl(r := ts)) al" "kept s (wake_one r s)"
    using wake_one_inv [OF Cons.prems, of r] W by auto
  obtain s' where "wake_all r (wake_one r s) = Some s'"
    "sched_inv C P s' ((rq @ [t]) @ (wl(r := ts)) r) sl ((wl(r := ts))(r := [])) al" "kept (wake_one r s) s'"
    using Cons.hyps(1) [of "wl(r := ts)" "wake_one r s" "rq @ [t]"] one(1) by auto
  then show ?case using step W kept_trans [OF one(2)] by auto
qed

lemma thread_wake_inv:
  assumes inv: "sched_inv C P s rq sl wl al" and t: "st s t \<noteq> Blocked" "st s t = Sleeping \<Longrightarrow> t \<in> set al"
  shows "\<exists>s'. thread_wake t s = Some s' \<and> kept s s' \<and>
    sched_inv C P s' (if t \<in> set sl then rq @ [t] else rq) (removeAll t sl) wl al"
proof (cases "st s t = Sleeping")
  case False
  then have "t \<notin> set sl" using sched_invD(4) [OF inv] by blast
  then show ?thesis using False t(1) inv by (simp add: thread_wake_def st_def)
next
  case True
  note I = sched_invD [OF inv]
  have ts: "t \<in> set sl" using I(7) [OF t(2) [OF True]] True by (simp add: placed_def)
  then obtain xs ys where sl: "sl = xs @ t # ys" by (meson split_list)
  have d: "distinct sl" using I(1) chain_distinct unfolding queues_def by blast
  then have r: "removeAll t sl = xs @ ys" by (simp add: sl)
  obtain s1 where s1: "detach_from_sleepers t s = Some s1" "queues s1 rq (xs @ ys) wl" "st s1 = st s" "kept s s1"
    using detach_queues [of s rq xs t ys wl] I(1) sl by blast
  note Q = I(1) [unfolded queues_def]
  have o: "t \<notin> set rq" "\<And>p. t \<notin> set (wl p)" using Q ts by blast+
  have "chain (qn s) (sleepers s) sl" using Q by blast
  then have t0: "t \<noteq> 0" using ts chain_zero by metis
  have nq: "t \<notin> queued rq (xs @ ys) wl" using o d sl by (auto simp: queued_def)
  have k: "kept s (enqueue t s1)" using kept_trans [OF s1(4) enqueue_view(3)] .
  have "sched_inv C P (enqueue t s1) (rq @ [t]) (xs @ ys) wl al"
    by (rule moved_inv [where W = "{t}", OF inv enqueue_queues [OF s1(2) t0 nq] _ _ k])
      (use o d s1(3) sl in \<open>auto simp: queued_def enqueue_view fun_eq_iff\<close>)
  then show ?thesis using k r s1(1) True sl by (auto simp: thread_wake_def st_def)
qed

lemma adopt_inv:
  assumes inv: "sched_inv C C s rq sl wl al" and t: "t \<noteq> 0" "t \<notin> set al" "\<And>c. c \<in> C \<Longrightarrow> idl s c \<noteq> t"
    and n: "unat (threads_alive s) < 64"
  shows "sched_inv C C (adopt t s) (rq @ [t]) sl wl (t # al)"
proof -
  note I = sched_invD [OF inv]
  define s1 where "s1 = (set_thread t (\<lambda>x. x\<lparr>t_id := next_thread_id s, t_lnext := all_threads s\<rparr>) s)
            \<lparr>next_thread_id := next_thread_id s + 1, all_threads := t, threads_alive := threads_alive s + 1\<rparr>"
  have a: "adopt t s = enqueue t s1" by (simp add: adopt_def s1_def)
  have v1: "qn s1 = qn s" "st s1 = st s" "ln s1 = (ln s)(t := all_threads s)" "on_cpu s1 = on_cpu s" "cur s1 = cur s"
    "idl s1 = idl s" "all_threads s1 = t" "threads_alive s1 = threads_alive s + 1" "run_queue_head s1 = run_queue_head s"
    "run_queue_tail s1 = run_queue_tail s" "sleepers s1 = sleepers s" "wait_heads s1 = wait_heads s"
    by (auto simp: s1_def set_thread_def view_defs fun_eq_iff)
  have nq: "t \<notin> queued rq sl wl" using t(2) I(6) by blast
  have q1: "queues s1 rq sl wl" using I(1) by (simp add: queues_def v1)
  note V = enqueue_view(3) [of s1 t, unfolded kept_def] and W = kept_cpu [OF enqueue_view(3), of t s1]
  have al: "set sl \<subseteq> set al" "\<And>q. set (wl q) \<subseteq> set al" "set rq \<subseteq> set al" using I(6) unfolding queued_def by blast+
  have cu: "cur s c \<noteq> t" if "c \<in> C" for c using I(9) [OF that] t(2) t(3) [OF that] by auto
  show ?thesis unfolding a
  proof (rule sched_invI)
    show "queues (enqueue t s1) (rq @ [t]) sl wl" by (rule enqueue_queues [OF q1 t(1) nq])
    show "chain (ln (enqueue t s1)) (all_threads (enqueue t s1)) (t # al)"
      using I(2) V v1 t(1,2) by simp
    show "st (enqueue t s1) u = Ready" if "u \<in> set (rq @ [t])" for u using that I(3) v1 by (auto simp: enqueue_view)
    show "st (enqueue t s1) u = Sleeping" if "u \<in> set sl" for u
      using that I(4) v1 al(1) t(2) by (auto simp: enqueue_view)
    show "st (enqueue t s1) u = Blocked" if "u \<in> set (wl q)" for u q
      using that I(5) v1 al(2) [of q] t(2) by (auto simp: enqueue_view)
    show "queued (rq @ [t]) sl wl \<subseteq> set (t # al)" using I(6) by (auto simp: queued_def)
    show "placed C (enqueue t s1) (rq @ [t]) sl wl u" if "u \<in> set (t # al)" for u
      using that I(7) [of u] v1 W by (cases "u = t"; cases "st s u") (auto simp: placed_def enqueue_view)
    show "idl (enqueue t s1) c \<noteq> 0 \<and> idl (enqueue t s1) c \<notin> set (t # al) \<and>
        st (enqueue t s1) (idl (enqueue t s1) c) = Running \<and> on_cpu (enqueue t s1) (idl (enqueue t s1) c) = c"
      if "c \<in> C" for c using I(8) [OF that] t(3) [OF that] V W v1 by (auto simp: enqueue_view)
    show "(cur (enqueue t s1) c = idl (enqueue t s1) c \<or> cur (enqueue t s1) c \<in> set (t # al)) \<and>
        st (enqueue t s1) (cur (enqueue t s1) c) = Running \<and> on_cpu (enqueue t s1) (cur (enqueue t s1) c) = c"
      if "c \<in> C" for c using I(9) [OF that] cu [OF that] V W v1 by (auto simp: enqueue_view)
    have "filter (\<lambda>u. ((st s)(t := Ready)) u \<noteq> Dead) al = filter (\<lambda>u. st s u \<noteq> Dead) al"
      using t(2) by (intro filter_cong) auto
    moreover have "unat (threads_alive s + 1) = unat (threads_alive s) + 1" using n by (simp add: unat_u64_add)
    ultimately show "unat (threads_alive (enqueue t s1)) = length (filter (\<lambda>u. st (enqueue t s1) u \<noteq> Dead) (t # al))"
      using I(10) V v1 by (simp add: enqueue_view)
  qed
qed

end
