(* ===== verification/Sched_Correct.thy ===== *)
theory Sched_Correct
  imports Sched_Inv
begin

text \<open>
  The scheduler as a step relation: any processor may run any operation, in any order. The
  properties of every reachable state, of one \<open>yield\<close>, and of the context switch.
\<close>

section \<open>Steps\<close>

definition known :: "sched \<Rightarrow> u64 \<Rightarrow> bool" where
  "known s t \<longleftrightarrow> t \<noteq> 0 \<and> (\<exists>n. walk_threads n (all_threads s) s = t)"

lemma walk_threads_chain:
  assumes "chain (ln s) a al"
  shows "walk_threads n a s = (if n < length al then al ! n else 0)"
  using assms
proof (induction n arbitrary: a al)
  case 0
  then show ?case by (cases al) auto
next
  case (Suc n)
  then show ?case
  proof (cases al)
    case (Cons x xs)
    then have "walk_threads n (ln s x) s = (if n < length xs then xs ! n else 0)" using Suc by auto
    then show ?thesis using Suc.prems Cons by (auto simp: next_in_list_def ln_def)
  qed simp
qed

lemma known_iff: "chain (ln s) (all_threads s) al \<Longrightarrow> known s t \<longleftrightarrow> t \<in> set al"
  using chain_zero [of "ln s" "all_threads s" al]
  by (auto simp: known_def walk_threads_chain in_set_conv_nth)

text \<open>
  A thread that waits in a queue is woken through the queue; the idle threads neither sleep, nor
  wait, nor exit; a new thread is not one the scheduler has.
\<close>

inductive sched_step :: "u64 \<Rightarrow> u32 set \<Rightarrow> sched \<Rightarrow> sched \<Rightarrow> bool" for k C where
  yields: "c \<in> C \<Longrightarrow> running s \<Longrightarrow> yield k c now s = Some s' \<Longrightarrow> sched_step k C s s'"
| sleeps: "c \<in> C \<Longrightarrow> running s \<Longrightarrow> cur s c \<noteq> idl s c \<Longrightarrow> sched_step k C s (thread_sleep_ns k c now ns s)"
| waits: "c \<in> C \<Longrightarrow> cur s c \<noteq> idl s c \<Longrightarrow> sched_step k C s (queue_wait k c q s)"
| exits: "c \<in> C \<Longrightarrow> cur s c \<noteq> idl s c \<Longrightarrow> sched_step k C s (thread_exit k c s)"
| wakes_one: "sched_step k C s (wake_one q s)"
| wakes_all: "wake_all q s = Some s' \<Longrightarrow> sched_step k C s s'"
| wakes: "known s t \<Longrightarrow> st s t \<noteq> Blocked \<Longrightarrow> thread_wake t s = Some s' \<Longrightarrow> sched_step k C s s'"
| adopts: "t \<noteq> 0 \<Longrightarrow> \<not> known s t \<Longrightarrow> (\<And>c. c \<in> C \<Longrightarrow> idl s c \<noteq> t) \<Longrightarrow> threads_alive s < max_threads \<Longrightarrow>
    sched_step k C s (adopt t s)"
| disables: "sched_step k C s (preempt_disable c s)"
| enables: "sched_step k C s (preempt_enable c s)"

text \<open>At the start every processor runs its idle thread and there is nothing else.\<close>

definition sched_start :: "u32 set \<Rightarrow> sched \<Rightarrow> bool" where
  "sched_start C s \<longleftrightarrow> run_queue_head s = 0 \<and> run_queue_tail s = 0 \<and> sleepers s = 0 \<and> wait_heads s = (\<lambda>_. 0) \<and>
     all_threads s = 0 \<and> threads_alive s = 0 \<and>
     (\<forall>c \<in> C. idl s c \<noteq> 0 \<and> cur s c = idl s c \<and> st s (idl s c) = Running \<and> on_cpu s (idl s c) = c)"

inductive sched_reachable :: "u64 \<Rightarrow> u32 set \<Rightarrow> sched \<Rightarrow> bool" for k C where
  starts: "sched_start C s \<Longrightarrow> sched_reachable k C s"
| runs: "sched_reachable k C s \<Longrightarrow> sched_step k C s t \<Longrightarrow> sched_reachable k C t"

lemma sched_inv_percpu:
  assumes "\<And>p. c_current (f p) = c_current p" "\<And>p. c_idle (f p) = c_idle p"
  shows "sched_inv C P (set_percpu c f s) rq sl wl al \<longleftrightarrow> sched_inv C P s rq sl wl al"
  unfolding sched_inv_def queues_def placed_def set_percpu_view [OF assms] ..

lemma sched_step_inv:
  assumes "sched_step k C s s'" and "sched_inv C C s rq sl wl al"
  shows "\<exists>rq sl wl al. sched_inv C C s' rq sl wl al"
  using assms
proof (induction rule: sched_step.induct)
  case (yields c s now s')
  then show ?case using yield_inv [OF yields.prems yields.hyps(1,2), of k now] by auto
next
  case (sleeps c s now ns)
  then show ?case using sleep_inv(1) by blast
next
  case (waits c s q)
  then show ?case using wait_inv(1) by blast
next
  case (exits c s)
  then show ?case using exit_inv(1) by blast
next
  case (wakes_one s q)
  then show ?case using wake_one_inv [of C C s rq sl wl al q] by blast
next
  case (wakes_all q s s')
  then show ?case using wake_all_inv [of C C s rq sl wl al q] by auto
next
  case (wakes s t s')
  then have "t \<in> set al" using known_iff [OF sched_invD(2)] by blast
  then show ?case using thread_wake_inv [OF wakes.prems wakes.hyps(2)] wakes.hyps(3) by auto
next
  case (adopts t s)
  then have "t \<notin> set al" using known_iff [OF sched_invD(2)] by blast
  moreover have "unat (threads_alive s) < 64" using adopts.hyps(4) by (simp add: word_less_nat_alt)
  ultimately show ?case using adopt_inv [OF adopts.prems] adopts.hyps(1,3) by blast
next
  case (disables s c)
  then show ?case by (auto simp: preempt_disable_def sched_inv_percpu)
next
  case (enables s c)
  then show ?case by (auto simp: preempt_enable_def sched_inv_percpu)
qed

lemma sched_start_inv: "sched_start C s \<Longrightarrow> sched_inv C C s [] [] (\<lambda>_. []) []"
  by (auto simp: sched_start_def sched_inv_def queues_def queued_def)

lemma sched_reachable_inv:
  assumes "sched_reachable k C s"
  obtains rq sl wl al where "sched_inv C C s rq sl wl al"
proof -
  have "\<exists>rq sl wl al. sched_inv C C s rq sl wl al"
    using assms
  proof (induction rule: sched_reachable.induct)
    case (starts s)
    then show ?case using sched_start_inv by blast
  next
    case (runs s t)
    then show ?case using sched_step_inv by blast
  qed
  then show thesis using that by blast
qed

section \<open>The context switch\<close>

lemma save_context_value:
  "save_context (r, m) = (r\<lparr>rsp := rsp r - 56\<rparr>,
     m(rsp r - 8 := rip r, rsp r - 16 := rbp r, rsp r - 24 := rbx r, rsp r - 32 := r12 r, rsp r - 40 := r13 r,
       rsp r - 48 := r14 r, rsp r - 56 := r15 r))"
  by (simp add: save_context_def push_def)

lemma resume_context_value:
  "resume_context sp (r, m) = (\<lparr>rbp = m (sp + 40), rbx = m (sp + 32), r12 = m (sp + 24), r13 = m (sp + 16),
     r14 = m (sp + 8), r15 = m sp, rsp = sp + 56, rip = m (sp + 48)\<rparr>, m)"
  by (cases r) (simp add: resume_context_def pop_def ac_simps)

definition saved_frame :: "u64 \<Rightarrow> u64 set" where
  "saved_frame sp = {sp - 8, sp - 16, sp - 24, sp - 32, sp - 40, sp - 48, sp - 56}"

lemma saved_then_resumed:
  assumes "\<And>a. a \<in> saved_frame (rsp r) \<Longrightarrow> m' a = snd (save_context (r, m)) a"
  shows "fst (resume_context (rsp (fst (save_context (r, m)))) (r', m')) = r"
proof -
  define f where "f = snd (save_context (r, m))"
  have v: "f (rsp r - 8) = rip r" "f (rsp r - 16) = rbp r" "f (rsp r - 24) = rbx r" "f (rsp r - 32) = r12 r"
    "f (rsp r - 40) = r13 r" "f (rsp r - 48) = r14 r" "f (rsp r - 56) = r15 r"
    by (simp_all add: f_def save_context_value)
  have "m' a = f a" if "a \<in> saved_frame (rsp r)" for a using assms that by (simp add: f_def)
  then have "m' (rsp r - 8) = rip r" "m' (rsp r - 16) = rbp r" "m' (rsp r - 24) = rbx r" "m' (rsp r - 32) = r12 r"
    "m' (rsp r - 40) = r13 r" "m' (rsp r - 48) = r14 r" "m' (rsp r - 56) = r15 r"
    using v by (simp_all add: saved_frame_def)
  moreover have "rsp r - 56 + 48 = rsp r - 8" "rsp r - 56 + 40 = rsp r - 16" "rsp r - 56 + 32 = rsp r - 24"
    "rsp r - 56 + 24 = rsp r - 32" "rsp r - 56 + 16 = rsp r - 40" "rsp r - 56 + 8 = rsp r - 48"
    by simp_all
  ultimately show ?thesis by (simp add: save_context_value resume_context_value)
qed

section \<open>Properties\<close>


text \<open>
  C15: \<open>yield\<close> is round robin. The sleepers whose time has come join the end of the run queue,
  the thread at its front runs next, and the caller goes to the end; with nothing to run the
  caller goes on.
\<close>

theorem yield_round_robin:
  assumes "sched_inv C C s rq sl wl al" and "c \<in> C" and "running s"
  shows "\<exists>s'. yield k c now s = Some s' \<and>
    (let ready = rq @ filter (\<lambda>t. wk s t \<le> now) sl; asleep = rev (filter (\<lambda>t. \<not> wk s t \<le> now) sl)
     in if ready = [] then cur s' c = cur s c \<and> sched_inv C C s' [] asleep wl al
        else cur s' c = hd ready \<and>
          sched_inv C C s' (tl ready @ (if cur s c = idl s c then [] else [cur s c])) asleep wl al)"
  using yield_inv [OF assms, of k now] unfolding Let_def by auto

text \<open>
  C16: a thread that was switched out continues where it stopped, on whichever processor: when a
  later switch resumes its stack pointer and the seven cells of its saved frame were left alone,
  the registers, the stack pointer and the return address are the ones it had.
\<close>

theorem context_switch_round_trip:
  assumes "s1 = context_switch c p other s" and "s3 = context_switch d q (t_sp (thr s1 p)) s2"
    and "\<And>a. a \<in> saved_frame (rsp (c_regs (cpus s c))) \<Longrightarrow>
      snd (save_context (c_regs (cpus s2 d), cells s2)) a = cells s1 a"
  shows "c_regs (cpus s3 d) = c_regs (cpus s c)"
proof -
  let ?r = "c_regs (cpus s c)"
  obtain r1 m1 where 1: "save_context (?r, cells s) = (r1, m1)" by fastforce
  obtain r2 m2 where 2: "save_context (c_regs (cpus s2 d), cells s2) = (r2, m2)" by fastforce
  have sp: "t_sp (thr s1 p) = rsp r1" "cells s1 = m1"
    using assms(1) 1 by (auto simp: context_switch_def resume_context_value set_thread_def set_percpu_def)
  have "c_regs (cpus s3 d) = fst (resume_context (rsp r1) (r2, m2))"
    using assms(2) 2 sp by (simp add: context_switch_def set_thread_def set_percpu_def split: prod.splits)
  also have "\<dots> = ?r" using saved_then_resumed [of ?r m2 "cells s" r2] assms(3) 1 2 sp by simp
  finally show ?thesis .
qed

text \<open>
  The first switch to a prepared thread lands in the entry trampoline with the entry point
  and the argument in the registers it expects, at the top of the thread's own stack.
\<close>

lemma prepared_thread_starts:
  assumes "s1 = prepare trampoline t name entry argument s"
    and "s2 = context_switch c p (t_sp (thr s1 t)) s1"
    and "stack_top = t_stack_base (thr s t) + t_stack_pages (thr s t) * page_size"
    and "\<And>a. a \<in> saved_frame stack_top \<Longrightarrow> snd (save_context (c_regs (cpus s1 c), cells s1)) a = cells s1 a"
  shows "rip (c_regs (cpus s2 c)) = trampoline \<and> r12 (c_regs (cpus s2 c)) = entry \<and>
    r13 (c_regs (cpus s2 c)) = argument \<and> rsp (c_regs (cpus s2 c)) = stack_top"
proof -
  obtain r2 m2 where 2: "save_context (c_regs (cpus s1 c), cells s1) = (r2, m2)" by fastforce
  have sp: "t_sp (thr s1 t) = stack_top - 56"
    using assms(1,3) by (simp add: prepare_def set_thread_def Let_def)
  have f: "cells s1 = first_frame trampoline entry argument stack_top (cells s)"
    using assms(1,3) by (simp add: prepare_def set_thread_def Let_def)
  have m: "m2 a = cells s1 a" if "a \<in> saved_frame stack_top" for a using assms(4) [OF that] 2 by simp
  have "m2 (stack_top - 8) = trampoline" "m2 (stack_top - 32) = entry" "m2 (stack_top - 40) = argument"
    using m by (simp_all add: saved_frame_def f first_frame_def)
  moreover have "stack_top - 56 + 48 = stack_top - 8" "stack_top - 56 + 24 = stack_top - 32"
    "stack_top - 56 + 16 = stack_top - 40" by simp_all
  moreover have "c_regs (cpus s2 c) = fst (resume_context (stack_top - 56) (r2, m2))"
    using assms(2) 2 sp by (simp add: context_switch_def set_thread_def set_percpu_def split: prod.splits)
  ultimately show ?thesis by (simp add: resume_context_value)
qed

section \<open>Witnesses\<close>

text \<open>One processor with its idle thread at address 16; the thread at 32 is created and runs.\<close>

definition one_cpu :: sched where
  "one_cpu = \<lparr>thr = (\<lambda>t. if t = 16 then new_thread\<lparr>t_state := Running\<rparr> else new_thread), run_queue_head = 0, run_queue_tail = 0,
     all_threads = 0, threads_alive = 0, next_thread_id = 1, running = True, sleepers = 0, wait_heads = (\<lambda>_. 0),
     cpus = (\<lambda>_. \<lparr>c_current = 16, c_idle = 16, c_preempt_count = 0, c_kernel_stack_top = 0, c_tss_rsp0 = 0, c_cr3 = 0,
       c_regs = \<lparr>rbp = 1, rbx = 2, r12 = 3, r13 = 4, r14 = 5, r15 = 6, rsp = 0x8000, rip = 7\<rparr>\<rparr>),
     cells = (\<lambda>_. 0)\<rparr>"

lemma one_cpu_start: "sched_start {0} one_cpu"
  by (simp add: sched_start_def one_cpu_def view_defs new_thread_def)

lemma one_cpu_idle: "idl one_cpu 0 = 16" "cur one_cpu 0 = 16" "threads_alive one_cpu = 0" "running one_cpu"
  by (simp_all add: one_cpu_def view_defs)

lemma one_cpu_adopt_inv: "sched_inv {0} {0} (adopt 32 one_cpu) [32] [] (\<lambda>_. []) [32]"
  using adopt_inv [OF sched_start_inv [OF one_cpu_start], of 32] one_cpu_idle by simp


theorem yield_round_robin_witness:
  "\<exists>s'. yield 0x1000 0 5 (adopt 32 one_cpu) = Some s' \<and> cur s' 0 = 32"
proof -
  have "running (adopt 32 one_cpu)" by (simp add: adopt_def enqueue_def set_thread_def one_cpu_def Let_def)
  then show ?thesis using yield_round_robin [OF one_cpu_adopt_inv, of 0 "0x1000" 5] by auto
qed

theorem context_switch_round_trip_witness:
  "c_regs (cpus (context_switch 1 48 (t_sp (thr (context_switch 0 32 0x100 one_cpu) 32))
      ((context_switch 0 32 0x100 one_cpu)\<lparr>cpus := (\<lambda>_. (cpus one_cpu 0)\<lparr>c_regs := (c_regs (cpus one_cpu 0))\<lparr>rsp := 0x4000\<rparr>\<rparr>)\<rparr>)) 1)
     = c_regs (cpus one_cpu 0)"
  by (rule context_switch_round_trip [OF refl refl]) (auto simp: one_cpu_def save_context_value saved_frame_def)

lemma prepared_thread_starts_example:
  "rip (c_regs (cpus (context_switch 0 16 (t_sp (thr (prepare 0xAA 32 ''worker'' 0xBB 0xCC
      (set_thread 32 (\<lambda>x. x\<lparr>t_stack_base := 0x10000, t_stack_pages := 8\<rparr>) one_cpu)) 32))
      (prepare 0xAA 32 ''worker'' 0xBB 0xCC
        (set_thread 32 (\<lambda>x. x\<lparr>t_stack_base := 0x10000, t_stack_pages := 8\<rparr>) one_cpu))) 0)) = 0xAA"
  by (rule prepared_thread_starts [OF refl refl refl, THEN conjunct1])
    (auto simp: one_cpu_def save_context_value saved_frame_def set_thread_def prepare_def Let_def)

text \<open>
  The step relation leaves out an idle thread that sleeps. \<open>thread_sleep_ns\<close> does not look: called
  on the idle thread (the boot path runs on one) with nothing to run, it switches to the idle
  thread again while it is on the list of sleepers, from which a later \<open>yield\<close> on another
  processor puts it in the run queue.
\<close>

lemma idle_sleeps_and_runs:
  "cur (thread_sleep_ns 0x1000 0 0 10 one_cpu) 0 = 16 \<and> sleepers (thread_sleep_ns 0x1000 0 0 10 one_cpu) = 16"
  by (simp add: thread_sleep_ns_def one_cpu_def park_sleeper_at_def set_thread_def next_or_idle_def dequeue_def
      switch_to_def set_current_def set_percpu_def view_defs Let_def)

end
