(* ===== verification/Work.thy ===== *)
theory Work
  imports Sched_Correct
begin

text \<open>
  The deferred work queue, \<^verbatim>\<open>kernel/lib/work.cpp\<close>: a ring of 64 slots of which one stays empty,
  filled by anyone and drained by a worker thread. A work function is its address and what it
  does to the system is an argument of the model, because it is whatever the caller passed.
\<close>

section \<open>State and operations\<close>

type_synonym item = "u64 \<times> u64"

record work =
  w_queue :: "item list"
  w_head :: usize
  w_tail :: usize
  w_dropped :: u64
  w_sched :: sched

definition queue_size :: usize where [simp]: "queue_size = 64"

definition schedule_work :: "u64 \<Rightarrow> u64 \<Rightarrow> u64 \<Rightarrow> work \<Rightarrow> (bool \<times> work) option" where
  "schedule_work waiting function context s =
     (if function = 0 then Some (False, s)
      else let nxt = (w_tail s + 1) mod queue_size
           in if nxt = w_head s then Some (False, s\<lparr>w_dropped := w_dropped s + 1\<rparr>)
              else let s1 = s\<lparr>w_queue := (w_queue s)[unat (w_tail s) := (function, context)], w_tail := nxt\<rparr>
                   in map_option (\<lambda>sc. (True, s1\<lparr>w_sched := sc\<rparr>)) (wake_all waiting (w_sched s1)))"

text \<open>The locked half of one round of \<open>work_run_pending\<close>.\<close>

definition work_take :: "work \<Rightarrow> (item \<times> work) option" where
  "work_take s =
     (if w_head s = w_tail s then None
      else Some (w_queue s ! unat (w_head s), s\<lparr>w_head := (w_head s + 1) mod queue_size\<rparr>))"

partial_function (option) work_run_pending :: "(u64 \<Rightarrow> u64 \<Rightarrow> work \<Rightarrow> work) \<Rightarrow> work \<Rightarrow> work option" where
  "work_run_pending run s =
     (case work_take s of
        None \<Rightarrow> Some s
      | Some (item, s1) \<Rightarrow> work_run_pending run (run (fst item) (snd item) s1))"

definition work_pending :: "work \<Rightarrow> usize" where
  "work_pending s =
     (if w_tail s \<ge> w_head s then w_tail s - w_head s else queue_size - w_head s + w_tail s)"

definition work_dropped :: "work \<Rightarrow> u64" where
  "work_dropped s = w_dropped s"

text \<open>One round of \<open>work_thread\<close>: drain, then sleep ten milliseconds.\<close>

definition work_thread_round ::
  "u64 \<Rightarrow> u32 \<Rightarrow> u64 \<Rightarrow> (u64 \<Rightarrow> u64 \<Rightarrow> work \<Rightarrow> work) \<Rightarrow> work \<Rightarrow> work option" where
  "work_thread_round kernel_root c now run s =
     map_option (\<lambda>s1. s1\<lparr>w_sched := thread_sleep_ms kernel_root c now 10 (w_sched s1)\<rparr>) (work_run_pending run s)"

definition work_start :: "phys_addr \<Rightarrow> u64 \<Rightarrow> usize \<Rightarrow> u64 \<Rightarrow> kernel \<Rightarrow> (u64 \<times> kernel) option" where
  "work_start root trampoline sizeof_Thread work_thread k =
     spawn root trampoline sizeof_Thread ''kworker'' work_thread 0 k"

section \<open>A bounded first-in first-out queue\<close>

text \<open>
  The contract of a bounded queue: \<open>put\<close> appends or refuses, \<open>get\<close> takes the oldest element.
\<close>

locale fifo =
  fixes put :: "'a \<Rightarrow> 's \<Rightarrow> (bool \<times> 's) option"
    and get :: "'s \<Rightarrow> ('a \<times> 's) option"
    and contents :: "'s \<Rightarrow> 'a list"
    and good :: "'s \<Rightarrow> bool"
    and fits :: "'a \<Rightarrow> 's \<Rightarrow> bool"
    and capacity :: nat
  assumes put_law: "good s \<Longrightarrow> \<exists>s'. put x s = Some (fits x s, s') \<and> good s' \<and>
      contents s' = (if fits x s then contents s @ [x] else contents s)"
    and get_law: "good s \<Longrightarrow> (case contents s of
        [] \<Rightarrow> get s = None
      | x # xs \<Rightarrow> \<exists>s'. get s = Some (x, s') \<and> good s' \<and> contents s' = xs)"
    and room: "good s \<Longrightarrow> length (contents s) \<le> capacity"
    and fits_room: "good s \<Longrightarrow> fits x s \<Longrightarrow> length (contents s) < capacity"
begin

lemma put_then_get:
  assumes "good s" "contents s = []" "fits x s"
  shows "\<exists>s1 s2. put x s = Some (True, s1) \<and> get s1 = Some (x, s2) \<and> contents s2 = [] \<and> good s2"
proof -
  obtain s1 where "put x s = Some (True, s1)" "good s1" "contents s1 = [x]" using put_law [OF assms(1), of x] assms by auto
  then show ?thesis using get_law [of s1] by auto
qed

lemma get_keeps_order:
  assumes "good s" "get s = Some (x, s')"
  shows "contents s = x # contents s'" "good s'"
  using get_law [OF assms(1)] assms(2) by (auto split: list.splits)

lemma get_none: "good s \<Longrightarrow> get s = None \<longleftrightarrow> contents s = []"
  using get_law [of s] by (auto split: list.splits)

end

section \<open>The ring is such a queue\<close>

definition ring_length :: "work \<Rightarrow> nat" where
  "ring_length s = (unat (w_tail s) + 64 - unat (w_head s)) mod 64"

definition work_contents :: "work \<Rightarrow> item list" where
  "work_contents s = map (\<lambda>i. w_queue s ! ((unat (w_head s) + i) mod 64)) [0..<ring_length s]"

definition work_good :: "u32 set \<Rightarrow> work \<Rightarrow> bool" where
  "work_good C s \<longleftrightarrow> length (w_queue s) = 64 \<and> unat (w_head s) < 64 \<and> unat (w_tail s) < 64 \<and>
     (\<exists>rq sl wl al. sched_inv C C (w_sched s) rq sl wl al)"

definition work_fits :: "item \<Rightarrow> work \<Rightarrow> bool" where
  "work_fits x s \<longleftrightarrow> fst x \<noteq> 0 \<and> length (work_contents s) < 63"

lemma slot_diff: "a < 64 \<Longrightarrow> b < 64 \<Longrightarrow> (a + 64 - b) mod 64 = (if b \<le> a then a - b else a + 64 - b :: nat)"
  by (auto simp: mod_if)

lemma slot_next: "a < 64 \<Longrightarrow> (a + 1) mod 64 = (if a = 63 then 0 else a + 1 :: nat)"
  by auto

lemma ring_put:
  assumes "a < 64" "b < (64 :: nat)" "(b + 64 - a) mod 64 \<noteq> 63"
  shows "((b + 1) mod 64 + 64 - a) mod 64 = Suc ((b + 64 - a) mod 64)"
proof -
  have d: "(b + 64 - a) mod 64 = (if a \<le> b then b - a else b + 64 - a)" by (rule slot_diff [OF assms(2,1)])
  show ?thesis
  proof (cases "b = 63")
    case True
    then have "a \<noteq> 0" using assms(3) by (cases "a = 0") simp_all
    moreover have "(b + 64 - a) mod 64 = 63 - a" using d True assms(1) by simp
    moreover have "(b + 1) mod 64 = 0" using True by simp
    ultimately show ?thesis using assms(1) slot_diff [of 0 a] by simp
  next
    case False
    then have n: "(b + 1) mod 64 = b + 1" "b + 1 < 64" using assms(2) by simp_all
    have "a \<noteq> b + 1" using assms d by auto
    then show ?thesis unfolding n(1) d slot_diff [OF n(2) assms(1)] using assms(1) by simp arith
  qed
qed

lemma ring_get:
  assumes "a < 64" "b < (64 :: nat)" "(b + 64 - a) mod 64 = Suc n"
  shows "(b + 64 - (a + 1) mod 64) mod 64 = n"
proof -
  have d: "(if a \<le> b then b - a else b + 64 - a) = Suc n" using assms slot_diff [of b a] by simp
  show ?thesis
  proof (cases "a = 63")
    case True
    then have "n = b" using d assms(2) by (simp split: if_splits)
    then show ?thesis using True assms(2) by simp
  next
    case False
    then have "(a + 1) mod 64 = a + 1" "a + 1 < 64" using assms(1) slot_next [of a] by auto
    moreover have "(if a + 1 \<le> b then b - (a + 1) else b + 64 - (a + 1)) = n" 
      by (cases "a \<le> b") (use d assms(1,2) in \<open>simp_all, arith?\<close>)
    ultimately show ?thesis using slot_diff [of b "a + 1"] assms(2) by simp
  qed
qed

lemma ring_slot:
  assumes "a < 64" "b < (64 :: nat)" "i \<le> (b + 64 - a) mod 64"
  shows "(a + i) mod 64 = b \<longleftrightarrow> i = (b + 64 - a) mod 64"
proof (cases "a \<le> b")
  case True
  then have d: "(b + 64 - a) mod 64 = b - a" using assms slot_diff [of b a] by simp
  then have "a + i < 64" using assms True by simp
  then have "(a + i) mod 64 = a + i" by simp
  then show ?thesis unfolding d using True by arith
next
  case False
  then have d: "(b + 64 - a) mod 64 = b + 64 - a" using assms slot_diff [of b a] by simp
  have "(a + i) mod 64 = (if a + i < 64 then a + i else a + i - 64)"
    using assms d by (auto simp: mod_if)
  then show ?thesis unfolding d using False assms d by (simp split: if_splits) arith
qed
lemma ring_full:
  assumes "a < 64" "b < (64 :: nat)"
  shows "(b + 1) mod 64 = a \<longleftrightarrow> (b + 64 - a) mod 64 = 63"
proof -
  have d: "(b + 64 - a) mod 64 = (if a \<le> b then b - a else b + 64 - a)" by (rule slot_diff [OF assms(2,1)])
  show ?thesis unfolding d slot_next [OF assms(2)] using assms by simp arith
qed

lemma unat_next_slot:
  assumes "unat (x :: u64) < 64"
  shows "unat ((x + 1) mod 64) = (unat x + 1) mod 64"
proof -
  have "unat (x + 1) = unat x + 1" using assms by (simp add: unat_u64_add)
  then show ?thesis by (simp add: unat_mod)
qed

lemma next_slot_head:
  assumes "unat (x :: u64) < 64" "unat y < 64"
  shows "(x + 1) mod 64 = y \<longleftrightarrow> (unat x + 64 - unat y) mod 64 = 63"
proof -
  have "(x + 1) mod 64 = y \<longleftrightarrow> (unat x + 1) mod 64 = unat y"
    using unat_next_slot [OF assms(1)] by (metis word_unat_eq_iff)
  also have "\<dots> \<longleftrightarrow> (unat x + 64 - unat y) mod 64 = 63" by (rule ring_full [OF assms(2,1)])
  finally show ?thesis .
qed

lemma schedule_work_spec:
  assumes good: "work_good C s"
  shows "\<exists>s'. schedule_work waiting (fst x) (snd x) s = Some (work_fits x s, s') \<and> work_good C s' \<and>
    work_contents s' = (if work_fits x s then work_contents s @ [x] else work_contents s) \<and>
    work_dropped s' = (if fst x \<noteq> 0 \<and> \<not> work_fits x s then work_dropped s + 1 else work_dropped s)"
proof -
  have G: "length (w_queue s) = 64" "unat (w_head s) < 64" "unat (w_tail s) < 64"
    using good by (simp_all add: work_good_def)
  have full: "(w_tail s + 1) mod 64 = w_head s \<longleftrightarrow> ring_length s = 63"
    using next_slot_head [OF G(3,2)] by (simp add: ring_length_def)
  have len: "length (work_contents s) = ring_length s" by (simp add: work_contents_def)
  have "ring_length s < 64" by (simp add: ring_length_def)
  then have fits: "work_fits x s \<longleftrightarrow> fst x \<noteq> 0 \<and> (w_tail s + 1) mod 64 \<noteq> w_head s"
    using full len by (auto simp: work_fits_def)
  show ?thesis
  proof (cases "work_fits x s")
    case False
    show ?thesis
    proof (cases "fst x = 0")
      case True
      then show ?thesis using False good by (simp add: schedule_work_def)
    next
      case nz: False
      have "work_good C (s\<lparr>w_dropped := w_dropped s + 1\<rparr>)" using good by (simp add: work_good_def)
      moreover have "work_contents (s\<lparr>w_dropped := w_dropped s + 1\<rparr>) = work_contents s"
        by (simp add: work_contents_def ring_length_def)
      ultimately show ?thesis using nz False fits by (simp add: schedule_work_def work_dropped_def)
    qed
  next
    case True
    then have f: "fst x \<noteq> 0" "(w_tail s + 1) mod 64 \<noteq> w_head s" using fits by simp_all
    obtain rq sl wl al where inv: "sched_inv C C (w_sched s) rq sl wl al" using good by (auto simp: work_good_def)
    obtain sc where sc: "wake_all waiting (w_sched s) = Some sc" "sched_inv C C sc (rq @ wl waiting) sl (wl(waiting := [])) al"
      using wake_all_inv [OF inv, of waiting] by blast
    define s' where "s' = s\<lparr>w_queue := (w_queue s)[unat (w_tail s) := x], w_tail := (w_tail s + 1) mod 64, w_sched := sc\<rparr>"
    have e: "schedule_work waiting (fst x) (snd x) s = Some (True, s')"
      using f sc(1) by (simp add: schedule_work_def s'_def Let_def)
    have ut: "unat (w_tail s') = (unat (w_tail s) + 1) mod 64" using unat_next_slot [OF G(3)] by (simp add: s'_def)
    have rl: "ring_length s' = Suc (ring_length s)"
    proof -
      have "(unat (w_tail s) + 64 - unat (w_head s)) mod 64 \<noteq> 63" using f(2) full by (simp add: ring_length_def)
      then have "((unat (w_tail s) + 1) mod 64 + 64 - unat (w_head s)) mod 64 = Suc ((unat (w_tail s) + 64 - unat (w_head s)) mod 64)"
        by (rule ring_put [OF G(2,3)])
      then show ?thesis using ut by (simp add: ring_length_def s'_def)
    qed
    have at: "(unat (w_head s) + i) mod 64 = unat (w_tail s) \<longleftrightarrow> i = ring_length s" if "i \<le> ring_length s" for i
      using ring_slot [OF G(2,3)] that unfolding ring_length_def by blast
    have "work_contents s' = map (\<lambda>i. (w_queue s)[unat (w_tail s) := x] ! ((unat (w_head s) + i) mod 64)) [0..<Suc (ring_length s)]"
      unfolding work_contents_def rl by (simp add: s'_def del: upt_Suc)
    also have "\<dots> = work_contents s @ [x]"
    proof -
      have "(w_queue s)[unat (w_tail s) := x] ! ((unat (w_head s) + i) mod 64) = w_queue s ! ((unat (w_head s) + i) mod 64)"
        if "i < ring_length s" for i using at [of i] that by (simp add: nth_list_update)
      moreover have "(w_queue s)[unat (w_tail s) := x] ! ((unat (w_head s) + ring_length s) mod 64) = x"
        using at [of "ring_length s"] G(1,3) by simp
      ultimately show ?thesis by (simp add: work_contents_def)
    qed
    finally have "work_contents s' = work_contents s @ [x]" .
    moreover have "work_good C s'"
      using good sc(2) ut unfolding work_good_def by (auto simp: s'_def)
    ultimately show ?thesis using e True by (simp add: work_dropped_def s'_def)
  qed
qed

lemma work_take_spec:
  assumes good: "work_good C s"
  shows "case work_contents s of
      [] \<Rightarrow> work_take s = None
    | x # xs \<Rightarrow> \<exists>s'. work_take s = Some (x, s') \<and> work_good C s' \<and> work_contents s' = xs"
proof -
  have G: "length (w_queue s) = 64" "unat (w_head s) < 64" "unat (w_tail s) < 64"
    using good by (simp_all add: work_good_def)
  have eq: "w_head s = w_tail s \<longleftrightarrow> ring_length s = 0"
  proof -
    have "w_head s = w_tail s \<longleftrightarrow> unat (w_head s) = unat (w_tail s)" by (simp add: word_unat_eq_iff)
    also have "\<dots> \<longleftrightarrow> ring_length s = 0" unfolding ring_length_def slot_diff [OF G(3,2)] using G(2,3) by auto
    finally show ?thesis .
  qed
  show ?thesis
  proof (cases "ring_length s")
    case 0
    then show ?thesis using eq by (simp add: work_contents_def work_take_def)
  next
    case (Suc n)
    define s' where "s' = s\<lparr>w_head := (w_head s + 1) mod 64\<rparr>"
    have uh: "unat (w_head s') = (unat (w_head s) + 1) mod 64" using unat_next_slot [OF G(2)] by (simp add: s'_def)
    have rl: "ring_length s' = n"
    proof -
      have "(unat (w_tail s) + 64 - (unat (w_head s) + 1) mod 64) mod 64 = n"
        by (rule ring_get [OF G(2,3)]) (use Suc in \<open>simp add: ring_length_def\<close>)
      then show ?thesis using uh by (simp add: ring_length_def s'_def)
    qed
    have c: "work_contents s = w_queue s ! unat (w_head s) # work_contents s'"
    proof -
      have "[0..<Suc n] = 0 # map Suc [0..<n]" by (simp add: map_Suc_upt upt_conv_Cons del: upt_Suc)
      moreover have "(unat (w_head s) + Suc i) mod 64 = ((unat (w_head s) + 1) mod 64 + i) mod 64" for i
        by (simp add: mod_simps)
      ultimately show ?thesis
        using G(2) unfolding work_contents_def rl Suc uh by (simp add: s'_def del: upt_Suc)
    qed
    have "work_good C s'" using good uh unfolding work_good_def by (auto simp: s'_def)
    moreover have "work_take s = Some (w_queue s ! unat (w_head s), s')" using eq Suc by (simp add: work_take_def s'_def)
    ultimately show ?thesis using c by auto
  qed
qed

interpretation workq: fifo "\<lambda>x. schedule_work waiting (fst x) (snd x)" work_take work_contents "work_good C" work_fits 63
  for waiting C
proof
  show "work_good C s \<Longrightarrow> length (work_contents s) \<le> 63" for s
    by (simp add: work_contents_def ring_length_def)
  show "work_good C s \<Longrightarrow> work_fits x s \<Longrightarrow> length (work_contents s) < 63" for s x by (simp add: work_fits_def)
qed (use schedule_work_spec work_take_spec in blast)+

lemma work_pending_length:
  assumes "work_good C s"
  shows "unat (work_pending s) = length (work_contents s)"
proof -
  have G: "unat (w_head s) < 64" "unat (w_tail s) < 64" using assms by (simp_all add: work_good_def)
  have l: "length (work_contents s) = (if unat (w_head s) \<le> unat (w_tail s) then unat (w_tail s) - unat (w_head s)
      else unat (w_tail s) + 64 - unat (w_head s))"
    using slot_diff [OF G(2,1)] by (simp add: work_contents_def ring_length_def)
  have "unat (64 - w_head s + w_tail s) = 64 - unat (w_head s) + unat (w_tail s)"
    using G by (simp add: unat_u64_add unat_u64_sub word_le_nat_alt)
  then show ?thesis
    unfolding l using G by (auto simp: work_pending_def word_le_nat_alt unat_u64_sub)
qed

section \<open>Properties\<close>


text \<open>
  One drain runs the pending items in the order they were scheduled and ends with an empty
  queue, when the work functions themselves schedule nothing.
\<close>

lemma work_run_pending_in_order:
  assumes "work_good C s"
    and "\<And>f c t. run f c t = t\<lparr>w_sched := effect f c (w_sched t)\<rparr>"
    and "\<And>f c t. work_good C t \<Longrightarrow> work_good C (t\<lparr>w_sched := effect f c (w_sched t)\<rparr>)"
  shows "\<exists>s'. work_run_pending run s = Some s' \<and> work_contents s' = [] \<and> work_pending s' = 0 \<and>
    w_sched s' = fold (\<lambda>x. effect (fst x) (snd x)) (work_contents s) (w_sched s)"
  using assms(1)
proof (induction "work_contents s" arbitrary: s)
  case Nil
  then have "work_take s = None" using workq.get_none [of C s] by simp
  moreover have "work_pending s = 0" using work_pending_length [OF Nil.prems] Nil.hyps by (simp add: unat_eq_0)
  ultimately show ?case using Nil by (subst work_run_pending.simps) simp
next
  case (Cons x xs)
  then obtain s1 where s1: "work_take s = Some (x, s1)" "work_good C s1" "work_contents s1 = xs"
    using work_take_spec [OF Cons.prems] Cons.hyps(2) [symmetric] by auto
  let ?s2 = "run (fst x) (snd x) s1"
  have step: "work_run_pending run s = work_run_pending run ?s2"
    using s1(1) by (subst work_run_pending.simps) simp
  have "w_sched s1 = w_sched s" using s1(1) by (auto simp: work_take_def split: if_splits)
  moreover have "work_contents ?s2 = xs" using s1(3) assms(2) by (simp add: work_contents_def ring_length_def)
  moreover have "work_good C ?s2" using assms(2,3) s1(2) by simp
  ultimately show ?case using Cons.hyps(1) [of ?s2] Cons.hyps(2) step assms(2) by (auto simp flip: Cons.hyps(2))
qed

section \<open>Witnesses\<close>

definition empty_work :: work where
  "empty_work = \<lparr>w_queue = replicate 64 (0, 0), w_head = 0, w_tail = 0, w_dropped = 0, w_sched = one_cpu\<rparr>"

lemma empty_work_good: "work_good {0} empty_work"
  using sched_start_inv [OF one_cpu_start] by (auto simp: work_good_def empty_work_def)

lemma empty_work_contents: "work_contents empty_work = []" "work_pending empty_work = 0"
  by (simp_all add: work_contents_def ring_length_def empty_work_def work_pending_def)


lemma work_run_pending_in_order_example:
  "\<exists>s' s''. schedule_work 8 0x100 7 empty_work = Some (True, s') \<and>
     work_run_pending (\<lambda>f c t. t\<lparr>w_sched := w_sched t\<rparr>) s' = Some s'' \<and> work_contents s'' = []"
proof -
  obtain s' where s': "schedule_work 8 0x100 7 empty_work = Some (True, s')" "work_good {0} s'"
    using workq.put_law [OF empty_work_good, of 8 "(0x100, 7)"] empty_work_contents by (auto simp: work_fits_def)
  then show ?thesis
    using work_run_pending_in_order [OF s'(2), of "\<lambda>f c t. t\<lparr>w_sched := w_sched t\<rparr>" "\<lambda>_ _ x. x"] by auto
qed

end
