(* ===== verification/Lock.thy ===== *)
theory Lock
  imports Prelude
begin

unbundle bit_operations_syntax

text \<open>
  The locks of \<^verbatim>\<open>include/eris/lock.hpp\<close> and \<^verbatim>\<open>kernel/lib/lock.cpp\<close> as step relations over any
  number of processors: one step is one atomic access to the lock or one instruction on the
  processor's flags, and the processors interleave in any order.

  The memory is sequentially consistent: the exchange that takes a lock is a locked instruction
  on x86 and the releases are ordered stores. A processor is named by its index; the index
  that means no owner names none.
\<close>

section \<open>The plain lock and the flags register\<close>

definition spin_exchange :: "bool \<Rightarrow> bool \<times> bool" where
  "spin_exchange locked = (locked, True)"

definition spin_try_lock :: "bool \<Rightarrow> bool \<times> bool" where
  "spin_try_lock locked = (let (old, l) = spin_exchange locked in (\<not> old, l))"

definition spin_unlock :: "bool \<Rightarrow> bool" where
  "spin_unlock locked = False"

definition no_owner :: u32 where
  "no_owner = 0xFFFFFFFF"

definition cli :: "u64 \<Rightarrow> u64" where
  "cli rflags = rflags AND NOT (push_bit 9 1)"

definition sti :: "u64 \<Rightarrow> u64" where
  "sti rflags = rflags OR push_bit 9 1"

definition restore_flags :: "u64 \<Rightarrow> u64 \<Rightarrow> u64" where
  "restore_flags flags rflags = (if flags AND push_bit 9 1 \<noteq> 0 then sti rflags else rflags)"

lemma bit_9: "bit (push_bit 9 1 :: u64) n \<longleftrightarrow> n = 9"
  unfolding bit_push_bit_iff by (auto simp: bit_1_iff)

lemma and_bit9: "(x :: u64) AND push_bit 9 1 \<noteq> 0 \<longleftrightarrow> bit x 9"
proof -
  have "x AND push_bit 9 1 = (if bit x 9 then push_bit 9 1 else 0)"
    by (rule bit_word_eqI) (auto simp only: bit_and_iff bit_9 bit_0_eq bot_apply bot_bool_def split: if_splits)
  moreover have "(push_bit 9 1 :: u64) \<noteq> 0" by simp
  ultimately show ?thesis by simp
qed

lemma cli_bit: "n < 64 \<Longrightarrow> bit (cli x) n \<longleftrightarrow> bit x n \<and> n \<noteq> 9"
  unfolding cli_def bit_and_iff bit_not_iff bit_9 by auto

lemma sti_bit: "n < 64 \<Longrightarrow> bit (sti x) n \<longleftrightarrow> bit x n \<or> n = 9"
  unfolding sti_def bit_or_iff bit_9 by auto

lemma restore_flags_cli: "restore_flags x (cli x) = x"
  unfolding restore_flags_def and_bit9
  by (auto intro!: bit_word_eqI simp: sti_bit cli_bit)

lemma cli_idem: "\<not> bit x 9 \<Longrightarrow> cli x = x"
  by (rule bit_word_eqI) (auto simp: cli_bit)

section \<open>The interrupt-safe lock\<close>

datatype irq_pc = Idle | AtSave | AtCli | AtHeld | AtOwner | AtExchange | AtStore | Inside
  | AtClear | AtRelease | AtRestore | Panicked

record irq_cpu =
  ic_pc :: irq_pc
  ic_rflags :: u64
  ic_saved :: "u64 list"
  ic_nested :: bool

record irq_sys =
  is_locked :: bool
  is_owner :: u32
  is_cpu :: "u32 \<Rightarrow> irq_cpu"

definition set_cpu :: "u32 \<Rightarrow> irq_cpu \<Rightarrow> irq_sys \<Rightarrow> irq_sys" where
  "set_cpu c p s = s\<lparr>is_cpu := (is_cpu s)(c := p)\<rparr>"

text \<open>The next access processor \<open>c\<close> makes in \<open>lock\<close> or \<open>unlock\<close>.\<close>

definition irq_lock_step :: "u32 \<Rightarrow> irq_sys \<Rightarrow> irq_sys" where
  "irq_lock_step c s =
     (let p = is_cpu s c
      in case ic_pc p of
           AtSave \<Rightarrow> set_cpu c (p\<lparr>ic_saved := ic_rflags p # ic_saved p, ic_pc := AtCli\<rparr>) s
         | AtCli \<Rightarrow> set_cpu c (p\<lparr>ic_rflags := cli (ic_rflags p), ic_pc := AtHeld\<rparr>) s
         | AtHeld \<Rightarrow> set_cpu c (p\<lparr>ic_pc := (if is_locked s then AtOwner else AtExchange)\<rparr>) s
         | AtOwner \<Rightarrow> set_cpu c (p\<lparr>ic_pc := (if is_owner s = c then Panicked else AtExchange)\<rparr>) s
         | AtExchange \<Rightarrow> (let (old, l) = spin_exchange (is_locked s)
                         in set_cpu c (p\<lparr>ic_pc := (if old then AtExchange else AtStore)\<rparr>) (s\<lparr>is_locked := l\<rparr>))
         | AtStore \<Rightarrow> set_cpu c (p\<lparr>ic_pc := Inside\<rparr>) (s\<lparr>is_owner := c\<rparr>)
         | AtClear \<Rightarrow> set_cpu c (p\<lparr>ic_pc := AtRelease\<rparr>) (s\<lparr>is_owner := no_owner\<rparr>)
         | AtRelease \<Rightarrow> set_cpu c (p\<lparr>ic_pc := AtRestore\<rparr>) (s\<lparr>is_locked := spin_unlock (is_locked s)\<rparr>)
         | AtRestore \<Rightarrow> set_cpu c (p\<lparr>ic_rflags := restore_flags (hd (ic_saved p)) (ic_rflags p),
                          ic_saved := tl (ic_saved p), ic_pc := Idle\<rparr>) s
         | _ \<Rightarrow> s)"

text \<open>
  What the processors may do: call \<open>lock\<close> while outside, call it again inside (a handler or a
  function that already holds it), call \<open>unlock\<close>, make the next access, or change the flags
  while outside.
\<close>

inductive irq_step :: "irq_sys \<Rightarrow> irq_sys \<Rightarrow> bool" where
  call: "c \<noteq> no_owner \<Longrightarrow> ic_pc (is_cpu s c) = Idle \<Longrightarrow>
    irq_step s (set_cpu c ((is_cpu s c)\<lparr>ic_pc := AtSave\<rparr>) s)"
| again: "c \<noteq> no_owner \<Longrightarrow> ic_pc (is_cpu s c) = Inside \<Longrightarrow>
    irq_step s (set_cpu c ((is_cpu s c)\<lparr>ic_pc := AtSave, ic_nested := True\<rparr>) s)"
| leave: "c \<noteq> no_owner \<Longrightarrow> ic_pc (is_cpu s c) = Inside \<Longrightarrow>
    irq_step s (set_cpu c ((is_cpu s c)\<lparr>ic_pc := AtClear\<rparr>) s)"
| access: "c \<noteq> no_owner \<Longrightarrow> irq_step s (irq_lock_step c s)"
| flags: "c \<noteq> no_owner \<Longrightarrow> ic_pc (is_cpu s c) = Idle \<Longrightarrow>
    irq_step s (set_cpu c ((is_cpu s c)\<lparr>ic_rflags := f\<rparr>) s)"

definition irq_start :: irq_sys where
  "irq_start = \<lparr>is_locked = False, is_owner = no_owner,
     is_cpu = (\<lambda>_. \<lparr>ic_pc = Idle, ic_rflags = 0x202, ic_saved = [], ic_nested = False\<rparr>)\<rparr>"

inductive irq_reachable :: "irq_sys \<Rightarrow> bool" where
  start: "irq_reachable irq_start"
| step: "irq_reachable s \<Longrightarrow> irq_step s t \<Longrightarrow> irq_reachable t"

text \<open>A processor owns the lock from the exchange that took it to the store that frees it.\<close>

definition irq_holds :: "irq_cpu \<Rightarrow> bool" where
  "irq_holds p \<longleftrightarrow> ic_nested p \<or> ic_pc p \<in> {AtStore, Inside, AtClear, AtRelease}"

definition irq_named :: "irq_cpu \<Rightarrow> bool" where
  "irq_named p \<longleftrightarrow> ic_nested p \<or> ic_pc p \<in> {Inside, AtClear}"

text \<open>What the flags of a processor are at each point of the code.\<close>

definition irq_flags_ok :: "irq_cpu \<Rightarrow> bool" where
  "irq_flags_ok p \<longleftrightarrow>
     (ic_nested p \<longrightarrow> ic_pc p \<in> {AtSave, AtCli, AtHeld, AtOwner, Panicked} \<and> \<not> bit (ic_rflags p) 9) \<and>
     (ic_pc p = Panicked \<longrightarrow> ic_nested p) \<and>
     (ic_pc p = AtCli \<longrightarrow> ic_saved p \<noteq> [] \<and> ic_rflags p = hd (ic_saved p)) \<and>
     (ic_pc p \<notin> {Idle, AtSave, AtCli} \<longrightarrow> ic_saved p \<noteq> [] \<and> ic_rflags p = cli (hd (ic_saved p)))"

definition irq_inv :: "irq_sys \<Rightarrow> bool" where
  "irq_inv s \<longleftrightarrow>
     (\<forall>c. irq_holds (is_cpu s c) \<longrightarrow> c \<noteq> no_owner \<and> is_locked s) \<and>
     (\<forall>c d. irq_holds (is_cpu s c) \<longrightarrow> irq_holds (is_cpu s d) \<longrightarrow> c = d) \<and>
     (is_locked s \<longrightarrow> (\<exists>c. irq_holds (is_cpu s c))) \<and>
     (\<forall>c. c \<noteq> no_owner \<longrightarrow> (is_owner s = c \<longleftrightarrow> irq_named (is_cpu s c))) \<and>
     (\<forall>c. irq_flags_ok (is_cpu s c))"

lemma set_cpu_simps [simp]:
  "is_cpu (set_cpu c p s) = (is_cpu s)(c := p)" "is_locked (set_cpu c p s) = is_locked s"
  "is_owner (set_cpu c p s) = is_owner s"
  by (simp_all add: set_cpu_def)

text \<open>A step of one processor that leaves the lock alone keeps the invariant when its own part does.\<close>

lemma irq_inv_local:
  assumes "irq_inv s" and "irq_holds p = irq_holds (is_cpu s c)" "irq_named p = irq_named (is_cpu s c)"
    and "irq_flags_ok p"
  shows "irq_inv (set_cpu c p s)"
  using assms unfolding irq_inv_def by auto

lemma irq_invD:
  assumes "irq_inv s"
  shows "irq_holds (is_cpu s c) \<Longrightarrow> is_locked s" "irq_holds (is_cpu s c) \<Longrightarrow> irq_holds (is_cpu s d) \<Longrightarrow> c = d"
    "c \<noteq> no_owner \<Longrightarrow> is_owner s = c \<longleftrightarrow> irq_named (is_cpu s c)" "irq_flags_ok (is_cpu s c)"
    "irq_holds (is_cpu s c) \<Longrightarrow> c \<noteq> no_owner"
  using assms unfolding irq_inv_def by blast+

lemmas irq_defs = irq_holds_def irq_named_def irq_flags_ok_def

text \<open>A step on the lock itself, by the only processor that may hold it before or after.\<close>

lemma irq_inv_holder:
  assumes inv: "irq_inv s" and h: "\<And>d. irq_holds (is_cpu s d) \<Longrightarrow> d = c" and c: "c \<noteq> no_owner"
    and l: "irq_holds p \<longleftrightarrow> l" and o: "w = c \<longleftrightarrow> irq_named p" "w = c \<or> w = no_owner"
    and p: "irq_flags_ok p"
  shows "irq_inv (set_cpu c p (s\<lparr>is_locked := l, is_owner := w\<rparr>))"
proof -
  have "\<not> irq_holds (is_cpu s e) \<and> \<not> irq_named (is_cpu s e)" if "e \<noteq> c" for e
    using h [of e] that unfolding irq_holds_def irq_named_def by blast
  moreover have "irq_flags_ok (is_cpu s e)" for e using inv by (simp add: irq_inv_def)
  ultimately show ?thesis
    using c l o p unfolding irq_inv_def by (auto split: if_splits)
qed

lemma irq_owner:
  assumes "irq_inv s" and "\<And>d. irq_holds (is_cpu s d) \<Longrightarrow> d = c"
  shows "is_owner s = c \<or> is_owner s = no_owner"
proof (rule ccontr)
  assume a: "\<not> ?thesis"
  then have "irq_named (is_cpu s (is_owner s))" using irq_invD(3) [OF assms(1), of "is_owner s"] by simp
  then have "irq_holds (is_cpu s (is_owner s))" by (auto simp: irq_defs)
  then show False using assms(2) a by blast
qed

lemma irq_lock_step_inv:
  assumes inv: "irq_inv s" and c: "c \<noteq> no_owner"
  shows "irq_inv (irq_lock_step c s)"
proof -
  define p where "p = is_cpu s c"
  note D = irq_invD [OF inv]
  have ok: "irq_flags_ok p" using D(4) by (simp add: p_def)
  have own: "is_owner s = c \<longleftrightarrow> irq_named p" using D(3) [OF c] by (simp add: p_def)
  have loc: "irq_inv (set_cpu c q s)"
    if "irq_holds q = irq_holds p" "irq_named q = irq_named p" "irq_flags_ok q" for q
    using irq_inv_local [OF inv] that by (simp add: p_def)
  have glob: "irq_inv (set_cpu c q (s\<lparr>is_locked := l, is_owner := w\<rparr>))"
    if "irq_holds p \<or> \<not> is_locked s" "irq_holds q \<longleftrightarrow> l" "w = c \<longleftrightarrow> irq_named q" "w = c \<or> w = no_owner" "irq_flags_ok q"
    for q l w
  proof (rule irq_inv_holder [OF inv _ c that(2-5)])
    fix d assume "irq_holds (is_cpu s d)"
    then show "d = c" using D(1,2) that(1) p_def by blast
  qed
  have upd: "s\<lparr>is_locked := l\<rparr> = s\<lparr>is_locked := l, is_owner := is_owner s\<rparr>"
    "s\<lparr>is_owner := w\<rparr> = s\<lparr>is_locked := is_locked s, is_owner := w\<rparr>" for l w by simp_all
  have free: "is_owner s = c \<or> is_owner s = no_owner" if "irq_holds p \<or> \<not> is_locked s"
    by (rule irq_owner [OF inv]) (use D(1,2) that p_def in blast)
  show ?thesis
  proof (cases "ic_pc p")
    case AtExchange
    show ?thesis
    proof (cases "is_locked s")
      case True
      then have "irq_lock_step c s = set_cpu c (p\<lparr>ic_pc := AtExchange\<rparr>) (s\<lparr>is_locked := True\<rparr>)"
        using AtExchange by (simp add: irq_lock_step_def p_def [symmetric] spin_exchange_def)
      also have "s\<lparr>is_locked := True\<rparr> = s" using True by (cases s) simp
      finally show ?thesis using loc [of "p\<lparr>ic_pc := AtExchange\<rparr>"] ok AtExchange by (simp add: irq_defs)
    next
      case False
      have "irq_lock_step c s = set_cpu c (p\<lparr>ic_pc := AtStore\<rparr>) (s\<lparr>is_locked := True, is_owner := is_owner s\<rparr>)"
        using AtExchange False by (simp add: irq_lock_step_def p_def [symmetric] spin_exchange_def)
      also have "irq_inv \<dots>" using False ok own free AtExchange by (intro glob) (auto simp: irq_defs)
      finally show ?thesis .
    qed
  next
    case AtStore
    then have "irq_lock_step c s = set_cpu c (p\<lparr>ic_pc := Inside\<rparr>) (s\<lparr>is_locked := is_locked s, is_owner := c\<rparr>)"
      by (simp add: irq_lock_step_def p_def [symmetric])
    also have "irq_inv \<dots>" using D(1) [of c] ok AtStore by (intro glob) (auto simp: irq_defs p_def)
    finally show ?thesis .
  next
    case AtClear
    then have "irq_lock_step c s = set_cpu c (p\<lparr>ic_pc := AtRelease\<rparr>) (s\<lparr>is_locked := is_locked s, is_owner := no_owner\<rparr>)"
      by (simp add: irq_lock_step_def p_def [symmetric])
    also have "irq_inv \<dots>" using D(1) [of c] ok AtClear c by (intro glob) (auto simp: irq_defs p_def)
    finally show ?thesis .
  next
    case AtRelease
    then have "irq_lock_step c s = set_cpu c (p\<lparr>ic_pc := AtRestore\<rparr>) (s\<lparr>is_locked := False, is_owner := is_owner s\<rparr>)"
      by (simp add: irq_lock_step_def p_def [symmetric] spin_unlock_def)
    also have "irq_inv \<dots>" using own free ok AtRelease by (intro glob) (auto simp: irq_defs)
    finally show ?thesis .
  next
    case AtHeld
    have "ic_nested p \<Longrightarrow> is_locked s" using D(1) [of c] by (auto simp: irq_holds_def p_def)
    then show ?thesis using AtHeld ok
      by (auto simp: irq_lock_step_def p_def [symmetric] intro!: loc) (auto simp: irq_defs)
  next
    case AtOwner
    then have "irq_lock_step c s = set_cpu c (p\<lparr>ic_pc := (if irq_named p then Panicked else AtExchange)\<rparr>) s"
      using own by (simp add: irq_lock_step_def p_def [symmetric])
    also have "irq_inv \<dots>" using ok AtOwner by (intro loc) (auto simp: irq_defs)
    finally show ?thesis .
  qed (use ok inv in \<open>auto simp: irq_lock_step_def p_def [symmetric] irq_defs cli_bit intro!: loc\<close>)
qed

lemma irq_step_inv: "irq_step s t \<Longrightarrow> irq_inv s \<Longrightarrow> irq_inv t"
proof (induction rule: irq_step.induct)
  case (access c s)
  then show ?case by (rule irq_lock_step_inv [rotated])
next
  case (leave c s)
  then show ?case using irq_invD(4) [of s c] by (auto intro!: irq_inv_local simp: irq_defs)
next
  case (again c s)
  then show ?case using irq_invD(4) [of s c] by (auto intro!: irq_inv_local simp: irq_defs cli_bit)
next
  case (call c s)
  then show ?case using irq_invD(4) [of s c] by (auto intro!: irq_inv_local simp: irq_defs)
next
  case (flags c s f)
  then show ?case using irq_invD(4) [of s c] by (auto intro!: irq_inv_local simp: irq_defs)
qed

lemma irq_reachable_inv: "irq_reachable s \<Longrightarrow> irq_inv s"
proof (induction rule: irq_reachable.induct)
  case start
  show ?case by (auto simp: irq_inv_def irq_start_def irq_defs)
next
  case (step s t)
  then show ?case by (blast intro: irq_step_inv)
qed

section \<open>The recursive lock\<close>

datatype rec_pc = ROut | RSave | RCli | RDepth | ROwner | RBump | RExchange | RStore | RFirst | RIn
  | RDrop | RClear | RRelease | RRestore

record rec_cpu =
  rc_pc :: rec_pc
  rc_rflags :: u64
  rc_saved :: "u64 list"

record rec_sys =
  rs_locked :: bool
  rs_owner :: u32
  rs_depth :: u32
  rs_cpu :: "u32 \<Rightarrow> rec_cpu"

definition set_rcpu :: "u32 \<Rightarrow> rec_cpu \<Rightarrow> rec_sys \<Rightarrow> rec_sys" where
  "set_rcpu c p s = s\<lparr>rs_cpu := (rs_cpu s)(c := p)\<rparr>"

definition rec_lock_step :: "u32 \<Rightarrow> rec_sys \<Rightarrow> rec_sys" where
  "rec_lock_step c s =
     (let p = rs_cpu s c
      in case rc_pc p of
           RSave \<Rightarrow> set_rcpu c (p\<lparr>rc_saved := rc_rflags p # rc_saved p, rc_pc := RCli\<rparr>) s
         | RCli \<Rightarrow> set_rcpu c (p\<lparr>rc_rflags := cli (rc_rflags p), rc_pc := RDepth\<rparr>) s
         | RDepth \<Rightarrow> set_rcpu c (p\<lparr>rc_pc := (if rs_depth s > 0 then ROwner else RExchange)\<rparr>) s
         | ROwner \<Rightarrow> set_rcpu c (p\<lparr>rc_pc := (if rs_owner s = c then RBump else RExchange)\<rparr>) s
         | RBump \<Rightarrow> set_rcpu c (p\<lparr>rc_pc := RIn\<rparr>) (s\<lparr>rs_depth := rs_depth s + 1\<rparr>)
         | RExchange \<Rightarrow> (let (old, l) = spin_exchange (rs_locked s)
                        in set_rcpu c (p\<lparr>rc_pc := (if old then RExchange else RStore)\<rparr>) (s\<lparr>rs_locked := l\<rparr>))
         | RStore \<Rightarrow> set_rcpu c (p\<lparr>rc_pc := RFirst\<rparr>) (s\<lparr>rs_owner := c\<rparr>)
         | RFirst \<Rightarrow> set_rcpu c (p\<lparr>rc_pc := RIn\<rparr>) (s\<lparr>rs_depth := 1\<rparr>)
         | RDrop \<Rightarrow> (let d = rs_depth s - 1
                    in set_rcpu c (p\<lparr>rc_pc := (if d = 0 then RClear else RRestore)\<rparr>) (s\<lparr>rs_depth := d\<rparr>))
         | RClear \<Rightarrow> set_rcpu c (p\<lparr>rc_pc := RRelease\<rparr>) (s\<lparr>rs_owner := no_owner\<rparr>)
         | RRelease \<Rightarrow> set_rcpu c (p\<lparr>rc_pc := RRestore\<rparr>) (s\<lparr>rs_locked := spin_unlock (rs_locked s)\<rparr>)
         | RRestore \<Rightarrow> set_rcpu c (p\<lparr>rc_rflags := restore_flags (hd (rc_saved p)) (rc_rflags p),
                         rc_saved := tl (rc_saved p), rc_pc := (if tl (rc_saved p) = [] then ROut else RIn)\<rparr>) s
         | _ \<Rightarrow> s)"

text \<open>
  A processor may call \<open>lock\<close> again while it is inside; its stack bounds how often, well below
  the range of the 32 bit counter.
\<close>

inductive rec_step :: "rec_sys \<Rightarrow> rec_sys \<Rightarrow> bool" where
  rcall: "c \<noteq> no_owner \<Longrightarrow> rc_pc (rs_cpu s c) = ROut \<Longrightarrow>
    rec_step s (set_rcpu c ((rs_cpu s c)\<lparr>rc_pc := RSave\<rparr>) s)"
| ragain: "c \<noteq> no_owner \<Longrightarrow> rc_pc (rs_cpu s c) = RIn \<Longrightarrow> length (rc_saved (rs_cpu s c)) < 0xFFFFFFFF \<Longrightarrow>
    rec_step s (set_rcpu c ((rs_cpu s c)\<lparr>rc_pc := RSave\<rparr>) s)"
| rleave: "c \<noteq> no_owner \<Longrightarrow> rc_pc (rs_cpu s c) = RIn \<Longrightarrow>
    rec_step s (set_rcpu c ((rs_cpu s c)\<lparr>rc_pc := RDrop\<rparr>) s)"
| raccess: "c \<noteq> no_owner \<Longrightarrow> rec_step s (rec_lock_step c s)"

definition rec_start :: rec_sys where
  "rec_start = \<lparr>rs_locked = False, rs_owner = no_owner, rs_depth = 0,
     rs_cpu = (\<lambda>_. \<lparr>rc_pc = ROut, rc_rflags = 0x202, rc_saved = []\<rparr>)\<rparr>"

inductive rec_reachable :: "rec_sys \<Rightarrow> bool" where
  rstart: "rec_reachable rec_start"
| rstep: "rec_reachable s \<Longrightarrow> rec_step s t \<Longrightarrow> rec_reachable t"

text \<open>How many times a processor holds the lock: one saved flags word for each.\<close>

definition rec_level :: "rec_cpu \<Rightarrow> nat" where
  "rec_level p = (case rc_pc p of
       RIn \<Rightarrow> length (rc_saved p) | RSave \<Rightarrow> length (rc_saved p) | RDrop \<Rightarrow> length (rc_saved p)
     | RCli \<Rightarrow> length (rc_saved p) - 1 | RDepth \<Rightarrow> length (rc_saved p) - 1 | ROwner \<Rightarrow> length (rc_saved p) - 1
     | RBump \<Rightarrow> length (rc_saved p) - 1 | RRestore \<Rightarrow> length (rc_saved p) - 1 | _ \<Rightarrow> 0)"

definition rec_holds :: "rec_cpu \<Rightarrow> bool" where
  "rec_holds p \<longleftrightarrow> 0 < rec_level p \<or> rc_pc p \<in> {RStore, RFirst, RClear, RRelease}"

definition rec_named :: "rec_cpu \<Rightarrow> bool" where
  "rec_named p \<longleftrightarrow> 0 < rec_level p \<or> rc_pc p \<in> {RFirst, RClear}"

definition rec_local :: "rec_cpu \<Rightarrow> bool" where
  "rec_local p \<longleftrightarrow> length (rc_saved p) \<le> 0xFFFFFFFF \<and>
     (rc_pc p = ROut \<longrightarrow> rc_saved p = []) \<and> (rc_pc p \<notin> {ROut, RSave} \<longrightarrow> rc_saved p \<noteq> []) \<and>
     (rc_pc p = RSave \<longrightarrow> length (rc_saved p) < 0xFFFFFFFF) \<and>
     (rc_pc p \<in> {RExchange, RStore, RFirst, RClear, RRelease} \<longrightarrow> length (rc_saved p) = 1) \<and>
     (rc_pc p = RBump \<longrightarrow> 1 < length (rc_saved p))"

definition rec_inv :: "rec_sys \<Rightarrow> bool" where
  "rec_inv s \<longleftrightarrow>
     (\<forall>c. rec_holds (rs_cpu s c) \<longrightarrow> c \<noteq> no_owner \<and> rs_locked s) \<and>
     (\<forall>c d. rec_holds (rs_cpu s c) \<longrightarrow> rec_holds (rs_cpu s d) \<longrightarrow> c = d) \<and>
     (\<forall>c. c \<noteq> no_owner \<longrightarrow> (rs_owner s = c \<longleftrightarrow> rec_named (rs_cpu s c))) \<and>
     (\<forall>c. 0 < rec_level (rs_cpu s c) \<longrightarrow> unat (rs_depth s) = rec_level (rs_cpu s c)) \<and>
     ((\<forall>c. rec_level (rs_cpu s c) = 0) \<longrightarrow> rs_depth s = 0) \<and>
     (\<forall>c. rec_local (rs_cpu s c))"

lemma set_rcpu_simps [simp]:
  "rs_cpu (set_rcpu c p s) = (rs_cpu s)(c := p)" "rs_locked (set_rcpu c p s) = rs_locked s"
  "rs_owner (set_rcpu c p s) = rs_owner s" "rs_depth (set_rcpu c p s) = rs_depth s"
  by (simp_all add: set_rcpu_def)

lemma rec_inv_local:
  assumes "rec_inv s" and "rec_holds p = rec_holds (rs_cpu s c)" "rec_named p = rec_named (rs_cpu s c)"
    and "rec_level p = rec_level (rs_cpu s c)" and "rec_local p"
  shows "rec_inv (set_rcpu c p s)"
proof -
  have eq: "rec_holds (((rs_cpu s)(c := p)) e) = rec_holds (rs_cpu s e)"
    "rec_named (((rs_cpu s)(c := p)) e) = rec_named (rs_cpu s e)"
    "rec_level (((rs_cpu s)(c := p)) e) = rec_level (rs_cpu s e)" for e
    using assms(2-4) by simp_all
  have "rec_local (((rs_cpu s)(c := p)) e)" for e using assms(1,5) by (simp add: rec_inv_def)
  then show ?thesis using assms(1) unfolding rec_inv_def set_rcpu_simps eq by blast
qed

lemma rec_invD:
  assumes "rec_inv s"
  shows "rec_holds (rs_cpu s c) \<Longrightarrow> rs_locked s" "rec_holds (rs_cpu s c) \<Longrightarrow> rec_holds (rs_cpu s d) \<Longrightarrow> c = d"
    "c \<noteq> no_owner \<Longrightarrow> rs_owner s = c \<longleftrightarrow> rec_named (rs_cpu s c)" "rec_local (rs_cpu s c)"
    "0 < rec_level (rs_cpu s c) \<Longrightarrow> unat (rs_depth s) = rec_level (rs_cpu s c)"
    "(\<And>c. rec_level (rs_cpu s c) = 0) \<Longrightarrow> rs_depth s = 0"
  using assms unfolding rec_inv_def by blast+

lemmas rec_defs = rec_holds_def rec_named_def rec_level_def rec_local_def

text \<open>A step of the holder on the shared fields.\<close>

lemma rec_inv_holder:
  assumes inv: "rec_inv s" and h: "\<And>d. rec_holds (rs_cpu s d) \<Longrightarrow> d = c" and c: "c \<noteq> no_owner"
    and l: "rec_holds p \<Longrightarrow> l" and o: "w = c \<longleftrightarrow> rec_named p" "w = c \<or> w = no_owner"
    and d: "unat d = rec_level p" and p: "rec_local p"
  shows "rec_inv (set_rcpu c p (s\<lparr>rs_locked := l, rs_owner := w, rs_depth := d\<rparr>))"
proof -
  have n: "\<not> rec_holds (rs_cpu s e)" "\<not> rec_named (rs_cpu s e)" "rec_level (rs_cpu s e) = 0" if "e \<noteq> c" for e
  proof -
    show "\<not> rec_holds (rs_cpu s e)" using h [of e] that by blast
    then show "\<not> rec_named (rs_cpu s e)" "rec_level (rs_cpu s e) = 0" by (simp_all add: rec_holds_def rec_named_def)
  qed
  have "rec_local (rs_cpu s e)" for e using inv by (simp add: rec_inv_def)
  then show ?thesis
    using n c l o d p unfolding rec_inv_def
    by (auto simp: unat_eq_0 split: if_splits)
qed

lemma rec_owner:
  assumes "rec_inv s" and "\<And>d. rec_holds (rs_cpu s d) \<Longrightarrow> d = c"
  shows "rs_owner s = c \<or> rs_owner s = no_owner"
proof (rule ccontr)
  assume a: "\<not> ?thesis"
  then have "rec_named (rs_cpu s (rs_owner s))" using rec_invD(3) [OF assms(1), of "rs_owner s"] by simp
  then have "rec_holds (rs_cpu s (rs_owner s))" by (auto simp: rec_holds_def rec_named_def)
  then show False using assms(2) a by blast
qed

lemma rec_depth:
  assumes "rec_inv s" and "\<And>d. rec_holds (rs_cpu s d) \<Longrightarrow> d = c"
  shows "unat (rs_depth s) = rec_level (rs_cpu s c)"
proof (cases "0 < rec_level (rs_cpu s c)")
  case False
  have "rec_level (rs_cpu s d) = 0" for d using assms(2) [of d] False rec_holds_def by (metis neq0_conv)
  then show ?thesis using rec_invD(6) [OF assms(1)] by simp
qed (use rec_invD(5) [OF assms(1)] in blast)

lemma rec_lock_step_inv:
  assumes inv: "rec_inv s" and c: "c \<noteq> no_owner"
  shows "rec_inv (rec_lock_step c s)"
proof -
  define p where "p = rs_cpu s c"
  note D = rec_invD [OF inv]
  have ok: "rec_local p" using D(4) by (simp add: p_def)
  have own: "rs_owner s = c \<longleftrightarrow> rec_named p" using D(3) [OF c] by (simp add: p_def)
  have loc: "rec_inv (set_rcpu c q s)"
    if "rec_holds q = rec_holds p" "rec_named q = rec_named p" "rec_level q = rec_level p" "rec_local q" for q
    using rec_inv_local [OF inv] that by (simp add: p_def)
  have glob: "rec_inv (set_rcpu c q (s\<lparr>rs_locked := l, rs_owner := w, rs_depth := d\<rparr>))"
    if "rec_holds p \<or> \<not> rs_locked s" "rec_holds q \<Longrightarrow> l" "w = c \<longleftrightarrow> rec_named q" "w = c \<or> w = no_owner"
      "unat d = rec_level q" "rec_local q" for q l w d
  proof (rule rec_inv_holder [OF inv _ c that(2-6)])
    fix d assume "rec_holds (rs_cpu s d)"
    then show "d = c" using D(1,2) that(1) p_def by blast
  qed
  have only: "rec_holds p \<or> \<not> rs_locked s \<Longrightarrow> rec_holds (rs_cpu s d) \<Longrightarrow> d = c" for d
    using D(1,2) p_def by blast
  have free: "rs_owner s = c \<or> rs_owner s = no_owner" "unat (rs_depth s) = rec_level p"
    if "rec_holds p \<or> \<not> rs_locked s"
    using rec_owner [OF inv only [OF that]] rec_depth [OF inv only [OF that]] by (simp_all add: p_def)
  have held: "rec_holds p \<Longrightarrow> rs_locked s" using D(1) [of c] by (simp add: p_def)
  have nz: "rs_depth s = 0 \<Longrightarrow> rec_level p = 0" using D(5) [of c] by (auto simp: p_def)
  note st = rec_lock_step_def p_def [symmetric]
  show ?thesis
  proof (cases "rc_pc p")
    case RDepth
    then have one: "\<not> rs_depth s > 0 \<Longrightarrow> length (rc_saved p) = 1"
      using nz ok by (cases "rc_saved p") (auto simp: rec_defs word_gt_0)
    have "rec_lock_step c s = set_rcpu c (p\<lparr>rc_pc := (if rs_depth s > 0 then ROwner else RExchange)\<rparr>) s"
      using RDepth by (simp add: st)
    also have "rec_inv \<dots>" using ok RDepth one by (intro loc) (auto simp: rec_defs)
    finally show ?thesis .
  next
    case ROwner
    then have "rec_lock_step c s = set_rcpu c (p\<lparr>rc_pc := (if rec_named p then RBump else RExchange)\<rparr>) s"
      using own by (simp add: st)
    also have "rec_inv \<dots>" using ok ROwner
      by (intro loc) (cases "rc_saved p"; auto simp: rec_defs)+
    finally show ?thesis .
  next
    case RBump
    then have h: "rec_holds p" "rec_named p" using ok by (auto simp: rec_defs)
    have "unat (rs_depth s) + 1 < 2 ^ 32" using free(2) ok RBump h by (auto simp: rec_defs)
    then have "unat (rs_depth s + 1) = unat (rs_depth s) + 1" using unat_add_lem [of "rs_depth s" 1] by simp
    then have d: "unat (rs_depth s + 1) = length (rc_saved p)" using free(2) h RBump ok by (auto simp: rec_defs)
    have "rec_lock_step c s = set_rcpu c (p\<lparr>rc_pc := RIn\<rparr>)
        (s\<lparr>rs_locked := rs_locked s, rs_owner := rs_owner s, rs_depth := rs_depth s + 1\<rparr>)"
      using RBump by (simp add: st)
    also have "rec_inv \<dots>" using ok RBump h own held d by (intro glob) (auto simp: rec_defs)
    finally show ?thesis .
  next
    case RExchange
    show ?thesis
    proof (cases "rs_locked s")
      case True
      then have "rec_lock_step c s = set_rcpu c (p\<lparr>rc_pc := RExchange\<rparr>) (s\<lparr>rs_locked := True\<rparr>)"
        using RExchange by (simp add: st spin_exchange_def)
      also have "s\<lparr>rs_locked := True\<rparr> = s" using True by (cases s) simp
      finally show ?thesis using loc [of "p\<lparr>rc_pc := RExchange\<rparr>"] ok RExchange by (simp add: rec_defs)
    next
      case False
      then have "rec_lock_step c s = set_rcpu c (p\<lparr>rc_pc := RStore\<rparr>)
          (s\<lparr>rs_locked := True, rs_owner := rs_owner s, rs_depth := rs_depth s\<rparr>)"
        using RExchange by (simp add: st spin_exchange_def)
      also have "rec_inv \<dots>" using False ok RExchange own free by (intro glob) (auto simp: rec_defs)
      finally show ?thesis .
    qed
  next
    case RStore
    then have h: "rec_holds p" by (simp add: rec_defs)
    have "rec_lock_step c s = set_rcpu c (p\<lparr>rc_pc := RFirst\<rparr>)
        (s\<lparr>rs_locked := rs_locked s, rs_owner := c, rs_depth := rs_depth s\<rparr>)"
      using RStore by (simp add: st)
    also have "rec_inv \<dots>" using ok RStore h held free(2) by (intro glob) (auto simp: rec_defs)
    finally show ?thesis .
  next
    case RFirst
    then have h: "rec_holds p" by (simp add: rec_defs)
    have "rec_lock_step c s = set_rcpu c (p\<lparr>rc_pc := RIn\<rparr>)
        (s\<lparr>rs_locked := rs_locked s, rs_owner := rs_owner s, rs_depth := 1\<rparr>)"
      using RFirst by (simp add: st)
    also have "rec_inv \<dots>" using ok RFirst h held own by (intro glob) (auto simp: rec_defs)
    finally show ?thesis .
  next
    case RDrop
    then have h: "rec_holds p" "rec_named p" using ok by (auto simp: rec_defs)
    have lv: "unat (rs_depth s) = length (rc_saved p)" using free(2) h RDrop by (simp add: rec_defs)
    have nn: "rc_saved p \<noteq> []" using ok RDrop by (simp add: rec_defs)
    then have "1 \<le> rs_depth s" using lv by (cases "rc_saved p") (auto simp: word_le_nat_alt)
    then have d: "unat (rs_depth s - 1) = length (rc_saved p) - 1" using lv by (simp add: unat_sub)
    then have z: "rs_depth s - 1 = 0 \<longleftrightarrow> length (rc_saved p) = 1" using nn
      by (metis One_nat_def Suc_pred diff_is_0_eq' le_refl length_greater_0_conv unat_eq_0)
    have "rec_lock_step c s = set_rcpu c (p\<lparr>rc_pc := (if length (rc_saved p) = 1 then RClear else RRestore)\<rparr>)
        (s\<lparr>rs_locked := rs_locked s, rs_owner := rs_owner s, rs_depth := rs_depth s - 1\<rparr>)"
      using RDrop z by (simp add: st Let_def)
    also have "rec_inv \<dots>" using ok RDrop h held own d nn
      by (intro glob) (auto simp: rec_defs neq_Nil_conv)
    finally show ?thesis .
  next
    case RClear
    then have h: "rec_holds p" by (simp add: rec_defs)
    have "rec_lock_step c s = set_rcpu c (p\<lparr>rc_pc := RRelease\<rparr>)
        (s\<lparr>rs_locked := rs_locked s, rs_owner := no_owner, rs_depth := rs_depth s\<rparr>)"
      using RClear by (simp add: st)
    also have "rec_inv \<dots>" using ok RClear h held free(2) c by (intro glob) (auto simp: rec_defs)
    finally show ?thesis .
  next
    case RRelease
    then have h: "rec_holds p" by (simp add: rec_defs)
    have "rec_lock_step c s = set_rcpu c (p\<lparr>rc_pc := RRestore\<rparr>)
        (s\<lparr>rs_locked := False, rs_owner := rs_owner s, rs_depth := rs_depth s\<rparr>)"
      using RRelease by (simp add: st spin_unlock_def)
    also have "rec_inv \<dots>" using ok RRelease h free own by (intro glob) (auto simp: rec_defs)
    finally show ?thesis .
  next
    case RRestore
    then obtain f fs where f: "rc_saved p = f # fs" using ok by (auto simp: rec_defs neq_Nil_conv)
    have "rec_lock_step c s = set_rcpu c (p\<lparr>rc_rflags := restore_flags f (rc_rflags p), rc_saved := fs,
        rc_pc := (if fs = [] then ROut else RIn)\<rparr>) s"
      using RRestore f by (simp add: st)
    also have "rec_inv \<dots>" using ok RRestore f by (intro loc) (auto simp: rec_defs)
    finally show ?thesis .
  next
    case RSave
    then have "rec_lock_step c s = set_rcpu c (p\<lparr>rc_saved := rc_rflags p # rc_saved p, rc_pc := RCli\<rparr>) s"
      by (simp add: st)
    also have "rec_inv \<dots>" using ok RSave by (intro loc) (auto simp: rec_defs)
    finally show ?thesis .
  next
    case RCli
    then have "rec_lock_step c s = set_rcpu c (p\<lparr>rc_rflags := cli (rc_rflags p), rc_pc := RDepth\<rparr>) s"
      by (simp add: st)
    also have "rec_inv \<dots>" using ok RCli by (intro loc) (auto simp: rec_defs)
    finally show ?thesis .
  qed (use inv in \<open>simp_all add: st\<close>)
qed

lemma rec_reachable_inv: "rec_reachable s \<Longrightarrow> rec_inv s"
proof (induction rule: rec_reachable.induct)
  case rstart
  show ?case by (auto simp: rec_inv_def rec_start_def rec_defs)
next
  case (rstep s t)
  from rstep.hyps(2) rstep.IH show ?case
  proof (induction rule: rec_step.induct)
    case (raccess c s)
    then show ?case by (rule rec_lock_step_inv [rotated])
  next
    case (rcall c s)
    then show ?case using rec_invD(4) [of s c] by (intro rec_inv_local) (auto simp: rec_defs)
  next
    case (ragain c s)
    then show ?case using rec_invD(4) [of s c] by (intro rec_inv_local) (auto simp: rec_defs)
  next
    case (rleave c s)
    then show ?case using rec_invD(4) [of s c] by (intro rec_inv_local) (auto simp: rec_defs)
  qed
qed

text \<open>How far a second \<open>lock\<close> call on the holder is from its panic.\<close>

definition towards_panic :: "u32 \<Rightarrow> nat \<Rightarrow> irq_sys \<Rightarrow> bool" where
  "towards_panic c n s \<longleftrightarrow> is_locked s \<and> is_owner s = c \<and>
     (ic_pc (is_cpu s c) = Panicked \<or> ic_pc (is_cpu s c) = AtOwner \<and> 1 \<le> n \<or> ic_pc (is_cpu s c) = AtHeld \<and> 2 \<le> n \<or>
      ic_pc (is_cpu s c) = AtCli \<and> 3 \<le> n \<or> ic_pc (is_cpu s c) = AtSave \<and> 4 \<le> n)"

lemma towards_panic_step:
  assumes "towards_panic c n s"
  shows "towards_panic c (n - 1) (irq_lock_step c s)"
proof -
  have o: "is_locked s" "is_owner s = c" using assms by (simp_all add: towards_panic_def)
  consider "ic_pc (is_cpu s c) = Panicked" | "ic_pc (is_cpu s c) = AtOwner" "1 \<le> n"
    | "ic_pc (is_cpu s c) = AtHeld" "2 \<le> n" | "ic_pc (is_cpu s c) = AtCli" "3 \<le> n"
    | "ic_pc (is_cpu s c) = AtSave" "4 \<le> n"
    using assms unfolding towards_panic_def by blast
  then show ?thesis by cases (use o in \<open>simp_all add: towards_panic_def irq_lock_step_def Let_def\<close>)
qed

lemma towards_panic_run: "towards_panic c n s \<Longrightarrow> towards_panic c (n - k) ((irq_lock_step c ^^ k) s)"
proof (induction k)
  case (Suc k)
  then show ?case using towards_panic_step [of c "n - k"] by simp
qed simp

section \<open>Properties\<close>

text \<open>
  C12: \<open>IrqSpinLock\<close>. In every interleaving at most one processor is between the end of
  \<open>lock\<close> and the start of \<open>unlock\<close>, and its interrupts are off; so no handler on that processor
  and no other processor touches what the lock protects.
\<close>

theorem irq_lock_exclusive:
  assumes "irq_reachable s" and "ic_pc (is_cpu s c) = Inside"
  shows "is_locked s \<and> is_owner s = c \<and> \<not> bit (ic_rflags (is_cpu s c)) 9 \<and>
    (\<forall>d. ic_pc (is_cpu s d) = Inside \<longrightarrow> d = c)"
proof -
  have inv: "irq_inv s" using assms(1) by (rule irq_reachable_inv)
  note D = irq_invD [OF inv]
  have h: "irq_holds (is_cpu s d)" if "ic_pc (is_cpu s d) = Inside" for d using that by (simp add: irq_holds_def)
  have "c \<noteq> no_owner" using D(5) h assms(2) by blast
  then have "is_owner s = c" using D(3) assms(2) by (simp add: irq_named_def)
  moreover have "\<not> bit (ic_rflags (is_cpu s c)) 9"
    using D(4) [of c] assms(2) by (auto simp: irq_flags_ok_def cli_bit)
  ultimately show ?thesis using D(1,2) h assms(2) by blast
qed

text \<open>
  \<open>IrqSpinLock::lock\<close> on a processor that already holds the lock ends in the panic and never
  in a spin that waits for itself; a processor that does not hold it never panics.
\<close>

lemma irq_lock_recursion:
  assumes "irq_reachable s"
  shows "(ic_nested (is_cpu s c) \<longrightarrow> ic_pc (is_cpu s c) \<noteq> AtExchange \<and>
      ic_pc (is_cpu ((irq_lock_step c ^^ 4) s) c) = Panicked) \<and>
    (ic_pc (is_cpu s c) = Panicked \<longrightarrow> ic_nested (is_cpu s c))"
proof -
  have inv: "irq_inv s" using assms by (rule irq_reachable_inv)
  note D = irq_invD [OF inv]
  have "ic_pc (is_cpu ((irq_lock_step c ^^ 4) s) c) = Panicked" if n: "ic_nested (is_cpu s c)"
  proof -
    have "is_locked s" "c \<noteq> no_owner" using D(1,5) [of c] n by (auto simp: irq_holds_def)
    moreover from this have "is_owner s = c" using D(3) n by (simp add: irq_named_def)
    moreover have "ic_pc (is_cpu s c) \<in> {AtSave, AtCli, AtHeld, AtOwner, Panicked}"
      using D(4) [of c] n by (simp add: irq_flags_ok_def)
    ultimately have "towards_panic c 4 s" by (auto simp: towards_panic_def)
    then have "towards_panic c (4 - 4) ((irq_lock_step c ^^ 4) s)" by (rule towards_panic_run)
    then show ?thesis by (simp add: towards_panic_def)
  qed
  then show ?thesis using D(4) [of c] by (auto simp: irq_flags_ok_def)
qed

text \<open>
  \<open>unlock\<close> gives the processor back the flags its \<open>lock\<close> saved, interrupts included.
\<close>

lemma irq_unlock_restores:
  assumes "irq_reachable s" and "ic_pc (is_cpu s c) = AtRestore"
  shows "ic_rflags (is_cpu (irq_lock_step c s) c) = hd (ic_saved (is_cpu s c))"
  using irq_invD(4) [OF irq_reachable_inv [OF assms(1)], of c] assms(2)
  by (simp add: irq_lock_step_def irq_flags_ok_def restore_flags_cli Let_def)

text \<open>
  C13: \<open>RecursiveIrqLock\<close>. At most one processor is inside, and the counter is exactly the
  number of \<open>lock\<close> calls it has not yet undone, so the lock is released by the last \<open>unlock\<close>
  and by no earlier one.
\<close>

theorem rec_lock_exclusive:
  assumes "rec_reachable s" and "rc_pc (rs_cpu s c) = RIn"
  shows "rs_locked s \<and> rs_owner s = c \<and> unat (rs_depth s) = length (rc_saved (rs_cpu s c)) \<and>
    (\<forall>d. rc_pc (rs_cpu s d) = RIn \<longrightarrow> d = c)"
proof -
  have inv: "rec_inv s" using assms(1) by (rule rec_reachable_inv)
  note D = rec_invD [OF inv]
  have l: "0 < rec_level (rs_cpu s d)" "rec_holds (rs_cpu s d)" if "rc_pc (rs_cpu s d) = RIn" for d
    using that D(4) [of d] by (auto simp: rec_defs)
  have "c \<noteq> no_owner" using inv l(2) assms(2) unfolding rec_inv_def by blast
  then have "rs_owner s = c" using D(3) l(1) assms(2) by (simp add: rec_named_def)
  moreover have "unat (rs_depth s) = length (rc_saved (rs_cpu s c))"
    using D(5) [OF l(1)] assms(2) by (simp add: rec_level_def)
  ultimately show ?thesis using D(1,2) l(2) assms(2) by blast
qed

section \<open>Witnesses\<close>

text \<open>Processor 0 takes the lock, then calls \<open>lock\<close> again, or leaves.\<close>

definition irq_held :: irq_sys where
  "irq_held = (irq_lock_step 0 ^^ 5) (set_cpu 0 ((is_cpu irq_start 0)\<lparr>ic_pc := AtSave\<rparr>) irq_start)"

lemma irq_reachable_run: "irq_reachable s \<Longrightarrow> c \<noteq> no_owner \<Longrightarrow> irq_reachable ((irq_lock_step c ^^ n) s)"
  by (induction n) (auto intro: irq_reachable.step irq_step.access)

lemma irq_held_reachable: "irq_reachable irq_held" "ic_pc (is_cpu irq_held 0) = Inside"
proof -
  have "irq_reachable (set_cpu 0 ((is_cpu irq_start 0)\<lparr>ic_pc := AtSave\<rparr>) irq_start)"
    by (rule irq_reachable.step [OF irq_reachable.start irq_step.call]) (simp_all add: irq_start_def no_owner_def)
  then show "irq_reachable irq_held" unfolding irq_held_def by (rule irq_reachable_run) (simp add: no_owner_def)
  have five: "5 = Suc (Suc (Suc (Suc (Suc 0))))" by simp
  show "ic_pc (is_cpu irq_held 0) = Inside"
    unfolding irq_held_def five by (simp add: irq_start_def irq_lock_step_def set_cpu_def spin_exchange_def)
qed

theorem irq_lock_exclusive_witness: "is_locked irq_held \<and> is_owner irq_held = 0"
  using irq_lock_exclusive [OF irq_held_reachable] by simp

lemma irq_lock_recursion_example:
  "\<exists>s. irq_reachable s \<and> ic_nested (is_cpu s 0) \<and> ic_pc (is_cpu ((irq_lock_step 0 ^^ 4) s) 0) = Panicked"
proof -
  let ?s = "set_cpu 0 ((is_cpu irq_held 0)\<lparr>ic_pc := AtSave, ic_nested := True\<rparr>) irq_held"
  have "irq_reachable ?s"
    by (rule irq_reachable.step [OF irq_held_reachable(1) irq_step.again])
      (simp_all add: irq_held_reachable(2) no_owner_def)
  then show ?thesis using irq_lock_recursion [of ?s 0] by (intro exI [of _ ?s]) simp
qed

lemma irq_unlock_restores_example:
  "\<exists>s. irq_reachable s \<and> ic_pc (is_cpu s 0) = AtRestore \<and>
     ic_rflags (is_cpu (irq_lock_step 0 s) 0) = hd (ic_saved (is_cpu s 0))"
proof -
  let ?s = "(irq_lock_step 0 ^^ 2) (set_cpu 0 ((is_cpu irq_held 0)\<lparr>ic_pc := AtClear\<rparr>) irq_held)"
  have "irq_reachable (set_cpu 0 ((is_cpu irq_held 0)\<lparr>ic_pc := AtClear\<rparr>) irq_held)"
    by (rule irq_reachable.step [OF irq_held_reachable(1) irq_step.leave])
      (simp_all add: irq_held_reachable(2) no_owner_def)
  then have r: "irq_reachable ?s" by (rule irq_reachable_run) (simp add: no_owner_def)
  have "ic_pc (is_cpu ?s 0) = AtRestore"
    by (simp add: irq_lock_step_def set_cpu_def numeral_2_eq_2)
  then show ?thesis using irq_unlock_restores [OF r] r by blast
qed

definition rec_held :: rec_sys where
  "rec_held = (rec_lock_step 0 ^^ 6) (set_rcpu 0 ((rs_cpu rec_start 0)\<lparr>rc_pc := RSave\<rparr>) rec_start)"

lemma rec_reachable_run: "rec_reachable s \<Longrightarrow> c \<noteq> no_owner \<Longrightarrow> rec_reachable ((rec_lock_step c ^^ n) s)"
  by (induction n) (auto intro: rec_reachable.rstep rec_step.raccess)

theorem rec_lock_exclusive_witness: "rs_owner rec_held = 0 \<and> rs_depth rec_held = 1"
proof -
  have "rec_reachable (set_rcpu 0 ((rs_cpu rec_start 0)\<lparr>rc_pc := RSave\<rparr>) rec_start)"
    by (rule rec_reachable.rstep [OF rec_reachable.rstart rec_step.rcall]) (simp_all add: rec_start_def no_owner_def)
  then have r: "rec_reachable rec_held" unfolding rec_held_def by (rule rec_reachable_run) (simp add: no_owner_def)
  have six: "6 = Suc (Suc (Suc (Suc (Suc (Suc 0)))))" by simp
  have "rc_pc (rs_cpu rec_held 0) = RIn" "length (rc_saved (rs_cpu rec_held 0)) = 1"
    unfolding rec_held_def six by (simp_all add: rec_start_def rec_lock_step_def set_rcpu_def spin_exchange_def)
  then have "rs_owner rec_held = 0" "unat (rs_depth rec_held) = 1" using rec_lock_exclusive [OF r, of 0] by simp_all
  then show ?thesis by (simp add: word_unat_eq_iff)
qed

end
