(* ===== verification/Clock.thy ===== *)
theory Clock
  imports Vmalloc
begin

unbundle bit_operations_syntax

text \<open>
  The clock, \<^verbatim>\<open>kernel/time/clock.cpp\<close>, and the timer table, \<^verbatim>\<open>kernel/time/timers.cpp\<close>.

  What the hardware answers is an argument: the registers of the HPET page, the value of the
  time stamp counter, and for the timers the times that the successive calls of
  \<open>monotonic_ns\<close> return. A timer callback is its address, and what it does to the table is an
  argument as well. Polling the PIT and the delay loops only pass time.
\<close>

section \<open>The clock\<close>

record clock =
  hpet :: virt_addr
  hpet_period_fs :: u64
  tsc_hz :: u64
  tsc_origin :: u64

definition hpet_capabilities :: u32 where "hpet_capabilities = 0x000"
definition hpet_configuration :: u32 where "hpet_configuration = 0x010"
definition hpet_counter :: u32 where "hpet_counter = 0x0F0"

type_synonym device = "u32 \<Rightarrow> u64"

definition hpet_read :: "device \<Rightarrow> u32 \<Rightarrow> u64" where
  "hpet_read dev off = dev (off div 8)"

definition hpet_write :: "u32 \<Rightarrow> u64 \<Rightarrow> device \<Rightarrow> device" where
  "hpet_write off v dev = dev(off div 8 := v)"

definition hpet_init ::
  "phys_addr \<Rightarrow> bool \<Rightarrow> phys_addr \<Rightarrow> clock \<times> device \<times> vmalloc \<times> mmu \<Rightarrow> bool \<times> clock \<times> device \<times> vmalloc \<times> mmu" where
  "hpet_init root available address st =
     (let (c, dev, v, s) = st
      in if \<not> available \<or> address = 0 then (False, st)
         else let (p, v1, s1) = map_device root address page_size (v, s); c1 = c\<lparr>hpet := p\<rparr>
              in if p = 0 then (False, c1, dev, v1, s1)
                 else let c2 = c1\<lparr>hpet_period_fs := drop_bit 32 (hpet_read dev hpet_capabilities)\<rparr>
                      in if hpet_period_fs c2 = 0 \<or> hpet_period_fs c2 > 0x05F5E100
                         then (False, c2\<lparr>hpet := 0\<rparr>, dev, v1, s1)
                         else (True, c2, hpet_write hpet_configuration (hpet_read dev hpet_configuration OR 1) dev, v1, s1))"

text \<open>The counter is read before and after a hundredth of a second measured by the PIT.\<close>

definition tsc_calibrate :: "u64 \<Rightarrow> u64 \<Rightarrow> clock \<Rightarrow> clock" where
  "tsc_calibrate start stop c = c\<lparr>tsc_hz := (stop - start) * 100, tsc_origin := stop\<rparr>"

definition clock_init ::
  "phys_addr \<Rightarrow> bool \<Rightarrow> phys_addr \<Rightarrow> u64 \<Rightarrow> u64 \<Rightarrow> clock \<times> device \<times> vmalloc \<times> mmu \<Rightarrow> clock \<times> device \<times> vmalloc \<times> mmu" where
  "clock_init root available address start stop st =
     (case hpet_init root available address st of
        (True, st1) \<Rightarrow> st1
      | (False, c, rest) \<Rightarrow> (tsc_calibrate start stop c, rest))"

definition clock_source :: "clock \<Rightarrow> string" where
  "clock_source c = (if hpet c \<noteq> 0 then ''hpet'' else if tsc_hz c \<noteq> 0 then ''tsc'' else ''none'')"

definition monotonic_ns :: "device \<Rightarrow> u64 \<Rightarrow> clock \<Rightarrow> u64" where
  "monotonic_ns dev tsc c =
     (if hpet c \<noteq> 0 then (hpet_read dev hpet_counter * hpet_period_fs c) div 1000000
      else if tsc_hz c = 0 then 0
      else let elapsed = tsc - tsc_origin c
           in (elapsed div tsc_hz c) * 1000000000 + ((elapsed mod tsc_hz c) * 1000000000) div tsc_hz c)"

definition monotonic_ms :: "device \<Rightarrow> u64 \<Rightarrow> clock \<Rightarrow> u64" where
  "monotonic_ms dev tsc c = monotonic_ns dev tsc c div 1000000"

section \<open>The timer table\<close>

record Timer =
  tm_deadline :: u64
  tm_period :: u64
  tm_callback :: u64
  tm_context :: u64
  tm_handle :: u32
  tm_active :: bool

datatype hw_timer = Stopped | Oneshot u64

datatype timer_io = Outb u16 u8 | IrqRegister u8 u64 | IrqUnmask u8

record timers =
  tm_table :: "Timer list"
  next_handle :: u32
  tick_count :: u64
  lapic_driven :: bool
  tm_hw :: hw_timer
  tm_io :: "timer_io list"

definition max_timers :: nat where [simp]: "max_timers = 64"
definition minimum_delay_ns :: u64 where [simp]: "minimum_delay_ns = 100000"
definition fallback_tick_ns :: u64 where [simp]: "fallback_tick_ns = 10000000"
definition invalid_timer :: u32 where [simp]: "invalid_timer = 0"

fun find_free :: "Timer list \<Rightarrow> nat option" where
  "find_free [] = None"
| "find_free (t # ts) = (if \<not> tm_active t then Some 0 else map_option Suc (find_free ts))"

definition earliest_step :: "Timer \<Rightarrow> u64 option \<Rightarrow> u64 option" where
  "earliest_step t e =
     (if \<not> tm_active t then e
      else case e of None \<Rightarrow> Some (tm_deadline t)
        | Some d \<Rightarrow> if tm_deadline t < d then Some (tm_deadline t) else Some d)"

definition program_next :: "u64 \<Rightarrow> timers \<Rightarrow> timers" where
  "program_next now s =
     (if \<not> lapic_driven s then s
      else case fold earliest_step (tm_table s) None of
             None \<Rightarrow> s\<lparr>tm_hw := Stopped\<rparr>
           | Some earliest \<Rightarrow>
               let delay = (if earliest > now then earliest - now else minimum_delay_ns)
               in s\<lparr>tm_hw := Oneshot (if delay < minimum_delay_ns then minimum_delay_ns else delay)\<rparr>)"

definition arm :: "u64 \<Rightarrow> u64 \<Rightarrow> u64 \<Rightarrow> u64 \<Rightarrow> u64 \<Rightarrow> u64 \<Rightarrow> timers \<Rightarrow> u32 \<times> timers" where
  "arm now later delay_ns period_ns callback context s =
     (if callback = 0 then (invalid_timer, s)
      else case find_free (tm_table s) of
             None \<Rightarrow> (invalid_timer, s)
           | Some i \<Rightarrow>
               let t = \<lparr>tm_deadline = now + delay_ns, tm_period = period_ns, tm_callback = callback,
                        tm_context = context, tm_handle = next_handle s, tm_active = True\<rparr>
               in (next_handle s, program_next later (s\<lparr>tm_table := (tm_table s)[i := t], next_handle := next_handle s + 1\<rparr>)))"

definition jiffy_tick :: "timers \<Rightarrow> timers" where
  "jiffy_tick s = s\<lparr>tick_count := tick_count s + 1\<rparr>"

definition timer_after :: "u64 \<Rightarrow> u64 \<Rightarrow> u64 \<Rightarrow> u64 \<Rightarrow> u64 \<Rightarrow> timers \<Rightarrow> u32 \<times> timers" where
  "timer_after now later delay_ns callback context s = arm now later delay_ns 0 callback context s"

definition timer_every :: "u64 \<Rightarrow> u64 \<Rightarrow> u64 \<Rightarrow> u64 \<Rightarrow> u64 \<Rightarrow> timers \<Rightarrow> u32 \<times> timers" where
  "timer_every now later period_ns callback context s = arm now later period_ns period_ns callback context s"

text \<open>Without a local APIC the legacy timer is programmed to 100 Hz and its interrupt is opened.\<close>

definition pit_start :: "u64 \<Rightarrow> timer_io list" where
  "pit_start pit_tick =
     (let divisor = (1193182 :: u32) div 100
      in [Outb 0x43 0x36, Outb 0x40 (ucast (divisor AND 0xFF)), Outb 0x40 (ucast (drop_bit 8 divisor AND 0xFF)),
          IrqRegister 0 pit_tick, IrqUnmask 0])"

definition timers_init :: "bool \<Rightarrow> u64 \<Rightarrow> u64 \<Rightarrow> u64 \<Rightarrow> u64 \<Rightarrow> timers \<Rightarrow> timers" where
  "timers_init lapic_present pit_tick jiffy now later s =
     (let s1 = s\<lparr>lapic_driven := lapic_present\<rparr>;
          s2 = (if \<not> lapic_driven s1 then s1\<lparr>tm_io := tm_io s1 @ pit_start pit_tick\<rparr> else s1)
      in snd (timer_every now later fallback_tick_ns jiffy 0 s2))"

fun cancel_scan :: "u32 \<Rightarrow> Timer list \<Rightarrow> nat option" where
  "cancel_scan h [] = None"
| "cancel_scan h (t # ts) = (if tm_active t \<and> tm_handle t = h then Some 0 else map_option Suc (cancel_scan h ts))"

definition timer_cancel :: "u64 \<Rightarrow> u32 \<Rightarrow> timers \<Rightarrow> timers" where
  "timer_cancel now h s =
     (case cancel_scan h (tm_table s) of
        None \<Rightarrow> s
      | Some i \<Rightarrow> program_next now (s\<lparr>tm_table := (tm_table s)[i := (tm_table s ! i)\<lparr>tm_active := False\<rparr>]\<rparr>))"

text \<open>One slot of \<open>timers_run\<close>; \<open>run\<close> is the callback.\<close>

definition fire :: "(u64 \<Rightarrow> u64 \<Rightarrow> timers \<Rightarrow> timers) \<Rightarrow> u64 \<Rightarrow> nat \<Rightarrow> timers \<Rightarrow> timers" where
  "fire run now i s =
     (let t = tm_table s ! i
      in if \<not> tm_active t \<or> tm_deadline t > now then s
         else run (tm_callback t) (tm_context t)
                (s\<lparr>tm_table := (tm_table s)[i := if tm_period t \<noteq> 0 then t\<lparr>tm_deadline := now + tm_period t\<rparr>
                                           else t\<lparr>tm_active := False\<rparr>]\<rparr>))"

definition timers_run :: "(u64 \<Rightarrow> u64 \<Rightarrow> timers \<Rightarrow> timers) \<Rightarrow> u64 \<Rightarrow> u64 \<Rightarrow> timers \<Rightarrow> timers" where
  "timers_run run now later s = program_next later (fold (fire run now) [0..<max_timers] s)"

definition ticks :: "timers \<Rightarrow> u64" where
  "ticks s = tick_count s"

section \<open>The next deadline\<close>

lemma fold_earliest:
  "case fold earliest_step ts e of
     None \<Rightarrow> e = None \<and> (\<forall>t \<in> set ts. \<not> tm_active t)
   | Some d \<Rightarrow> (e = Some d \<or> (\<exists>t \<in> set ts. tm_active t \<and> tm_deadline t = d)) \<and>
       (\<forall>t \<in> set ts. tm_active t \<longrightarrow> d \<le> tm_deadline t) \<and> (case e of None \<Rightarrow> True | Some d' \<Rightarrow> d \<le> d')"
proof (induction ts arbitrary: e)
  case (Cons t ts)
  show ?case using Cons [of "earliest_step t e"]
    by (auto simp: earliest_step_def split: option.splits if_splits)
qed (simp split: option.splits)

lemma program_next_table [simp]:
  "tm_table (program_next now s) = tm_table s" "next_handle (program_next now s) = next_handle s"
  "tick_count (program_next now s) = tick_count s" "lapic_driven (program_next now s) = lapic_driven s"
  by (simp_all add: program_next_def Let_def split: option.splits)

section \<open>The table\<close>

definition expired :: "u64 \<Rightarrow> Timer \<Rightarrow> bool" where
  "expired now t \<longleftrightarrow> tm_active t \<and> tm_deadline t \<le> now"

definition rearm :: "u64 \<Rightarrow> Timer \<Rightarrow> Timer" where
  "rearm now t = (if \<not> expired now t then t
     else if tm_period t \<noteq> 0 then t\<lparr>tm_deadline := now + tm_period t\<rparr> else t\<lparr>tm_active := False\<rparr>)"

lemma fire_outside:
  assumes "\<And>f c s. run f c s = s\<lparr>tick_count := effect f c (tick_count s)\<rparr>"
  shows "fire run now i s = (let t = tm_table s ! i
    in if expired now t
       then s\<lparr>tm_table := (tm_table s)[i := rearm now t], tick_count := effect (tm_callback t) (tm_context t) (tick_count s)\<rparr>
       else s)"
  using assms by (auto simp: fire_def expired_def rearm_def Let_def not_less)

lemma fold_fire:
  assumes run: "\<And>f c s. run f c s = s\<lparr>tick_count := effect f c (tick_count s)\<rparr>" and "n \<le> length (tm_table s)"
  shows "fold (fire run now) [0..<n] s = s\<lparr>tm_table := map (rearm now) (take n (tm_table s)) @ drop n (tm_table s),
      tick_count := fold (\<lambda>t. effect (tm_callback t) (tm_context t)) (filter (expired now) (take n (tm_table s))) (tick_count s)\<rparr>"
  using assms(2)
proof (induction n)
  case (Suc n)
  define s1 where "s1 = fold (fire run now) [0..<n] s"
  let ?ts = "tm_table s"
  have n: "n < length ?ts" using Suc.prems by simp
  have s1: "s1 = s\<lparr>tm_table := map (rearm now) (take n ?ts) @ drop n ?ts,
      tick_count := fold (\<lambda>t. effect (tm_callback t) (tm_context t)) (filter (expired now) (take n ?ts)) (tick_count s)\<rparr>"
    using Suc by (simp add: s1_def)
  have at: "tm_table s1 ! n = ?ts ! n" using n by (simp add: s1 nth_append)
  have upd: "(tm_table s1)[n := rearm now (?ts ! n)] = map (rearm now) (take (Suc n) ?ts) @ drop (Suc n) ?ts"
    using n by (simp add: s1 list_update_append take_Suc_conv_app_nth Cons_nth_drop_Suc [symmetric])
  have keep: "rearm now (?ts ! n) = ?ts ! n \<Longrightarrow> (tm_table s1)[n := rearm now (?ts ! n)] = tm_table s1"
    using at n by (metis list_update_id)
  have "fold (fire run now) [0..<Suc n] s = fire run now n s1" by (simp add: s1_def)
  also have "\<dots> = s1\<lparr>tm_table := map (rearm now) (take (Suc n) ?ts) @ drop (Suc n) ?ts,
      tick_count := fold (\<lambda>t. effect (tm_callback t) (tm_context t)) (filter (expired now) (take (Suc n) ?ts)) (tick_count s)\<rparr>"
  proof (cases "expired now (?ts ! n)")
    case True
    then have "fire run now n s1 = s1\<lparr>tm_table := (tm_table s1)[n := rearm now (?ts ! n)],
        tick_count := effect (tm_callback (?ts ! n)) (tm_context (?ts ! n)) (tick_count s1)\<rparr>"
      unfolding fire_outside [where run = run and effect = effect, OF run] at Let_def by simp
    moreover have "tick_count s1 = fold (\<lambda>t. effect (tm_callback t) (tm_context t)) (filter (expired now) (take n ?ts)) (tick_count s)"
      by (simp add: s1)
    ultimately show ?thesis unfolding upd using True n by (simp add: take_Suc_conv_app_nth)
  next
    case False
    then have "rearm now (?ts ! n) = ?ts ! n" by (simp add: rearm_def)
    then have "tm_table s1 = map (rearm now) (take (Suc n) ?ts) @ drop (Suc n) ?ts" using keep upd by simp
    moreover have "fire run now n s1 = s1"
      unfolding fire_outside [where run = run and effect = effect, OF run] at Let_def using False by simp
    moreover have "tick_count s1 = fold (\<lambda>t. effect (tm_callback t) (tm_context t)) (filter (expired now) (take (Suc n) ?ts)) (tick_count s)"
      using False n by (simp add: s1 take_Suc_conv_app_nth)
    ultimately show ?thesis by (cases s1) simp
  qed
  finally show ?case by (simp add: s1)
qed simp

text \<open>Handles name at most one active timer while the counter of handles has not wrapped.\<close>

definition timers_inv :: "timers \<Rightarrow> bool" where
  "timers_inv s \<longleftrightarrow> length (tm_table s) = 64 \<and> 0 < next_handle s \<and>
     (\<forall>i < 64. tm_active (tm_table s ! i) \<longrightarrow> 0 < tm_handle (tm_table s ! i) \<and> tm_handle (tm_table s ! i) < next_handle s) \<and>
     (\<forall>i < 64. \<forall>j < 64. tm_active (tm_table s ! i) \<longrightarrow> tm_active (tm_table s ! j) \<longrightarrow>
        tm_handle (tm_table s ! i) = tm_handle (tm_table s ! j) \<longrightarrow> i = j)"

lemma find_free_some: "find_free ts = Some i \<Longrightarrow> i < length ts \<and> \<not> tm_active (ts ! i)"
  by (induction ts arbitrary: i) (auto split: if_splits)

lemma cancel_scan_some: "cancel_scan h ts = Some i \<Longrightarrow> i < length ts \<and> tm_active (ts ! i) \<and> tm_handle (ts ! i) = h"
  by (induction ts arbitrary: i) (auto split: if_splits)

lemma cancel_scan_none: "cancel_scan h ts = None \<Longrightarrow> \<forall>t \<in> set ts. \<not> (tm_active t \<and> tm_handle t = h)"
  by (induction ts) (auto split: if_splits)

definition live_handles :: "timers \<Rightarrow> u32 set" where
  "live_handles s = {tm_handle t | t. t \<in> set (tm_table s) \<and> tm_active t}"

lemma live_handles_nth:
  assumes "length (tm_table s) = n"
  shows "live_handles s = (\<lambda>j. tm_handle (tm_table s ! j)) ` {j. j < n \<and> tm_active (tm_table s ! j)}"
  using assms unfolding live_handles_def by (auto simp: in_set_conv_nth)

lemma arm_inv:
  assumes inv: "timers_inv s" and w: "next_handle s < 0xFFFFFFFF" and a: "arm now later d p cb ctx s = (h, s')"
  shows "timers_inv s'" "h \<noteq> 0 \<Longrightarrow> h \<notin> live_handles s \<and> live_handles s' = insert h (live_handles s)"
    "h = 0 \<Longrightarrow> s' = s"
proof -
  have len: "length (tm_table s) = 64" using inv by (simp add: timers_inv_def)
  have wk: "next_handle s < next_handle s + 1" "0 < next_handle s + 1"
  proof -
    have "unat (next_handle s + 1) = unat (next_handle s) + 1"
      using w unat_add_lem [of "next_handle s" 1] by (simp add: word_less_nat_alt)
    then show "next_handle s < next_handle s + 1" "0 < next_handle s + 1" by (simp_all add: word_less_nat_alt)
  qed
  have "timers_inv s' \<and> (h \<noteq> 0 \<longrightarrow> h \<notin> live_handles s \<and> live_handles s' = insert h (live_handles s)) \<and> (h = 0 \<longrightarrow> s' = s)"
  proof (cases "cb = 0 \<or> find_free (tm_table s) = None")
    case True
    then show ?thesis using a inv by (auto simp: arm_def split: option.splits if_splits)
  next
    case False
    then obtain i where i: "cb \<noteq> 0" "find_free (tm_table s) = Some i" by auto
    then have i': "i < 64" "\<not> tm_active (tm_table s ! i)" using find_free_some len by force+
    have h: "h = next_handle s" "tm_table s' = (tm_table s)[i := \<lparr>tm_deadline = now + d, tm_period = p, tm_callback = cb,
        tm_context = ctx, tm_handle = next_handle s, tm_active = True\<rparr>]" "next_handle s' = next_handle s + 1"
      using a i by (auto simp: arm_def Let_def)
    have old: "tm_handle (tm_table s ! j) < next_handle s" if "j < 64" "tm_active (tm_table s ! j)" for j
      using inv that by (simp add: timers_inv_def)
    have at: "tm_table s' ! j = (if j = i then \<lparr>tm_deadline = now + d, tm_period = p, tm_callback = cb,
        tm_context = ctx, tm_handle = next_handle s, tm_active = True\<rparr> else tm_table s ! j)" if "j < 64" for j
      using that len unfolding h(2) by simp
    have I: "0 < next_handle s" "\<And>j. j < 64 \<Longrightarrow> tm_active (tm_table s ! j) \<Longrightarrow> 0 < tm_handle (tm_table s ! j)"
      "\<And>j k. j < 64 \<Longrightarrow> k < 64 \<Longrightarrow> tm_active (tm_table s ! j) \<Longrightarrow> tm_active (tm_table s ! k) \<Longrightarrow>
        tm_handle (tm_table s ! j) = tm_handle (tm_table s ! k) \<Longrightarrow> j = k"
      using inv unfolding timers_inv_def by blast+
    have "timers_inv s'"
      unfolding timers_inv_def
    proof (intro conjI allI impI)
      show "length (tm_table s') = 64" using len by (simp add: h(2))
      show "0 < next_handle s'" using wk(2) by (simp add: h(3))
      show "0 < tm_handle (tm_table s' ! j)" if "j < 64" "tm_active (tm_table s' ! j)" for j
        using that at I(1,2) by (simp split: if_splits)
      show "tm_handle (tm_table s' ! j) < next_handle s'" if "j < 64" "tm_active (tm_table s' ! j)" for j
        using that at old [of j] wk(1) unfolding h(3) by (auto split: if_splits)
      show "j = k" if jk: "j < 64" "k < 64" "tm_active (tm_table s' ! j)" "tm_active (tm_table s' ! k)"
          "tm_handle (tm_table s' ! j) = tm_handle (tm_table s' ! k)" for j k
      proof (rule ccontr)
        assume ne: "j \<noteq> k"
        then consider "j = i" "k \<noteq> i" | "k = i" "j \<noteq> i" | "j \<noteq> i" "k \<noteq> i" by blast
        then show False
        proof cases
          case 1
          then show False using jk at [of j] at [of k] old [of k] by simp
        next
          case 2
          then show False using jk at [of j] at [of k] old [of j] by simp
        next
          case 3
          then show False using jk at [of j] at [of k] I(3) [of j k] ne by simp
        qed
      qed
    qed
    moreover have "h \<notin> live_handles s"
      using old len unfolding h(1) live_handles_def by (auto simp: in_set_conv_nth) (metis less_irrefl)
    moreover have "live_handles s' = insert h (live_handles s)"
    proof -
      have act: "tm_active (tm_table s' ! j) \<longleftrightarrow> j = i \<or> tm_active (tm_table s ! j)" if "j < 64" for j using at [OF that] by simp
      have hd: "tm_handle (tm_table s' ! j) = (if j = i then h else tm_handle (tm_table s ! j))" if "j < 64" for j
        using at [OF that] h(1) by simp
      have "length (tm_table s') = 64" using len by (simp add: h(2))
      note l' = live_handles_nth [OF this]
      have J: "{j. j < 64 \<and> tm_active (tm_table s' ! j)} = insert i {j. j < 64 \<and> tm_active (tm_table s ! j)}"
        using act i'(1) by auto
      have "live_handles s' = (\<lambda>j. tm_handle (tm_table s' ! j)) ` insert i {j. j < 64 \<and> tm_active (tm_table s ! j)}"
        unfolding l' J ..
      also have "\<dots> = insert h ((\<lambda>j. tm_handle (tm_table s' ! j)) ` {j. j < 64 \<and> tm_active (tm_table s ! j)})"
        using hd [OF i'(1)] by simp
      also have "(\<lambda>j. tm_handle (tm_table s' ! j)) ` {j. j < 64 \<and> tm_active (tm_table s ! j)} = live_handles s"
        unfolding live_handles_nth [OF len] using hd i'(2) by (intro image_cong) auto
      finally show ?thesis .
    qed
    moreover have "h \<noteq> 0" using inv h(1) by (auto simp: timers_inv_def)
    ultimately show ?thesis by blast
  qed
  then show "timers_inv s'" "h \<noteq> 0 \<Longrightarrow> h \<notin> live_handles s \<and> live_handles s' = insert h (live_handles s)"
    "h = 0 \<Longrightarrow> s' = s" by blast+
qed

lemma cancel_live:
  assumes inv: "timers_inv s"
  shows "live_handles (timer_cancel now h s) = live_handles s - {h}" "timers_inv (timer_cancel now h s)"
proof -
  have len: "length (tm_table s) = 64" using inv by (simp add: timers_inv_def)
  have uniq: "i = j" if "i < 64" "j < 64" "tm_active (tm_table s ! i)" "tm_active (tm_table s ! j)"
      "tm_handle (tm_table s ! i) = tm_handle (tm_table s ! j)" for i j
    using inv that unfolding timers_inv_def by blast
  have "live_handles (timer_cancel now h s) = live_handles s - {h} \<and> timers_inv (timer_cancel now h s)"
  proof (cases "cancel_scan h (tm_table s)")
    case None
    then show ?thesis using cancel_scan_none [OF None] inv by (auto simp: timer_cancel_def live_handles_def)
  next
    case (Some i)
    note S = cancel_scan_some [OF Some, unfolded len]
    define tb where "tb = (tm_table s)[i := (tm_table s ! i)\<lparr>tm_active := False\<rparr>]"
    have t: "tm_table (timer_cancel now h s) = tb" "next_handle (timer_cancel now h s) = next_handle s"
      using Some by (simp_all add: timer_cancel_def tb_def)
    have at: "tb ! j = (if j = i then (tm_table s ! i)\<lparr>tm_active := False\<rparr> else tm_table s ! j)" if "j < 64" for j
      using that len by (simp add: tb_def)
    have act: "tm_active (tb ! j) \<longleftrightarrow> j \<noteq> i \<and> tm_active (tm_table s ! j)" if "j < 64" for j using at [OF that] by simp
    have hd: "tm_handle (tb ! j) = tm_handle (tm_table s ! j)" if "j < 64" for j using at [OF that] by simp
    note l = live_handles_nth [OF len]
    have "length tb = 64" using len by (simp add: tb_def)
    then have "live_handles (timer_cancel now h s) = (\<lambda>j. tm_handle (tb ! j)) ` {j. j < 64 \<and> tm_active (tb ! j)}"
      using live_handles_nth [of "timer_cancel now h s"] by (simp add: t)
    also have "\<dots> = (\<lambda>j. tm_handle (tm_table s ! j)) ` ({j. j < 64 \<and> tm_active (tm_table s ! j)} - {i})"
      using act hd by (intro image_cong) auto
    also have "\<dots> = (\<lambda>j. tm_handle (tm_table s ! j)) ` {j. j < 64 \<and> tm_active (tm_table s ! j)} - {h}"
    proof -
      have "inj_on (\<lambda>j. tm_handle (tm_table s ! j)) {j. j < 64 \<and> tm_active (tm_table s ! j)}"
        using uniq by (auto simp: inj_on_def)
      from inj_on_image_set_diff [OF this, of "{j. j < 64 \<and> tm_active (tm_table s ! j)}" "{i}"] show ?thesis using S by simp
    qed
    finally have "live_handles (timer_cancel now h s) = live_handles s - {h}" using l by simp
    moreover have "timers_inv (timer_cancel now h s)"
      using inv act hd \<open>length tb = 64\<close> unfolding timers_inv_def t by auto
    ultimately show ?thesis by blast
  qed
  then show "live_handles (timer_cancel now h s) = live_handles s - {h}" "timers_inv (timer_cancel now h s)" by blast+
qed

section \<open>Properties\<close>

text \<open>
  C18: \<open>timers_run\<close> calls the callback of every expired timer exactly once, in table order, and no
  other; a periodic timer is set to its next period, a one-shot timer is switched off, and every
  other slot stays as it is. The callbacks here act on the world outside the table.
\<close>

theorem timers_run_fires_expired:
  assumes "length (tm_table s) = 64" and "\<And>f c s. run f c s = s\<lparr>tick_count := effect f c (tick_count s)\<rparr>"
  shows "tm_table (timers_run run now later s) = map (rearm now) (tm_table s) \<and>
    tick_count (timers_run run now later s) =
      fold (\<lambda>t. effect (tm_callback t) (tm_context t)) (filter (expired now) (tm_table s)) (tick_count s)"
  using fold_fire [where run = run and effect = effect and n = 64, OF assms(2)] assms(1)
  unfolding timers_run_def by simp

text \<open>
  A timer that was armed has a handle no other live timer has, and cancelling that handle
  leaves exactly the timers from before, as long as the 32 bit handle counter has not wrapped.
\<close>

lemma timer_arm_cancel:
  assumes "timers_inv s" and "next_handle s < 0xFFFFFFFF"
    and "arm now later delay period callback context s = (h, s')" and "h \<noteq> invalid_timer"
  shows "h \<notin> live_handles s \<and> live_handles s' = insert h (live_handles s) \<and> timers_inv s' \<and>
    live_handles (timer_cancel later h s') = live_handles s"
proof -
  have h: "h \<noteq> 0" using assms(4) by simp
  note A = arm_inv [OF assms(1-3)]
  show ?thesis using A(1) A(2) [OF h] cancel_live(1) [OF A(1), of later h] by auto
qed

text \<open>
  The hardware timer is programmed for the nearest deadline: it is stopped only when no timer
  is active, it never fires later than an active deadline (or the minimum delay), and never
  earlier than the minimum delay.
\<close>

lemma program_next_earliest:
  assumes "lapic_driven s"
  shows "case tm_hw (program_next now s) of
      Stopped \<Rightarrow> \<forall>t \<in> set (tm_table s). \<not> tm_active t
    | Oneshot d \<Rightarrow> minimum_delay_ns \<le> d \<and>
        (\<forall>t \<in> set (tm_table s). tm_active t \<longrightarrow> unat now + unat d \<le> max (unat (tm_deadline t)) (unat now + unat minimum_delay_ns)) \<and>
        (\<exists>t \<in> set (tm_table s). tm_active t \<and> unat now + unat d = max (unat (tm_deadline t)) (unat now + unat minimum_delay_ns))"
proof (cases "fold earliest_step (tm_table s) None")
  case None
  then show ?thesis using assms fold_earliest [where ts = "tm_table s" and e = None] by (simp add: program_next_def)
next
  case (Some e)
  have E: "\<exists>t \<in> set (tm_table s). tm_active t \<and> tm_deadline t = e" "\<forall>t \<in> set (tm_table s). tm_active t \<longrightarrow> e \<le> tm_deadline t"
    using fold_earliest [where ts = "tm_table s" and e = None] Some by simp_all
  define d where "d = (let delay = (if e > now then e - now else minimum_delay_ns) in if delay < minimum_delay_ns then minimum_delay_ns else delay)"
  have hw: "tm_hw (program_next now s) = Oneshot d" using assms Some by (simp add: program_next_def d_def Let_def)
  have d: "minimum_delay_ns \<le> d" "unat now + unat d = max (unat e) (unat now + unat minimum_delay_ns)"
    by (auto simp: d_def Let_def word_less_nat_alt word_le_nat_alt unat_u64_sub max_def)
  have "unat now + unat d \<le> max (unat (tm_deadline t)) (unat now + unat minimum_delay_ns)"
    if "t \<in> set (tm_table s)" "tm_active t" for t
    using E(2) that d(2) by (auto simp: word_le_nat_alt max_def)
  then show ?thesis unfolding hw using d E(1) by auto
qed

text \<open>
  C19: the time stamp clock is exact: \<open>monotonic_ns\<close> is the elapsed ticks scaled to nanoseconds and
  rounded down, with no intermediate overflow for frequencies up to 18 GHz.
\<close>

theorem tsc_clock_exact:
  assumes "hpet c = 0" and "0 < unat (tsc_hz c)" and "unat (tsc_hz c) \<le> 18446744073"
    and "unat (tsc - tsc_origin c) * 1000000000 div unat (tsc_hz c) < 18446744073709551616"
  shows "unat (monotonic_ns dev tsc c) = unat (tsc - tsc_origin c) * 1000000000 div unat (tsc_hz c)"
proof -
  define e where "e = unat (tsc - tsc_origin c)"
  define z where "z = unat (tsc_hz c)"
  have z: "0 < z" "z \<le> 18446744073" using assms(2,3) by (simp_all add: z_def)
  have split: "e * 1000000000 div z = e div z * 1000000000 + (e mod z) * 1000000000 div z"
  proof -
    define q where "q = e div z"
    define r where "r = e mod z"
    have "e = q * z + r" by (simp add: q_def r_def)
    then have "e * 1000000000 = r * 1000000000 + q * 1000000000 * z" by (simp add: algebra_simps)
    then show ?thesis unfolding q_def [symmetric] r_def [symmetric] using z(1) div_mult_self1 [of z "r * 1000000000" "q * 1000000000"]
      by (simp add: mult.commute)
  qed
  have lt: "(e mod z) * 1000000000 < 18446744073709551616"
  proof -
    have "e mod z \<le> 18446744072" using z mod_less_divisor [of z e] by linarith
    then show ?thesis by simp
  qed
  have a: "unat ((tsc - tsc_origin c) div tsc_hz c) = e div z" by (simp add: unat_div e_def z_def)
  have b: "unat ((tsc - tsc_origin c) mod tsc_hz c) = e mod z" by (simp add: unat_mod e_def z_def)
  have sum: "e div z * 1000000000 + (e mod z) * 1000000000 div z < 18446744073709551616"
    using assms(4) split unfolding e_def [symmetric] z_def [symmetric] by simp
  have 1: "unat ((tsc - tsc_origin c) div tsc_hz c * 1000000000) = e div z * 1000000000"
    using a sum by (subst unat_u64_mult) simp_all
  have 2: "unat (((tsc - tsc_origin c) mod tsc_hz c * 1000000000) div tsc_hz c) = (e mod z) * 1000000000 div z"
    using b lt by (simp add: unat_div unat_u64_mult z_def)
  have nz: "tsc_hz c \<noteq> 0" using assms(2) by auto
  have "unat (monotonic_ns dev tsc c) = e div z * 1000000000 + (e mod z) * 1000000000 div z"
    using assms(1) nz 1 2 sum by (simp add: monotonic_ns_def Let_def unat_u64_add)
  then show ?thesis using split by (simp add: e_def z_def)
qed

text \<open>
  The HPET clock is not monotonic. The counter is multiplied by its period in femtoseconds before
  the division, so the product wraps after about five hours and the time starts again from zero.
\<close>

lemma hpet_clock_wraps:
  "\<exists>c dev dev'. hpet c \<noteq> 0 \<and> hpet_period_fs c = 0x05F5E100 \<and> hpet_counter < 0xFFF \<and>
     dev (hpet_counter div 8) < dev' (hpet_counter div 8) \<and>
     monotonic_ns dev' 0 c < monotonic_ns dev 0 c \<and> unat (monotonic_ns dev 0 c) = 18446744073700"
proof -
  let ?c = "\<lparr>hpet = 0x1000, hpet_period_fs = 0x05F5E100, tsc_hz = 0, tsc_origin = 0\<rparr>"
  show ?thesis
    by (rule exI [of _ ?c], rule exI [of _ "\<lambda>_. 184467440737"], rule exI [of _ "\<lambda>_. 184467440738"])
      (simp add: monotonic_ns_def hpet_read_def hpet_counter_def)
qed

section \<open>Witnesses\<close>

definition one_timer :: timers where
  "one_timer = \<lparr>tm_table = \<lparr>tm_deadline = 50, tm_period = 10, tm_callback = 1, tm_context = 2, tm_handle = 1, tm_active = True\<rparr>
       # \<lparr>tm_deadline = 0, tm_period = 0, tm_callback = 0, tm_context = 0, tm_handle = 0, tm_active = False\<rparr>
       # replicate 62 \<lparr>tm_deadline = 0, tm_period = 0, tm_callback = 0, tm_context = 0, tm_handle = 0, tm_active = False\<rparr>,
     next_handle = 2, tick_count = 0, lapic_driven = True, tm_hw = Stopped, tm_io = []\<rparr>"

lemma one_timer_inv: "timers_inv one_timer"
  by (auto simp: timers_inv_def one_timer_def nth_Cons')

theorem timers_run_fires_expired_witness:
  "tick_count (timers_run (\<lambda>f c s. s\<lparr>tick_count := tick_count s + c\<rparr>) 60 60 one_timer) = 2"
  using timers_run_fires_expired [of one_timer "\<lambda>f c s. s\<lparr>tick_count := tick_count s + c\<rparr>" "\<lambda>f c n. n + c" 60 60]
  by (simp add: one_timer_def expired_def)

lemma timer_arm_cancel_example:
  "\<exists>s'. arm 5 6 100 0 7 8 one_timer = (2, s') \<and> live_handles (timer_cancel 6 2 s') = live_handles one_timer"
proof -
  obtain s' where a: "arm 5 6 100 0 7 8 one_timer = (2, s')"
    by (simp add: arm_def one_timer_def Let_def)
  have "next_handle one_timer < 0xFFFFFFFF" by (simp add: one_timer_def)
  then show ?thesis using timer_arm_cancel [OF one_timer_inv _ a] a by simp
qed

lemma program_next_earliest_example: "tm_hw (program_next 20 one_timer) \<noteq> Stopped"
proof
  assume "tm_hw (program_next 20 one_timer) = Stopped"
  then have "\<forall>t \<in> set (tm_table one_timer). \<not> tm_active t"
    using program_next_earliest [of one_timer 20] by (simp add: one_timer_def)
  then show False by (simp add: one_timer_def)
qed

theorem tsc_clock_exact_witness:
  "unat (monotonic_ns (\<lambda>_. 0) 7000000000 \<lparr>hpet = 0, hpet_period_fs = 0, tsc_hz = 3000000000, tsc_origin = 1000000000\<rparr>) = 2000000000"
  using tsc_clock_exact [of "\<lparr>hpet = 0, hpet_period_fs = 0, tsc_hz = 3000000000, tsc_origin = 1000000000\<rparr>" 7000000000 "\<lambda>_. 0"]
  by simp

end
