(* ===== verification/Module.thy ===== *)
theory Module
  imports Prelude
begin

unbundle bit_operations_syntax

text \<open>
  The export table, \<^verbatim>\<open>kernel/module/symbols.cpp\<close>, and the module framework,
  \<^verbatim>\<open>kernel/module/module.cpp\<close> with \<^verbatim>\<open>include/eris/module.hpp\<close>.

  Names are strings and \<open>strcmp(a, b) == 0\<close> is their equality. The descriptors of the builtin
  modules and the symbols of the kernel image are laid down by the linker, so they are arguments;
  so is what a module's init function returns, because it is the module's own code: it is a function
  of the calls into modules made so far, which the state records in order, and of the function
  called. A reference count is the 32 bit counter of the code. A panic is an \<open>Inl\<close>.
\<close>

section \<open>Exported symbols\<close>

text \<open>
  A symbol is a name (or null) and an address. The linker puts no null name into the kernel's own
  table.
\<close>

type_synonym ExportedSymbol = "string option \<times> u64"

record RegisteredTable =
  rt_table :: "ExportedSymbol list"
  rt_owner :: virt_addr

record symbols =
  sym_tables :: "RegisteredTable list"
  table_count :: nat

definition max_tables :: nat where [simp]: "max_tables = 16"

definition symbol_register_table :: "ExportedSymbol list option \<Rightarrow> virt_addr \<Rightarrow> symbols \<Rightarrow> bool \<times> symbols" where
  "symbol_register_table table owner s =
     (case table of
        None \<Rightarrow> (False, s)
      | Some t \<Rightarrow>
          if t = [] then (False, s)
          else if table_count s \<ge> max_tables then (False, s)
          else (True, s\<lparr>sym_tables := (sym_tables s)[table_count s := \<lparr>rt_table = t, rt_owner = owner\<rparr>],
                        table_count := table_count s + 1\<rparr>))"

function unregister_loop :: "virt_addr \<Rightarrow> nat \<Rightarrow> symbols \<Rightarrow> symbols" where
  "unregister_loop owner i s =
     (if i < table_count s
      then if rt_owner (sym_tables s ! i) = owner
           then unregister_loop owner i (s\<lparr>table_count := table_count s - 1,
                  sym_tables := (sym_tables s)[i := sym_tables s ! (table_count s - 1)]\<rparr>)
           else unregister_loop owner (i + 1) s
      else s)"
  by pat_completeness auto
termination by (relation "measure (\<lambda>(owner, i, s). table_count s - i)") auto

declare unregister_loop.simps [simp del]

definition symbol_unregister_owner :: "virt_addr \<Rightarrow> symbols \<Rightarrow> symbols" where
  "symbol_unregister_owner owner s = unregister_loop owner 0 s"

fun lookup_in :: "string \<Rightarrow> ExportedSymbol list \<Rightarrow> u64 option" where
  "lookup_in name [] = None"
| "lookup_in name ((n, a) # syms) = (if n = Some name then Some a else lookup_in name syms)"

fun lookup_tables :: "string \<Rightarrow> RegisteredTable list \<Rightarrow> u64 option" where
  "lookup_tables name [] = None"
| "lookup_tables name (t # ts) =
     (case lookup_in name (rt_table t) of Some a \<Rightarrow> Some a | None \<Rightarrow> lookup_tables name ts)"

text \<open>The result of \<open>symbol_lookup\<close>; null is 0.\<close>

definition symbol_lookup :: "(string \<times> u64) list \<Rightarrow> string \<Rightarrow> symbols \<Rightarrow> u64" where
  "symbol_lookup kernel_symbols name s =
     (case map_of kernel_symbols name of
        Some a \<Rightarrow> a
      | None \<Rightarrow> (case lookup_tables name (take (table_count s) (sym_tables s)) of Some a \<Rightarrow> a | None \<Rightarrow> 0))"

definition symbol_count :: "(string \<times> u64) list \<Rightarrow> usize" where
  "symbol_count kernel_symbols = of_nat (length kernel_symbols)"

definition symbol_at :: "(string \<times> u64) list \<Rightarrow> usize \<Rightarrow> (string \<times> u64) option" where
  "symbol_at kernel_symbols index =
     (if index < symbol_count kernel_symbols then Some (kernel_symbols ! unat index) else None)"

section \<open>Modules\<close>

datatype ModuleState = Registered | Loading | MReady | Failed

record ModuleInfo =
  mi_abi :: u32
  mi_name :: string
  mi_license :: "string option"
  mi_init :: u64
  mi_exit :: u64
  mi_deps :: "string list"

record Module =
  m_info :: ModuleInfo
  m_state :: ModuleState
  m_dependents :: u32
  m_users :: u32
  m_error :: int
  m_image_base :: virt_addr
  m_image_pages :: usize

datatype module_call = CallInit u64 | CallExit u64

type_synonym init_fn = "module_call list \<Rightarrow> u64 \<Rightarrow> int"

record modtab =
  modules :: "Module list"
  registered :: nat
  tainted :: bool
  calls :: "module_call list"

definition max_modules :: nat where [simp]: "max_modules = 64"
definition module_abi_version :: u32 where [simp]: "module_abi_version = 1"

definition free_licenses :: "string list" where
  "free_licenses = [''GPL-2.0-only'', ''GPL-2.0-or-later'', ''GPL-3.0-only'', ''GPL-3.0-or-later'',
     ''LGPL-2.1-or-later'', ''MIT'', ''BSD-2-Clause'', ''BSD-3-Clause'', ''Apache-2.0'']"

definition m_name :: "Module \<Rightarrow> string" where [simp]: "m_name m = mi_name (m_info m)"
definition m_deps :: "Module \<Rightarrow> string list" where [simp]: "m_deps m = mi_deps (m_info m)"

definition set_module :: "nat \<Rightarrow> (Module \<Rightarrow> Module) \<Rightarrow> modtab \<Rightarrow> modtab" where
  "set_module i f s = s\<lparr>modules := (modules s)[i := f (modules s ! i)]\<rparr>"

fun find_from :: "string \<Rightarrow> Module list \<Rightarrow> nat option" where
  "find_from name [] = None"
| "find_from name (m # ms) = (if m_name m = name then Some 0 else map_option Suc (find_from name ms))"

definition find_module :: "string \<Rightarrow> modtab \<Rightarrow> nat option" where
  "find_module name s = find_from name (take (registered s) (modules s))"

definition module_license_is_free :: "string option \<Rightarrow> bool" where
  "module_license_is_free license =
     (case license of None \<Rightarrow> False | Some l \<Rightarrow> l \<in> set free_licenses)"

definition take_ref :: "u32 \<Rightarrow> u32" where "take_ref n = n + 1"

definition release_ref :: "u32 \<Rightarrow> bool \<times> u32" where "release_ref n = (n = 1, n - 1)"

text \<open>\<open>find\<close> cannot miss here: the dependencies have just been loaded.\<close>

definition acquire_dependencies :: "string list \<Rightarrow> modtab \<Rightarrow> modtab" where
  "acquire_dependencies deps s =
     fold (\<lambda>d s. case find_module d s of
        Some j \<Rightarrow> set_module j (\<lambda>m. m\<lparr>m_dependents := take_ref (m_dependents m)\<rparr>) s | None \<Rightarrow> s) deps s"

definition finish_load :: "init_fn \<Rightarrow> nat \<Rightarrow> modtab \<Rightarrow> int \<times> modtab" where
  "finish_load init i s =
     (let m = modules s ! i;
          s1 = (if \<not> module_license_is_free (mi_license (m_info m)) then s\<lparr>tainted := True\<rparr> else s);
          f = mi_init (m_info m);
          result = (if f \<noteq> 0 then init (calls s1) f else 0);
          s2 = (if f \<noteq> 0 then s1\<lparr>calls := calls s1 @ [CallInit f]\<rparr> else s1)
      in if result \<noteq> 0 then (result, set_module i (\<lambda>m. m\<lparr>m_state := Failed, m_error := result\<rparr>) s2)
         else (0, set_module i (\<lambda>m. m\<lparr>m_state := MReady, m_error := 0\<rparr>) (acquire_dependencies (m_deps m) s2)))"

text \<open>
  \<open>load_locked init n i\<close> is \<open>load_locked(modules[i], 65 - n)\<close>: the depth may reach 64, and a chain
  that is still not at its end there is refused.
\<close>

function (sequential) load_locked :: "init_fn \<Rightarrow> nat \<Rightarrow> nat \<Rightarrow> modtab \<Rightarrow> int \<times> modtab"
  and load_dependencies :: "init_fn \<Rightarrow> nat \<Rightarrow> string list \<Rightarrow> modtab \<Rightarrow> int \<times> modtab" where
  "load_locked init 0 i s = (-1, s)"
| "load_locked init (Suc n) i s =
     (case m_state (modules s ! i) of
        MReady \<Rightarrow> (0, s)
      | Loading \<Rightarrow> (-1, s)
      | Failed \<Rightarrow> (m_error (modules s ! i), s)
      | Registered \<Rightarrow>
          let s1 = set_module i (\<lambda>m. m\<lparr>m_state := Loading\<rparr>) s
          in case load_dependencies init n (m_deps (modules s1 ! i)) s1 of (result, s2) \<Rightarrow>
               if result \<noteq> 0 then (-1, set_module i (\<lambda>m. m\<lparr>m_state := Failed, m_error := -1\<rparr>) s2)
               else finish_load init i s2)"
| "load_dependencies init n [] s = (0, s)"
| "load_dependencies init n (d # ds) s =
     (case find_module d s of
        None \<Rightarrow> (-1, s)
      | Some j \<Rightarrow> (case load_locked init n j s of (result, s1) \<Rightarrow>
          if result \<noteq> 0 then (result, s1) else load_dependencies init n ds s1))"
  by pat_completeness auto
termination
  by (relation "measures [\<lambda>x. case x of Inl (init, n, i, s) \<Rightarrow> 2 * n | Inr (init, n, ds, s) \<Rightarrow> 2 * n + 1,
        \<lambda>x. case x of Inl _ \<Rightarrow> 0 | Inr (init, n, ds, s) \<Rightarrow> length ds]") auto

datatype module_panic = NoReference string string | UnmatchedPut string

fun release_dependencies :: "string \<Rightarrow> string list \<Rightarrow> modtab \<Rightarrow> module_panic + modtab" where
  "release_dependencies name [] s = Inr s"
| "release_dependencies name (d # ds) s =
     (case find_module d s of
        None \<Rightarrow> release_dependencies name ds s
      | Some j \<Rightarrow>
          if m_dependents (modules s ! j) = 0 then Inl (NoReference name (m_name (modules s ! j)))
          else release_dependencies name ds
                 (set_module j (\<lambda>m. m\<lparr>m_dependents := snd (release_ref (m_dependents m))\<rparr>) s))"

definition module_register_loaded :: "ModuleInfo option \<Rightarrow> virt_addr \<Rightarrow> usize \<Rightarrow> modtab \<Rightarrow> int \<times> modtab" where
  "module_register_loaded info base pages s =
     (case info of
        None \<Rightarrow> (-1, s)
      | Some info' \<Rightarrow>
          if mi_abi info' \<noteq> module_abi_version then (-1, s)
          else if find_module (mi_name info') s \<noteq> None then (-1, s)
          else if registered s \<ge> max_modules then (-1, s)
          else (0, set_module (registered s) (\<lambda>m. m\<lparr>m_info := info', m_state := Registered, m_error := 0,
                     m_image_base := base, m_image_pages := pages\<rparr>) (s\<lparr>registered := registered s + 1\<rparr>)))"

definition register_builtin :: "ModuleInfo \<Rightarrow> modtab \<Rightarrow> modtab" where
  "register_builtin info' s =
     (if registered s \<ge> max_modules then s
      else if mi_abi info' \<noteq> module_abi_version then s
      else set_module (registered s) (\<lambda>m. m\<lparr>m_info := info', m_state := Registered, m_error := 0,
             m_image_base := 0, m_image_pages := 0\<rparr>) (s\<lparr>registered := registered s + 1\<rparr>))"

definition module_init_builtin :: "init_fn \<Rightarrow> ModuleInfo list \<Rightarrow> modtab \<Rightarrow> modtab" where
  "module_init_builtin init builtin s =
     (let s1 = fold register_builtin builtin s
      in fold (\<lambda>i s. snd (load_locked init 65 i s)) [0..<registered s1] s1)"

definition module_load :: "init_fn \<Rightarrow> string \<Rightarrow> modtab \<Rightarrow> int \<times> modtab" where
  "module_load init name s =
     (case find_module name s of None \<Rightarrow> (-1, s) | Some i \<Rightarrow> load_locked init 65 i s)"

text \<open>
  Unloading a loaded image also gives up its exports and its memory: \<open>release_image\<close> is what
  \<open>module_release_image\<close> does to the rest of the system.
\<close>

definition module_unload ::
  "(virt_addr \<Rightarrow> usize \<Rightarrow> 'w \<Rightarrow> 'w) \<Rightarrow> string \<Rightarrow> modtab \<times> symbols \<times> 'w \<Rightarrow> module_panic + int \<times> modtab \<times> symbols \<times> 'w" where
  "module_unload release_image name st =
     (let (s, syms, w) = st
      in case find_module name s of
           None \<Rightarrow> Inr (-1, st)
         | Some i \<Rightarrow>
             let m = modules s ! i
             in if m_state m \<noteq> MReady then Inr (0, st)
                else if m_dependents m \<noteq> 0 \<or> m_users m \<noteq> 0 then Inr (-1, st)
                else case release_dependencies (m_name m) (m_deps m)
                            (if mi_exit (m_info m) \<noteq> 0 then s\<lparr>calls := calls s @ [CallExit (mi_exit (m_info m))]\<rparr> else s) of
                       Inl p \<Rightarrow> Inl p
                     | Inr s1 \<Rightarrow>
                         let s2 = set_module i (\<lambda>m. m\<lparr>m_state := Registered\<rparr>) s1
                         in if m_image_base (modules s2 ! i) \<noteq> 0
                            then let base = m_image_base (modules s2 ! i); pages = m_image_pages (modules s2 ! i);
                                     s3 = set_module i (\<lambda>m. m\<lparr>m_image_base := 0, m_image_pages := 0\<rparr>) s2;
                                     s4 = s3\<lparr>modules := (modules s3)[i := modules s3 ! (registered s3 - 1)],
                                            registered := registered s3 - 1\<rparr>
                                 in Inr (0, s4, symbol_unregister_owner base syms, release_image base pages w)
                            else Inr (0, s2, syms, w))"

definition module_at :: "usize \<Rightarrow> modtab \<Rightarrow> nat option" where
  "module_at index s = (if unat index < registered s then Some (unat index) else None)"

definition module_count :: "modtab \<Rightarrow> nat" where
  "module_count s = registered s"

definition module_get :: "string \<Rightarrow> modtab \<Rightarrow> bool \<times> modtab" where
  "module_get name s =
     (case find_module name s of
        None \<Rightarrow> (False, s)
      | Some i \<Rightarrow> if m_state (modules s ! i) \<noteq> MReady then (False, s)
                 else (True, set_module i (\<lambda>m. m\<lparr>m_users := take_ref (m_users m)\<rparr>) s))"

definition module_put :: "string \<Rightarrow> modtab \<Rightarrow> module_panic + modtab" where
  "module_put name s =
     (case find_module name s of
        None \<Rightarrow> Inl (UnmatchedPut name)
      | Some i \<Rightarrow> if m_users (modules s ! i) = 0 then Inl (UnmatchedPut name)
                 else Inr (set_module i (\<lambda>m. m\<lparr>m_users := snd (release_ref (m_users m))\<rparr>) s))"

definition kernel_tainted :: "modtab \<Rightarrow> bool" where
  "kernel_tainted s = tainted s"

definition module_state_name :: "ModuleState \<Rightarrow> string" where
  "module_state_name st = (case st of Registered \<Rightarrow> ''registered'' | Loading \<Rightarrow> ''loading''
     | MReady \<Rightarrow> ''ready'' | Failed \<Rightarrow> ''failed'')"

end
