(* ===== verification/Module_Correct.thy ===== *)
theory Module_Correct
  imports Module
begin

text \<open>
  What the module table keeps: the dependencies of a ready module are ready, its reference counts
  are the numbers of ready modules that name it, and the dependencies between ready modules have
  no cycle.
\<close>

section \<open>The invariant\<close>

definition mready :: "modtab \<Rightarrow> nat \<Rightarrow> bool" where
  "mready s i \<longleftrightarrow> i < registered s \<and> m_state (modules s ! i) = MReady"

definition mname :: "modtab \<Rightarrow> nat \<Rightarrow> string" where
  "mname s i = mi_name (m_info (modules s ! i))"

definition mdeps :: "modtab \<Rightarrow> nat \<Rightarrow> string list" where
  "mdeps s i = mi_deps (m_info (modules s ! i))"

definition dep_refs :: "modtab \<Rightarrow> string \<Rightarrow> nat" where
  "dep_refs s nm = (\<Sum>i\<in>{..<registered s}. if mready s i then count_list (mdeps s i) nm else 0)"

definition dep_edges :: "modtab \<Rightarrow> (string \<times> string) set" where
  "dep_edges s = {(mname s i, d) | i d. mready s i \<and> d \<in> set (mdeps s i)}"

definition table_wf :: "modtab \<Rightarrow> bool" where
  "table_wf s \<longleftrightarrow> length (modules s) = 64 \<and> registered s \<le> 64
     \<and> (\<forall>i<registered s. \<forall>j<registered s. mname s i = mname s j \<longrightarrow> i = j)
     \<and> (\<Sum>i\<in>{..<registered s}. length (mdeps s i)) < 2 ^ 32"

definition deps_ready :: "modtab \<Rightarrow> string list \<Rightarrow> bool" where
  "deps_ready s ds \<longleftrightarrow> (\<forall>d\<in>set ds. \<exists>j. mready s j \<and> mname s j = d)"

definition mod_inv :: "modtab \<Rightarrow> bool" where
  "mod_inv s \<longleftrightarrow> table_wf s
     \<and> (\<forall>i. mready s i \<longrightarrow> deps_ready s (mdeps s i))
     \<and> (\<forall>i<registered s. unat (m_dependents (modules s ! i)) = dep_refs s (mname s i))
     \<and> (\<forall>i. registered s \<le> i \<longrightarrow> i < 64 \<longrightarrow> m_dependents (modules s ! i) = 0)
     \<and> (\<forall>i<registered s. m_state (modules s ! i) = Failed \<longrightarrow> m_error (modules s ! i) \<noteq> 0)
     \<and> acyclic (dep_edges s)"

lemma mod_invI:
  assumes "table_wf s" and "\<And>i. mready s i \<Longrightarrow> deps_ready s (mdeps s i)"
    and "\<And>i. i < registered s \<Longrightarrow> unat (m_dependents (modules s ! i)) = dep_refs s (mname s i)"
    and "\<And>i. registered s \<le> i \<Longrightarrow> i < 64 \<Longrightarrow> m_dependents (modules s ! i) = 0"
    and "\<And>i. i < registered s \<Longrightarrow> m_state (modules s ! i) = Failed \<Longrightarrow> m_error (modules s ! i) \<noteq> 0"
    and "acyclic (dep_edges s)"
  shows "mod_inv s"
  using assms unfolding mod_inv_def by blast

lemma mod_invD:
  assumes "mod_inv s"
  shows "table_wf s" and "\<And>i. mready s i \<Longrightarrow> deps_ready s (mdeps s i)"
    and "\<And>i. i < registered s \<Longrightarrow> unat (m_dependents (modules s ! i)) = dep_refs s (mname s i)"
    and "\<And>i. registered s \<le> i \<Longrightarrow> i < 64 \<Longrightarrow> m_dependents (modules s ! i) = 0"
    and "\<And>i. i < registered s \<Longrightarrow> m_state (modules s ! i) = Failed \<Longrightarrow> m_error (modules s ! i) \<noteq> 0"
    and "acyclic (dep_edges s)"
  using assms unfolding mod_inv_def by blast+

lemma find_from_Some: "find_from nm ms = Some j \<Longrightarrow> j < length ms \<and> m_name (ms ! j) = nm"
  by (induction nm ms arbitrary: j rule: find_from.induct) (auto split: if_splits)

lemma find_from_None: "find_from nm ms = None \<longleftrightarrow> (\<forall>m\<in>set ms. m_name m \<noteq> nm)"
  by (induction nm ms rule: find_from.induct) auto

lemma find_module_Some:
  assumes "find_module nm s = Some j" and "table_wf s"
  shows "j < registered s" and "mname s j = nm"
  using find_from_Some [OF assms(1) [unfolded find_module_def]] assms(2)
  by (auto simp: table_wf_def mname_def)

lemma find_module_name:
  assumes "j < registered s" and "table_wf s"
  shows "find_module (mname s j) s = Some j"
proof (cases "find_module (mname s j) s")
  case None
  then have "\<forall>m\<in>set (take (registered s) (modules s)). m_name m \<noteq> mname s j"
    by (simp add: find_module_def find_from_None)
  moreover have "modules s ! j \<in> set (take (registered s) (modules s))"
    using assms by (auto simp: table_wf_def in_set_conv_nth)
  ultimately show ?thesis
    by (auto simp: mname_def)
next
  case (Some k)
  then show ?thesis
    using find_module_Some [OF Some assms(2)] assms by (auto simp: table_wf_def)
qed

section \<open>Steps that leave descriptors alone\<close>

definition same_infos :: "modtab \<Rightarrow> modtab \<Rightarrow> bool" where
  "same_infos s s' \<longleftrightarrow> registered s' = registered s \<and> length (modules s') = length (modules s)
     \<and> (\<forall>i<registered s. m_info (modules s' ! i) = m_info (modules s ! i))"

lemma same_infos_refl [simp]: "same_infos s s"
  by (simp add: same_infos_def)

lemma same_infos_trans: "same_infos s s' \<Longrightarrow> same_infos s' s'' \<Longrightarrow> same_infos s s''"
  by (simp add: same_infos_def)

lemma same_infosD:
  assumes "same_infos s s'"
  shows "registered s' = registered s" and "i < registered s \<Longrightarrow> mname s' i = mname s i"
    and "i < registered s \<Longrightarrow> mdeps s' i = mdeps s i"
  using assms by (auto simp: same_infos_def mname_def mdeps_def)

lemma same_infos_wf:
  assumes "same_infos s s'" and "table_wf s"
  shows "table_wf s'"
proof -
  note n = same_infosD [OF assms(1)]
  have "(\<Sum>i\<in>{..<registered s'}. length (mdeps s' i)) = (\<Sum>i\<in>{..<registered s}. length (mdeps s i))"
    using n by (intro sum.cong) auto
  moreover have "length (modules s') = length (modules s)"
    using assms(1) by (simp add: same_infos_def)
  ultimately show ?thesis
    using assms(2) n(1,2) unfolding table_wf_def by simp
qed

lemma set_module_same_infos:
  assumes "\<And>m. m_info (f m) = m_info m"
  shows "same_infos s (set_module i f s)"
  using assms by (cases "i < length (modules s)")
    (auto simp: same_infos_def set_module_def nth_list_update list_update_beyond)

lemma set_module_nth:
  "i < length (modules s) \<Longrightarrow> modules (set_module i f s) ! k = (if k = i then f (modules s ! i) else modules s ! k)"
  by (auto simp: set_module_def nth_list_update)

lemma set_module_simps [simp]:
  "registered (set_module i f s) = registered s" "length (modules (set_module i f s)) = length (modules s)"
  "tainted (set_module i f s) = tainted s" "calls (set_module i f s) = calls s"
  by (simp_all add: set_module_def)

text \<open>
  A step that changes neither descriptors, nor counts, nor which modules are ready keeps the
  invariant.
\<close>

definition same_ready :: "modtab \<Rightarrow> modtab \<Rightarrow> bool" where
  "same_ready s s' \<longleftrightarrow> same_infos s s' \<and> (\<forall>i. mready s' i = mready s i)
     \<and> (\<forall>i<64. m_dependents (modules s' ! i) = m_dependents (modules s ! i))"

lemma same_ready_refs:
  assumes "same_infos s s'" and "\<And>i. mready s' i = mready s i"
  shows "dep_refs s' = dep_refs s" and "dep_edges s' = dep_edges s"
proof -
  show "dep_refs s' = dep_refs s"
  proof
    fix nm show "dep_refs s' nm = dep_refs s nm"
      unfolding dep_refs_def using same_infosD [OF assms(1)] assms(2) by (intro sum.cong) auto
  qed
  show "dep_edges s' = dep_edges s"
  proof -
    have e: "mname s' i = mname s i" "mdeps s' i = mdeps s i" if "mready s i" for i
      using that same_infosD(2,3) [OF assms(1)] by (auto simp: mready_def)
    show ?thesis unfolding dep_edges_def assms(2) using e by (intro Collect_cong) metis
  qed
qed

lemma same_ready_inv:
  assumes "mod_inv s" and "same_ready s s'"
    and "\<And>i. i < registered s \<Longrightarrow> m_state (modules s' ! i) = Failed \<Longrightarrow> m_error (modules s' ! i) \<noteq> 0"
  shows "mod_inv s'"
proof (rule mod_invI)
  note i = mod_invD [OF assms(1)]
  have inf: "same_infos s s'" and r: "\<And>i. mready s' i = mready s i"
    and d: "\<And>i. i < 64 \<Longrightarrow> m_dependents (modules s' ! i) = m_dependents (modules s ! i)"
    using assms(2) by (auto simp: same_ready_def)
  note n = same_infosD [OF inf]
  have le: "registered s \<le> 64" using i(1) by (simp add: table_wf_def)
  show "table_wf s'" by (rule same_infos_wf [OF inf i(1)])
  show "deps_ready s' (mdeps s' k)" if "mready s' k" for k
  proof -
    have "mready s k" using that r by simp
    then have "deps_ready s (mdeps s k)" and "k < registered s" using i(2) by (auto simp: mready_def)
    then show ?thesis unfolding deps_ready_def using n r by (metis mready_def)
  qed
  show "unat (m_dependents (modules s' ! k)) = dep_refs s' (mname s' k)" if "k < registered s'" for k
    using that n d [of k] i(3) [of k] le same_ready_refs [OF inf r] by simp
  show "m_dependents (modules s' ! k) = 0" if "registered s' \<le> k" "k < 64" for k
    using that n(1) d i(4) by simp
  show "m_error (modules s' ! k) \<noteq> 0" if "k < registered s'" "m_state (modules s' ! k) = Failed" for k
    using that n(1) assms(3) by simp
  show "acyclic (dep_edges s')" using i(6) same_ready_refs [OF inf r] by simp
qed

lemma not_ready_step:
  assumes inv: "mod_inv s" and i: "i < registered s" and st: "m_state (modules s ! i) \<noteq> MReady"
    and f: "\<And>m. m_info (f m) = m_info m" "\<And>m. m_dependents (f m) = m_dependents m"
    and st': "\<And>m. m_state (f m) = X" "X \<noteq> MReady" "X = Failed \<Longrightarrow> \<forall>m. m_error (f m) \<noteq> 0"
  shows "mod_inv (set_module i f s)"
proof (rule same_ready_inv [OF inv])
  have l: "i < length (modules s)" using i inv by (auto simp: mod_inv_def table_wf_def)
  show "same_ready s (set_module i f s)"
    unfolding same_ready_def using l f st st' set_module_same_infos [of f s i]
    by (auto simp: mready_def set_module_nth)
  show "m_error (modules (set_module i f s) ! k) \<noteq> 0"
    if "k < registered s" "m_state (modules (set_module i f s) ! k) = Failed" for k
    using that l st' mod_invD(5) [OF inv that(1)] by (auto simp: set_module_nth split: if_splits)
qed

section \<open>Loading\<close>

lemma acyclic_new_source:
  assumes "acyclic r" and "a \<notin> Range r" and "a \<notin> D"
  shows "acyclic (r \<union> {a} \<times> D)"
proof -
  have "y \<noteq> a \<and> (x = a \<or> (x, y) \<in> r\<^sup>+)" if "(x, y) \<in> (r \<union> {a} \<times> D)\<^sup>+" for x y
    using that
  proof (induction rule: trancl_induct)
    case (base y)
    then show ?case using assms(2,3) by auto
  next
    case (step y z)
    then show ?case using assms(2,3) by (auto intro: trancl_into_trancl)
  qed
  then show ?thesis
    using assms(1) unfolding acyclic_def by blast
qed

lemma acquire_nth:
  assumes "table_wf s" and "\<forall>d\<in>set ds. \<exists>j<registered s. mname s j = d"
  shows "modules (acquire_dependencies ds s) ! k = (modules s ! k)\<lparr>m_dependents :=
           m_dependents (modules s ! k) + of_nat (if k < registered s then count_list ds (mname s k) else 0)\<rparr>
     \<and> same_infos s (acquire_dependencies ds s)"
  using assms
proof (induction ds arbitrary: s)
  case Nil
  then show ?case by (simp add: acquire_dependencies_def)
next
  case (Cons d ds)
  from Cons.prems obtain j where j: "j < registered s" "mname s j = d" by auto
  let ?s = "set_module j (\<lambda>m. m\<lparr>m_dependents := take_ref (m_dependents m)\<rparr>) s"
  have find: "find_module d s = Some j" using find_module_name [OF j(1) Cons.prems(1)] j(2) by simp
  then have e: "acquire_dependencies (d # ds) s = acquire_dependencies ds ?s"
    by (simp add: acquire_dependencies_def)
  have inf: "same_infos s ?s" by (rule set_module_same_infos) simp
  note n = same_infosD [OF inf]
  have wf: "table_wf ?s" by (rule same_infos_wf [OF inf Cons.prems(1)])
  have "\<exists>j<registered ?s. mname ?s j = d'" if d': "d' \<in> set ds" for d'
  proof -
    obtain k where k: "k < registered s" "mname s k = d'" using d' Cons.prems(2) by auto
    then have "k < registered ?s" "mname ?s k = d'" using n(1) n(2) [OF k(1)] by simp_all
    then show ?thesis by blast
  qed
  then have "\<forall>d\<in>set ds. \<exists>j<registered ?s. mname ?s j = d" by blast
  note IH = Cons.IH [OF wf this]
  have l: "j < length (modules s)" using j Cons.prems(1) by (simp add: table_wf_def)
  have uniq: "k < registered s \<Longrightarrow> mname s k = d \<longleftrightarrow> k = j"
    using j Cons.prems(1) by (auto simp: table_wf_def)
  have inf2: "same_infos s (acquire_dependencies ds ?s)"
    using IH same_infos_trans [OF inf] by blast
  have nth: "modules ?s ! k = (if k = j then (modules s ! j)\<lparr>m_dependents := m_dependents (modules s ! j) + 1\<rparr> else modules s ! k)"
    by (simp add: set_module_nth [OF l] take_ref_def)
  have c: "(if k < registered ?s then count_list ds (mname ?s k) else 0) = (if k < registered s then count_list ds (mname s k) else 0)"
    using n(1,2) by simp
  have "modules (acquire_dependencies ds ?s) ! k = (modules ?s ! k)\<lparr>m_dependents :=
      m_dependents (modules ?s ! k) + of_nat (if k < registered s then count_list ds (mname s k) else 0)\<rparr>"
    using IH unfolding c by blast
  then show ?case
    unfolding e nth using inf2 uniq j by (cases "k = j") (auto simp: add.assoc add.commute)
qed

lemma dep_refs_bound:
  assumes "table_wf s"
  shows "dep_refs s nm < 2 ^ 32"
proof -
  have "dep_refs s nm \<le> (\<Sum>i\<in>{..<registered s}. length (mdeps s i))"
    unfolding dep_refs_def by (intro sum_mono) (simp add: count_le_length)
  then show ?thesis using assms by (simp add: table_wf_def)
qed

lemma dep_refs_new:
  assumes "same_infos s s'" and "i < registered s" and "\<not> mready s i"
    and "\<And>k. mready s' k \<longleftrightarrow> mready s k \<or> k = i"
  shows "dep_refs s' nm = dep_refs s nm + count_list (mdeps s i) nm"
proof -
  note n = same_infosD [OF assms(1)]
  have "dep_refs s' nm = (\<Sum>k\<in>{..<registered s}.
      (if mready s k then count_list (mdeps s k) nm else 0) + (if k = i then count_list (mdeps s i) nm else 0))"
    unfolding dep_refs_def n(1) using n(3) assms(3,4) by (intro sum.cong) auto
  also have "\<dots> = dep_refs s nm + count_list (mdeps s i) nm"
    using assms(2) by (simp add: sum.distrib dep_refs_def)
  finally show ?thesis .
qed

lemma become_ready_inv:
  assumes inv: "mod_inv s" and i: "i < registered s" and st: "m_state (modules s ! i) \<noteq> MReady"
    and dr: "deps_ready s (mdeps s i)"
  defines "s' \<equiv> set_module i (\<lambda>m. m\<lparr>m_state := MReady, m_error := 0\<rparr>) (acquire_dependencies (mdeps s i) s)"
  shows "mod_inv s'" and "same_infos s s'" and "\<And>k. mready s' k \<longleftrightarrow> mready s k \<or> k = i"
    and "\<And>k. k \<noteq> i \<Longrightarrow> m_state (modules s' ! k) = m_state (modules s ! k)"
proof -
  note I = mod_invD [OF inv]
  let ?a = "acquire_dependencies (mdeps s i) s"
  have ex: "\<forall>d\<in>set (mdeps s i). \<exists>j<registered s. mname s j = d"
    using dr by (auto simp: deps_ready_def mready_def)
  note acq = acquire_nth [OF I(1) ex]
  have inf1: "same_infos s ?a" using acq by blast
  have inf: "same_infos s s'"
    unfolding s'_def by (rule same_infos_trans [OF inf1 set_module_same_infos]) simp
  then show "same_infos s s'" .
  have l: "i < length (modules ?a)"
    using i I(1) inf1 by (simp add: table_wf_def same_infos_def)
  have nth: "modules s' ! k = (if k = i then (modules ?a ! k)\<lparr>m_state := MReady, m_error := 0\<rparr> else modules ?a ! k)" for k
    unfolding s'_def by (simp add: set_module_nth [OF l])
  show st': "m_state (modules s' ! k) = m_state (modules s ! k)" if "k \<noteq> i" for k
    using that acq nth by simp
  note n = same_infosD [OF inf]
  show rdy: "mready s' k \<longleftrightarrow> mready s k \<or> k = i" for k
    using st' [of k] nth [of k] i n(1) by (auto simp: mready_def)
  have nr: "\<not> mready s i" using st by (simp add: mready_def)
  note refs = dep_refs_new [OF inf i nr rdy]
  have wf: "table_wf s'" by (rule same_infos_wf [OF inf I(1)])
  have dr': "deps_ready s' ds" if "deps_ready s ds" for ds
    using that n(2) rdy unfolding deps_ready_def by (metis mready_def)
  show "mod_inv s'"
  proof (rule mod_invI [OF wf])
    show "deps_ready s' (mdeps s' k)" if "mready s' k" for k
      using that rdy [of k] dr dr' I(2) [of k] n(3) [of k] i by (auto simp: mready_def)
    show "unat (m_dependents (modules s' ! k)) = dep_refs s' (mname s' k)" if k: "k < registered s'" for k
    proof -
      have kr: "k < registered s" using k n(1) by simp
      have "m_dependents (modules s' ! k) = m_dependents (modules s ! k) + of_nat (count_list (mdeps s i) (mname s k))"
        using acq nth kr by simp
      also have "\<dots> = of_nat (dep_refs s' (mname s k))"
        using refs [of "mname s k"] by (simp flip: I(3) [OF kr])
      finally have e: "m_dependents (modules s' ! k) = of_nat (dep_refs s' (mname s k))" .
      show ?thesis unfolding e using dep_refs_bound [OF wf, of "mname s k"] n(2) [OF kr]
        by (simp add: unat_of_nat)
    qed
    show "m_dependents (modules s' ! k) = 0" if "registered s' \<le> k" "k < 64" for k
      using that acq nth [of k] n(1) i I(4) [of k] by auto
    show "m_error (modules s' ! k) \<noteq> 0" if "k < registered s'" "m_state (modules s' ! k) = Failed" for k
      using that acq nth [of k] n(1) I(5) [of k] by (auto split: if_splits)
    have edges: "dep_edges s' = dep_edges s \<union> {mname s i} \<times> set (mdeps s i)"
    proof -
      have "mname s' k = mname s k" "mdeps s' k = mdeps s k" if "mready s' k" for k
        using that n by (auto simp: mready_def)
      then have "dep_edges s' = {(mname s k, d) | k d. mready s' k \<and> d \<in> set (mdeps s k)}"
        unfolding dep_edges_def by (intro Collect_cong) metis
      then show ?thesis
        unfolding dep_edges_def rdy by blast
    qed
    have names: "mname s i \<noteq> d" if "\<exists>j. mready s j \<and> mname s j = d" for d
      using that i I(1) nr unfolding table_wf_def by (metis mready_def)
    show "acyclic (dep_edges s')"
      unfolding edges
    proof (rule acyclic_new_source [OF I(6)])
      show "mname s i \<notin> Range (dep_edges s)"
        using I(2) names unfolding dep_edges_def deps_ready_def by blast
      show "mname s i \<notin> set (mdeps s i)"
        using dr names unfolding deps_ready_def by blast
    qed
  qed
qed

lemma tainted_inv: "mod_inv s \<Longrightarrow> mod_inv (s\<lparr>tainted := b, calls := c\<rparr>)"
  by (rule same_ready_inv [of s]) (auto simp: same_ready_def same_infos_def mready_def dest: mod_invD)

definition load_post :: "modtab \<Rightarrow> modtab \<Rightarrow> bool" where
  "load_post s s' \<longleftrightarrow> mod_inv s' \<and> same_infos s s' \<and> (\<forall>k. mready s k \<longrightarrow> mready s' k)
     \<and> (\<forall>k<registered s. m_state (modules s ! k) = Loading \<longrightarrow> m_state (modules s' ! k) = Loading)"

lemma load_post_refl: "mod_inv s \<Longrightarrow> load_post s s"
  by (simp add: load_post_def)

lemma load_post_trans: "load_post s s' \<Longrightarrow> load_post s' s'' \<Longrightarrow> load_post s s''"
  unfolding load_post_def by (auto intro: same_infos_trans simp: same_infosD(1))

text \<open>What \<open>finish_load\<close> does to a module that is being loaded and whose dependencies are ready.\<close>

lemma finish_load_post:
  assumes inv: "mod_inv s" and i: "i < registered s" and st: "m_state (modules s ! i) = Loading"
    and dr: "deps_ready s (mdeps s i)" and r: "finish_load init i s = (r, s')"
  shows "mod_inv s'" and "same_infos s s'" and "mready s k \<Longrightarrow> mready s' k"
    and "k \<noteq> i \<Longrightarrow> m_state (modules s' ! k) = m_state (modules s ! k)" and "r = 0 \<longleftrightarrow> mready s' i"
proof -
  let ?f = "mi_init (m_info (modules s ! i))"
  define s1 where "s1 = s\<lparr>tainted := tainted s \<or> \<not> module_license_is_free (mi_license (m_info (modules s ! i))),
     calls := (if ?f \<noteq> 0 then calls s @ [CallInit ?f] else calls s)\<rparr>"
  have s1: "mod_inv s1" unfolding s1_def by (rule tainted_inv [OF inv])
  have same: "registered s1 = registered s" "modules s1 = modules s" "mdeps s1 = mdeps s" "mname s1 = mname s"
    "\<And>k. mready s1 k = mready s k"
    by (auto simp: s1_def mdeps_def mname_def mready_def fun_eq_iff)
  have inf0: "same_infos s s1" using same by (simp add: same_infos_def)
  have dr1: "deps_ready s1 (mdeps s1 i)" using dr same by (simp add: deps_ready_def)
  have l: "i < length (modules s1)" using i mod_invD(1) [OF inv] same by (simp add: table_wf_def)
  define res where "res = (if ?f \<noteq> 0 then init (calls s) ?f else 0)"
  have r': "(r, s') = (if res \<noteq> 0 then (res, set_module i (\<lambda>m. m\<lparr>m_state := Failed, m_error := res\<rparr>) s1)
      else (0, set_module i (\<lambda>m. m\<lparr>m_state := MReady, m_error := 0\<rparr>) (acquire_dependencies (mdeps s i) s1)))"
    unfolding r [symmetric] finish_load_def s1_def res_def mdeps_def by (simp add: Let_def)
  have nr: "m_state (modules s1 ! i) \<noteq> MReady" using st same by simp
  have all: "mod_inv s' \<and> same_infos s s' \<and> (mready s k \<longrightarrow> mready s' k)
      \<and> (k \<noteq> i \<longrightarrow> m_state (modules s' ! k) = m_state (modules s ! k)) \<and> (r = 0 \<longleftrightarrow> mready s' i)"
  proof (cases "res = 0")
    case True
    note R = become_ready_inv [OF s1 i [folded same(1)] nr dr1]
    show ?thesis
      using r' True R(1) same_infos_trans [OF inf0 R(2)] R(3) R(4) [of k] same by auto
  next
    case False
    have "mod_inv s'"
      using r' False not_ready_step [OF s1 i [folded same(1)] nr, of _ Failed] by auto
    moreover have "same_infos s s'"
      using r' False same_infos_trans [OF inf0 set_module_same_infos] by auto
    ultimately show ?thesis
      using r' False nr same l by (auto simp: mready_def set_module_nth)
  qed
  then show "mod_inv s'" and "same_infos s s'" and "mready s k \<Longrightarrow> mready s' k"
    and "k \<noteq> i \<Longrightarrow> m_state (modules s' ! k) = m_state (modules s ! k)" and "r = 0 \<longleftrightarrow> mready s' i"
    by blast+
qed

text \<open>The last stage of \<open>load_locked\<close>, after the dependencies.\<close>

lemma load_last_stage:
  assumes inv: "mod_inv s" and i: "i < registered s" and st: "m_state (modules s ! i) = Registered"
    and s1: "s1 = set_module i (\<lambda>m. m\<lparr>m_state := Loading\<rparr>) s"
    and post: "load_post s1 s2" and dr: "res = 0 \<longrightarrow> deps_ready s2 (mdeps s1 i)"
    and r: "(if res \<noteq> 0 then (-1, set_module i (\<lambda>m. m\<lparr>m_state := Failed, m_error := -1\<rparr>) s2)
             else finish_load init i s2) = (r, s')"
  shows "load_post s s' \<and> (r = 0 \<longleftrightarrow> mready s' i)"
proof -
  have l: "i < length (modules s)" using i mod_invD(1) [OF inv] by (simp add: table_wf_def)
  have inf1: "same_infos s s1" unfolding s1 by (rule set_module_same_infos) simp
  have inf2: "same_infos s1 s2" using post by (simp add: load_post_def)
  have inf12: "same_infos s s2" by (rule same_infos_trans [OF inf1 inf2])
  have i1: "i < registered s1" and i2: "i < registered s2"
    using i same_infosD(1) [OF inf1] same_infosD(1) [OF inf12] by simp_all
  have inv2: "mod_inv s2" using post by (simp add: load_post_def)
  have st1: "m_state (modules s1 ! i) = Loading" unfolding s1 by (simp add: set_module_nth [OF l])
  have st2: "m_state (modules s2 ! i) = Loading" using post st1 i1 by (simp add: load_post_def)
  have l2: "i < length (modules s2)" using i2 mod_invD(1) [OF inv2] by (simp add: table_wf_def)
  have rd: "mready s2 k" if "mready s k" for k
  proof -
    have "mready s1 k" using that st unfolding s1 by (auto simp: mready_def set_module_nth [OF l])
    then show ?thesis using post by (simp add: load_post_def)
  qed
  have ld: "m_state (modules s2 ! k) = Loading" if "k < registered s" "m_state (modules s ! k) = Loading" for k
  proof -
    have "m_state (modules s1 ! k) = Loading" "k < registered s1"
      using that unfolding s1 by (auto simp: set_module_nth [OF l])
    then show ?thesis using post by (simp add: load_post_def)
  qed
  show ?thesis
  proof (cases "res = 0")
    case True
    have "finish_load init i s2 = (r, s')" using r True by simp
    moreover have "deps_ready s2 (mdeps s2 i)" using dr True same_infosD(3) [OF inf2 i1] by simp
    ultimately have F: "mod_inv s'" "same_infos s2 s'" "\<And>k. mready s2 k \<Longrightarrow> mready s' k"
      "\<And>k. k \<noteq> i \<Longrightarrow> m_state (modules s' ! k) = m_state (modules s2 ! k)" "r = 0 \<longleftrightarrow> mready s' i"
      using finish_load_post [OF inv2 i2 st2] by blast+
    have "m_state (modules s' ! k) = Loading" if "k < registered s" "m_state (modules s ! k) = Loading" for k
      using that ld F(4) st by (cases "k = i") auto
    then show ?thesis
      using F same_infos_trans [OF inf12 F(2)] rd by (simp add: load_post_def)
  next
    case False
    have s': "r = -1" "s' = set_module i (\<lambda>m. m\<lparr>m_state := Failed, m_error := -1\<rparr>) s2"
      using r False by auto
    have "mod_inv s'" unfolding s' by (rule not_ready_step [OF inv2 i2, of _ Failed]) (simp_all add: st2)
    moreover have "same_infos s s'"
      unfolding s' by (rule same_infos_trans [OF inf12 set_module_same_infos]) simp
    ultimately show ?thesis
      using rd ld st st2 unfolding load_post_def s'
      by (auto simp: mready_def set_module_nth [OF l2])
  qed
qed

lemma load_post_deps:
  assumes "load_post s s'" and "deps_ready s ds"
  shows "deps_ready s' ds"
  unfolding deps_ready_def
proof
  fix d assume "d \<in> set ds"
  then obtain j where j: "mready s j" "mname s j = d" using assms(2) by (auto simp: deps_ready_def)
  then have "mready s' j" "mname s' j = d"
    using assms(1) same_infosD(2) [of s s' j] by (auto simp: load_post_def mready_def)
  then show "\<exists>j. mready s' j \<and> mname s' j = d" by blast
qed

lemma load_locked_post:
  "mod_inv s \<Longrightarrow> i < registered s \<Longrightarrow> load_locked init n i s = (r, s') \<Longrightarrow>
     load_post s s' \<and> (r = 0 \<longrightarrow> mready s' i) \<and> (0 < n \<longrightarrow> mready s' i \<longrightarrow> r = 0)"
  "mod_inv s \<Longrightarrow> load_dependencies init n ds s = (r, s') \<Longrightarrow> load_post s s' \<and> (r = 0 \<longrightarrow> deps_ready s' ds)"
proof (induction init n i s and init n ds s arbitrary: r s' and r s' rule: load_locked_load_dependencies.induct)
  case (1 init i s)
  then show ?case by (auto intro: load_post_refl)
next
  case (2 init n i s)
  show ?case
  proof (cases "m_state (modules s ! i)")
    case Registered
    let ?s1 = "set_module i (\<lambda>m. m\<lparr>m_state := Loading\<rparr>) s"
    obtain res s2 where d: "load_dependencies init n (mdeps ?s1 i) ?s1 = (res, s2)" by fastforce
    have inv1: "mod_inv ?s1"
      by (rule not_ready_step [OF "2.prems"(1,2), of _ Loading]) (simp_all add: Registered)
    have "load_post ?s1 s2 \<and> (res = 0 \<longrightarrow> deps_ready s2 (mdeps ?s1 i))"
      using "2.IH" [OF Registered refl inv1, of res s2] d by (simp add: mdeps_def)
    then show ?thesis
      using load_last_stage [OF "2.prems"(1,2) Registered refl, of s2 res init r s'] "2.prems"(3) d Registered
      by (simp add: mdeps_def)
  next
    case Failed
    then show ?thesis using "2.prems" mod_invD(5) [OF "2.prems"(1,2)] load_post_refl [of s]
      by (auto simp: mready_def)
  qed (use 2 load_post_refl [of s] in \<open>auto simp: mready_def\<close>)
next
  case (3 init n s)
  then show ?case by (auto intro: load_post_refl simp: deps_ready_def)
next
  case (4 init n d ds s)
  show ?case
  proof (cases "find_module d s")
    case None
    then show ?thesis using "4.prems" by (auto intro: load_post_refl)
  next
    case (Some j)
    note j = find_module_Some [OF Some mod_invD(1) [OF "4.prems"(1)]]
    obtain r1 s1 where l: "load_locked init n j s = (r1, s1)" by fastforce
    have L: "load_post s s1" "r1 = 0 \<Longrightarrow> mready s1 j"
      using "4.IH"(1) [OF Some "4.prems"(1) j(1) l] by auto
    show ?thesis
    proof (cases "r1 = 0")
      case False
      then show ?thesis using "4.prems" Some l L by auto
    next
      case True
      have inv1: "mod_inv s1" using L(1) by (simp add: load_post_def)
      have rest: "load_dependencies init n ds s1 = (r, s')" using "4.prems"(2) Some l True by simp
      have D: "load_post s1 s'" "r = 0 \<Longrightarrow> deps_ready s' ds"
        using "4.IH"(2) [OF Some l [symmetric] _ inv1 rest] True by auto
      have "deps_ready s1 [d]"
        using L(1) L(2) [OF True] j same_infosD(2) [of s s1 j] by (auto simp: deps_ready_def load_post_def)
      then have "deps_ready s' [d]" by (rule load_post_deps [OF D(1)])
      then show ?thesis using load_post_trans [OF L(1) D(1)] D(2) by (auto simp: deps_ready_def)
    qed
  qed
qed

section \<open>Unloading\<close>

lemma release_nth:
  assumes "table_wf s" and "\<forall>d\<in>set ds. \<exists>j<registered s. mname s j = d"
    and "\<forall>k<registered s. count_list ds (mname s k) \<le> unat (m_dependents (modules s ! k))"
  shows "\<exists>s'. release_dependencies nm ds s = Inr s' \<and> same_infos s s' \<and> (\<forall>k. modules s' ! k = (modules s ! k)\<lparr>m_dependents :=
           m_dependents (modules s ! k) - of_nat (if k < registered s then count_list ds (mname s k) else 0)\<rparr>)"
  using assms
proof (induction ds arbitrary: s)
  case Nil
  then show ?case by simp
next
  case (Cons d ds)
  from Cons.prems obtain j where j: "j < registered s" "mname s j = d" by auto
  let ?s = "set_module j (\<lambda>m. m\<lparr>m_dependents := snd (release_ref (m_dependents m))\<rparr>) s"
  have find: "find_module d s = Some j" using find_module_name [OF j(1) Cons.prems(1)] j(2) by simp
  have held: "1 \<le> unat (m_dependents (modules s ! j))" using Cons.prems(3) j by force
  then have nz: "m_dependents (modules s ! j) \<noteq> 0" by auto
  have e: "release_dependencies nm (d # ds) s = release_dependencies nm ds ?s"
    using find nz by simp
  have inf: "same_infos s ?s" by (rule set_module_same_infos) simp
  note n = same_infosD [OF inf]
  have wf: "table_wf ?s" by (rule same_infos_wf [OF inf Cons.prems(1)])
  have l: "j < length (modules s)" using j Cons.prems(1) by (simp add: table_wf_def)
  have nth: "modules ?s ! k = (if k = j then (modules s ! j)\<lparr>m_dependents := m_dependents (modules s ! j) - 1\<rparr> else modules s ! k)" for k
    by (simp add: set_module_nth [OF l] release_ref_def)
  have uniq: "mname s k = d \<longleftrightarrow> k = j" if "k < registered s" for k
    using that j Cons.prems(1) by (auto simp: table_wf_def)
  have ex: "\<forall>d'\<in>set ds. \<exists>k<registered ?s. mname ?s k = d'"
  proof
    fix d' assume "d' \<in> set ds"
    with Cons.prems(2) obtain k where k: "k < registered s" "mname s k = d'" by (metis list.set_intros(2))
    then have "k < registered ?s" "mname ?s k = d'" using n(1) n(2) [OF k(1)] by simp_all
    then show "\<exists>k<registered ?s. mname ?s k = d'" by blast
  qed
  have le: "\<forall>k<registered ?s. count_list ds (mname ?s k) \<le> unat (m_dependents (modules ?s ! k))"
  proof (intro allI impI)
    fix k assume "k < registered ?s"
    then have k: "k < registered s" by simp
    have u: "unat (m_dependents (modules s ! j) - 1) = unat (m_dependents (modules s ! j)) - 1"
      using nz by (simp add: unat_minus_one)
    have "count_list (d # ds) (mname s k) \<le> unat (m_dependents (modules s ! k))" using Cons.prems(3) k by blast
    then show "count_list ds (mname ?s k) \<le> unat (m_dependents (modules ?s ! k))"
      unfolding n(2) [OF k] nth using uniq [OF k] u by (auto split: if_splits)
  qed
  obtain s' where s': "release_dependencies nm ds ?s = Inr s'" "same_infos ?s s'"
    "\<And>k. modules s' ! k = (modules ?s ! k)\<lparr>m_dependents :=
       m_dependents (modules ?s ! k) - of_nat (if k < registered ?s then count_list ds (mname ?s k) else 0)\<rparr>"
    using Cons.IH [OF wf ex le] by blast
  have "modules s' ! k = (modules s ! k)\<lparr>m_dependents :=
       m_dependents (modules s ! k) - of_nat (if k < registered s then count_list (d # ds) (mname s k) else 0)\<rparr>" for k
  proof -
    have c: "(if k < registered ?s then count_list ds (mname ?s k) else 0) = (if k < registered s then count_list ds (mname s k) else 0)"
      using n(1,2) by simp
    show ?thesis
      unfolding s'(3) c nth using uniq j by (cases "k = j") (auto simp: algebra_simps)
  qed
  then show ?case unfolding e using s'(1) same_infos_trans [OF inf s'(2)] by blast
qed

lemma ready_names:
  assumes "mready s k" and "d \<in> set (mdeps s k)"
  shows "0 < dep_refs s d"
proof -
  have k: "k < registered s" using assms(1) by (simp add: mready_def)
  have "0 < count_list (mdeps s k) d" using assms(2) count_list_0_iff [of "mdeps s k" d] by simp
  also have "count_list (mdeps s k) d \<le> dep_refs s d"
    unfolding dep_refs_def using member_le_sum [of k "{..<registered s}" "\<lambda>i. if mready s i then count_list (mdeps s i) d else 0"] k assms(1)
    by simp
  finally show ?thesis .
qed

text \<open>A ready module that nobody uses is taken back to \<open>Registered\<close>.\<close>

lemma leave_ready_inv:
  assumes inv: "mod_inv s" and i: "mready s i" and z: "m_dependents (modules s ! i) = 0"
  obtains s1 where "release_dependencies nm (mdeps s i) s = Inr s1"
    and "mod_inv (set_module i (\<lambda>m. m\<lparr>m_state := Registered\<rparr>) s1)"
    and "same_infos s s1" and "\<And>k. m_state (modules s1 ! k) = m_state (modules s ! k)"
    and "\<And>k. m_image_base (modules s1 ! k) = m_image_base (modules s ! k)"
    and "\<And>k. m_dependents (modules s ! k) = 0 \<Longrightarrow> m_dependents (modules s1 ! k) = 0"
proof -
  note I = mod_invD [OF inv]
  have ir: "i < registered s" using i by (simp add: mready_def)
  have ex: "\<forall>d\<in>set (mdeps s i). \<exists>j<registered s. mname s j = d"
    using I(2) [OF i] by (auto simp: deps_ready_def mready_def)
  have cle: "count_list (mdeps s i) x \<le> dep_refs s x" for x
    unfolding dep_refs_def using member_le_sum [of i "{..<registered s}" "\<lambda>i. if mready s i then count_list (mdeps s i) x else 0"] ir i
    by simp
  have le: "\<forall>k<registered s. count_list (mdeps s i) (mname s k) \<le> unat (m_dependents (modules s ! k))"
    using cle I(3) by simp
  obtain s1 where s1: "release_dependencies nm (mdeps s i) s = Inr s1" "same_infos s s1"
    "\<And>k. modules s1 ! k = (modules s ! k)\<lparr>m_dependents :=
       m_dependents (modules s ! k) - of_nat (if k < registered s then count_list (mdeps s i) (mname s k) else 0)\<rparr>"
    using release_nth [OF I(1) ex le, of nm] by blast
  let ?t = "set_module i (\<lambda>m. m\<lparr>m_state := Registered\<rparr>) s1"
  have l: "i < length (modules s1)" using ir I(1) s1(2) by (simp add: table_wf_def same_infos_def)
  have inf: "same_infos s ?t" by (rule same_infos_trans [OF s1(2) set_module_same_infos]) simp
  note n = same_infosD [OF inf]
  have sinf: "same_infos ?t s" using inf by (simp add: same_infos_def)
  have rdy: "mready ?t k \<longleftrightarrow> mready s k \<and> k \<noteq> i" for k
    using s1(3) [of k] n(1) by (auto simp: mready_def set_module_nth [OF l])
  have refs: "dep_refs s x = dep_refs ?t x + count_list (mdeps s i) x" for x
  proof -
    have "i < registered ?t" "\<not> mready ?t i" "\<And>k. mready s k \<longleftrightarrow> mready ?t k \<or> k = i"
      using ir n(1) rdy i by auto
    from dep_refs_new [OF sinf this, of x] show ?thesis using n(3) [OF ir] by simp
  qed
  have wf: "table_wf ?t" by (rule same_infos_wf [OF inf I(1)])
  have zero: "m_dependents (modules s1 ! k) = 0" if "m_dependents (modules s ! k) = 0" for k
    using that s1(3) [of k] I(3) [of k] cle [of "mname s k"] by auto
  have zr: "dep_refs s (mname s i) = 0" using I(3) [OF ir] z by simp
  have "mod_inv ?t"
  proof (rule mod_invI [OF wf])
    show "deps_ready ?t (mdeps ?t k)" if k: "mready ?t k" for k
      unfolding deps_ready_def
    proof
      fix d assume d: "d \<in> set (mdeps ?t k)"
      have ks: "mready s k" "k < registered s" using k rdy by (auto simp: mready_def)
      have ds: "d \<in> set (mdeps s k)" using d n(3) ks by simp
      obtain j where j: "mready s j" "mname s j = d" using I(2) [OF ks(1)] ds by (auto simp: deps_ready_def)
      have "j \<noteq> i" using ready_names [OF ks(1) ds] j zr by auto
      then have "mready ?t j" "mname ?t j = d" using rdy j n(2) by (auto simp: mready_def)
      then show "\<exists>j. mready ?t j \<and> mname ?t j = d" by blast
    qed
    show "unat (m_dependents (modules ?t ! k)) = dep_refs ?t (mname ?t k)" if "k < registered ?t" for k
    proof -
      have k: "k < registered s" using that n(1) by simp
      let ?c = "count_list (mdeps s i) (mname s k)"
      have u: "unat (m_dependents (modules s ! k)) = dep_refs ?t (mname s k) + ?c"
        using I(3) [OF k] refs by simp
      have c: "m_dependents (modules ?t ! k) = m_dependents (modules s ! k) - of_nat ?c"
        using s1(3) [of k] k by (cases "k = i") (simp_all add: set_module_nth [OF l])
      have "m_dependents (modules s ! k) = of_nat (dep_refs ?t (mname s k) + ?c)"
        using u by (simp flip: u)
      then have "m_dependents (modules ?t ! k) = of_nat (dep_refs ?t (mname s k))" unfolding c by simp
      then show ?thesis using dep_refs_bound [OF wf, of "mname s k"] n(2) [OF k] by (simp add: unat_of_nat)
    qed
    show "m_dependents (modules ?t ! k) = 0" if "registered ?t \<le> k" "k < 64" for k
      using that n(1) I(4) [of k] zero [of k] ir by (auto simp: set_module_nth [OF l])
    show "m_error (modules ?t ! k) \<noteq> 0" if "k < registered ?t" "m_state (modules ?t ! k) = Failed" for k
      using that n(1) I(5) [of k] s1(3) [of k] by (auto simp: set_module_nth [OF l] split: if_splits)
    have "dep_edges ?t \<subseteq> dep_edges s"
    proof -
      have "mname ?t k = mname s k" "mdeps ?t k = mdeps s k" if "mready s k" for k
        using that n by (auto simp: mready_def)
      then show ?thesis unfolding dep_edges_def rdy by fastforce
    qed
    then show "acyclic (dep_edges ?t)" by (rule acyclic_subset [OF I(6)])
  qed
  then show thesis using that s1 zero by simp
qed

text \<open>A slot that holds no ready module leaves the table: the last one moves into it.\<close>

lemma swap_bij:
  "(i::nat) < n \<Longrightarrow> bij_betw (\<lambda>k. if k = i then n - 1 else k) {..<n - 1} ({..<n} - {i})"
  by (rule bij_betw_byWitness [where f' = "\<lambda>k. if k = n - 1 then i else k"]) auto

definition remove_slot :: "nat \<Rightarrow> modtab \<Rightarrow> modtab" where
  "remove_slot i s = s\<lparr>modules := (modules s)[i := modules s ! (registered s - 1)], registered := registered s - 1\<rparr>"

lemma remove_slot_inv:
  assumes inv: "mod_inv s" and i: "i < registered s" and nr: "\<not> mready s i"
    and z: "m_dependents (modules s ! (registered s - 1)) = 0"
  shows "mod_inv (remove_slot i s)" and "mready (remove_slot i s) k \<Longrightarrow> mname (remove_slot i s) k \<noteq> mname s i"
proof -
  note I = mod_invD [OF inv]
  let ?n = "registered s" and ?t = "remove_slot i s"
  define p where "p k = (if k = i then ?n - 1 else k)" for k
  have l: "i < length (modules s)" using i I(1) by (simp add: table_wf_def)
  have reg: "registered ?t = ?n - 1" by (simp add: remove_slot_def)
  have nth: "modules ?t ! k = modules s ! p k" for k
    using l by (auto simp: remove_slot_def p_def nth_list_update)
  have pk: "p k < ?n" "p k \<noteq> i" if "k < ?n - 1" for k using that i by (auto simp: p_def)
  have bij: "bij_betw p {..<?n - 1} ({..<?n} - {i})" unfolding p_def by (rule swap_bij [OF i])
  have rdy: "mready ?t k \<longleftrightarrow> k < ?n - 1 \<and> mready s (p k)" for k
    using pk by (auto simp: mready_def reg nth)
  have nm: "mname ?t k = mname s (p k)" "mdeps ?t k = mdeps s (p k)" for k
    by (simp_all add: mname_def mdeps_def nth)
  have uniq: "a = b" if "a < ?n" "b < ?n" "mname s a = mname s b" for a b
    using that I(1) by (simp add: table_wf_def)
  have sums: "(\<Sum>k\<in>{..<?n - 1}. g (p k)) = (\<Sum>k\<in>{..<?n} - {i}. g k)" for g :: "nat \<Rightarrow> nat"
    by (rule sum.reindex_bij_betw [OF bij])
  have onto: "\<exists>k<?n - 1. p k = j" if "j < ?n" "j \<noteq> i" for j
  proof -
    have "j \<in> p ` {..<?n - 1}" using bij_betw_imp_surj_on [OF bij] that by simp
    then show ?thesis by auto
  qed
  have inj: "a = b" if "a < ?n - 1" "b < ?n - 1" "p a = p b" for a b
    using bij_betw_imp_inj_on [OF bij] that by (simp add: inj_on_eq_iff)
  have wf: "table_wf ?t"
    unfolding table_wf_def
  proof (intro conjI allI impI)
    show "length (modules ?t) = 64" using I(1) by (simp add: remove_slot_def table_wf_def)
    have "?n \<le> 64" using I(1) by (simp add: table_wf_def)
    then show "registered ?t \<le> 64" by (simp add: reg)
    show "a = b" if "a < registered ?t" "b < registered ?t" "mname ?t a = mname ?t b" for a b
      using that uniq [of "p a" "p b"] pk(1) inj unfolding reg nm(1) by blast
    have "(\<Sum>k\<in>{..<?n} - {i}. length (mdeps s k)) \<le> (\<Sum>k\<in>{..<?n}. length (mdeps s k))"
      by (rule sum_mono2) auto
    then show "(\<Sum>k\<in>{..<registered ?t}. length (mdeps ?t k)) < 2 ^ 32"
      unfolding reg nm(2) sums [of "\<lambda>k. length (mdeps s k)"] using I(1)
      unfolding table_wf_def by (meson le_less_trans)
  qed
  have refs: "dep_refs ?t x = dep_refs s x" for x
  proof -
    have "dep_refs ?t x = (\<Sum>k\<in>{..<?n - 1}. if mready s (p k) then count_list (mdeps s (p k)) x else 0)"
      unfolding dep_refs_def reg nm(2) using rdy by (intro sum.cong) auto
    also have "\<dots> = (\<Sum>k\<in>{..<?n} - {i}. if mready s k then count_list (mdeps s k) x else 0)"
      by (rule sums)
    also have "\<dots> = dep_refs s x"
      unfolding dep_refs_def using i nr by (subst sum.remove [of "{..<?n}" i]) auto
    finally show ?thesis .
  qed
  show "mname ?t k \<noteq> mname s i" if "mready ?t k"
    using that rdy nm(1) uniq [of "p k" i] pk i by auto
  show "mod_inv ?t"
  proof (rule mod_invI [OF wf])
    show "deps_ready ?t (mdeps ?t k)" if k: "mready ?t k" for k
      unfolding deps_ready_def nm
    proof
      fix d assume "d \<in> set (mdeps s (p k))"
      moreover have "mready s (p k)" using k rdy by simp
      ultimately obtain j where j: "mready s j" "mname s j = d" using I(2) by (auto simp: deps_ready_def)
      then have "j < ?n" "j \<noteq> i" using nr by (auto simp: mready_def)
      then obtain q where "q < ?n - 1" "p q = j" using onto by blast
      then show "\<exists>j. mready ?t j \<and> mname s (p j) = d" using j rdy by blast
    qed
    show "unat (m_dependents (modules ?t ! k)) = dep_refs ?t (mname ?t k)" if "k < registered ?t" for k
      using that I(3) pk reg by (simp add: nth nm refs)
    show "m_dependents (modules ?t ! k) = 0" if k: "registered ?t \<le> k" "k < 64" for k
    proof (cases "k = ?n - 1")
      case True
      then show ?thesis using z by (auto simp: nth p_def)
    next
      case False
      then have "?n \<le> k" using k i reg by simp
      then show ?thesis using I(4) [of k] k i by (simp add: nth p_def)
    qed
    show "m_error (modules ?t ! k) \<noteq> 0" if "k < registered ?t" "m_state (modules ?t ! k) = Failed" for k
      using that I(5) [of "p k"] pk reg by (simp add: nth)
    have "dep_edges ?t \<subseteq> dep_edges s" unfolding dep_edges_def nm using rdy by blast
    then show "acyclic (dep_edges ?t)" by (rule acyclic_subset [OF I(6)])
  qed
qed

lemma unregister_loop_mset:
  assumes "table_count s \<le> length (sym_tables s)" and "i \<le> table_count s"
    and "\<forall>t\<in>set (take i (sym_tables s)). rt_owner t \<noteq> owner"
  defines "s' \<equiv> unregister_loop owner i s"
  shows "mset (take (table_count s') (sym_tables s')) = filter_mset (\<lambda>t. rt_owner t \<noteq> owner) (mset (take (table_count s) (sym_tables s)))
     \<and> table_count s' \<le> length (sym_tables s') \<and> length (sym_tables s') = length (sym_tables s)"
  unfolding s'_def using assms(1-3)
proof (induction owner i s rule: unregister_loop.induct)
  case (1 owner i s)
  let ?n = "table_count s" and ?ts = "sym_tables s"
  show ?case
  proof (cases "i < ?n")
    case False
    then have "filter_mset (\<lambda>t. rt_owner t \<noteq> owner) (mset (take ?n ?ts)) = mset (take ?n ?ts)"
      using "1.prems" by (simp flip: mset_filter)
    then show ?thesis using False "1.prems" by (simp add: unregister_loop.simps)
  next
    case i: True
    show ?thesis
    proof (cases "rt_owner (?ts ! i) = owner")
      case True
      let ?s = "s\<lparr>table_count := ?n - 1, sym_tables := ?ts[i := ?ts ! (?n - 1)]\<rparr>"
      have e: "unregister_loop owner i s = unregister_loop owner i ?s"
        using i True by (subst unregister_loop.simps) simp
      have m: "mset (take (?n - 1) (?ts[i := ?ts ! (?n - 1)])) = mset (take ?n ?ts) - {#?ts ! i#}"
        by (rule swap_remove_mset) (use i "1.prems" in auto)
      have "?ts ! i \<in># mset (take ?n ?ts)" using i "1.prems" by (auto simp: in_set_conv_nth)
      then have "filter_mset (\<lambda>t. rt_owner t \<noteq> owner) (mset (take ?n ?ts) - {#?ts ! i#})
          = filter_mset (\<lambda>t. rt_owner t \<noteq> owner) (mset (take ?n ?ts))"
        using True by simp
      moreover have "\<forall>t\<in>set (take i (sym_tables ?s)). rt_owner t \<noteq> owner" using "1.prems"(3) by simp
      moreover have "table_count ?s \<le> length (sym_tables ?s)" and "i \<le> table_count ?s"
        using i "1.prems"(1) by auto
      ultimately show ?thesis
        unfolding e using "1.IH"(1) [OF i True] m by simp
    next
      case False
      have e: "unregister_loop owner i s = unregister_loop owner (i + 1) s"
        using i False by (subst unregister_loop.simps) simp
      have "\<forall>t\<in>set (take (i + 1) ?ts). rt_owner t \<noteq> owner"
        using "1.prems" False i by (simp add: take_Suc_conv_app_nth)
      then show ?thesis unfolding e using "1.IH"(2) [OF i False] i "1.prems" by simp
    qed
  qed
qed

lemma drop_image_inv:
  assumes inv: "mod_inv s" and i: "i < registered s"
  defines "s' \<equiv> set_module i (\<lambda>m. m\<lparr>m_image_base := 0, m_image_pages := 0\<rparr>) s"
  shows "mod_inv s'" and "mready s' k = mready s k" and "mname s' k = mname s k"
    and "m_dependents (modules s' ! k) = m_dependents (modules s ! k)"
proof -
  have l: "i < length (modules s)" using i mod_invD(1) [OF inv] by (simp add: table_wf_def)
  show rdy: "mready s' k = mready s k" and "mname s' k = mname s k"
    and dep: "m_dependents (modules s' ! k) = m_dependents (modules s ! k)" for k
    by (auto simp: s'_def mready_def mname_def set_module_nth [OF l])
  show "mod_inv s'"
  proof (rule same_ready_inv [OF inv])
    have "same_infos s s'" unfolding s'_def by (rule set_module_same_infos) simp
    then show "same_ready s s'" using rdy dep by (simp add: same_ready_def)
    show "m_error (modules s' ! k) \<noteq> 0" if "k < registered s" "m_state (modules s' ! k) = Failed" for k
      using that mod_invD(5) [OF inv, of k] by (auto simp: s'_def set_module_nth [OF l] split: if_splits)
  qed
qed

section \<open>Properties\<close>

text \<open>
  C20: Loading a module. \<open>module_load\<close> always returns, the table keeps its invariant (the
  dependencies of a ready module are ready, the reference counts are exact, ready modules do not
  depend on each other in a cycle), modules that were ready stay ready, and the result is 0 exactly
  when the module named is in the table and ready afterwards.
\<close>

theorem module_load_correct:
  assumes "mod_inv s" and "module_load init name s = (r, s')"
  shows "mod_inv s' \<and> (\<forall>k. mready s k \<longrightarrow> mready s' k) \<and> (r = 0 \<longleftrightarrow> (\<exists>k. mready s' k \<and> mname s' k = name))"
proof -
  note wf = mod_invD(1) [OF assms(1)]
  show "mod_inv s' \<and> (\<forall>k. mready s k \<longrightarrow> mready s' k) \<and> (r = 0 \<longleftrightarrow> (\<exists>k. mready s' k \<and> mname s' k = name))"
  proof (cases "find_module name s")
    case None
    then have "mname s k \<noteq> name" if "k < registered s" for k
      using find_module_name [OF that wf] by auto
    then show ?thesis using assms None by (auto simp: module_load_def mready_def)
  next
    case (Some i)
    note i = find_module_Some [OF Some wf]
    have "load_locked init 65 i s = (r, s')" using assms(2) Some by (simp add: module_load_def)
    from load_locked_post(1) [OF assms(1) i(1) this]
    have L: "load_post s s'" "r = 0 \<longleftrightarrow> mready s' i" by auto
    have inf: "same_infos s s'" using L(1) by (simp add: load_post_def)
    have "k = i" if "mready s' k" "mname s' k = name" for k
      using that i wf same_infosD(1,2) [OF inf] by (auto simp: mready_def table_wf_def)
    moreover have "mname s' i = name" using same_infosD(2) [OF inf i(1)] i(2) by simp
    ultimately show ?thesis using L by (auto simp: load_post_def)
  qed
qed

text \<open>The part of \<open>module_unload\<close> after its checks.\<close>

definition unload_rest ::
  "(virt_addr \<Rightarrow> usize \<Rightarrow> 'w \<Rightarrow> 'w) \<Rightarrow> nat \<Rightarrow> modtab \<Rightarrow> symbols \<Rightarrow> 'w \<Rightarrow> int \<times> modtab \<times> symbols \<times> 'w" where
  "unload_rest release_image i s2 syms w =
     (if m_image_base (modules s2 ! i) \<noteq> 0
      then (0, remove_slot i (set_module i (\<lambda>m. m\<lparr>m_image_base := 0, m_image_pages := 0\<rparr>) s2),
            symbol_unregister_owner (m_image_base (modules s2 ! i)) syms,
            release_image (m_image_base (modules s2 ! i)) (m_image_pages (modules s2 ! i)) w)
      else (0, s2, syms, w))"

lemma unload_rest_post:
  assumes inv: "mod_inv s2" and i: "i < registered s2" and st: "\<not> mready s2 i"
    and z: "m_image_base (modules s2 ! i) \<noteq> 0 \<Longrightarrow> m_dependents (modules s2 ! (registered s2 - 1)) = 0"
  shows "\<exists>s' syms' w'. unload_rest rel i s2 syms w = (0, s', syms', w') \<and> mod_inv s' \<and> \<not> (\<exists>k. mready s' k \<and> mname s' k = mname s2 i)"
proof (cases "m_image_base (modules s2 ! i) = 0")
  case True
  have "k = i" if "mready s2 k" "mname s2 k = mname s2 i" for k
    using that i mod_invD(1) [OF inv] by (auto simp: mready_def table_wf_def)
  then show ?thesis using True inv st by (auto simp: unload_rest_def)
next
  case False
  let ?s3 = "set_module i (\<lambda>m. m\<lparr>m_image_base := 0, m_image_pages := 0\<rparr>) s2"
  note D = drop_image_inv [OF inv i]
  have "mod_inv (remove_slot i ?s3)" and "\<And>k. mready (remove_slot i ?s3) k \<Longrightarrow> mname (remove_slot i ?s3) k \<noteq> mname ?s3 i"
    using remove_slot_inv [OF D(1), of i] i st z [OF False] by (simp_all add: D)
  then show ?thesis using False D(3) by (auto simp: unload_rest_def)
qed

lemma module_unload_eq:
  "module_unload rel name (s, syms, w) = (case find_module name s of
      None \<Rightarrow> Inr (-1, s, syms, w)
    | Some i \<Rightarrow>
        if m_state (modules s ! i) \<noteq> MReady then Inr (0, s, syms, w)
        else if m_dependents (modules s ! i) \<noteq> 0 \<or> m_users (modules s ! i) \<noteq> 0 then Inr (-1, s, syms, w)
        else case release_dependencies (mname s i) (mdeps s i)
                    (if mi_exit (m_info (modules s ! i)) \<noteq> 0 then s\<lparr>calls := calls s @ [CallExit (mi_exit (m_info (modules s ! i)))]\<rparr> else s) of
               Inl p \<Rightarrow> Inl p
             | Inr s1 \<Rightarrow> Inr (unload_rest rel i (set_module i (\<lambda>m. m\<lparr>m_state := Registered\<rparr>) s1) syms w))"
  by (auto simp: module_unload_def unload_rest_def remove_slot_def Let_def mname_def mdeps_def
      split: option.split sum.split)


text \<open>
  Withdrawing the exports of an image. After \<open>symbol_unregister_owner\<close> the table holds every
  registered table of the other owners, as often as before, and none of this owner's.
\<close>

lemma symbol_unregister_exact:
  assumes "table_count s \<le> length (sym_tables s)" and "symbol_unregister_owner owner s = s'"
  shows "mset (take (table_count s') (sym_tables s'))
       = filter_mset (\<lambda>t. rt_owner t \<noteq> owner) (mset (take (table_count s) (sym_tables s)))"
  using unregister_loop_mset [of s 0 owner] assms by (auto simp: symbol_unregister_owner_def)

section \<open>Examples\<close>

definition example_info :: "string \<Rightarrow> string list \<Rightarrow> ModuleInfo" where
  "example_info nm deps = \<lparr>mi_abi = 1, mi_name = nm, mi_license = Some ''MIT'', mi_init = 0, mi_exit = 0, mi_deps = deps\<rparr>"

definition empty_slot :: Module where
  "empty_slot = \<lparr>m_info = example_info [] [], m_state = Registered, m_dependents = 0, m_users = 0, m_error = 0,
     m_image_base = 0, m_image_pages = 0\<rparr>"

definition two_modules :: modtab where
  "two_modules = \<lparr>modules = empty_slot\<lparr>m_info := example_info ''fs'' [''disk'']\<rparr> #
       empty_slot\<lparr>m_info := example_info ''disk'' []\<rparr> # replicate 62 empty_slot,
     registered = 2, tainted = False, calls = []\<rparr>"

lemma two_modules_slots:
  "registered two_modules = 2" "length (modules two_modules) = 64"
  "modules two_modules ! 0 = empty_slot\<lparr>m_info := example_info ''fs'' [''disk'']\<rparr>"
  "modules two_modules ! Suc 0 = empty_slot\<lparr>m_info := example_info ''disk'' []\<rparr>"
  by (simp_all add: two_modules_def)

lemma two_modules_inv: "mod_inv two_modules"
proof (rule mod_invI)
  have two: "{..<2::nat} = {0, 1}" by auto
  show "table_wf two_modules"
    by (auto simp: table_wf_def two_modules_slots mname_def mdeps_def example_info_def two dest!: less_2_cases)
  have nr: "\<not> mready two_modules i" for i
    by (auto simp: mready_def two_modules_slots empty_slot_def dest!: less_2_cases)
  then show "deps_ready two_modules (mdeps two_modules i)" if "mready two_modules i" for i
    using that by blast
  show "unat (m_dependents (modules two_modules ! i)) = dep_refs two_modules (mname two_modules i)"
    if "i < registered two_modules" for i
    using that nr by (auto simp: dep_refs_def two_modules_slots empty_slot_def dest!: less_2_cases)
  show "m_dependents (modules two_modules ! i) = 0" if i: "registered two_modules \<le> i" "i < 64" for i
  proof -
    have "modules two_modules ! (2 + (i - 2)) = empty_slot"
      using i unfolding two_modules_def by simp
    moreover have "2 + (i - 2) = i" using i by (simp add: two_modules_slots)
    ultimately show ?thesis by (simp add: empty_slot_def)
  qed
  show "m_error (modules two_modules ! i) \<noteq> 0"
    if "i < registered two_modules" "m_state (modules two_modules ! i) = Failed" for i
    using that by (auto simp: two_modules_slots empty_slot_def dest!: less_2_cases)
  show "acyclic (dep_edges two_modules)" using nr by (simp add: dep_edges_def acyclic_def)
qed

definition load_two :: "int \<times> modtab" where
  "load_two = module_load (\<lambda>_ _. 0) ''fs'' two_modules"

lemma load_two_result: "fst load_two = 0" by code_simp

lemma load_two_states: "map m_state (take 2 (modules (snd load_two))) = [MReady, MReady]" by code_simp

theorem module_load_correct_witness:
  "mod_inv two_modules \<and> mod_inv (snd load_two) \<and> (\<exists>k. mready (snd load_two) k \<and> mname (snd load_two) k = ''fs'')"
proof -
  have "module_load (\<lambda>_ _. 0) ''fs'' two_modules = (0, snd load_two)"
    using load_two_result by (metis load_two_def prod.collapse)
  from module_load_correct [OF two_modules_inv this] show ?thesis using two_modules_inv by simp
qed


lemma symbol_unregister_exact_example:
  "mset (take (table_count (symbol_unregister_owner 5 \<lparr>sym_tables = replicate 16 \<lparr>rt_table = [], rt_owner = 5\<rparr>, table_count = 3\<rparr>))
        (sym_tables (symbol_unregister_owner 5 \<lparr>sym_tables = replicate 16 \<lparr>rt_table = [], rt_owner = 5\<rparr>, table_count = 3\<rparr>))) = {#}"
  using symbol_unregister_exact [of "\<lparr>sym_tables = replicate 16 \<lparr>rt_table = [], rt_owner = 5\<rparr>, table_count = 3\<rparr>" 5, OF _ refl]
  by (simp add: filter_mset_False)

text \<open>
  The vacated slot. Three modules are ready: an image \<open>a\<close>, a module \<open>c\<close> that depends on \<open>b\<close>, and
  \<open>b\<close> itself in the last slot. Unloading \<open>a\<close> moves \<open>b\<close> and leaves its count of one in the slot
  that the next module registered gets: \<open>d\<close> is ready, nothing depends on it, and it cannot be
  unloaded.
\<close>

definition stale_table :: modtab where
  "stale_table = \<lparr>modules = empty_slot\<lparr>m_info := example_info ''a'' [], m_state := MReady, m_image_base := 4096\<rparr> #
       empty_slot\<lparr>m_info := example_info ''c'' [''b''], m_state := MReady\<rparr> #
       empty_slot\<lparr>m_info := example_info ''b'' [], m_state := MReady, m_dependents := 1\<rparr> # replicate 61 empty_slot,
     registered = 3, tainted = False, calls = []\<rparr>"

definition stale_run :: "int \<times> int \<times> int" where
  "stale_run = (case module_unload (\<lambda>_ _ w. w) ''a'' (stale_table, \<lparr>sym_tables = [], table_count = 0\<rparr>, ()) of
      Inl _ \<Rightarrow> (-9, -9, -9)
    | Inr (_, s1, syms, w) \<Rightarrow> (case module_register_loaded (Some (example_info ''d'' [])) 8192 1 s1 of (r1, s2) \<Rightarrow>
        (case module_load (\<lambda>_ _. 0) ''d'' s2 of (r2, s3) \<Rightarrow>
          (case module_unload (\<lambda>_ _ w. w) ''d'' (s3, syms, w) of Inl _ \<Rightarrow> (-9, -9, -9) | Inr (r3, _) \<Rightarrow> (r1, r2, r3)))))"

lemma stale_dependents: "stale_run = (0, 0, -1)" by code_simp

end
