(* ===== verification/Bytes.thy ===== *)
theory Bytes
  imports CString
begin

unbundle bit_operations_syntax

text \<open>
  Packed structures in memory: little endian loads and stores, and C strings read as HOL strings.
  The ELF, ext2, ACPI and USTAR readers cast a byte pointer to a packed structure; a field at
  offset \<open>k\<close> is the load of its width at the address of the structure plus \<open>k\<close>.
\<close>

fun load_le :: "nat \<Rightarrow> memory \<Rightarrow> u64 \<Rightarrow> nat" where
  "load_le 0 m a = 0"
| "load_le (Suc n) m a = unat (m a) + 256 * load_le n m (a + 1)"

fun store_le :: "nat \<Rightarrow> nat \<Rightarrow> memory \<Rightarrow> u64 \<Rightarrow> memory" where
  "store_le 0 v m a = m"
| "store_le (Suc n) v m a = store_le n (v div 256) (m(a := of_nat v)) (a + 1)"

definition load_u16 :: "memory \<Rightarrow> u64 \<Rightarrow> u16" where "load_u16 m a = of_nat (load_le 2 m a)"
definition load_u32 :: "memory \<Rightarrow> u64 \<Rightarrow> u32" where "load_u32 m a = of_nat (load_le 4 m a)"
definition load_u64 :: "memory \<Rightarrow> u64 \<Rightarrow> u64" where "load_u64 m a = of_nat (load_le 8 m a)"
definition store_u32 :: "memory \<Rightarrow> u64 \<Rightarrow> u32 \<Rightarrow> memory" where "store_u32 m a v = store_le 4 (unat v) m a"
definition store_u64 :: "memory \<Rightarrow> u64 \<Rightarrow> u64 \<Rightarrow> memory" where "store_u64 m a v = store_le 8 (unat v) m a"

text \<open>The string at an address; \<open>None\<close> when no byte of the whole memory ends it.\<close>

partial_function (option) c_string :: "memory \<Rightarrow> u64 \<Rightarrow> string option" where
  "c_string m a =
     (if m a = 0 then Some []
      else Option.bind (c_string m (a + 1)) (\<lambda>s. Some (char_of (unat (m a)) # s)))"

declare c_string.simps [code]

text \<open>\<open>memcmp(p, s, n) == 0\<close> for a string of \<open>n\<close> characters.\<close>

definition signature_is :: "memory \<Rightarrow> u64 \<Rightarrow> string \<Rightarrow> bool" where
  "signature_is m p s \<longleftrightarrow> map (\<lambda>i. m (p + of_nat i)) [0..<length s] = map of_char s"

section \<open>Loads and stores\<close>

lemma load_le_numeral: "load_le (numeral k) m a = unat (m a) + 256 * load_le (pred_numeral k) m (a + 1)"
  by (simp add: numeral_eq_Suc)

lemma load_le_bound: "load_le n m a < 256 ^ n"
proof (induction n arbitrary: a)
  case (Suc n)
  have "unat (m a) < 256" using unsigned_less [of "m a"] by simp
  moreover have "load_le n m (a + 1) + 1 \<le> 256 ^ n" using Suc [of "a + 1"] by simp
  then have "256 * load_le n m (a + 1) + 256 \<le> 256 * 256 ^ n"
    by (metis add_mult_distrib2 mult.right_neutral mult_le_mono2)
  ultimately show ?case by simp
qed simp

lemma store_le_other:
  assumes "\<forall>i<n. b \<noteq> a + of_nat i"
  shows "store_le n v m a b = m b"
  using assms
proof (induction n arbitrary: v m a)
  case (Suc n)
  have "\<forall>i<n. b \<noteq> a + 1 + of_nat i"
  proof (intro allI impI)
    fix i assume "i < n"
    then have "b \<noteq> a + of_nat (Suc i)" using Suc.prems by blast
    then show "b \<noteq> a + 1 + of_nat i" by (simp add: add.assoc)
  qed
  moreover have "b \<noteq> a" using Suc.prems [rule_format, of 0] by simp
  ultimately show ?case using Suc.IH by simp
qed simp

lemma load_le_cong:
  "(\<And>i. i < n \<Longrightarrow> m (a + of_nat i) = m' (a + of_nat i)) \<Longrightarrow> load_le n m a = load_le n m' a"
proof (induction n arbitrary: a)
  case (Suc n)
  have "m a = m' a" using Suc.prems [of 0] by simp
  moreover have "load_le n m (a + 1) = load_le n m' (a + 1)"
    by (rule Suc.IH) (use Suc.prems [of "Suc i" for i] in \<open>simp add: add.assoc\<close>)
  ultimately show ?case by simp
qed simp

lemma load_store_le:
  assumes "n \<le> 2 ^ 63"
  shows "load_le n (store_le n v m a) a = v mod 256 ^ n"
  using assms
proof (induction n arbitrary: v m a)
  case (Suc n)
  have ne: "a \<noteq> a + 1 + of_nat i" if "i < n" for i
  proof
    assume "a = a + 1 + of_nat i"
    then have "(of_nat (Suc i) :: u64) = 0" by (simp add: algebra_simps)
    moreover have "unat (of_nat (Suc i) :: u64) = Suc i"
      using that Suc.prems by (intro unat_u64_of_nat) simp
    ultimately show False by simp
  qed
  have "store_le n (v div 256) (m(a := of_nat v)) (a + 1) a = of_nat v"
    using store_le_other [of n a "a + 1"] ne by simp
  moreover have "load_le n (store_le n (v div 256) (m(a := of_nat v)) (a + 1)) (a + 1) = v div 256 mod 256 ^ n"
    using Suc by simp
  moreover have "unat (of_nat v :: u8) = v mod 256" by (simp add: unat_of_nat)
  ultimately show ?case by (simp add: mod_mult2_eq)
qed simp

lemma load_store_u32: "load_u32 (store_u32 m a v) a = v"
  using u32_bound [of v] by (simp add: load_u32_def store_u32_def load_store_le)

lemma load_store_u64: "load_u64 (store_u64 m a v) a = v"
  using u64_bound [of v] by (simp add: load_u64_def store_u64_def load_store_le)

lemma unat_of_char_u8: "unat (of_char c :: u8) = of_char c"
proof -
  have "(of_char c :: nat) < 256" by simp
  then have "unat (of_nat (of_char c) :: u8) = of_char c" by (simp add: unat_of_nat)
  then show ?thesis by (simp add: of_nat_of_char)
qed

lemma c_string_string_at:
  "string_at m a s \<Longrightarrow> c_string m a = Some s"
proof (induction s arbitrary: a)
  case Nil
  then show ?case by (subst c_string.simps) simp
next
  case (Cons c s)
  then have "unat (m a) = of_char c" by (simp add: unat_of_char_u8)
  with Cons show ?case by (subst c_string.simps) simp
qed

lemma signature_is_Cons:
  "signature_is m p (c # cs) \<longleftrightarrow> m p = of_char c \<and> signature_is m (p + 1) cs"
  by (simp add: signature_is_def map_upt_Suc add.assoc del: upt_Suc)

lemma signature_is_Nil: "signature_is m p []"
  by (simp add: signature_is_def)

end
