(* ===== verification/Loader.thy ===== *)
theory Loader
  imports Bytes Vmalloc Module
begin

unbundle bit_operations_syntax

text \<open>
  The loader of relocatable images, \<^verbatim>\<open>kernel/module/loader.cpp\<close> with \<^verbatim>\<open>include/eris/elf.hpp\<close>.

  The state holds the memory as the kernel address space sees it, the page tables and frames, the
  virtual space allocator, the export tables and the module table. The image is a byte array in
  that memory. A constructor of the image is code of the module, so its effect is an argument, as
  is the export table of the kernel image. Section indices that an object carries are not checked
  by the code: reading a section header past the table reads whatever memory is there, while an
  index past the 64 placements is outside an array and is the fault \<open>PlacementIndex\<close> here.
  An export or a descriptor is read when it is registered.
\<close>

section \<open>ELF structures\<close>

record elf_Header =
  h_ident :: "u8 list"
  h_type :: u16
  h_machine :: u16
  h_section_header_offset :: u64
  h_section_header_size :: u16
  h_section_header_count :: u16
  h_section_name_index :: u16

record SectionHeader =
  sh_name :: u32
  sh_type :: u32
  sh_flags :: u64
  sh_offset :: u64
  sh_size :: u64
  sh_link :: u32
  sh_info :: u32

record elf_Symbol =
  st_name :: u32
  st_section :: u16
  st_value :: u64

record Rela =
  r_offset :: u64
  r_info :: u64
  r_addend :: u64

definition header_at :: "memory \<Rightarrow> u64 \<Rightarrow> elf_Header" where
  "header_at m a = \<lparr>h_ident = map (\<lambda>i. m (a + of_nat i)) [0..<16], h_type = load_u16 m (a + 16),
     h_machine = load_u16 m (a + 18), h_section_header_offset = load_u64 m (a + 40),
     h_section_header_size = load_u16 m (a + 58), h_section_header_count = load_u16 m (a + 60),
     h_section_name_index = load_u16 m (a + 62)\<rparr>"

definition section_at :: "memory \<Rightarrow> u64 \<Rightarrow> u64 \<Rightarrow> SectionHeader" where
  "section_at m sections i =
     (let a = sections + 64 * i
      in \<lparr>sh_name = load_u32 m a, sh_type = load_u32 m (a + 4), sh_flags = load_u64 m (a + 8),
          sh_offset = load_u64 m (a + 24), sh_size = load_u64 m (a + 32), sh_link = load_u32 m (a + 40),
          sh_info = load_u32 m (a + 44)\<rparr>)"

definition symbol_entry :: "memory \<Rightarrow> u64 \<Rightarrow> u64 \<Rightarrow> elf_Symbol" where
  "symbol_entry m table i =
     (let a = table + 24 * i
      in \<lparr>st_name = load_u32 m a, st_section = load_u16 m (a + 6), st_value = load_u64 m (a + 8)\<rparr>)"

definition rela_at :: "memory \<Rightarrow> u64 \<Rightarrow> u64 \<Rightarrow> Rela" where
  "rela_at m entries i =
     (let a = entries + 24 * i
      in \<lparr>r_offset = load_u64 m a, r_info = load_u64 m (a + 8), r_addend = load_u64 m (a + 16)\<rparr>)"

definition type_relocatable :: u16 where "type_relocatable = 1"
definition machine_x86_64 :: u16 where "machine_x86_64 = 62"
definition section_rela :: u32 where "section_rela = 4"
definition section_nobits :: u32 where "section_nobits = 8"
definition section_flag_alloc :: u64 where "section_flag_alloc = 0x2"
definition section_flag_write :: u64 where "section_flag_write = 0x1"
definition section_flag_exec :: u64 where "section_flag_exec = 0x4"
definition section_undefined :: u16 where "section_undefined = 0"
definition r_x86_64_64 :: u32 where [simp]: "r_x86_64_64 = 1"
definition r_x86_64_pc32 :: u32 where [simp]: "r_x86_64_pc32 = 2"
definition r_x86_64_plt32 :: u32 where [simp]: "r_x86_64_plt32 = 4"
definition r_x86_64_32 :: u32 where [simp]: "r_x86_64_32 = 10"
definition r_x86_64_32s :: u32 where [simp]: "r_x86_64_32s = 11"
definition r_x86_64_pc64 :: u32 where [simp]: "r_x86_64_pc64 = 24"

definition rela_type :: "u64 \<Rightarrow> u32" where "rela_type info' = ucast (info' AND 0xFFFFFFFF)"
definition rela_symbol :: "u64 \<Rightarrow> u32" where "rela_symbol info' = ucast (drop_bit 32 info')"

definition header_looks_sane :: "elf_Header \<Rightarrow> usize \<Rightarrow> bool" where
  "header_looks_sane h len \<longleftrightarrow>
     h_ident h ! 0 = 0x7F \<and> h_ident h ! 1 = 0x45 \<and> h_ident h ! 2 = 0x4C \<and> h_ident h ! 3 = 0x46
   \<and> h_ident h ! 4 = 2 \<and> h_ident h ! 5 = 1
   \<and> h_type h = type_relocatable \<and> h_machine h = machine_x86_64
   \<and> h_section_header_size h = 64
   \<and> h_section_header_offset h + ucast (h_section_header_count h) * ucast (h_section_header_size h) \<le> len"

section \<open>The image\<close>

definition max_sections :: nat where [simp]: "max_sections = 64"

record Placement =
  pl_address :: virt_addr
  pl_executable :: bool
  pl_writable :: bool

record LoadedImage =
  li_base :: virt_addr
  li_pages :: usize
  li_placement :: "Placement list"
  li_section_count :: usize

record loader =
  l_mem :: memory
  l_vmalloc :: vmalloc
  l_mmu :: mmu
  l_symbols :: symbols
  l_modules :: modtab

datatype load_fault = PlacementIndex

definition no_placement :: Placement where
  "no_placement = \<lparr>pl_address = 0, pl_executable = False, pl_writable = False\<rparr>"

definition round_up_pages :: "usize \<Rightarrow> usize" where
  "round_up_pages bytes = (bytes + page_size - 1) div page_size"

definition str_ptr :: "u64 \<Rightarrow> SectionHeader \<Rightarrow> u32 \<Rightarrow> u64" where
  "str_ptr img strings offset = img + sh_offset strings + ucast offset"

text \<open>The loop of \<open>allocate_image\<close>: \<open>n\<close> pages are still to be mapped, from page \<open>i\<close> on.\<close>

fun map_frames :: "phys_addr \<Rightarrow> virt_addr \<Rightarrow> usize \<Rightarrow> nat \<Rightarrow> mmu \<Rightarrow> bool \<times> mmu" where
  "map_frames root window i 0 s = (True, s)"
| "map_frames root window i (Suc n) s =
     (let (frame, fr) = alloc_page (frames s); s1 = s\<lparr>frames := fr\<rparr>
      in if frame = 0 then (False, s1)
         else case as_map root (window + i * page_size) frame page_size (Flag_Write OR Flag_NoExecute) s1 of
                (False, s2) \<Rightarrow> (False, s2\<lparr>frames := free_page frame (frames s2)\<rparr>)
              | (True, s2) \<Rightarrow> map_frames root window (i + 1) n s2)"

definition allocate_image :: "phys_addr \<Rightarrow> LoadedImage \<Rightarrow> usize \<Rightarrow> loader \<Rightarrow> (bool \<times> LoadedImage) \<times> loader" where
  "allocate_image root loaded bytes s =
     (let pages = round_up_pages bytes;
          (window, v1) = vmalloc_reserve (pages * page_size) (l_vmalloc s)
      in if window = 0 then ((False, loaded), s\<lparr>l_vmalloc := v1\<rparr>)
         else case map_frames root window 0 (unat pages) (l_mmu s) of
                (False, m1) \<Rightarrow> ((False, loaded), s\<lparr>l_vmalloc := vmalloc_release window (pages * page_size) v1, l_mmu := m1\<rparr>)
              | (True, m1) \<Rightarrow> ((True, loaded\<lparr>li_base := window, li_pages := pages\<rparr>), s\<lparr>l_vmalloc := v1, l_mmu := m1\<rparr>))"

text \<open>One page of \<open>release_image\<close>.\<close>

definition release_page :: "nat \<Rightarrow> phys_addr \<Rightarrow> virt_addr \<Rightarrow> mmu \<Rightarrow> mmu" where
  "release_page cpus root page s =
     (let frame = as_translate root page s;
          s1 = snd (as_unmap cpus root page page_size s)
      in if frame \<noteq> 0 then s1\<lparr>frames := free_page (frame AND NOT (page_size - 1)) (frames s1)\<rparr> else s1)"

definition release_image :: "nat \<Rightarrow> phys_addr \<Rightarrow> LoadedImage \<Rightarrow> loader \<Rightarrow> LoadedImage \<times> loader" where
  "release_image cpus root loaded s =
     (if li_base loaded = 0 then (loaded, s)
      else let m1 = fold (\<lambda>i. release_page cpus root (li_base loaded + of_nat i * page_size)) [0..<unat (li_pages loaded)] (l_mmu s)
           in (loaded\<lparr>li_base := 0, li_pages := 0\<rparr>,
               s\<lparr>l_mmu := m1, l_vmalloc := vmalloc_release (li_base loaded) (li_pages loaded * page_size) (l_vmalloc s)\<rparr>))"

definition module_release_image :: "nat \<Rightarrow> phys_addr \<Rightarrow> virt_addr \<Rightarrow> usize \<Rightarrow> loader \<Rightarrow> loader" where
  "module_release_image cpus root base page_count s =
     snd (release_image cpus root \<lparr>li_base = base, li_pages = page_count, li_placement = replicate 64 no_placement, li_section_count = 0\<rparr> s)"

section \<open>Layout\<close>

definition loadable :: "SectionHeader \<Rightarrow> bool" where
  "loadable section = (\<not> (sh_flags section AND section_flag_alloc = 0 \<or> sh_size section = 0))"

definition layout_total :: "memory \<Rightarrow> u64 \<Rightarrow> nat \<Rightarrow> usize" where
  "layout_total m sections n =
     fold (\<lambda>i total. let section = section_at m sections (of_nat i)
        in if \<not> loadable section then total else total + round_up_pages (sh_size section) * page_size) [0..<n] 0"

definition place_section ::
  "u64 \<Rightarrow> u64 \<Rightarrow> nat \<Rightarrow> usize \<times> LoadedImage \<times> memory \<Rightarrow> usize \<times> LoadedImage \<times> memory" where
  "place_section img sections i st =
     (let (cursor, loaded, m) = st;
          section = section_at m sections (of_nat i)
      in if \<not> loadable section then st
         else let where' = li_base loaded + cursor;
                  loaded' = loaded\<lparr>li_placement := (li_placement loaded)[i := \<lparr>pl_address = where',
                     pl_executable = (sh_flags section AND section_flag_exec \<noteq> 0),
                     pl_writable = (sh_flags section AND section_flag_write \<noteq> 0)\<rparr>]\<rparr>;
                  m' = (if sh_type section = section_nobits then memset m where' 0 (sh_size section)
                        else memcpy m where' (img + sh_offset section) (sh_size section))
              in (cursor + round_up_pages (sh_size section) * page_size, loaded', m'))"

definition place_sections :: "u64 \<Rightarrow> u64 \<Rightarrow> nat \<Rightarrow> LoadedImage \<times> memory \<Rightarrow> LoadedImage \<times> memory" where
  "place_sections img sections n st =
     snd (fold (place_section img sections) [0..<n] (0, st))"

section \<open>Relocations\<close>

definition lookup_name :: "(string \<times> u64) list \<Rightarrow> memory \<Rightarrow> u64 \<Rightarrow> symbols \<Rightarrow> u64" where
  "lookup_name kernel_symbols m name syms =
     (case c_string m name of None \<Rightarrow> 0 | Some nm \<Rightarrow> symbol_lookup kernel_symbols nm syms)"

text \<open>\<open>None\<close> is \<open>resolved = false\<close>.\<close>

definition symbol_address ::
  "(string \<times> u64) list \<Rightarrow> symbols \<Rightarrow> memory \<Rightarrow> u64 \<Rightarrow> SectionHeader \<Rightarrow> SectionHeader \<Rightarrow> LoadedImage \<Rightarrow> u32 \<Rightarrow> u64 option" where
  "symbol_address kernel_symbols syms m img symbols strings loaded index =
     (let count' = sh_size symbols div 24
      in if ucast index \<ge> count' then None
         else let symbol = symbol_entry m (img + sh_offset symbols) (ucast index)
              in if st_section symbol = section_undefined
                 then let address = lookup_name kernel_symbols m (str_ptr img strings (st_name symbol)) syms
                      in if address = 0 then None else Some address
                 else if unat (st_section symbol) \<ge> max_sections then None
                 else Some (pl_address (li_placement loaded ! unat (st_section symbol)) + st_value symbol))"

text \<open>The 32 bit range check of the code, on a value whose 64 bit arithmetic wraps.\<close>

definition fits_i32 :: "u64 \<Rightarrow> bool" where
  "fits_i32 value \<longleftrightarrow> \<not> (sint value < -0x80000000 \<or> sint value > 0x7FFFFFFF)"

definition relocate :: "u32 \<Rightarrow> u64 \<Rightarrow> u64 \<Rightarrow> virt_addr \<Rightarrow> memory \<Rightarrow> memory option" where
  "relocate type symbol addend where' m =
     (if type = r_x86_64_64 then Some (store_u64 m where' (symbol + addend))
      else if type = r_x86_64_pc32 \<or> type = r_x86_64_plt32
        then let value = symbol + addend - where'
             in if \<not> fits_i32 value then None else Some (store_u32 m where' (ucast value))
      else if type = r_x86_64_32 \<or> type = r_x86_64_32s
        then let value = symbol + addend
             in if \<not> fits_i32 value then None else Some (store_u32 m where' (ucast value))
      else if type = r_x86_64_pc64 then Some (store_u64 m where' (symbol + addend - where'))
      else None)"

fun relocate_entries ::
  "(string \<times> u64) list \<Rightarrow> symbols \<Rightarrow> u64 \<Rightarrow> u64 \<Rightarrow> SectionHeader \<Rightarrow> LoadedImage \<Rightarrow> nat \<Rightarrow> nat \<Rightarrow> memory \<Rightarrow> load_fault + memory option" where
  "relocate_entries kernel_symbols syms img sections section loaded entry 0 m = Inr (Some m)"
| "relocate_entries kernel_symbols syms img sections section loaded entry (Suc n) m =
     (let symbols = section_at m sections (ucast (sh_link section));
          strings = section_at m sections (ucast (sh_link symbols));
          rela = rela_at m (img + sh_offset section) (of_nat entry)
      in case symbol_address kernel_symbols syms m img symbols strings loaded (rela_symbol (r_info rela)) of
           None \<Rightarrow> Inr None
         | Some symbol \<Rightarrow>
             if unat (sh_info section) \<ge> max_sections then Inl PlacementIndex
             else let where' = pl_address (li_placement loaded ! unat (sh_info section)) + r_offset rela
                  in case relocate (rela_type (r_info rela)) symbol (r_addend rela) where' m of
                       None \<Rightarrow> Inr None
                     | Some m' \<Rightarrow> relocate_entries kernel_symbols syms img sections section loaded (entry + 1) n m')"

fun apply_relocations ::
  "(string \<times> u64) list \<Rightarrow> symbols \<Rightarrow> u64 \<Rightarrow> u64 \<Rightarrow> LoadedImage \<Rightarrow> nat list \<Rightarrow> memory \<Rightarrow> load_fault + memory option" where
  "apply_relocations kernel_symbols syms img sections loaded [] m = Inr (Some m)"
| "apply_relocations kernel_symbols syms img sections loaded (i # is) m =
     (let section = section_at m sections (of_nat i);
          target = section_at m sections (ucast (sh_info section))
      in if sh_type section \<noteq> section_rela \<or> sh_flags target AND section_flag_alloc = 0
         then apply_relocations kernel_symbols syms img sections loaded is m
         else case relocate_entries kernel_symbols syms img sections section loaded 0 (unat (sh_size section div 24)) m of
                Inl f \<Rightarrow> Inl f
              | Inr None \<Rightarrow> Inr None
              | Inr (Some m') \<Rightarrow> apply_relocations kernel_symbols syms img sections loaded is m')"

section \<open>Finishing an image\<close>

definition protect_section :: "phys_addr \<Rightarrow> LoadedImage \<Rightarrow> memory \<Rightarrow> u64 \<Rightarrow> nat \<Rightarrow> mmu \<Rightarrow> mmu" where
  "protect_section root loaded m sections i s =
     (let section = section_at m sections (of_nat i)
      in if \<not> loadable section then s
         else let placement = li_placement loaded ! i;
                  pages = round_up_pages (sh_size section);
                  flags = (if pl_writable placement then Flag_None OR Flag_Write else Flag_None);
                  flags' = (if \<not> pl_executable placement then flags OR Flag_NoExecute else flags)
              in snd (as_protect root (pl_address placement AND NOT (page_size - 1)) (pages * page_size) flags' s))"

definition apply_protections :: "phys_addr \<Rightarrow> LoadedImage \<Rightarrow> u64 \<Rightarrow> nat \<Rightarrow> loader \<Rightarrow> loader" where
  "apply_protections root loaded sections n s =
     s\<lparr>l_mmu := fold (protect_section root loaded (l_mem s) sections) [0..<min n max_sections] (l_mmu s)\<rparr>"

text \<open>\<open>section_named\<close> is \<open>strcmp(string_at(img, names, section.name), name) == 0\<close>.\<close>

definition section_named :: "memory \<Rightarrow> u64 \<Rightarrow> u64 \<Rightarrow> u16 \<Rightarrow> nat \<Rightarrow> string \<Rightarrow> bool" where
  "section_named m img sections name_index i name =
     string_at m (str_ptr img (section_at m sections (ucast name_index)) (sh_name (section_at m sections (of_nat i)))) name"

definition run_constructors ::
  "(u64 \<Rightarrow> loader \<Rightarrow> loader) \<Rightarrow> u64 \<Rightarrow> u64 \<Rightarrow> u16 \<Rightarrow> LoadedImage \<Rightarrow> nat \<Rightarrow> loader \<Rightarrow> loader" where
  "run_constructors call img sections name_index loaded n s =
     fold (\<lambda>i s.
       if \<not> section_named (l_mem s) img sections name_index i ''.init_array'' \<and>
          \<not> section_named (l_mem s) img sections name_index i ''.ctors'' then s
       else fold (\<lambda>entry s.
              let f = load_u64 (l_mem s) (pl_address (li_placement loaded ! i) + 8 * of_nat entry)
              in if f \<noteq> 0 then call f s else s)
            [0..<unat (sh_size (section_at (l_mem s) sections (of_nat i)) div 8)] s) [0..<n] s"

definition exported_at :: "memory \<Rightarrow> u64 \<Rightarrow> nat \<Rightarrow> ExportedSymbol" where
  "exported_at m table i =
     (let a = table + 16 * of_nat i; name = load_u64 m a
      in (if name = 0 then None else c_string m name, load_u64 m (a + 8)))"

definition register_exports ::
  "u64 \<Rightarrow> u64 \<Rightarrow> u16 \<Rightarrow> LoadedImage \<Rightarrow> nat \<Rightarrow> loader \<Rightarrow> loader" where
  "register_exports img sections name_index loaded n s =
     fold (\<lambda>i s.
       if \<not> section_named (l_mem s) img sections name_index i ''.eris_symtab'' then s
       else let table = pl_address (li_placement loaded ! i);
                count' = unat (sh_size (section_at (l_mem s) sections (of_nat i)) div 16)
            in s\<lparr>l_symbols := snd (symbol_register_table
                  (if table = 0 then None else Some (map (exported_at (l_mem s) table) [0..<count'])) (li_base loaded) (l_symbols s))\<rparr>)
       [0..<n] s"

definition string_or_empty :: "memory \<Rightarrow> u64 \<Rightarrow> string" where
  "string_or_empty m p = (case c_string m p of None \<Rightarrow> [] | Some s \<Rightarrow> s)"

definition module_info_at :: "memory \<Rightarrow> u64 \<Rightarrow> ModuleInfo" where
  "module_info_at m a =
     \<lparr>mi_abi = load_u32 m a, mi_name = string_or_empty m (load_u64 m (a + 8)),
      mi_license = (let l = load_u64 m (a + 32) in if l = 0 then None else Some (string_or_empty m l)),
      mi_init = load_u64 m (a + 40), mi_exit = load_u64 m (a + 48),
      mi_deps = map (\<lambda>i. string_or_empty m (load_u64 m (load_u64 m (a + 56) + 8 * of_nat i))) [0..<unat (load_u64 m (a + 64))]\<rparr>"

definition register_descriptors ::
  "u64 \<Rightarrow> u64 \<Rightarrow> u16 \<Rightarrow> LoadedImage \<Rightarrow> nat \<Rightarrow> loader \<Rightarrow> int \<times> loader" where
  "register_descriptors img sections name_index loaded n s =
     fold (\<lambda>i st.
       if \<not> section_named (l_mem (snd st)) img sections name_index i ''.eris_modules'' then st
       else fold (\<lambda>entry (added, s).
              case module_register_loaded (Some (module_info_at (l_mem s) (pl_address (li_placement loaded ! i) + 72 * of_nat entry)))
                     (li_base loaded) (li_pages loaded) (l_modules s) of
                (r, t) \<Rightarrow> (if r = 0 then added + 1 else added, s\<lparr>l_modules := t\<rparr>))
            [0..<unat (sh_size (section_at (l_mem (snd st)) sections (of_nat i)) div 72)] st) [0..<n] (0, s)"

definition module_load_image ::
  "nat \<Rightarrow> phys_addr \<Rightarrow> (string \<times> u64) list \<Rightarrow> (u64 \<Rightarrow> loader \<Rightarrow> loader) \<Rightarrow> u64 \<Rightarrow> usize \<Rightarrow> loader \<Rightarrow> load_fault + int \<times> loader" where
  "module_load_image cpus root kernel_symbols call img len s =
     (let header = header_at (l_mem s) img;
          n = unat (h_section_header_count header);
          sections = img + h_section_header_offset header;
          names = h_section_name_index header;
          loaded = \<lparr>li_base = 0, li_pages = 0, li_placement = replicate 64 no_placement, li_section_count = of_nat n\<rparr>;
          total = layout_total (l_mem s) sections n
      in if len < 64 then Inr (-1, s)
         else if \<not> header_looks_sane header len then Inr (-1, s)
         else if n > max_sections then Inr (-1, s)
         else if total = 0 then Inr (-1, s)
         else case allocate_image root loaded total s of
           ((False, _), s1) \<Rightarrow> Inr (-1, s1)
         | ((True, loaded1), s1) \<Rightarrow>
             let (loaded2, m2) = place_sections img sections n (loaded1, l_mem s1);
                 s2 = s1\<lparr>l_mem := m2\<rparr>
             in case apply_relocations kernel_symbols (l_symbols s2) img sections loaded2 [0..<n] m2 of
                  Inl f \<Rightarrow> Inl f
                | Inr None \<Rightarrow> Inr (-1, snd (release_image cpus root loaded2 s2))
                | Inr (Some m3) \<Rightarrow>
                    let s3 = s2\<lparr>l_mem := m3\<rparr>;
                        s4 = run_constructors call img sections names loaded2 n s3;
                        s5 = register_exports img sections names loaded2 n s4;
                        s6 = apply_protections root loaded2 sections n s5
                    in case register_descriptors img sections names loaded2 n s6 of (added, s7) \<Rightarrow>
                         if added = 0 then Inr (-1, snd (release_image cpus root loaded2 s7)) else Inr (0, s7))"

end
