(* ===== verification/Loader_Correct.thy ===== *)
theory Loader_Correct
  imports Loader
begin

unbundle bit_operations_syntax

text \<open>
  What the loader establishes: the sections it places do not overlap and hold the bytes of the
  image, a relocation leaves the value the ELF format defines in place, and the header check that
  guards the section table can be passed by a table outside the image.
\<close>

section \<open>Relocations\<close>

lemma fits_i32_round_trip:
  assumes "fits_i32 v"
  shows "(scast (ucast v :: u32) :: u64) = v"
proof -
  have "-(2 ^ 31) \<le> sint v" "sint v < 2 ^ 31" using assms by (auto simp: fits_i32_def)
  then have s: "signed_take_bit 31 (sint v) = sint v" by (intro signed_take_bit_int_eq_self) auto
  have "sint (ucast v :: u32) = signed_take_bit 31 (uint v)"
    by (simp add: signed_ucast_eq)
  also have "\<dots> = signed_take_bit 31 (sint v)"
    by (rule signed_take_bit_eq_iff_take_bit_eq [THEN iffD2]) (simp add: sint_uint take_bit_signed_take_bit)
  finally have "sint (ucast v :: u32) = sint v" using s by simp
  then show ?thesis by (metis scast_id scast_eq of_int_sint)
qed

text \<open>The bytes a relocation of this type writes.\<close>

definition reloc_width :: "u32 \<Rightarrow> nat" where
  "reloc_width type = (if type = r_x86_64_64 \<or> type = r_x86_64_pc64 then 8 else 4)"

text \<open>The value the processor will use when it reads the field that was relocated.\<close>

definition reloc_target :: "u32 \<Rightarrow> memory \<Rightarrow> virt_addr \<Rightarrow> u64" where
  "reloc_target type m where' =
     (if type = r_x86_64_64 then load_u64 m where'
      else if type = r_x86_64_pc64 then where' + load_u64 m where'
      else if type = r_x86_64_pc32 \<or> type = r_x86_64_plt32 then where' + scast (load_u32 m where')
      else scast (load_u32 m where'))"

lemma relocate_other:
  assumes "relocate type symbol addend where' m = Some m'" and "\<forall>i<reloc_width type. b \<noteq> where' + of_nat i"
  shows "m' b = m b"
  using assms by (auto simp: relocate_def reloc_width_def store_u64_def store_u32_def Let_def store_le_other
      split: if_splits)

lemma relocate_value:
  assumes "relocate type symbol addend where' m = Some m'"
  shows "reloc_target type m' where' = symbol + addend"
  using assms by (auto simp: relocate_def reloc_target_def load_store_u64 load_store_u32 Let_def fits_i32_round_trip
      split: if_splits)

section \<open>Memory outside a buffer\<close>

lemma unat_plus_of_nat:
  "unat (base :: u64) + k < 18446744073709551616 \<Longrightarrow> unat (base + of_nat k) = unat base + k"
  by (simp add: unat_u64_add unat_u64_of_nat)

definition apart :: "u64 \<Rightarrow> u64 \<Rightarrow> nat \<Rightarrow> bool" where
  "apart b base n \<longleftrightarrow> unat b < unat base \<or> unat base + n \<le> unat b"

lemma apart_neq:
  assumes "apart b base n" and "unat base + n \<le> 18446744073709551616" and "i < n"
  shows "b \<noteq> base + of_nat i"
proof
  assume b: "b = base + of_nat i"
  have "unat b = unat base + i"
    unfolding b using assms by (simp add: unat_u64_add unat_u64_of_nat)
  then show False using assms by (simp add: apart_def)
qed

lemma fold_store_other:
  "\<forall>i<n. b \<noteq> dest + of_nat i \<Longrightarrow> fold (\<lambda>i m. m(dest + of_nat i := g i m)) [0..<n] m (b :: u64) = m b"
  by (induction n) auto

lemma memset_other:
  "apart b dest (unat cnt) \<Longrightarrow> unat dest + unat cnt \<le> 18446744073709551616 \<Longrightarrow> memset m dest v cnt b = m b"
  unfolding memset_def Let_def using fold_store_other [of "unat cnt" b dest "\<lambda>_ _. ucast v"] apart_neq by blast

lemma memcpy_other:
  "apart b dest (unat cnt) \<Longrightarrow> unat dest + unat cnt \<le> 18446744073709551616 \<Longrightarrow> memcpy m dest src cnt b = m b"
  unfolding memcpy_def using fold_store_other [of "unat cnt" b dest "\<lambda>i m. m (src + of_nat i)"] apart_neq by blast

lemma apart_shrink: "apart b base n \<Longrightarrow> k \<le> n \<Longrightarrow> apart b base k"
  by (auto simp: apart_def)

lemma apart_part:
  assumes "apart b base n" and "off + k \<le> n" and "unat base + n < 18446744073709551616"
  shows "apart b (base + of_nat off) k"
proof -
  have "unat (base + of_nat off) = unat base + off"
    using assms by (simp add: unat_u64_add unat_u64_of_nat)
  then show ?thesis using assms by (auto simp: apart_def)
qed

section \<open>Layout\<close>

definition section_span :: "SectionHeader \<Rightarrow> nat" where
  "section_span section = (if loadable section then (unat (sh_size section) + 4095) div 4096 * 4096 else 0)"

definition section_offset :: "memory \<Rightarrow> u64 \<Rightarrow> nat \<Rightarrow> nat" where
  "section_offset m sections i = (\<Sum>k<i. section_span (section_at m sections (of_nat k)))"

lemma section_offset_Suc:
  "section_offset m sections (Suc i) = section_offset m sections i + section_span (section_at m sections (of_nat i))"
  by (simp add: section_offset_def)

lemma section_offset_mono: "i \<le> j \<Longrightarrow> section_offset m sections i \<le> section_offset m sections j"
  unfolding section_offset_def by (rule sum_mono2) auto

lemma section_span_size: "loadable section \<Longrightarrow> unat (sh_size section) \<le> section_span section"
  by (simp add: section_span_def)

lemma word_of_nat_unat_u64: "of_nat (unat x) = (x :: u64)"
  by simp

lemma section_span_word:
  assumes "loadable section" and "section_span section < 18446744073709551616"
  shows "round_up_pages (sh_size section) * page_size = of_nat (section_span section)"
proof -
  let ?n = "unat (sh_size section)"
  have b: "?n + 4095 < 18446744073709551616"
  proof (rule ccontr)
    assume "\<not> ?thesis"
    then have "18446744073709551616 div 4096 \<le> (?n + 4095) div 4096" by (intro div_le_mono) simp
    then have "18446744073709551616 \<le> (?n + 4095) div 4096 * 4096" by simp
    then show False using assms by (simp add: section_span_def)
  qed
  have "sh_size section + page_size - 1 = sh_size section + 4095" by simp
  moreover have "unat (sh_size section + 4095) = ?n + 4095"
    using b by (simp add: unat_u64_add)
  ultimately have "unat (sh_size section + page_size - 1) = ?n + 4095" by metis
  then have "unat (round_up_pages (sh_size section)) = (?n + 4095) div 4096"
    by (simp add: round_up_pages_def unat_div_distrib)
  then have "round_up_pages (sh_size section) = of_nat ((?n + 4095) div 4096)"
    by (metis word_of_nat_unat_u64)
  then show ?thesis using assms(1) by (simp add: section_span_def)
qed

lemma section_at_cong:
  assumes "\<And>b. b < 64 \<Longrightarrow> m (sections + 64 * i + of_nat b) = m' (sections + 64 * i + of_nat b)"
  shows "section_at m sections i = section_at m' sections i"
proof -
  have e: "load_le n m (sections + 64 * i + of_nat k) = load_le n m' (sections + 64 * i + of_nat k)" if "k + n \<le> 64" for n k
  proof (rule load_le_cong)
    fix j assume "j < n"
    then show "m (sections + 64 * i + of_nat k + of_nat j) = m' (sections + 64 * i + of_nat k + of_nat j)"
      using assms [of "k + j"] that by (simp add: add.assoc)
  qed
  show ?thesis
    unfolding section_at_def Let_def load_u32_def load_u64_def
    using e [of 0 4] e [of 4 4] e [of 8 8] e [of 24 8] e [of 32 8] e [of 40 4] e [of 44 4] by simp
qed

text \<open>
  An image that can be laid out at \<open>base\<close>: its sections fit below the end of the address space, and
  neither its section table nor the bytes it loads from lie in the window.
\<close>

definition layout_ok :: "memory \<Rightarrow> u64 \<Rightarrow> u64 \<Rightarrow> nat \<Rightarrow> virt_addr \<Rightarrow> bool" where
  "layout_ok m img sections n base \<longleftrightarrow> n \<le> 64 \<and>
     (let total = section_offset m sections n
      in unat base + total < 18446744073709551616
       \<and> (\<forall>i<n. \<forall>b<64. apart (sections + 64 * of_nat i + of_nat b) base total)
       \<and> (\<forall>i<n. let section = section_at m sections (of_nat i)
            in loadable section \<longrightarrow> sh_type section \<noteq> section_nobits \<longrightarrow>
               unat (img + sh_offset section) + unat (sh_size section) \<le> 18446744073709551616
             \<and> (unat base + total \<le> unat (img + sh_offset section)
                \<or> unat (img + sh_offset section) + unat (sh_size section) \<le> unat base)))"

text \<open>The byte number \<open>b\<close> that section \<open>i\<close> must hold once it is placed.\<close>

definition section_byte :: "memory \<Rightarrow> u64 \<Rightarrow> u64 \<Rightarrow> nat \<Rightarrow> nat \<Rightarrow> u8" where
  "section_byte m img sections i b =
     (let section = section_at m sections (of_nat i)
      in if sh_type section = section_nobits then 0 else m (img + sh_offset section + of_nat b))"

definition placed_upto :: "memory \<Rightarrow> u64 \<Rightarrow> u64 \<Rightarrow> virt_addr \<Rightarrow> nat \<Rightarrow> usize \<times> LoadedImage \<times> memory \<Rightarrow> bool" where
  "placed_upto m img sections base j st \<longleftrightarrow> (case st of (cursor, loaded, m') \<Rightarrow>
     cursor = of_nat (section_offset m sections j) \<and> li_base loaded = base \<and> length (li_placement loaded) = 64
   \<and> (\<forall>b. apart b base (section_offset m sections j) \<longrightarrow> m' b = m b)
   \<and> (\<forall>i<j. loadable (section_at m sections (of_nat i)) \<longrightarrow>
        pl_address (li_placement loaded ! i) = base + of_nat (section_offset m sections i)
      \<and> (\<forall>b<unat (sh_size (section_at m sections (of_nat i))).
           m' (pl_address (li_placement loaded ! i) + of_nat b) = section_byte m img sections i b)))"

lemma placed_upto_headers:
  assumes ok: "layout_ok m img sections n base" and p: "placed_upto m img sections base j (cursor, loaded, m')" and "j \<le> n" "i < n"
  shows "section_at m' sections (of_nat i) = section_at m sections (of_nat i)"
proof (rule section_at_cong)
  fix b :: nat assume "b < 64"
  then have "apart (sections + 64 * of_nat i + of_nat b) base (section_offset m sections n)"
    using ok assms(4) by (simp add: layout_ok_def Let_def)
  then have "apart (sections + 64 * of_nat i + of_nat b) base (section_offset m sections j)"
    by (rule apart_shrink) (rule section_offset_mono [OF assms(3)])
  then show "m' (sections + 64 * of_nat i + of_nat b) = m (sections + 64 * of_nat i + of_nat b)"
    using p by (simp add: placed_upto_def)
qed

text \<open>Writing one section: its own bytes, and nothing outside its span.\<close>

lemma place_bytes:
  assumes ok: "layout_ok m img sections n base" and j: "j < n" and ld: "loadable (section_at m sections (of_nat j))"
    and keep: "\<forall>b. apart b base (section_offset m sections j) \<longrightarrow> m1 b = m b"
  defines "section \<equiv> section_at m sections (of_nat j)"
  defines "where' \<equiv> base + of_nat (section_offset m sections j)"
  defines "m2 \<equiv> (if sh_type section = section_nobits then memset m1 where' 0 (sh_size section)
                   else memcpy m1 where' (img + sh_offset section) (sh_size section))"
  shows "\<And>b. b < unat (sh_size section) \<Longrightarrow> m2 (where' + of_nat b) = section_byte m img sections j b"
    and "\<And>b. apart b where' (section_span section) \<Longrightarrow> m2 b = m1 b"
    and "unat where' = unat base + section_offset m sections j"
proof -
  let ?off = "section_offset m sections" and ?n = "unat (sh_size section)"
  have le: "?off j + section_span section \<le> ?off n"
    using section_offset_mono [of "Suc j" n m sections] j by (simp add: section_offset_Suc section_def)
  have bound: "unat base + ?off n < 18446744073709551616" using ok by (simp add: layout_ok_def Let_def)
  have sz: "?n \<le> section_span section" using ld unfolding section_def by (rule section_span_size)
  show w: "unat where' = unat base + ?off j"
    unfolding where'_def using le bound by (simp add: unat_u64_add unat_u64_of_nat)
  have fit: "unat where' + ?n \<le> 18446744073709551616" using w le sz bound by simp
  show "m2 b = m1 b" if "apart b where' (section_span section)" for b
    using memset_other [OF apart_shrink [OF that sz] fit] memcpy_other [OF apart_shrink [OF that sz] fit]
    by (simp add: m2_def)
  show "m2 (where' + of_nat b) = section_byte m img sections j b" if b: "b < ?n" for b
  proof (cases "sh_type section = section_nobits")
    case True
    then show ?thesis
      using b u64_bound [of "sh_size section"] memset_spec [of b m1 where' 0 "sh_size section"]
      by (simp add: m2_def section_byte_def section_def [symmetric] Let_def)
  next
    case False
    let ?src = "img + sh_offset section"
    have src: "unat ?src + ?n \<le> 18446744073709551616" "unat base + ?off n \<le> unat ?src \<or> unat ?src + ?n \<le> unat base"
      using ok j ld False by (auto simp: layout_ok_def Let_def section_def)
    have ap: "unat where' + ?n \<le> unat ?src \<or> unat ?src + ?n \<le> unat where'" using src(2) w le sz by auto
    have ub: "unat (?src + of_nat b) = unat ?src + b" using src(1) b by (simp add: unat_u64_add unat_u64_of_nat)
    have "apart (?src + of_nat b) base (?off j)"
      unfolding apart_def ub using src(2) b le by auto
    then have "m1 (?src + of_nat b) = m (?src + of_nat b)" using keep by blast
    then show ?thesis
      using memcpy_copies [OF fit src(1) ap b, of m1] False
      by (simp add: m2_def section_byte_def section_def [symmetric] Let_def)
  qed
qed

lemma place_section_step:
  assumes ok: "layout_ok m img sections n base" and p: "placed_upto m img sections base j st" and j: "j < n"
  shows "placed_upto m img sections base (Suc j) (place_section img sections j st)"
proof -
  obtain cursor loaded m1 where st: "st = (cursor, loaded, m1)" by (cases st) auto
  let ?off = "section_offset m sections" and ?sec = "section_at m sections (of_nat j)"
  have P: "cursor = of_nat (?off j)" "li_base loaded = base" "length (li_placement loaded) = 64"
    "\<And>b. apart b base (?off j) \<Longrightarrow> m1 b = m b"
    "\<And>i. i < j \<Longrightarrow> loadable (section_at m sections (of_nat i)) \<Longrightarrow>
        pl_address (li_placement loaded ! i) = base + of_nat (?off i)
      \<and> (\<forall>b<unat (sh_size (section_at m sections (of_nat i))).
           m1 (pl_address (li_placement loaded ! i) + of_nat b) = section_byte m img sections i b)"
    using p by (auto simp: st placed_upto_def)
  have hdr: "section_at m1 sections (of_nat j) = ?sec"
    using placed_upto_headers [OF ok p [unfolded st], of j] j by simp
  have n64: "n \<le> 64" using ok by (simp add: layout_ok_def)
  have bound: "unat base + ?off n < 18446744073709551616" using ok by (simp add: layout_ok_def Let_def)
  have le: "?off (Suc j) \<le> ?off n" by (rule section_offset_mono) (use j in simp)
  show ?thesis
  proof (cases "loadable ?sec")
    case False
    then have "?off (Suc j) = ?off j" by (simp add: section_offset_Suc section_span_def)
    then show ?thesis using p False hdr by (auto simp: st placed_upto_def place_section_def less_Suc_eq)
  next
    case ld: True
    have keep0: "\<forall>b. apart b base (?off j) \<longrightarrow> m1 b = m b" using P(4) by blast
    note B = place_bytes [OF ok j ld keep0]
    have sp: "round_up_pages (sh_size ?sec) * page_size = of_nat (section_span ?sec)"
      by (rule section_span_word [OF ld]) (use le bound in \<open>simp add: section_offset_Suc\<close>)
    let ?w = "base + of_nat (?off j)"
    let ?m2 = "if sh_type ?sec = section_nobits then memset m1 ?w 0 (sh_size ?sec)
               else memcpy m1 ?w (img + sh_offset ?sec) (sh_size ?sec)"
    let ?l = "loaded\<lparr>li_placement := (li_placement loaded)[j := \<lparr>pl_address = ?w,
                     pl_executable = (sh_flags ?sec AND section_flag_exec \<noteq> 0),
                     pl_writable = (sh_flags ?sec AND section_flag_write \<noteq> 0)\<rparr>]\<rparr>"
    have step: "place_section img sections j st = (of_nat (?off j) + of_nat (section_span ?sec), ?l, ?m2)"
      using ld sp by (simp add: st place_section_def hdr P(1,2) Let_def)
    have old: "apart b ?w (section_span ?sec)" if "unat b < unat base + ?off j" for b
      using that B(3) by (simp add: apart_def)
    have keep: "?m2 (base + of_nat (?off i) + of_nat b) = section_byte m img sections i b"
      if i: "i < j" "loadable (section_at m sections (of_nat i))" "b < unat (sh_size (section_at m sections (of_nat i)))" for i b
    proof -
      have "?off i + section_span (section_at m sections (of_nat i)) \<le> ?off j"
        using section_offset_mono [of "Suc i" j m sections] i(1) by (simp add: section_offset_Suc)
      then have lt: "?off i + b < ?off j" using section_span_size [OF i(2)] i(3) by simp
      have "?off j \<le> ?off (Suc j)" by (rule section_offset_mono) simp
      then have "unat (base + of_nat (?off i + b)) = unat base + (?off i + b)"
        using lt le bound by (intro unat_plus_of_nat) simp
      then have "apart (base + of_nat (?off i + b)) ?w (section_span ?sec)" using lt by (intro old) simp
      then have "?m2 (base + of_nat (?off i + b)) = m1 (base + of_nat (?off i + b))" by (rule B(2))
      also have "\<dots> = section_byte m img sections i b" using P(5) [OF i(1,2)] i(3) by (auto simp: add.assoc [symmetric])
      finally show ?thesis by (simp add: add.assoc)
    qed
    have outside: "?m2 b = m b" if "apart b base (?off (Suc j))" for b
    proof -
      have "apart b ?w (section_span ?sec)"
        by (rule apart_part [OF that]) (use le bound in \<open>simp_all add: section_offset_Suc\<close>)
      then have "?m2 b = m1 b" by (rule B(2))
      also have "\<dots> = m b"
        by (rule P(4)) (rule apart_shrink [OF that], rule section_offset_mono, simp)
      finally show ?thesis .
    qed
    show ?thesis
      unfolding placed_upto_def step prod.case
    proof (intro conjI allI impI)
      fix i assume i: "i < Suc j" "loadable (section_at m sections (of_nat i))"
      have jl: "j < length (li_placement loaded)" using j n64 P(3) by simp
      show a: "pl_address (li_placement ?l ! i) = base + of_nat (?off i)"
        using i P(5) jl by (cases "i = j") (simp_all add: less_Suc_eq)
      fix b assume b: "b < unat (sh_size (section_at m sections (of_nat i)))"
      show "?m2 (pl_address (li_placement ?l ! i) + of_nat b) = section_byte m img sections i b"
        unfolding a using keep [of i b] B(1) [of b] i b by (cases "i = j") (simp_all add: less_Suc_eq)
    qed (use P outside in \<open>simp_all add: section_offset_Suc\<close>)
  qed
qed

lemma place_sections_upto:
  assumes "layout_ok m img sections n base" and "li_base loaded = base" and "length (li_placement loaded) = 64" and "j \<le> n"
  shows "placed_upto m img sections base j (fold (place_section img sections) [0..<j] (0, loaded, m))"
  using assms(4)
proof (induction j)
  case 0
  then show ?case using assms by (simp add: placed_upto_def section_offset_def)
next
  case (Suc j)
  then show ?case using place_section_step [OF assms(1)] by simp
qed

lemma layout_total_offset:
  assumes "section_offset m sections n < 18446744073709551616"
  shows "layout_total m sections n = of_nat (section_offset m sections n)"
  using assms
proof (induction n)
  case 0
  then show ?case by (simp add: layout_total_def section_offset_def)
next
  case (Suc n)
  have "section_offset m sections n < 18446744073709551616"
    using Suc.prems by (simp add: section_offset_Suc)
  with Suc.IH have IH: "layout_total m sections n = of_nat (section_offset m sections n)" .
  let ?s = "section_at m sections (of_nat n)"
  have "layout_total m sections (Suc n) = (if \<not> loadable ?s then layout_total m sections n
      else layout_total m sections n + round_up_pages (sh_size ?s) * page_size)"
    by (simp add: layout_total_def Let_def)
  moreover have "section_span ?s < 18446744073709551616"
    using Suc.prems by (simp add: section_offset_Suc)
  then have "loadable ?s \<Longrightarrow> round_up_pages (sh_size ?s) * page_size = of_nat (section_span ?s)"
    by (rule section_span_word [rotated])
  moreover have "\<not> loadable ?s \<Longrightarrow> section_span ?s = 0" by (simp add: section_span_def)
  ultimately show ?case
    using IH by (cases "loadable ?s") (simp_all add: section_offset_Suc)
qed

section \<open>Properties\<close>

text \<open>
  C22: Laying an image out. The window that is asked for is exactly as long as the placed sections;
  every loadable section starts on its own page after the ones before it, so no two overlap, lies
  inside the window and holds the bytes of the image (or zeros when it has none there); and nothing
  outside the window is written.
\<close>

theorem place_sections_correct:
  assumes ok: "layout_ok m img sections n base" and base: "li_base loaded = base" "length (li_placement loaded) = 64"
    and r: "place_sections img sections n (loaded, m) = (loaded', m')"
  shows "layout_total m sections n = of_nat (section_offset m sections n)
    \<and> (\<forall>b. apart b base (section_offset m sections n) \<longrightarrow> m' b = m b)
    \<and> (\<forall>i<n. loadable (section_at m sections (of_nat i)) \<longrightarrow>
         (let a = pl_address (li_placement loaded' ! i); span = section_span (section_at m sections (of_nat i))
          in unat base \<le> unat a \<and> unat a + span \<le> unat base + section_offset m sections n
           \<and> 4096 dvd unat a - unat base
           \<and> (\<forall>b<unat (sh_size (section_at m sections (of_nat i))). m' (a + of_nat b) = section_byte m img sections i b)
           \<and> (\<forall>k<n. i < k \<longrightarrow> loadable (section_at m sections (of_nat k)) \<longrightarrow>
                unat a + span \<le> unat (pl_address (li_placement loaded' ! k)))))"
proof -
  let ?off = "section_offset m sections"
  have bound: "unat base + ?off n < 18446744073709551616" using ok by (simp add: layout_ok_def Let_def)
  obtain c where c: "fold (place_section img sections) [0..<n] (0, loaded, m) = (c, loaded', m')"
    using r by (cases "fold (place_section img sections) [0..<n] (0, loaded, m)") (simp add: place_sections_def)
  have P: "placed_upto m img sections base n (c, loaded', m')"
    using place_sections_upto [OF ok base order_refl] c by simp
  have addr: "unat (pl_address (li_placement loaded' ! i)) = unat base + ?off i"
    if "i < n" "loadable (section_at m sections (of_nat i))" for i
  proof -
    have "?off i \<le> ?off n" by (rule section_offset_mono) (use that in simp)
    then show ?thesis using P that bound by (simp add: placed_upto_def unat_plus_of_nat)
  qed
  have step: "?off i + section_span (section_at m sections (of_nat i)) \<le> ?off k" if "i < k" for i k
    using section_offset_mono [of "Suc i" k m sections] that by (simp add: section_offset_Suc)
  have dv: "4096 dvd ?off i" for i
    unfolding section_offset_def section_span_def by (rule dvd_sum) auto
  have tot: "layout_total m sections n = of_nat (?off n)" by (rule layout_total_offset) (use bound in simp)
  show ?thesis
    unfolding Let_def
  proof (intro conjI allI impI)
    fix i k assume "i < n" "loadable (section_at m sections (of_nat i))" "k < n" "i < k"
      "loadable (section_at m sections (of_nat k))"
    then show "unat (pl_address (li_placement loaded' ! i)) + section_span (section_at m sections (of_nat i))
        \<le> unat (pl_address (li_placement loaded' ! k))"
      using addr step by simp
  qed (use P addr step dv tot in \<open>auto simp: placed_upto_def\<close>)
qed



definition tiny_object :: memory where
  "tiny_object = (\<lambda>_. 0)(8 := 2, 32 := 5)"

lemma tiny_section:
  "section_at tiny_object 0 0 = \<lparr>sh_name = 0, sh_type = 0, sh_flags = 2, sh_offset = 0, sh_size = 5, sh_link = 0, sh_info = 0\<rparr>"
  by code_simp

lemma tiny_layout: "layout_ok tiny_object 0 0 1 0x40000000"
proof -
  have "section_offset tiny_object 0 1 = 4096"
    by (simp add: section_offset_def tiny_section section_span_def loadable_def section_flag_alloc_def)
  then show ?thesis
    by (simp add: layout_ok_def tiny_section apart_def unat_u64_of_nat)
qed

definition no_image :: LoadedImage where
  "no_image = \<lparr>li_base = 0x40000000, li_pages = 1, li_placement = replicate 64 no_placement, li_section_count = 1\<rparr>"

theorem place_sections_correct_witness:
  "\<exists>loaded' m'. place_sections 0 0 1 (no_image, tiny_object) = (loaded', m')
     \<and> layout_total tiny_object 0 1 = of_nat (section_offset tiny_object 0 1)"
proof -
  obtain l m where "place_sections 0 0 1 (no_image, tiny_object) = (l, m)" by fastforce
  with place_sections_correct [OF tiny_layout _ _ this] show ?thesis by (simp add: no_image_def)
qed

text \<open>
  The header check. The end of the section table is computed in 64 bits, so a table that starts just
  below the end of the address space passes, although no byte of it is in the image.
\<close>

lemma header_check_wraps:
  "header_looks_sane \<lparr>h_ident = [0x7F, 0x45, 0x4C, 0x46, 2, 1], h_type = 1, h_machine = 62,
     h_section_header_offset = -64, h_section_header_size = 64, h_section_header_count = 1, h_section_name_index = 0\<rparr> 64"
  by code_simp

end
