(* ===== verification/Vfs.thy ===== *)
theory Vfs
  imports CString
begin

unbundle bit_operations_syntax

text \<open>
  The virtual file system, \<^verbatim>\<open>kernel/fs/vfs.cpp\<close> with \<^verbatim>\<open>include/eris/vfs.hpp\<close>.

  A path is a string without its terminator, so the character after its last one is the zero that
  \<open>char_at\<close> returns. A file system is reached only through the virtual functions of its inodes:
  they are the record \<open>inode_ops\<close>, over the type \<open>'n\<close> of inodes and the state \<open>'s\<close> that the file
  systems keep; a null inode is \<open>None\<close>. What a read puts into the buffer is a list of bytes.
\<close>

datatype NodeType = NT_File | NT_Directory | NT_Device

record Stat =
  stat_type :: NodeType
  stat_size :: u64

record ('n, 's) inode_ops =
  o_type :: "'n \<Rightarrow> 's \<Rightarrow> NodeType"
  o_size :: "'n \<Rightarrow> 's \<Rightarrow> u64"
  o_read :: "'n \<Rightarrow> u64 \<Rightarrow> usize \<Rightarrow> 's \<Rightarrow> (int \<times> u8 list) \<times> 's"
  o_write :: "'n \<Rightarrow> u64 \<Rightarrow> u8 list \<Rightarrow> 's \<Rightarrow> int \<times> 's"
  o_lookup :: "'n \<Rightarrow> string \<Rightarrow> 's \<Rightarrow> 'n option \<times> 's"
  o_entry_at :: "'n \<Rightarrow> usize \<Rightarrow> 's \<Rightarrow> string option \<times> 's"

record 'f Mount =
  mnt_path :: string
  mnt_filesystem :: 'f

record 'f vfs =
  mounts :: "'f Mount list"
  mount_total :: nat

definition max_mounts :: nat where [simp]: "max_mounts = 8"
definition max_path :: nat where [simp]: "max_path = 128"

text \<open>The operations an inode class does not override.\<close>

definition inode_write_default :: "u64 \<Rightarrow> u8 list \<Rightarrow> 's \<Rightarrow> int \<times> 's" where
  "inode_write_default offset buffer s = (-1, s)"

definition inode_lookup_default :: "string \<Rightarrow> 's \<Rightarrow> 'n option \<times> 's" where
  "inode_lookup_default name s = (None, s)"

definition inode_entry_at_default :: "usize \<Rightarrow> 's \<Rightarrow> string option \<times> 's" where
  "inode_entry_at_default index s = (None, s)"

definition char_at :: "string \<Rightarrow> nat \<Rightarrow> char option" where
  "char_at path i = (if i < length path then Some (path ! i) else None)"

fun path_length_loop :: "string \<Rightarrow> nat \<Rightarrow> nat" where
  "path_length_loop path 0 = 0"
| "path_length_loop path (Suc n) =
     (if Suc n > 1 \<and> char_at path n = Some (CHR ''/'') then path_length_loop path n else Suc n)"

definition path_length :: "string \<Rightarrow> nat" where
  "path_length path = path_length_loop path (length path)"

text \<open>
  Whether a mount covers a path, and the loop that keeps the longest one. \<open>memcmp(path, mount.path,
  length) == 0\<close> compares up to the terminator of the shorter path, which is a difference.
\<close>

definition mount_covers :: "string \<Rightarrow> string \<Rightarrow> bool" where
  "mount_covers mpath path =
     (let len = path_length mpath
      in take len path = take len mpath
       \<and> \<not> (len > 1 \<and> char_at path len \<noteq> None \<and> char_at path len \<noteq> Some (CHR ''/'')))"

fun mount_scan :: "string \<Rightarrow> 'f Mount list \<Rightarrow> ('f Mount \<times> nat) option \<Rightarrow> ('f Mount \<times> nat) option" where
  "mount_scan path [] best = best"
| "mount_scan path (mount # ms) best =
     (if \<not> mount_covers (mnt_path mount) path then mount_scan path ms best
      else case best of
             None \<Rightarrow> mount_scan path ms (Some (mount, path_length (mnt_path mount)))
           | Some (b, best_length) \<Rightarrow>
               if path_length (mnt_path mount) > best_length
               then mount_scan path ms (Some (mount, path_length (mnt_path mount)))
               else mount_scan path ms best)"

definition mount_for :: "string \<Rightarrow> 'f vfs \<Rightarrow> ('f Mount \<times> string) option" where
  "mount_for path v =
     (case mount_scan path (take (mount_total v) (mounts v)) None of
        None \<Rightarrow> None
      | Some (best, best_length) \<Rightarrow> Some (best, drop (if best_length > 1 then best_length else 0) path))"

definition vfs_init :: "'f vfs \<Rightarrow> 'f vfs" where
  "vfs_init v = v\<lparr>mount_total := 0\<rparr>"

definition vfs_mount :: "string option \<Rightarrow> 'f option \<Rightarrow> 'f vfs \<Rightarrow> int \<times> 'f vfs" where
  "vfs_mount path filesystem v =
     (case (path, filesystem) of
        (Some p, Some f) \<Rightarrow>
          if char_at p 0 \<noteq> Some (CHR ''/'') then (-1, v)
          else if mount_total v \<ge> max_mounts then (-1, v)
          else (0, v\<lparr>mounts := (mounts v)[mount_total v := \<lparr>mnt_path = bounded_copy max_path p, mnt_filesystem = f\<rparr>],
                     mount_total := mount_total v + 1\<rparr>)
      | _ \<Rightarrow> (-1, v))"

fun unmount_scan :: "string \<Rightarrow> 'f Mount list \<Rightarrow> nat option" where
  "unmount_scan path [] = None"
| "unmount_scan path (m # ms) = (if mnt_path m = path then Some 0 else map_option Suc (unmount_scan path ms))"

definition vfs_unmount :: "string \<Rightarrow> 'f vfs \<Rightarrow> int \<times> 'f vfs" where
  "vfs_unmount path v =
     (case unmount_scan path (take (mount_total v) (mounts v)) of
        None \<Rightarrow> (-1, v)
      | Some i \<Rightarrow> (0, v\<lparr>mounts := (mounts v)[i := mounts v ! (mount_total v - 1)], mount_total := mount_total v - 1\<rparr>))"

definition mount_count :: "'f vfs \<Rightarrow> nat" where
  "mount_count v = mount_total v"

definition mount_at :: "('f \<Rightarrow> string) \<Rightarrow> usize \<Rightarrow> 'f vfs \<Rightarrow> (string \<times> string) option" where
  "mount_at fs_name index v =
     (if unat index \<ge> mount_total v then None
      else Some (mnt_path (mounts v ! unat index), fs_name (mnt_filesystem (mounts v ! unat index))))"

text \<open>
  The walk of \<open>resolve\<close>: slashes are skipped, then at most 63 characters up to the next slash are
  the component.
\<close>

definition skip_slashes :: "string \<Rightarrow> string" where
  "skip_slashes rest = dropWhile (\<lambda>c. c = CHR ''/'') rest"

definition next_component :: "string \<Rightarrow> string" where
  "next_component rest = takeWhile (\<lambda>c. c \<noteq> CHR ''/'') (take 63 rest)"

function resolve_walk :: "('n, 's) inode_ops \<Rightarrow> 'n option \<Rightarrow> string \<Rightarrow> 's \<Rightarrow> 'n option \<times> 's" where
  "resolve_walk ops node rest s =
     (case node of
        None \<Rightarrow> (None, s)
      | Some n \<Rightarrow>
          if rest = [] then (node, s)
          else let rest' = skip_slashes rest
               in if rest' = [] then (node, s)
                  else let component = next_component rest'
                       in case o_lookup ops n component s of
                            (node', s') \<Rightarrow> resolve_walk ops node' (drop (length component) rest') s')"
  by pat_completeness auto

lemma skip_slashes_shorter: "length (skip_slashes rest) \<le> length rest"
  by (simp add: skip_slashes_def length_dropWhile_le)

lemma next_component_nonempty:
  assumes "skip_slashes rest \<noteq> []"
  shows "next_component (skip_slashes rest) \<noteq> []"
proof -
  have h: "hd (skip_slashes rest) \<noteq> CHR ''/''"
    using hd_dropWhile [of "\<lambda>c. c = CHR ''/''" rest] assms by (simp add: skip_slashes_def)
  obtain c cs where c: "skip_slashes rest = c # cs" using assms by (cases "skip_slashes rest") auto
  then have "take 63 (skip_slashes rest) = c # take 62 cs" by simp
  then show ?thesis using h c by (simp add: next_component_def)
qed

lemma resolve_step_shorter:
  "skip_slashes rest \<noteq> [] \<Longrightarrow> length (skip_slashes rest) - length (next_component (skip_slashes rest)) < length rest"
  using next_component_nonempty [of rest] skip_slashes_shorter [of rest]
  by (metis diff_less le_less_trans length_greater_0_conv less_le_trans)

termination resolve_walk
  by (relation "measure (\<lambda>(ops, node, rest, s). length rest)") (auto simp: resolve_step_shorter)

declare resolve_walk.simps [simp del]

definition resolve_path ::
  "('n, 's) inode_ops \<Rightarrow> ('f \<Rightarrow> 's \<Rightarrow> 'n option \<times> 's) \<Rightarrow> 'f vfs \<Rightarrow> string option \<Rightarrow> 's \<Rightarrow> 'n option \<times> 's" where
  "resolve_path ops root v path s =
     (case path of
        None \<Rightarrow> (None, s)
      | Some p \<Rightarrow>
          if char_at p 0 \<noteq> Some (CHR ''/'') then (None, s)
          else case mount_for p v of
                 None \<Rightarrow> (None, s)
               | Some (mount, rest) \<Rightarrow>
                   (case root (mnt_filesystem mount) s of (node, s') \<Rightarrow> resolve_walk ops node rest s'))"

definition vfs_stat ::
  "('n, 's) inode_ops \<Rightarrow> ('f \<Rightarrow> 's \<Rightarrow> 'n option \<times> 's) \<Rightarrow> 'f vfs \<Rightarrow> string option \<Rightarrow> 's \<Rightarrow> Stat option \<times> 's" where
  "vfs_stat ops root v path s =
     (case resolve_path ops root v path s of
        (None, s') \<Rightarrow> (None, s')
      | (Some n, s') \<Rightarrow> (Some \<lparr>stat_type = o_type ops n s', stat_size = o_size ops n s'\<rparr>, s'))"

definition read_file ::
  "('n, 's) inode_ops \<Rightarrow> ('f \<Rightarrow> 's \<Rightarrow> 'n option \<times> 's) \<Rightarrow> 'f vfs \<Rightarrow> string option \<Rightarrow> usize \<Rightarrow> 's \<Rightarrow> (int \<times> u8 list) \<times> 's" where
  "read_file ops root v path len s =
     (case resolve_path ops root v path s of
        (None, s') \<Rightarrow> ((-1, []), s')
      | (Some n, s') \<Rightarrow> if o_type ops n s' = NT_Directory then ((-1, []), s') else o_read ops n 0 len s')"

definition write_file ::
  "('n, 's) inode_ops \<Rightarrow> ('f \<Rightarrow> 's \<Rightarrow> 'n option \<times> 's) \<Rightarrow> 'f vfs \<Rightarrow> string option \<Rightarrow> u8 list \<Rightarrow> 's \<Rightarrow> int \<times> 's" where
  "write_file ops root v path buffer s =
     (case resolve_path ops root v path s of
        (None, s') \<Rightarrow> (-1, s')
      | (Some n, s') \<Rightarrow> if o_type ops n s' = NT_Directory then (-1, s') else o_write ops n 0 buffer s')"

definition vfs_list ::
  "('n, 's) inode_ops \<Rightarrow> ('f \<Rightarrow> 's \<Rightarrow> 'n option \<times> 's) \<Rightarrow> 'f vfs \<Rightarrow> string option \<Rightarrow> usize \<Rightarrow> 's \<Rightarrow> string option \<times> 's" where
  "vfs_list ops root v path index s =
     (case resolve_path ops root v path s of
        (None, s') \<Rightarrow> (None, s')
      | (Some n, s') \<Rightarrow> if o_type ops n s' \<noteq> NT_Directory then (None, s') else o_entry_at ops n index s')"

section \<open>What the walk computes\<close>

lemma component_shorter:
  "skip_slashes rest \<noteq> [] \<Longrightarrow> length (dropWhile (\<lambda>c. c \<noteq> CHR ''/'') (skip_slashes rest)) < length rest"
proof -
  assume ne: "skip_slashes rest \<noteq> []"
  then obtain c cs where c: "skip_slashes rest = c # cs" by (cases "skip_slashes rest") auto
  have "c \<noteq> CHR ''/''" using hd_dropWhile [of "\<lambda>c. c = CHR ''/''" rest] ne c by (simp add: skip_slashes_def)
  then have "length (dropWhile (\<lambda>c. c \<noteq> CHR ''/'') (skip_slashes rest)) \<le> length cs"
    unfolding c by (simp add: length_dropWhile_le)
  moreover have "length (c # cs) \<le> length rest" using skip_slashes_shorter [of rest] c by simp
  ultimately show ?thesis by simp
qed

text \<open>The components of a path, whatever their length and however many slashes are between them.\<close>

function components :: "string \<Rightarrow> string list" where
  "components rest =
     (let rest' = skip_slashes rest
      in if rest' = [] then []
         else takeWhile (\<lambda>c. c \<noteq> CHR ''/'') rest' # components (dropWhile (\<lambda>c. c \<noteq> CHR ''/'') rest'))"
  by pat_completeness auto

termination by (relation "measure length") (auto simp: component_shorter)

declare components.simps [simp del]

fun tree_walk :: "('n \<Rightarrow> string \<Rightarrow> 'n option) \<Rightarrow> 'n \<Rightarrow> string list \<Rightarrow> 'n option" where
  "tree_walk child n [] = Some n"
| "tree_walk child n (c # cs) = (case child n c of None \<Rightarrow> None | Some n' \<Rightarrow> tree_walk child n' cs)"

lemma takeWhile_take_commute: "takeWhile P (take n xs) = take n (takeWhile P xs)"
  by (induction xs arbitrary: n) (auto simp: take_Cons')

lemma next_component_short:
  "length (takeWhile (\<lambda>c. c \<noteq> CHR ''/'') rest) < 64 \<Longrightarrow>
   next_component rest = takeWhile (\<lambda>c. c \<noteq> CHR ''/'') rest"
  by (simp add: next_component_def takeWhile_take_commute)

lemma drop_takeWhile: "drop (length (takeWhile P xs)) xs = dropWhile P xs"
  by (simp add: dropWhile_eq_drop)

text \<open>
  The contract between the walk and a file system: a lookup gives the child the directory has under
  that name and changes at most what does not matter to later lookups.
\<close>

locale inode_provider =
  fixes ops :: "('n, 's) inode_ops"
    and provider_inv :: "'s \<Rightarrow> bool"
    and child :: "'s \<Rightarrow> 'n \<Rightarrow> string \<Rightarrow> 'n option"
  assumes lookup_child: "provider_inv s \<Longrightarrow>
    \<exists>s'. o_lookup ops n c s = (child s n c, s') \<and> provider_inv s' \<and> child s' = child s"
begin

lemma resolve_walk_tree:
  assumes "provider_inv s" and "\<forall>c\<in>set (components rest). length c < 64"
  shows "\<exists>s'. resolve_walk ops (Some n) rest s = (tree_walk (child s) n (components rest), s')
     \<and> provider_inv s' \<and> child s' = child s"
  using assms
proof (induction rest arbitrary: n s rule: components.induct)
  case (1 rest)
  let ?r = "skip_slashes rest"
  show ?case
  proof (cases "?r = []")
    case True
    then show ?thesis
      using "1.prems" by (subst resolve_walk.simps) (simp add: components.simps [of rest])
  next
    case False
    let ?c = "takeWhile (\<lambda>c. c \<noteq> CHR ''/'') ?r" and ?d = "dropWhile (\<lambda>c. c \<noteq> CHR ''/'') ?r"
    have comps: "components rest = ?c # components ?d" using False by (subst components.simps) (simp add: Let_def)
    have nc: "next_component ?r = ?c" using "1.prems"(2) comps by (intro next_component_short) simp
    have ne: "rest \<noteq> []" using False by (auto simp: skip_slashes_def)
    obtain s1 where s1: "o_lookup ops n ?c s = (child s n ?c, s1)" "provider_inv s1" "child s1 = child s"
      using lookup_child [OF "1.prems"(1)] by blast
    have step: "resolve_walk ops (Some n) rest s = resolve_walk ops (child s n ?c) ?d s1"
      using False ne s1(1) by (subst resolve_walk.simps) (simp add: Let_def nc drop_takeWhile)
    show ?thesis
    proof (cases "child s n ?c")
      case None
      then show ?thesis unfolding step comps using s1 by (simp add: resolve_walk.simps)
    next
      case (Some n')
      have "\<exists>s'. resolve_walk ops (Some n') ?d s1 = (tree_walk (child s1) n' (components ?d), s')
          \<and> provider_inv s' \<and> child s' = child s1"
        by (rule "1.IH" [OF refl False s1(2)]) (use "1.prems"(2) comps in simp)
      then show ?thesis unfolding step comps Some using s1(3) Some by simp
    qed
  qed
qed

end

text \<open>Two file systems behind one interface, as virtual dispatch gives them.\<close>

definition sum_ops :: "('a, 's) inode_ops \<Rightarrow> ('b, 't) inode_ops \<Rightarrow> ('a + 'b, 's \<times> 't) inode_ops" where
  "sum_ops f g =
     \<lparr>o_type = (\<lambda>n s. case n of Inl a \<Rightarrow> o_type f a (fst s) | Inr b \<Rightarrow> o_type g b (snd s)),
      o_size = (\<lambda>n s. case n of Inl a \<Rightarrow> o_size f a (fst s) | Inr b \<Rightarrow> o_size g b (snd s)),
      o_read = (\<lambda>n off len s. case n of Inl a \<Rightarrow> (case o_read f a off len (fst s) of (r, t) \<Rightarrow> (r, t, snd s))
                                       | Inr b \<Rightarrow> (case o_read g b off len (snd s) of (r, t) \<Rightarrow> (r, fst s, t))),
      o_write = (\<lambda>n off d s. case n of Inl a \<Rightarrow> (case o_write f a off d (fst s) of (r, t) \<Rightarrow> (r, t, snd s))
                                      | Inr b \<Rightarrow> (case o_write g b off d (snd s) of (r, t) \<Rightarrow> (r, fst s, t))),
      o_lookup = (\<lambda>n c s. case n of Inl a \<Rightarrow> (case o_lookup f a c (fst s) of (r, t) \<Rightarrow> (map_option Inl r, t, snd s))
                                   | Inr b \<Rightarrow> (case o_lookup g b c (snd s) of (r, t) \<Rightarrow> (map_option Inr r, fst s, t))),
      o_entry_at = (\<lambda>n i s. case n of Inl a \<Rightarrow> (case o_entry_at f a i (fst s) of (r, t) \<Rightarrow> (r, t, snd s))
                                     | Inr b \<Rightarrow> (case o_entry_at g b i (snd s) of (r, t) \<Rightarrow> (r, fst s, t)))\<rparr>"

definition sum_child ::
  "('s \<Rightarrow> 'a \<Rightarrow> string \<Rightarrow> 'a option) \<Rightarrow> ('t \<Rightarrow> 'b \<Rightarrow> string \<Rightarrow> 'b option) \<Rightarrow> 's \<times> 't \<Rightarrow> 'a + 'b \<Rightarrow> string \<Rightarrow> ('a + 'b) option" where
  "sum_child f g s n c = (case n of Inl a \<Rightarrow> map_option Inl (f (fst s) a c) | Inr b \<Rightarrow> map_option Inr (g (snd s) b c))"

locale two_providers = left: inode_provider ops1 inv1 child1 + right: inode_provider ops2 inv2 child2
  for ops1 :: "('a, 's) inode_ops" and inv1 child1 and ops2 :: "('b, 't) inode_ops" and inv2 child2

sublocale two_providers \<subseteq> both: inode_provider "sum_ops ops1 ops2" "\<lambda>s. inv1 (fst s) \<and> inv2 (snd s)" "sum_child child1 child2"
proof
  fix s :: "'s \<times> 't" and n :: "'a + 'b" and c
  assume i: "inv1 (fst s) \<and> inv2 (snd s)"
  show "\<exists>s'. o_lookup (sum_ops ops1 ops2) n c s = (sum_child child1 child2 s n c, s') \<and> (inv1 (fst s') \<and> inv2 (snd s'))
      \<and> sum_child child1 child2 s' = sum_child child1 child2 s"
  proof (cases n)
    case (Inl a)
    obtain t where "o_lookup ops1 a c (fst s) = (child1 (fst s) a c, t)" "inv1 t" "child1 t = child1 (fst s)"
      using left.lookup_child i by blast
    then show ?thesis using Inl i by (intro exI [of _ "(t, snd s)"]) (auto simp: sum_ops_def sum_child_def fun_eq_iff split: sum.split)
  next
    case (Inr b)
    obtain t where "o_lookup ops2 b c (snd s) = (child2 (snd s) b c, t)" "inv2 t" "child2 t = child2 (snd s)"
      using right.lookup_child i by blast
    then show ?thesis using Inr i by (intro exI [of _ "(fst s, t)"]) (auto simp: sum_ops_def sum_child_def fun_eq_iff split: sum.split)
  qed
qed

section \<open>The mount table\<close>

definition live_mounts :: "'f vfs \<Rightarrow> 'f Mount list" where
  "live_mounts v = take (mount_total v) (mounts v)"

text \<open>\<open>best\<close> is a longest covering mount among those seen.\<close>

definition best_of :: "string \<Rightarrow> 'f Mount set \<Rightarrow> ('f Mount \<times> nat) option \<Rightarrow> bool" where
  "best_of path seen best = (case best of
      None \<Rightarrow> \<forall>m\<in>seen. \<not> mount_covers (mnt_path m) path
    | Some (b, len) \<Rightarrow> b \<in> seen \<and> mount_covers (mnt_path b) path \<and> len = path_length (mnt_path b)
        \<and> (\<forall>m\<in>seen. mount_covers (mnt_path m) path \<longrightarrow> path_length (mnt_path m) \<le> len))"

lemma best_of_skip:
  "best_of path seen best \<Longrightarrow> \<not> mount_covers (mnt_path m) path \<Longrightarrow> best_of path (insert m seen) best"
  by (auto simp: best_of_def split: option.splits)

lemma best_of_keep:
  "best_of path seen (Some (b, len)) \<Longrightarrow> path_length (mnt_path m) \<le> len \<Longrightarrow> best_of path (insert m seen) (Some (b, len))"
  by (auto simp: best_of_def)

lemma best_of_new:
  "mount_covers (mnt_path m) path \<Longrightarrow> best_of path seen best \<Longrightarrow>
   (case best of None \<Rightarrow> True | Some (b, len) \<Rightarrow> len < path_length (mnt_path m)) \<Longrightarrow>
   best_of path (insert m seen) (Some (m, path_length (mnt_path m)))"
  by (fastforce simp: best_of_def split: option.splits)

lemma mount_scan_best:
  "best_of path seen best \<Longrightarrow> best_of path (seen \<union> set ms) (mount_scan path ms best)"
proof (induction path ms best arbitrary: seen rule: mount_scan.induct)
  case (1 path best)
  then show ?case by simp
next
  case (2 path m ms best)
  have u: "seen \<union> set (m # ms) = insert m seen \<union> set ms" by simp
  consider (skip) "\<not> mount_covers (mnt_path m) path"
    | (first) "mount_covers (mnt_path m) path" "best = None"
    | (old) b len where "mount_covers (mnt_path m) path" "best = Some (b, len)"
    by (cases best) auto
  then show ?case
  proof cases
    case skip
    then show ?thesis unfolding u using "2.IH"(1) [OF skip best_of_skip [OF "2.prems" skip]] by simp
  next
    case first
    then show ?thesis
      unfolding u using "2.IH"(2) [of "insert m seen"] best_of_new [OF first(1) "2.prems"] by simp
  next
    case old
    show ?thesis
    proof (cases "path_length (mnt_path m) > len")
      case True
      then show ?thesis
        unfolding u using "2.IH"(3) [of "(b, len)" b len "insert m seen"] best_of_new [OF old(1) "2.prems"] old by simp
    next
      case False
      then show ?thesis
        unfolding u using "2.IH"(4) [of "(b, len)" b len "insert m seen"] best_of_keep [of path seen b len m] "2.prems" old by simp
    qed
  qed
qed


definition two_mounts :: "nat vfs" where
  "two_mounts = \<lparr>mounts = [\<lparr>mnt_path = ''/'', mnt_filesystem = 0\<rparr>, \<lparr>mnt_path = ''/mnt/disk'', mnt_filesystem = 1\<rparr>], mount_total = 2\<rparr>"

lemma two_mounts_found: "mount_for ''/mnt/disk/etc'' two_mounts = Some (\<lparr>mnt_path = ''/mnt/disk'', mnt_filesystem = 1\<rparr>, ''/etc'')"
  by code_simp


text \<open>
  A component of 64 characters or more is cut: the walk looks up its first 63 characters and then
  the rest as a component of its own.
\<close>

lemma long_component_split:
  "next_component (replicate 70 (CHR ''a'')) = replicate 63 (CHR ''a'')"
  by (simp add: next_component_def)

end
