(* ===== verification/Ramfs.thy ===== *)
theory Ramfs
  imports Vfs
begin

unbundle bit_operations_syntax

text \<open>
  The file system in memory, \<^verbatim>\<open>kernel/fs/ramfs.cpp\<close>.

  The buffer of a file is a block of the kernel heap: it is the list of its bytes, zero when the
  allocator hands it out, and \<open>None\<close> while there is none. Whether the allocator can serve a size is
  the argument \<open>room\<close>. A copy that would leave the buffer is the value \<open>Inl BufferOverrun\<close>, and the
  doubling loop of \<open>grow\<close> is partial because it does not end for every size.
\<close>

record RamFile =
  rf_name :: string
  rf_data :: "u8 list option"
  rf_size :: u64
  rf_capacity :: usize
  rf_used :: bool

type_synonym ramfs = "RamFile list"

datatype ram_inode = RamRoot | RamNode nat

datatype ram_fault = BufferOverrun | GrowDiverges

definition ram_max_nodes :: nat where [simp]: "ram_max_nodes = 32"
definition ram_max_name :: nat where [simp]: "ram_max_name = 32"

definition rf_bytes :: "RamFile \<Rightarrow> u8 list" where
  "rf_bytes f = (case rf_data f of None \<Rightarrow> [] | Some d \<Rightarrow> d)"

definition ram_bind :: "string \<Rightarrow> RamFile \<Rightarrow> RamFile" where
  "ram_bind name f = f\<lparr>rf_name := bounded_copy ram_max_name name, rf_used := True\<rparr>"

definition ram_read :: "u64 \<Rightarrow> usize \<Rightarrow> RamFile \<Rightarrow> int \<times> u8 list" where
  "ram_read offset len f =
     (if offset \<ge> rf_size f then (0, [])
      else let available = rf_size f - offset;
               chunk = (if len < available then len else available)
           in (sint chunk, take (unat chunk) (drop (unat offset) (rf_bytes f))))"

partial_function (option) grow_target :: "usize \<Rightarrow> u64 \<Rightarrow> usize option" where
  "grow_target target wanted = (if target < wanted then grow_target (target * 2) wanted else Some target)"

declare grow_target.simps [code]

definition ram_grow :: "(usize \<Rightarrow> bool) \<Rightarrow> u64 \<Rightarrow> RamFile \<Rightarrow> ram_fault + bool \<times> RamFile" where
  "ram_grow room wanted f =
     (case grow_target (if rf_capacity f = 0 then 512 else rf_capacity f) wanted of
        None \<Rightarrow> Inl GrowDiverges
      | Some target \<Rightarrow>
          if \<not> room target then Inr (False, f)
          else Inr (True, f\<lparr>rf_data := Some (take (unat (rf_size f)) (rf_bytes f) @ replicate (unat target - unat (rf_size f)) 0),
                            rf_capacity := target\<rparr>))"

text \<open>\<open>memcpy(data_ + offset, buffer, length)\<close>, and what follows it.\<close>

definition ram_store :: "u64 \<Rightarrow> u8 list \<Rightarrow> RamFile \<Rightarrow> ram_fault + int \<times> RamFile" where
  "ram_store offset buffer f =
     (let d = rf_bytes f; o1 = unat offset; n = length buffer;
          end' = offset + of_nat n
      in if n \<noteq> 0 \<and> o1 + n > length d then Inl BufferOverrun
         else Inr (sint (of_nat n :: u64),
           f\<lparr>rf_data := (if n = 0 then rf_data f else Some (take o1 d @ buffer @ drop (o1 + n) d)),
             rf_size := (if end' > rf_size f then end' else rf_size f)\<rparr>))"

definition ram_write :: "(usize \<Rightarrow> bool) \<Rightarrow> u64 \<Rightarrow> u8 list \<Rightarrow> RamFile \<Rightarrow> ram_fault + int \<times> RamFile" where
  "ram_write room offset buffer f =
     (let wanted = offset + of_nat (length buffer)
      in if wanted > rf_capacity f
         then (case ram_grow room wanted f of
                 Inl e \<Rightarrow> Inl e
               | Inr (False, f') \<Rightarrow> Inr (-1, f')
               | Inr (True, f') \<Rightarrow> ram_store offset buffer f')
         else ram_store offset buffer f)"

definition ram_release :: "RamFile \<Rightarrow> RamFile" where
  "ram_release f = f\<lparr>rf_data := None, rf_size := 0, rf_capacity := 0, rf_used := False\<rparr>"

section \<open>The directory\<close>

fun ram_find_from :: "string \<Rightarrow> RamFile list \<Rightarrow> nat option" where
  "ram_find_from name [] = None"
| "ram_find_from name (f # fs) =
     (if rf_used f \<and> rf_name f = name then Some 0 else map_option Suc (ram_find_from name fs))"

definition ram_find :: "string \<Rightarrow> ramfs \<Rightarrow> nat option" where
  "ram_find name fs = ram_find_from name fs"

definition ram_lookup :: "string \<Rightarrow> ramfs \<Rightarrow> ram_inode option \<times> ramfs" where
  "ram_lookup name fs = (map_option RamNode (ram_find name fs), fs)"

fun ram_entry_scan :: "nat \<Rightarrow> nat \<Rightarrow> RamFile list \<Rightarrow> string option" where
  "ram_entry_scan seen index [] = None"
| "ram_entry_scan seen index (f # fs) =
     (if \<not> rf_used f then ram_entry_scan seen index fs
      else if seen = index then Some (rf_name f) else ram_entry_scan (seen + 1) index fs)"

definition ram_entry_at :: "usize \<Rightarrow> ramfs \<Rightarrow> string option" where
  "ram_entry_at index fs = ram_entry_scan 0 (unat index) fs"

fun ram_unused_from :: "RamFile list \<Rightarrow> nat option" where
  "ram_unused_from [] = None"
| "ram_unused_from (f # fs) = (if rf_used f then map_option Suc (ram_unused_from fs) else Some 0)"

definition ramfs_create_file :: "string \<Rightarrow> ramfs \<Rightarrow> nat option \<times> ramfs" where
  "ramfs_create_file name fs =
     (case ram_find name fs of
        Some i \<Rightarrow> (Some i, fs)
      | None \<Rightarrow> (case ram_unused_from fs of
                   None \<Rightarrow> (None, fs)
                 | Some i \<Rightarrow> (Some i, fs[i := ram_bind name (fs ! i)])))"

definition ramfs_remove :: "string \<Rightarrow> ramfs \<Rightarrow> bool \<times> ramfs" where
  "ramfs_remove name fs =
     (case ram_find name fs of None \<Rightarrow> (False, fs) | Some i \<Rightarrow> (True, fs[i := ram_release (fs ! i)]))"

text \<open>
  The inodes of the file system behind the interface of the VFS; a fault stops the system and shows
  as the state \<open>None\<close>.
\<close>

definition ram_ops :: "(usize \<Rightarrow> bool) \<Rightarrow> (ram_inode, ramfs option) inode_ops" where
  "ram_ops room =
     \<lparr>o_type = (\<lambda>n s. case n of RamRoot \<Rightarrow> NT_Directory | RamNode i \<Rightarrow> NT_File),
      o_size = (\<lambda>n s. case (n, s) of (RamNode i, Some fs) \<Rightarrow> rf_size (fs ! i) | _ \<Rightarrow> 0),
      o_read = (\<lambda>n off len s. case (n, s) of (RamNode i, Some fs) \<Rightarrow> (ram_read off len (fs ! i), s) | _ \<Rightarrow> ((-1, []), s)),
      o_write = (\<lambda>n off d s. case (n, s) of
          (RamNode i, Some fs) \<Rightarrow> (case ram_write room off d (fs ! i) of
              Inl e \<Rightarrow> (-1, None) | Inr (r, f) \<Rightarrow> (r, Some (fs[i := f])))
        | _ \<Rightarrow> inode_write_default off d s),
      o_lookup = (\<lambda>n c s. case (n, s) of (RamRoot, Some fs) \<Rightarrow> map_prod id Some (ram_lookup c fs) | _ \<Rightarrow> inode_lookup_default c s),
      o_entry_at = (\<lambda>n i s. case (n, s) of (RamRoot, Some fs) \<Rightarrow> (ram_entry_at i fs, s) | _ \<Rightarrow> inode_entry_at_default i s)\<rparr>"

definition ram_fs_root :: "unit \<Rightarrow> ramfs option \<Rightarrow> ram_inode option \<times> ramfs option" where
  "ram_fs_root u s = (Some RamRoot, s)"

section \<open>The content of a file\<close>

definition rf_content :: "RamFile \<Rightarrow> u8 list" where
  "rf_content f = take (unat (rf_size f)) (rf_bytes f)"

text \<open>The buffer is as long as the capacity, the size fits it, and the tail is zero.\<close>

definition rf_inv :: "RamFile \<Rightarrow> bool" where
  "rf_inv f \<longleftrightarrow> length (rf_bytes f) = unat (rf_capacity f) \<and> unat (rf_size f) \<le> unat (rf_capacity f)
     \<and> (\<forall>b\<in>set (drop (unat (rf_size f)) (rf_bytes f)). b = 0)
     \<and> (rf_capacity f = 0 \<or> 512 \<le> unat (rf_capacity f))"

text \<open>A write as a specification on contents: a gap before it reads as zeros.\<close>

definition write_spec :: "nat \<Rightarrow> u8 list \<Rightarrow> u8 list \<Rightarrow> u8 list" where
  "write_spec off d c = take off c @ replicate (off - length c) 0 @ d @ drop (off + length d) c"

section \<open>Reading and writing\<close>

lemma grow_target_ends:
  assumes "1 \<le> unat target" and "unat wanted \<le> 2 ^ 63"
  shows "\<exists>t. grow_target target wanted = Some t \<and> wanted \<le> t \<and> target \<le> t"
  using assms
proof (induction "unat wanted - unat target" arbitrary: target rule: less_induct)
  case less
  show ?case
  proof (cases "target < wanted")
    case False
    then show ?thesis by (subst grow_target.simps) simp
  next
    case True
    then have lt: "unat target < unat wanted" by (simp add: word_less_nat_alt)
    have d: "unat (target * 2) = unat target * 2"
      using lt less.prems by (subst unat_u64_mult) simp_all
    have "\<exists>t. grow_target (target * 2) wanted = Some t \<and> wanted \<le> t \<and> target * 2 \<le> t"
      by (rule less.hyps) (use d lt less.prems in auto)
    moreover have "target \<le> target * 2" using d by (simp add: word_le_nat_alt)
    ultimately show ?thesis using True by (subst grow_target.simps) (auto intro: order_trans)
  qed
qed

lemma rf_content_length: "rf_inv f \<Longrightarrow> length (rf_content f) = unat (rf_size f)"
  by (simp add: rf_inv_def rf_content_def)

lemma rf_bytes_split: "rf_inv f \<Longrightarrow> rf_bytes f = rf_content f @ replicate (unat (rf_capacity f) - unat (rf_size f)) 0"
proof -
  assume i: "rf_inv f"
  then have "drop (unat (rf_size f)) (rf_bytes f) = replicate (unat (rf_capacity f) - unat (rf_size f)) 0"
    by (intro replicate_eqI) (auto simp: rf_inv_def)
  then show ?thesis by (metis rf_content_def append_take_drop_id)
qed

lemma ram_grow_inv:
  assumes "rf_inv f" and "unat wanted \<le> 2 ^ 63"
  shows "ram_grow room wanted f = Inr (False, f) \<or>
    (\<exists>f'. ram_grow room wanted f = Inr (True, f') \<and> rf_inv f' \<and> rf_content f' = rf_content f \<and> rf_size f' = rf_size f
        \<and> wanted \<le> rf_capacity f')"
proof -
  let ?t0 = "if rf_capacity f = 0 then 512 else rf_capacity f"
  have t0: "1 \<le> unat ?t0" "512 \<le> unat ?t0" "rf_capacity f \<le> ?t0"
    using assms(1) by (auto simp: rf_inv_def)
  obtain t where t: "grow_target ?t0 wanted = Some t" "wanted \<le> t" "?t0 \<le> t"
    using grow_target_ends [OF t0(1) assms(2)] by blast
  show ?thesis
  proof (cases "room t")
    case False
    then show ?thesis using t by (simp add: ram_grow_def)
  next
    case True
    let ?f = "f\<lparr>rf_data := Some (take (unat (rf_size f)) (rf_bytes f) @ replicate (unat t - unat (rf_size f)) 0), rf_capacity := t\<rparr>"
    have g: "ram_grow room wanted f = Inr (True, ?f)" using t True by (simp add: ram_grow_def)
    have le: "unat (rf_capacity f) \<le> unat t" "512 \<le> unat t"
      using t0(2,3) t(3) by (auto simp: word_le_nat_alt)
    have len: "length (take (unat (rf_size f)) (rf_bytes f)) = unat (rf_size f)" "unat (rf_size f) \<le> unat t"
      using assms(1) le by (auto simp: rf_inv_def)
    have b: "rf_bytes ?f = take (unat (rf_size f)) (rf_bytes f) @ replicate (unat t - unat (rf_size f)) 0"
      by (simp add: rf_bytes_def)
    have "rf_inv ?f" unfolding rf_inv_def b using len le by auto
    moreover have "rf_content ?f = rf_content f" unfolding rf_content_def b using len by simp
    ultimately show ?thesis using g t(2) by auto
  qed
qed

lemma ram_store_spec:
  assumes i: "rf_inv f" and fit: "unat offset + length buffer \<le> unat (rf_capacity f)"
    and b: "unat offset + length buffer \<le> 2 ^ 63"
  obtains f' where "ram_store offset buffer f = Inr (sint (of_nat (length buffer) :: u64), f')" "rf_inv f'"
    "rf_content f' = write_spec (unat offset) buffer (rf_content f)"
proof -
  let ?o = "unat offset" and ?n = "length buffer" and ?sz = "unat (rf_size f)" and ?cap = "unat (rf_capacity f)"
  let ?c = "rf_content f" and ?z = "replicate (?cap - ?sz) (0 :: u8)"
  have d: "rf_bytes f = ?c @ ?z" by (rule rf_bytes_split [OF i])
  have lc: "length ?c = ?sz" by (rule rf_content_length [OF i])
  have sc: "?sz \<le> ?cap" using i by (simp add: rf_inv_def)
  have e: "unat (offset + of_nat ?n) = ?o + ?n" using b by (simp add: unat_u64_add unat_u64_of_nat)
  let ?d' = "take ?o (rf_bytes f) @ buffer @ drop (?o + ?n) (rf_bytes f)"
  let ?sz' = "if offset + of_nat ?n > rf_size f then offset + of_nat ?n else rf_size f"
  let ?f = "f\<lparr>rf_data := (if ?n = 0 then rf_data f else Some ?d'), rf_size := ?sz'\<rparr>"
  have st: "ram_store offset buffer f = Inr (sint (of_nat ?n :: u64), ?f)"
    using fit by (simp add: ram_store_def Let_def d lc sc)
  have b': "rf_bytes ?f = ?d'" by (simp add: rf_bytes_def split: option.split)
  have sz': "unat ?sz' = max ?sz (?o + ?n)"
    using e by (auto simp: word_less_nat_alt max_def)
  have shape: "?d' = write_spec ?o buffer ?c @ replicate (?cap - max ?sz (?o + ?n)) 0"
    unfolding d write_spec_def using lc sc fit by (auto simp: max_def not_le replicate_add [symmetric])
  have lw: "length (write_spec ?o buffer ?c) = max ?sz (?o + ?n)"
    unfolding write_spec_def using lc by (auto simp: max_def)
  define g where "g = ?f"
  have bg: "rf_bytes g = write_spec ?o buffer ?c @ replicate (?cap - max ?sz (?o + ?n)) 0"
    using b' shape by (simp add: g_def)
  have sg: "unat (rf_size g) = max ?sz (?o + ?n)" "rf_capacity g = rf_capacity f"
    using sz' by (simp_all add: g_def)
  have "rf_content g = write_spec ?o buffer ?c"
    unfolding rf_content_def [of g] bg sg using lw by simp
  moreover have "rf_inv g"
    unfolding rf_inv_def [of g] bg sg using i lw fit sc by (auto simp: rf_inv_def)
  ultimately show thesis using that st by (simp add: g_def)
qed

lemma ram_store_frame: "ram_store offset buffer f = Inr (r, f') \<Longrightarrow> rf_used f' = rf_used f \<and> rf_name f' = rf_name f"
  by (auto simp: ram_store_def Let_def split: if_splits)

lemma ram_write_frame: "ram_write room offset buffer f = Inr (r, f') \<Longrightarrow> rf_used f' = rf_used f \<and> rf_name f' = rf_name f"
  by (auto simp: ram_write_def ram_grow_def Let_def dest!: ram_store_frame split: if_splits sum.splits prod.splits bool.splits option.splits)

lemma ram_write_refines':
  assumes i: "rf_inv f" and b: "unat offset + length buffer \<le> 2 ^ 63"
  shows "ram_write room offset buffer f = Inr (-1, f) \<or>
    (\<exists>f'. ram_write room offset buffer f = Inr (sint (of_nat (length buffer) :: u64), f') \<and> rf_inv f'
        \<and> rf_content f' = write_spec (unat offset) buffer (rf_content f))"
proof -
  let ?w = "offset + of_nat (length buffer)"
  have w: "unat ?w = unat offset + length buffer" using b by (simp add: unat_u64_add unat_u64_of_nat)
  show ?thesis
  proof (cases "?w > rf_capacity f")
    case False
    then have fit: "unat offset + length buffer \<le> unat (rf_capacity f)" using w by (simp add: word_less_nat_alt)
    show ?thesis
      by (rule ram_store_spec [OF i fit b]) (use False in \<open>simp add: ram_write_def\<close>)
  next
    case True
    have "unat ?w \<le> 2 ^ 63" using w b by simp
    from ram_grow_inv [OF i this, of room] show ?thesis
    proof (elim disjE exE conjE)
      assume "ram_grow room ?w f = Inr (False, f)"
      then show ?thesis using True by (simp add: ram_write_def)
    next
      fix f' assume g: "ram_grow room ?w f = Inr (True, f')" "rf_inv f'" "rf_content f' = rf_content f" "?w \<le> rf_capacity f'"
      have fit: "unat offset + length buffer \<le> unat (rf_capacity f')" using g(4) w by (simp add: word_le_nat_alt)
      show ?thesis
        by (rule ram_store_spec [OF g(2) fit b]) (use True g in \<open>simp add: ram_write_def\<close>)
    qed
  qed
qed

lemma sint_u64_small:
  assumes "unat (x :: u64) < 2 ^ 63"
  shows "sint x = int (unat x)"
proof -
  have u: "uint x = int (unat x)" by simp
  have "int (unat x) < int (2 ^ 63)" using assms by (simp only: of_nat_less_iff)
  then have b: "uint x < 2 ^ 63" unfolding u by (simp only: of_nat_power of_nat_numeral)
  have p: "0 \<le> uint x" by simp
  have "sint x = signed_take_bit 63 (uint x)" by (simp add: sint_uint)
  also have "\<dots> = uint x" by (rule signed_take_bit_int_eq_self) (use b p in linarith)+
  finally show ?thesis using u by linarith
qed

lemma ram_read_content:
  assumes "rf_inv f" and "unat (rf_size f) < 2 ^ 63"
  shows "ram_read offset len f =
    (let bytes = take (unat len) (drop (unat offset) (rf_content f)) in (int (length bytes), bytes))"
proof (cases "offset \<ge> rf_size f")
  case True
  then have "length (rf_content f) \<le> unat offset" using rf_content_length [OF assms(1)] by (simp add: word_le_nat_alt)
  then show ?thesis using True by (simp add: ram_read_def)
next
  case False
  then have lt: "unat offset < unat (rf_size f)" by (simp add: word_le_nat_alt)
  let ?chunk = "if len < rf_size f - offset then len else rf_size f - offset"
  have av: "unat (rf_size f - offset) = unat (rf_size f) - unat offset" using False by (simp add: unat_u64_sub)
  have ch: "unat ?chunk = min (unat len) (unat (rf_size f) - unat offset)"
    using av by (auto simp: word_less_nat_alt min_def)
  have "unat ?chunk < 2 ^ 63" using ch assms(2) by simp
  then have si: "sint ?chunk = int (unat ?chunk)"
    by (rule sint_u64_small)
  have "take (unat ?chunk) (drop (unat offset) (rf_bytes f)) = take (unat len) (drop (unat offset) (rf_content f))"
    unfolding ch rf_content_def by (simp add: drop_take min.commute)
  then show ?thesis using False si ch rf_content_length [OF assms(1)] lt
    by (simp add: ram_read_def Let_def)
qed


section \<open>Creating and finding\<close>

lemma ram_find_from_update:
  "ram_find_from name fs = None \<Longrightarrow> i < length fs \<Longrightarrow> rf_used f \<Longrightarrow> rf_name f = name \<Longrightarrow>
   ram_find_from name (fs[i := f]) = Some i"
  by (induction name fs arbitrary: i rule: ram_find_from.induct) (auto split: nat.split if_splits)

lemma ram_find_from_bound: "ram_find_from name fs = Some i \<Longrightarrow> i < length fs"
  by (induction name fs arbitrary: i rule: ram_find_from.induct) (auto split: if_splits)

lemma ram_find_from_same:
  "ram_find_from name fs = Some i \<Longrightarrow> rf_used f = rf_used (fs ! i) \<Longrightarrow> rf_name f = rf_name (fs ! i) \<Longrightarrow>
   ram_find_from name (fs[i := f]) = Some i"
  by (induction name fs arbitrary: i rule: ram_find_from.induct) (auto split: if_splits)

lemma ram_unused_from_bound: "ram_unused_from fs = Some i \<Longrightarrow> i < length fs"
  by (induction fs arbitrary: i rule: ram_unused_from.induct) (auto split: if_splits)

lemma ramfs_create_find:
  assumes "ramfs_create_file name fs = (Some i, fs')" and "length name < 32"
  shows "ram_find name fs' = Some i"
proof (cases "ram_find name fs")
  case None
  then obtain "ram_unused_from fs = Some i" "fs' = fs[i := ram_bind name (fs ! i)]"
    using assms(1) by (auto simp: ramfs_create_file_def split: option.splits)
  then show ?thesis
    using None assms(2) ram_unused_from_bound
    by (auto simp: ram_find_def ram_bind_def bounded_copy_fits intro: ram_find_from_update)
next
  case (Some j)
  then show ?thesis using assms(1) by (auto simp: ramfs_create_file_def)
qed

lemma ramfs_create_inv:
  assumes "ramfs_create_file name fs = (r, fs')" and "\<forall>f\<in>set fs. rf_inv f"
  shows "\<forall>f\<in>set fs'. rf_inv f"
proof -
  have "rf_inv (ram_bind name f)" if "rf_inv f" for f
    using that by (simp add: rf_inv_def ram_bind_def rf_bytes_def)
  then show ?thesis
    using assms by (auto simp: ramfs_create_file_def dest: ram_unused_from_bound split: option.splits)
      (metis in_set_conv_nth length_list_update nth_list_update ram_unused_from_bound)
qed

definition ram_child :: "ramfs option \<Rightarrow> ram_inode \<Rightarrow> string \<Rightarrow> ram_inode option" where
  "ram_child s n c = (case (n, s) of (RamRoot, Some fs) \<Rightarrow> map_option RamNode (ram_find c fs) | _ \<Rightarrow> None)"

text \<open>A lookup here changes nothing, so the invariant can fix the whole state.\<close>

interpretation ramdir: inode_provider "ram_ops room" "\<lambda>s. s = s0" ram_child for room s0
  by unfold_locales
    (auto simp: ram_ops_def ram_child_def ram_lookup_def inode_lookup_default_def split: ram_inode.split option.split)

lemma one_component:
  assumes "name \<noteq> []" and "CHR ''/'' \<notin> set name"
  shows "components (CHR ''/'' # name) = [name]"
proof -
  have sk: "skip_slashes (CHR ''/'' # name) = name"
    using assms by (cases name) (auto simp: skip_slashes_def)
  have tw: "takeWhile (\<lambda>c. c \<noteq> CHR ''/'') name = name" "dropWhile (\<lambda>c. c \<noteq> CHR ''/'') name = []"
    using assms(2) by (auto simp: takeWhile_eq_all_conv dropWhile_eq_Nil_conv)
  have "components [] = []" by (subst components.simps) (simp add: skip_slashes_def)
  then show ?thesis using assms(1) unfolding components.simps [of "CHR ''/'' # name"] Let_def sk tw by simp
qed

definition ram_at_root :: "unit vfs \<Rightarrow> bool" where
  "ram_at_root v \<longleftrightarrow> live_mounts v = [\<lparr>mnt_path = ''/'', mnt_filesystem = ()\<rparr>]"

lemma ram_resolve:
  assumes "ram_at_root v" and "name \<noteq> []" and "CHR ''/'' \<notin> set name" and "length name < 64"
  shows "resolve_path (ram_ops room) ram_fs_root v (Some (CHR ''/'' # name)) (Some fs)
       = (map_option RamNode (ram_find name fs), Some fs)"
proof -
  have pl: "path_length ''/'' = 1" by (simp add: path_length_def)
  have mt: "mount_for (CHR ''/'' # name) v = Some (\<lparr>mnt_path = ''/'', mnt_filesystem = ()\<rparr>, CHR ''/'' # name)"
    using assms(1) by (simp add: mount_for_def ram_at_root_def live_mounts_def mount_covers_def pl Let_def)
  have "resolve_walk (ram_ops room) (Some RamRoot) (CHR ''/'' # name) (Some fs)
      = (tree_walk (ram_child (Some fs)) RamRoot (components (CHR ''/'' # name)), Some fs)"
    using ramdir.resolve_walk_tree [of "Some fs" "Some fs" "CHR ''/'' # name" room RamRoot] assms one_component [OF assms(2,3)]
    by auto
  then have "resolve_walk (ram_ops room) (Some RamRoot) (CHR ''/'' # name) (Some fs)
      = (map_option RamNode (ram_find name fs), Some fs)"
    using one_component [OF assms(2,3)] by (auto simp: ram_child_def split: option.split)
  then show ?thesis
    using mt by (simp add: resolve_path_def char_at_def ram_fs_root_def)
qed

text \<open>
  C26: A file of the file system in memory through the whole stack. With the file system mounted at
  the root, a file that was just created is found by its path, and what \<open>write_file\<close> stores in it
  is what \<open>read_file\<close> returns.
\<close>

theorem ramfs_write_read:
  assumes v: "ram_at_root v" and inv: "\<forall>f\<in>set fs. rf_inv f"
    and name: "name \<noteq> []" "CHR ''/'' \<notin> set name" "length name < 32"
    and create: "ramfs_create_file name fs = (Some i, fs1)"
    and size: "\<forall>f\<in>set fs1. unat (rf_size f) < 2 ^ 62" "length d < 2 ^ 62"
    and wr: "write_file (ram_ops room) ram_fs_root v (Some (CHR ''/'' # name)) d (Some fs1) = (r, s2)" "r \<noteq> -1"
  shows "read_file (ram_ops room) ram_fs_root v (Some (CHR ''/'' # name)) (of_nat (length d)) s2 = ((int (length d), d), s2)"
proof -
  have n64: "length name < 64" using name by simp
  have find: "ram_find name fs1 = Some i" by (rule ramfs_create_find [OF create name(3)])
  then have ib: "i < length fs1" using ram_find_from_bound by (simp add: ram_find_def)
  have fi: "rf_inv (fs1 ! i)" using ramfs_create_inv [OF create inv] ib by simp
  have zero: "unat (0::u64) + length d \<le> 2 ^ 63" using size by simp
  have w: "(case ram_write room 0 d (fs1 ! i) of Inl e \<Rightarrow> (-1, None) | Inr (r, f) \<Rightarrow> (r, Some (fs1[i := f]))) = (r, s2)"
    using wr(1) ram_resolve [OF v name(1,2) n64, of room fs1] find
    by (simp add: write_file_def ram_ops_def)
  obtain f where f: "ram_write room 0 d (fs1 ! i) = Inr (r, f)" "rf_inv f" "rf_content f = write_spec 0 d (rf_content (fs1 ! i))"
      and s2: "s2 = Some (fs1[i := f])"
    using ram_write_refines' [OF fi zero, of room] w wr(2) by auto
  have keep: "rf_used f = rf_used (fs1 ! i)" "rf_name f = rf_name (fs1 ! i)"
    using ram_write_frame [OF f(1)] by auto
  have find2: "ram_find name (fs1[i := f]) = Some i"
    using find keep by (simp add: ram_find_def ram_find_from_same)
  have len: "length (rf_content f) = max (length d) (length (rf_content (fs1 ! i)))"
    unfolding f(3) write_spec_def by auto
  have "length (rf_content (fs1 ! i)) < 2 ^ 62" using size(1) ib rf_content_length [OF fi] by simp
  then have "unat (rf_size f) < 2 ^ 63" using rf_content_length [OF f(2)] len size(2) by simp
  note rd = ram_read_content [OF f(2) this, of 0 "of_nat (length d)"]
  have "unat (of_nat (length d) :: u64) = length d" using size(2) by (intro unat_u64_of_nat) simp
  then have "ram_read 0 (of_nat (length d)) f = (int (length d), d)"
    unfolding rd f(3) write_spec_def by (simp add: Let_def)
  then show ?thesis
    using ram_resolve [OF v name(1,2) n64, of room "fs1[i := f]"] find2 s2 ib
    by (simp add: read_file_def ram_ops_def)
qed

section \<open>Examples and limits\<close>

definition empty_ram :: ramfs where
  "empty_ram = replicate 32 \<lparr>rf_name = [], rf_data = None, rf_size = 0, rf_capacity = 0, rf_used = False\<rparr>"

definition ram_vfs :: "unit vfs" where
  "ram_vfs = \<lparr>mounts = replicate 8 \<lparr>mnt_path = ''/'', mnt_filesystem = ()\<rparr>, mount_total = 1\<rparr>"

lemma empty_ram_inv: "\<forall>f\<in>set empty_ram. rf_inv f"
  by (simp add: empty_ram_def rf_inv_def rf_bytes_def)


definition hello_write :: "int \<times> ramfs option" where
  "hello_write = write_file (ram_ops (\<lambda>_. True)) ram_fs_root ram_vfs (Some ''/motd'') [104, 105]
     (Some (snd (ramfs_create_file ''motd'' empty_ram)))"

lemma hello_result: "fst hello_write = 2" by code_simp

lemma hello_create: "fst (ramfs_create_file ''motd'' empty_ram) = Some 0" by code_simp

lemma hello_sizes: "map rf_size (snd (ramfs_create_file ''motd'' empty_ram)) = replicate 32 0" by code_simp

theorem ramfs_write_read_witness:
  "read_file (ram_ops (\<lambda>_. True)) ram_fs_root ram_vfs (Some ''/motd'') 2 (snd hello_write) = ((2, [104, 105]), snd hello_write)"
proof -
  have v: "ram_at_root ram_vfs" by (simp add: ram_at_root_def ram_vfs_def live_mounts_def numeral_eq_Suc)
  have c: "ramfs_create_file ''motd'' empty_ram = (Some 0, snd (ramfs_create_file ''motd'' empty_ram))"
    using hello_create by (metis prod.collapse)
  have sz: "\<forall>f\<in>set (snd (ramfs_create_file ''motd'' empty_ram)). unat (rf_size f) < 2 ^ 62"
  proof
    fix f assume "f \<in> set (snd (ramfs_create_file ''motd'' empty_ram))"
    then have "rf_size f \<in> set (map rf_size (snd (ramfs_create_file ''motd'' empty_ram)))" by simp
    then have "rf_size f = 0" unfolding hello_sizes by simp
    then show "unat (rf_size f) < 2 ^ 62" by simp
  qed
  have w: "write_file (ram_ops (\<lambda>_. True)) ram_fs_root ram_vfs (Some (CHR ''/'' # ''motd'')) [104, 105]
      (Some (snd (ramfs_create_file ''motd'' empty_ram))) = (2, snd hello_write)"
    using hello_result by (metis hello_write_def prod.collapse)
  show ?thesis
    using ramfs_write_read [OF v empty_ram_inv _ _ _ c sz _ w] by simp
qed

text \<open>
  Three limits of the code. The doubling loop never ends once it has to pass the largest power of
  two; an offset close to 2 to the 64 makes the end of the write wrap below the capacity, so the
  copy leaves the buffer; and a name of 32 characters or more is cut when it is stored, so the file
  just created is not found and every further creation takes another slot.
\<close>

lemma grow_from_zero: "grow_target 0 wanted = Some t \<Longrightarrow> wanted = 0"
proof -
  have "target = 0 \<longrightarrow> wanted = 0" if "grow_target target wanted = Some t" for target
    by (rule grow_target.raw_induct [OF _ that]) (auto simp: word_gt_0 split: if_splits)
  then show "grow_target 0 wanted = Some t \<Longrightarrow> wanted = 0" by blast
qed

lemma grow_diverges: "grow_target 0x8000000000000000 0x8000000000000001 = None"
proof -
  have z: "(0x8000000000000000 :: u64) * 2 = 0" by code_simp
  have "grow_target 0x8000000000000000 0x8000000000000001 = grow_target 0 (0x8000000000000001 :: u64)"
    unfolding z [symmetric] by (subst grow_target.simps) simp
  then show ?thesis using grow_from_zero [of "0x8000000000000001"] by (cases "grow_target 0 (0x8000000000000001 :: u64)") auto
qed

lemma write_offset_wraps:
  "ram_write room (-1) [7, 7] \<lparr>rf_name = [], rf_data = Some (replicate 512 0), rf_size = 512, rf_capacity = 512, rf_used = True\<rparr>
   = Inl BufferOverrun"
proof -
  have "unat (-1 :: u64) = 18446744073709551615" by (simp add: unsigned_minus_1_eq_mask mask_eq_exp_minus_1)
  then show ?thesis by (simp add: ram_write_def ram_store_def rf_bytes_def Let_def)
qed

lemma long_name_lost:
  "ram_find (replicate 40 (CHR ''x'')) (snd (ramfs_create_file (replicate 40 (CHR ''x'')) empty_ram)) = None"
  by code_simp

end
