(* ===== verification/Block.thy ===== *)
theory Block
  imports PageAlloc Module Vfs
begin

unbundle bit_operations_syntax

text \<open>
  The block layer, \<^verbatim>\<open>kernel/block/block.cpp\<close>, and the device file system on top of it,
  \<^verbatim>\<open>kernel/fs/devfs.cpp\<close>.

  The functions a driver exports are code of a module, so what a call of them does to the driver
  state \<open>'d\<close> is the record \<open>driver\<close>: a read of \<open>count\<close> sectors yields their bytes or fails. A device
  is identified by its index in \<open>module_devices\<close>, the only devices there are. The page that
  \<open>read_bytes\<close> bounces through comes from the page allocator.
\<close>

record 'd driver =
  call_read :: "u64 \<Rightarrow> u64 \<Rightarrow> usize \<Rightarrow> 'd \<Rightarrow> u8 list option \<times> 'd"
  call_write :: "u64 \<Rightarrow> u64 \<Rightarrow> u8 list \<Rightarrow> usize \<Rightarrow> 'd \<Rightarrow> bool \<times> 'd"
  call_capacity :: "u64 \<Rightarrow> 'd \<Rightarrow> u64"

record ModuleBlockDevice =
  mbd_name :: string
  mbd_read :: u64
  mbd_write :: u64
  mbd_capacity :: u64

record block =
  devices :: "nat list"
  device_total :: nat
  module_devices :: "ModuleBlockDevice list"
  module_device_total :: nat

definition sector_size :: usize where [simp]: "sector_size = 512"
definition max_devices :: nat where [simp]: "max_devices = 8"

definition mbd_bind :: "string \<Rightarrow> u64 \<Rightarrow> u64 \<Rightarrow> u64 \<Rightarrow> ModuleBlockDevice" where
  "mbd_bind name rd wr capacity = \<lparr>mbd_name = bounded_copy 16 name, mbd_read = rd, mbd_write = wr, mbd_capacity = capacity\<rparr>"

definition device_sector_count :: "'d driver \<Rightarrow> ModuleBlockDevice \<Rightarrow> 'd \<Rightarrow> u64" where
  "device_sector_count drv device d = (if mbd_capacity device \<noteq> 0 then call_capacity drv (mbd_capacity device) d else 0)"

definition device_read :: "'d driver \<Rightarrow> ModuleBlockDevice \<Rightarrow> u64 \<Rightarrow> usize \<Rightarrow> 'd \<Rightarrow> u8 list option \<times> 'd" where
  "device_read drv device sector cnt d =
     (if mbd_read device \<noteq> 0 then call_read drv (mbd_read device) sector cnt d else (None, d))"

definition device_write :: "'d driver \<Rightarrow> ModuleBlockDevice \<Rightarrow> u64 \<Rightarrow> u8 list \<Rightarrow> usize \<Rightarrow> 'd \<Rightarrow> bool \<times> 'd" where
  "device_write drv device sector buffer cnt d =
     (if mbd_write device \<noteq> 0 then call_write drv (mbd_write device) sector buffer cnt d else (False, d))"

text \<open>The loop of \<open>read_bytes\<close>: the flag, the bytes put out, and the driver state.\<close>

definition read_chunk :: "u64 \<Rightarrow> usize \<Rightarrow> usize" where
  "read_chunk offset len =
     (let inside = offset mod sector_size in if len < sector_size - inside then len else sector_size - inside)"

function read_loop :: "(u64 \<Rightarrow> 'd \<Rightarrow> u8 list option \<times> 'd) \<Rightarrow> u64 \<Rightarrow> usize \<Rightarrow> 'd \<Rightarrow> (bool \<times> u8 list) \<times> 'd" where
  "read_loop rd offset len d =
     (if len > 0
      then let sector = offset div sector_size;
               inside = offset mod sector_size;
               chunk = read_chunk offset len
           in case rd sector d of
                (None, d') \<Rightarrow> ((False, []), d')
              | (Some bounce, d') \<Rightarrow>
                  (case read_loop rd (offset + chunk) (len - chunk) d' of
                     ((ok, rest), d'') \<Rightarrow> ((ok, take (unat chunk) (drop (unat inside) bounce) @ rest), d''))
      else ((True, []), d))"
  by pat_completeness auto

lemma read_chunk_bound:
  "unat (read_chunk offset len) = min (unat len) (512 - unat offset mod 512)"
proof -
  let ?i = "offset mod sector_size"
  have i: "unat ?i = unat offset mod 512" by (simp add: unat_mod_distrib)
  have "?i \<le> sector_size" using i by (simp add: word_le_nat_alt)
  then have s: "unat (sector_size - ?i) = 512 - unat offset mod 512" by (simp add: unat_u64_sub unat_mod_distrib)
  show ?thesis
    unfolding read_chunk_def Let_def using s by (auto simp: word_less_nat_alt min_def simp del: sector_size_def)
qed

lemma read_chunk_sub:
  "0 < len \<Longrightarrow> unat (len - read_chunk offset len) = unat len - min (unat len) (512 - unat offset mod 512)"
  using read_chunk_bound [of offset len] by (simp add: unat_u64_sub word_le_nat_alt)

lemma read_chunk_pos: "0 < len \<Longrightarrow> 0 < min (unat len) (512 - unat offset mod 512)"
  by (simp add: word_less_nat_alt)

termination read_loop
  by (relation "measure (\<lambda>(rd, offset, len, d). unat len)")
    (auto simp: read_chunk_sub word_less_nat_alt)

declare read_loop.simps [simp del]

definition read_bytes :: "'d driver \<Rightarrow> ModuleBlockDevice \<Rightarrow> u64 \<Rightarrow> usize \<Rightarrow> page_alloc \<times> 'd \<Rightarrow> (bool \<times> u8 list) \<times> page_alloc \<times> 'd" where
  "read_bytes drv device offset len st =
     (let (pa, d) = st; (frame, pa1) = alloc_page pa
      in if frame = 0 then ((False, []), pa1, d)
         else case read_loop (\<lambda>sector. device_read drv device sector 1) offset len d of
                (r, d') \<Rightarrow> (r, free_page frame pa1, d'))"

definition block_register :: "nat option \<Rightarrow> block \<Rightarrow> bool \<times> block" where
  "block_register device b =
     (case device of
        None \<Rightarrow> (False, b)
      | Some i \<Rightarrow> if device_total b \<ge> max_devices then (False, b)
                 else (True, b\<lparr>devices := (devices b)[device_total b := i], device_total := device_total b + 1\<rparr>))"

fun device_scan :: "nat \<Rightarrow> nat list \<Rightarrow> nat option" where
  "device_scan device [] = None"
| "device_scan device (x # xs) = (if x = device then Some 0 else map_option Suc (device_scan device xs))"

definition block_unregister :: "nat \<Rightarrow> block \<Rightarrow> block" where
  "block_unregister device b =
     (case device_scan device (take (device_total b) (devices b)) of
        None \<Rightarrow> b
      | Some i \<Rightarrow> b\<lparr>devices := (devices b)[i := devices b ! (device_total b - 1)], device_total := device_total b - 1\<rparr>)"

definition block_device_count :: "block \<Rightarrow> nat" where
  "block_device_count b = device_total b"

definition block_device_at :: "nat \<Rightarrow> block \<Rightarrow> nat option" where
  "block_device_at index b = (if index < device_total b then Some (devices b ! index) else None)"

definition block_device_find :: "string \<Rightarrow> block \<Rightarrow> nat option" where
  "block_device_find name b =
     find (\<lambda>i. mbd_name (module_devices b ! i) = name) (take (device_total b) (devices b))"

definition block_register_module ::
  "'d driver \<Rightarrow> (string \<times> u64) list \<Rightarrow> symbols \<Rightarrow> string \<Rightarrow> string \<Rightarrow> string \<Rightarrow> string \<Rightarrow> block \<times> 'd \<Rightarrow> bool \<times> block" where
  "block_register_module drv kernel_symbols syms name read_symbol write_symbol capacity_symbol st =
     (let (b, d) = st
      in if module_device_total b \<ge> max_devices then (False, b)
         else let rd = symbol_lookup kernel_symbols read_symbol syms;
                  wr = symbol_lookup kernel_symbols write_symbol syms;
                  capacity = symbol_lookup kernel_symbols capacity_symbol syms
              in if rd = 0 \<or> capacity = 0 \<or> call_capacity drv capacity d = 0 then (False, b)
                 else block_register (Some (module_device_total b))
                        (b\<lparr>module_devices := (module_devices b)[module_device_total b := mbd_bind name rd wr capacity],
                           module_device_total := module_device_total b + 1\<rparr>))"

section \<open>Device files\<close>

datatype dev_inode = DevRoot | ConsoleNode | BlockNode nat

text \<open>A node is its name and its device; the console is the list of characters printed.\<close>

record dev_node =
  dn_name :: string
  dn_device :: nat

record 'd devfs =
  block_nodes :: "dev_node list"
  block_node_total :: nat
  dv_block :: block
  dv_frames :: page_alloc
  dv_driver :: 'd
  dv_console :: "u8 list"

definition dev_max_nodes :: nat where [simp]: "dev_max_nodes = 16"
definition dev_max_name :: nat where [simp]: "dev_max_name = 24"

definition node_device :: "'d devfs \<Rightarrow> nat \<Rightarrow> ModuleBlockDevice" where
  "node_device s i = module_devices (dv_block s) ! dn_device (block_nodes s ! i)"

definition block_node_size :: "'d driver \<Rightarrow> nat \<Rightarrow> 'd devfs \<Rightarrow> u64" where
  "block_node_size drv i s = device_sector_count drv (node_device s i) (dv_driver s) * sector_size"

definition block_node_read :: "'d driver \<Rightarrow> nat \<Rightarrow> u64 \<Rightarrow> usize \<Rightarrow> 'd devfs \<Rightarrow> (int \<times> u8 list) \<times> 'd devfs" where
  "block_node_read drv i offset len s =
     (case read_bytes drv (node_device s i) offset len (dv_frames s, dv_driver s) of
        ((ok, bytes), pa, d) \<Rightarrow>
          (if ok then (sint len, bytes) else (-1, bytes), s\<lparr>dv_frames := pa, dv_driver := d\<rparr>))"

definition block_node_write :: "'d driver \<Rightarrow> nat \<Rightarrow> u64 \<Rightarrow> u8 list \<Rightarrow> 'd devfs \<Rightarrow> int \<times> 'd devfs" where
  "block_node_write drv i offset buffer s =
     (let len = of_nat (length buffer) :: usize
      in if offset mod sector_size \<noteq> 0 \<or> len mod sector_size \<noteq> 0 then (-1, s)
         else case device_write drv (node_device s i) (offset div sector_size) buffer (len div sector_size) (dv_driver s) of
                (ok, d) \<Rightarrow> (if ok then sint len else -1, s\<lparr>dv_driver := d\<rparr>))"

definition console_node_write :: "u8 list \<Rightarrow> 'd devfs \<Rightarrow> int \<times> 'd devfs" where
  "console_node_write buffer s = (sint (of_nat (length buffer) :: usize), s\<lparr>dv_console := dv_console s @ buffer\<rparr>)"

fun dev_find :: "string \<Rightarrow> dev_node list \<Rightarrow> nat option" where
  "dev_find name [] = None"
| "dev_find name (n # ns) = (if dn_name n = name then Some 0 else map_option Suc (dev_find name ns))"

definition dev_lookup :: "string \<Rightarrow> 'd devfs \<Rightarrow> dev_inode option" where
  "dev_lookup name s =
     (if name = ''console'' then Some ConsoleNode
      else map_option BlockNode (dev_find name (take (block_node_total s) (block_nodes s))))"

definition dev_entry_at :: "usize \<Rightarrow> 'd devfs \<Rightarrow> string option" where
  "dev_entry_at index s =
     (if index = 0 then Some ''console''
      else let block_index = unat (index - 1)
           in if block_index < block_node_total s then Some (dn_name (block_nodes s ! block_index)) else None)"

fun refresh_loop :: "nat \<Rightarrow> nat \<Rightarrow> 'd devfs \<Rightarrow> 'd devfs" where
  "refresh_loop i 0 s = s"
| "refresh_loop i (Suc n) s =
     (if block_node_total s < dev_max_nodes
      then case block_device_at i (dv_block s) of
             None \<Rightarrow> refresh_loop (i + 1) n s
           | Some device \<Rightarrow> refresh_loop (i + 1) n
               (s\<lparr>block_nodes := (block_nodes s)[block_node_total s :=
                    \<lparr>dn_name = bounded_copy dev_max_name (mbd_name (module_devices (dv_block s) ! device)), dn_device = device\<rparr>],
                  block_node_total := block_node_total s + 1\<rparr>)
      else s)"

definition devfs_refresh :: "'d devfs \<Rightarrow> 'd devfs" where
  "devfs_refresh s = refresh_loop 0 (block_device_count (dv_block s)) (s\<lparr>block_node_total := 0\<rparr>)"

definition devfs_create :: "'d devfs \<Rightarrow> 'd devfs" where
  "devfs_create s = devfs_refresh s"

definition dev_ops :: "'d driver \<Rightarrow> (dev_inode, 'd devfs) inode_ops" where
  "dev_ops drv =
     \<lparr>o_type = (\<lambda>n s. case n of DevRoot \<Rightarrow> NT_Directory | _ \<Rightarrow> NT_Device),
      o_size = (\<lambda>n s. case n of BlockNode i \<Rightarrow> block_node_size drv i s | _ \<Rightarrow> 0),
      o_read = (\<lambda>n off len s. case n of DevRoot \<Rightarrow> ((-1, []), s) | ConsoleNode \<Rightarrow> ((0, []), s)
                                      | BlockNode i \<Rightarrow> block_node_read drv i off len s),
      o_write = (\<lambda>n off d s. case n of DevRoot \<Rightarrow> inode_write_default off d s | ConsoleNode \<Rightarrow> console_node_write d s
                                     | BlockNode i \<Rightarrow> block_node_write drv i off d s),
      o_lookup = (\<lambda>n c s. case n of DevRoot \<Rightarrow> (dev_lookup c s, s) | _ \<Rightarrow> inode_lookup_default c s),
      o_entry_at = (\<lambda>n i s. case n of DevRoot \<Rightarrow> (dev_entry_at i s, s) | _ \<Rightarrow> inode_entry_at_default i s)\<rparr>"

definition dev_child :: "'d devfs \<Rightarrow> dev_inode \<Rightarrow> string \<Rightarrow> dev_inode option" where
  "dev_child s n c = (case n of DevRoot \<Rightarrow> dev_lookup c s | _ \<Rightarrow> None)"

interpretation devdir: inode_provider "dev_ops drv" "\<lambda>s. s = s0" dev_child for drv and s0 :: "'d devfs"
  by unfold_locales (auto simp: dev_ops_def dev_child_def inode_lookup_default_def split: dev_inode.split)

section \<open>Reading bytes\<close>

text \<open>
  A device that serves the bytes of a disk: a read of one sector yields its 512 bytes as long as it
  is one of the disk's sectors.
\<close>

definition serves :: "(u64 \<Rightarrow> 'd \<Rightarrow> u8 list option \<times> 'd) \<Rightarrow> (nat \<Rightarrow> u8) \<Rightarrow> nat \<Rightarrow> bool" where
  "serves rd disk sectors \<longleftrightarrow> (\<forall>sector d. unat sector < sectors \<longrightarrow>
     fst (rd sector d) = Some (map (\<lambda>i. disk (unat sector * 512 + i)) [0..<512]))"

lemma sector_slice:
  assumes "k \<le> 512 - o1 mod 512"
  shows "take k (drop (o1 mod 512) (map (\<lambda>i. disk (o1 div 512 * 512 + i)) [0..<512])) = map disk [o1..<o1 + k]"
proof (rule nth_equalityI)
  show "length (take k (drop (o1 mod 512) (map (\<lambda>i. disk (o1 div 512 * 512 + i)) [0..<512]))) = length (map disk [o1..<o1 + k])"
    using assms by simp
  fix i assume "i < length (take k (drop (o1 mod 512) (map (\<lambda>i. disk (o1 div 512 * 512 + i)) [0..<512])))"
  then have i: "i < k" "o1 mod 512 + i < 512" using assms by auto
  have "o1 div 512 * 512 + (o1 mod 512 + i) = o1 + i" by simp
  then show "take k (drop (o1 mod 512) (map (\<lambda>i. disk (o1 div 512 * 512 + i)) [0..<512])) ! i = map disk [o1..<o1 + k] ! i"
    using i by simp
qed

lemma read_loop_exact:
  assumes "serves rd disk sectors" and "unat offset + unat len \<le> sectors * 512" and "sectors * 512 < 18446744073709551616"
  shows "fst (read_loop rd offset len d) = (True, map disk [unat offset..<unat offset + unat len])"
  using assms(2)
proof (induction "unat len" arbitrary: offset len d rule: less_induct)
  case less
  show ?case
  proof (cases "len > 0")
    case False
    then have "len = 0" by (simp add: word_gt_0)
    then show ?thesis by (simp add: read_loop.simps)
  next
    case True
    let ?o = "unat offset" and ?n = "unat len" and ?c = "read_chunk offset len"
    define k where "k = min ?n (512 - ?o mod 512)"
    have c: "unat ?c = k" unfolding k_def by (rule read_chunk_bound)
    have k: "0 < k" "k \<le> ?n" using read_chunk_pos [OF True, of offset] by (auto simp: k_def)
    have oc: "unat (offset + ?c) = ?o + k" using less.prems assms(3) k c by (simp add: unat_u64_add)
    have lc: "unat (len - ?c) = ?n - k" using read_chunk_sub [OF True, of offset] by (simp add: k_def)
    have sec: "unat (offset div sector_size) = ?o div 512" "unat (offset mod sector_size) = ?o mod 512"
      by (simp_all add: unat_div_distrib unat_mod_distrib)
    have "?o div 512 < sectors" using less.prems k by (simp add: div_less_iff_less_mult)
    then have rd: "fst (rd (offset div sector_size) d) = Some (map (\<lambda>i. disk (?o div 512 * 512 + i)) [0..<512])"
      using assms(1) sec(1) unfolding serves_def by simp
    obtain d1 where rd': "rd (offset div sector_size) d = (Some (map (\<lambda>i. disk (?o div 512 * 512 + i)) [0..<512]), d1)"
      using rd by (cases "rd (offset div sector_size) d") simp
    have IH: "fst (read_loop rd (offset + ?c) (len - ?c) d1) = (True, map disk [?o + k..<?o + k + (?n - k)])"
      using less.hyps [of "len - ?c" "offset + ?c" d1] lc oc k less.prems by simp
    have slice: "take k (drop (?o mod 512) (map (\<lambda>i. disk (?o div 512 * 512 + i)) [0..<512])) = map disk [?o..<?o + k]"
      by (rule sector_slice) (simp add: k_def)
    have join: "map disk [?o..<?o + k] @ map disk [?o + k..<?o + k + (?n - k)] = map disk [?o..<?o + ?n]"
      using k upt_add_eq_append [of ?o "?o + k" "?n - k"] by (simp flip: map_append)
    obtain d2 where IH': "read_loop rd (offset + ?c) (len - ?c) d1 = ((True, map disk [?o + k..<?o + k + (?n - k)]), d2)"
      using IH by (cases "read_loop rd (offset + ?c) (len - ?c) d1") simp
    have "read_loop rd offset len d =
        ((True, take k (drop (?o mod 512) (map (\<lambda>i. disk (?o div 512 * 512 + i)) [0..<512]))
           @ map disk [?o + k..<?o + k + (?n - k)]), d2)"
      unfolding read_loop.simps [of rd offset len d] Let_def rd' using True by (simp only: c sec IH' if_True prod.case option.case)
    then show ?thesis by (simp only: slice join fst_conv)
  qed
qed


definition ram_disk :: "unit driver" where
  "ram_disk = \<lparr>call_read = (\<lambda>f sector cnt d. (Some (map (\<lambda>i. of_nat (unat sector + i)) [0..<unat cnt * 512]), d)),
     call_write = (\<lambda>f sector buffer cnt d. (False, d)), call_capacity = (\<lambda>f d. 8)\<rparr>"


end
