(* ===== verification/Ext2.thy ===== *)
theory Ext2
  imports Block Ramfs
begin

unbundle bit_operations_syntax

text \<open>
  The read only ext2 file system, \<^verbatim>\<open>kernel/fs/ext2.cpp\<close>.

  The structures on disk are decoded from the bytes \<open>read_bytes\<close> yields, little endian, at their
  offsets. Two things stop the system: a block larger than the page it is read into, and a division
  by a zero group size. They are recorded in \<open>x_fault\<close>, and what follows them is of no interest.
\<close>

section \<open>Structures on disk\<close>

fun le_nat :: "u8 list \<Rightarrow> nat" where
  "le_nat [] = 0"
| "le_nat (b # bs) = unat b + 256 * le_nat bs"

definition le16 :: "u8 list \<Rightarrow> nat \<Rightarrow> u16" where "le16 d off = of_nat (le_nat (take 2 (drop off d)))"
definition le32 :: "u8 list \<Rightarrow> nat \<Rightarrow> u32" where "le32 d off = of_nat (le_nat (take 4 (drop off d)))"

record Superblock =
  sb_inode_count :: u32
  sb_block_count :: u32
  sb_log_block_size :: u32
  sb_blocks_per_group :: u32
  sb_inodes_per_group :: u32
  sb_magic :: u16
  sb_revision :: u32
  sb_inode_size :: u16

definition superblock_of :: "u8 list \<Rightarrow> Superblock" where
  "superblock_of d = \<lparr>sb_inode_count = le32 d 0, sb_block_count = le32 d 4, sb_log_block_size = le32 d 24,
     sb_blocks_per_group = le32 d 32, sb_inodes_per_group = le32 d 40, sb_magic = le16 d 56,
     sb_revision = le32 d 76, sb_inode_size = le16 d 88\<rparr>"

record DiskInode =
  di_mode :: u16
  di_size :: u32
  di_direct :: "u32 list"
  di_indirect :: u32

definition disk_inode_of :: "u8 list \<Rightarrow> DiskInode" where
  "disk_inode_of d = \<lparr>di_mode = le16 d 0, di_size = le32 d 4,
     di_direct = map (\<lambda>i. le32 d (40 + 4 * i)) [0..<12], di_indirect = le32 d 88\<rparr>"

record DirectoryEntry =
  de_inode :: u32
  de_length :: u16
  de_name_length :: u8

definition directory_entry_of :: "u8 list \<Rightarrow> nat \<Rightarrow> DirectoryEntry" where
  "directory_entry_of d off = \<lparr>de_inode = le32 d off, de_length = le16 d (off + 4), de_name_length = d ! (off + 6)\<rparr>"

definition ext2_magic :: u16 where "ext2_magic = 0xEF53"
definition superblock_offset :: u64 where "superblock_offset = 1024"
definition max_open_inodes :: nat where [simp]: "max_open_inodes = 32"
definition root_inode :: u32 where "root_inode = 2"
definition mode_directory :: u16 where "mode_directory = 0x4000"

section \<open>State\<close>

record Ext2Inode =
  xi_number :: u32
  xi_disk :: DiskInode
  xi_used :: bool

datatype ext2_fault = PageOverrun | DivideByZero

record 'd ext2 =
  x_device :: "ModuleBlockDevice option"
  x_super :: Superblock
  x_block_size :: u32
  x_inode_size :: u32
  x_group_count :: u32
  x_inodes :: "Ext2Inode list"
  x_inode_total :: nat
  x_frames :: page_alloc
  x_driver :: 'd
  x_fault :: "ext2_fault option"

definition x_read_bytes :: "'d driver \<Rightarrow> ModuleBlockDevice \<Rightarrow> u64 \<Rightarrow> usize \<Rightarrow> 'd ext2 \<Rightarrow> u8 list option \<times> 'd ext2" where
  "x_read_bytes drv device offset len s =
     (case read_bytes drv device offset len (x_frames s, x_driver s) of
        ((ok, bytes), pa, d) \<Rightarrow> (if ok then Some bytes else None, s\<lparr>x_frames := pa, x_driver := d\<rparr>))"

text \<open>A page taken for the time of a computation; \<open>fail\<close> when there is none.\<close>

definition with_page :: "'a \<Rightarrow> ('d ext2 \<Rightarrow> 'a \<times> 'd ext2) \<Rightarrow> 'd ext2 \<Rightarrow> 'a \<times> 'd ext2" where
  "with_page fail body s =
     (case alloc_page (x_frames s) of (frame, pa) \<Rightarrow>
        if frame = 0 then (fail, s\<lparr>x_frames := pa\<rparr>)
        else case body (s\<lparr>x_frames := pa\<rparr>) of (r, s1) \<Rightarrow> (r, s1\<lparr>x_frames := free_page frame (x_frames s1)\<rparr>))"

definition raise_fault :: "ext2_fault \<Rightarrow> 'd ext2 \<Rightarrow> 'd ext2" where
  "raise_fault f s = (if x_fault s = None then s\<lparr>x_fault := Some f\<rparr> else s)"

section \<open>The mounted image\<close>

text \<open>Every caller reads the block into one page.\<close>

definition read_block :: "'d driver \<Rightarrow> u32 \<Rightarrow> 'd ext2 \<Rightarrow> u8 list option \<times> 'd ext2" where
  "read_block drv block s =
     (case x_device s of
        None \<Rightarrow> (None, s)
      | Some device \<Rightarrow>
          x_read_bytes drv device (ucast block * ucast (x_block_size s)) (ucast (x_block_size s))
            (if x_block_size s > 4096 then raise_fault PageOverrun s else s))"

definition read_inode :: "'d driver \<Rightarrow> u32 \<Rightarrow> 'd ext2 \<Rightarrow> DiskInode option \<times> 'd ext2" where
  "read_inode drv number s =
     (case x_device s of
        None \<Rightarrow> (None, s)
      | Some device \<Rightarrow>
          if number = 0 then (None, s)
          else if sb_inodes_per_group (x_super s) = 0 then (None, raise_fault DivideByZero s)
          else let group = (number - 1) div sb_inodes_per_group (x_super s);
                   index = (number - 1) mod sb_inodes_per_group (x_super s);
                   descriptor_block = (if x_block_size s = 1024 then 2 else 1 :: u32);
                   descriptor_offset = ucast descriptor_block * ucast (x_block_size s) + ucast group * 32 :: u64
               in case x_read_bytes drv device descriptor_offset 32 s of
                    (None, s1) \<Rightarrow> (None, s1)
                  | (Some descriptor, s1) \<Rightarrow>
                      (case x_read_bytes drv device (ucast (le32 descriptor 8) * ucast (x_block_size s) + ucast index * ucast (x_inode_size s)) 100 s1 of
                         (bytes, s2) \<Rightarrow> (map_option disk_inode_of bytes, s2)))"

definition ext2_mount_device :: "'d driver \<Rightarrow> ModuleBlockDevice \<Rightarrow> 'd ext2 \<Rightarrow> bool \<times> 'd ext2" where
  "ext2_mount_device drv device s0 =
     (let s = s0\<lparr>x_device := Some device\<rparr>
      in case x_read_bytes drv device superblock_offset 90 s of
           (None, s1) \<Rightarrow> (False, s1\<lparr>x_device := None\<rparr>)
         | (Some bytes, s1) \<Rightarrow>
             let super = superblock_of bytes; s2 = s1\<lparr>x_super := super\<rparr>
             in if sb_magic super \<noteq> ext2_magic then (False, s2\<lparr>x_device := None\<rparr>)
                else if sb_blocks_per_group super = 0 then (False, raise_fault DivideByZero s2)
                else (True, s2\<lparr>x_block_size := push_bit (unat (sb_log_block_size super) mod 32) 1024,
                  x_inode_size := (if sb_revision super \<ge> 1 \<and> sb_inode_size super \<noteq> 0 then ucast (sb_inode_size super) else 128),
                  x_group_count := (sb_block_count super + sb_blocks_per_group super - 1) div sb_blocks_per_group super\<rparr>))"

definition ext2_mount :: "'d driver \<Rightarrow> ModuleBlockDevice option \<Rightarrow> 'd ext2 \<Rightarrow> bool \<times> 'd ext2" where
  "ext2_mount drv device s = (case device of None \<Rightarrow> (False, s) | Some dev \<Rightarrow> ext2_mount_device drv dev s)"

fun open_scan :: "u32 \<Rightarrow> Ext2Inode list \<Rightarrow> nat option" where
  "open_scan number [] = None"
| "open_scan number (n # ns) =
     (if xi_used n \<and> xi_number n = number then Some 0 else map_option Suc (open_scan number ns))"

definition ext2_open :: "'d driver \<Rightarrow> u32 \<Rightarrow> 'd ext2 \<Rightarrow> nat option \<times> 'd ext2" where
  "ext2_open drv number s =
     (case open_scan number (take (x_inode_total s) (x_inodes s)) of
        Some i \<Rightarrow> (Some i, s)
      | None \<Rightarrow>
          if x_inode_total s \<ge> max_open_inodes then (None, s)
          else case read_inode drv number s of
                 (None, s1) \<Rightarrow> (None, s1)
               | (Some disk, s1) \<Rightarrow>
                   (Some (x_inode_total s1),
                    s1\<lparr>x_inodes := (x_inodes s1)[x_inode_total s1 := \<lparr>xi_number = number, xi_disk = disk, xi_used = True\<rparr>],
                       x_inode_total := x_inode_total s1 + 1\<rparr>))"

definition ext2_root :: "'d driver \<Rightarrow> 'd ext2 \<Rightarrow> nat option \<times> 'd ext2" where
  "ext2_root drv s = ext2_open drv root_inode s"

section \<open>Inodes\<close>

definition ext2_type :: "DiskInode \<Rightarrow> NodeType" where
  "ext2_type disk = (if di_mode disk AND mode_directory \<noteq> 0 then NT_Directory else NT_File)"

definition ext2_size :: "DiskInode \<Rightarrow> u64" where
  "ext2_size disk = ucast (di_size disk)"

definition block_for :: "'d driver \<Rightarrow> DiskInode \<Rightarrow> u32 \<Rightarrow> 'd ext2 \<Rightarrow> u32 \<times> 'd ext2" where
  "block_for drv disk index s =
     (if index < 12 then (di_direct disk ! unat index, s)
      else let per_block = x_block_size s div 4; indirect_index = index - 12
           in if indirect_index \<ge> per_block \<or> di_indirect disk = 0 then (0, s)
              else with_page 0 (\<lambda>s1. case read_block drv (di_indirect disk) s1 of
                     (None, s2) \<Rightarrow> (0, s2)
                   | (Some table, s2) \<Rightarrow> (le32 table (4 * unat indirect_index), s2)) s)"

text \<open>
  The loop of \<open>read\<close>: \<open>done\<close> bytes are out already. The last argument bounds the number of rounds;
  every round copies at least one byte.
\<close>

fun ext2_read_loop ::
  "'d driver \<Rightarrow> DiskInode \<Rightarrow> u64 \<Rightarrow> usize \<Rightarrow> usize \<Rightarrow> nat \<Rightarrow> 'd ext2 \<Rightarrow> (usize \<times> u8 list) \<times> 'd ext2" where
  "ext2_read_loop drv disk offset len done' 0 s = ((done', []), s)"
| "ext2_read_loop drv disk offset len done' (Suc n) s =
     (if done' < len
      then let bs = ucast (x_block_size s) :: u64;
               index = ucast ((offset + done') div bs) :: u32;
               inside = ucast ((offset + done') mod bs) :: u32
           in case block_for drv disk index s of (block, s1) \<Rightarrow>
                if block = 0 then ((done', []), s1)
                else case read_block drv block s1 of
                       (None, s2) \<Rightarrow> ((done', []), s2)
                     | (Some scratch, s2) \<Rightarrow>
                         let room = ucast (x_block_size s - inside) :: u64;
                             chunk = (if len - done' < room then len - done' else room)
                         in case ext2_read_loop drv disk offset len (done' + chunk) n s2 of
                              ((amount, rest), s3) \<Rightarrow> ((amount, take (unat chunk) (drop (unat inside) scratch) @ rest), s3)
      else ((done', []), s))"

definition ext2_read :: "'d driver \<Rightarrow> DiskInode \<Rightarrow> u64 \<Rightarrow> usize \<Rightarrow> 'd ext2 \<Rightarrow> (int \<times> u8 list) \<times> 'd ext2" where
  "ext2_read drv disk offset len s =
     (if offset \<ge> ucast (di_size disk) then ((0, []), s)
      else let available = ucast (di_size disk) - offset;
               len' = (if len > available then available else len)
           in with_page (-1, []) (\<lambda>s1. case ext2_read_loop drv disk offset len' 0 (unat len') s1 of
                ((amount, bytes), s2) \<Rightarrow> ((sint amount, bytes), s2)) s)"

text \<open>
  The entries of one directory block from \<open>off\<close> on, each with the bytes that follow it in the
  block. The number of rounds is at most the size of the block, for every entry is at least one byte
  long. A name that passes the end of its block does not match here; the code compares it with
  whatever the page holds behind the block.
\<close>

fun block_entries :: "u8 list \<Rightarrow> nat \<Rightarrow> nat \<Rightarrow> nat \<Rightarrow> (DirectoryEntry \<times> u8 list) list" where
  "block_entries block bs off 0 = []"
| "block_entries block bs off (Suc n) =
     (if off + 8 < bs
      then let entry = directory_entry_of block off
           in if de_length entry = 0 then []
              else (entry, drop (off + 8) block) # block_entries block bs (off + unat (de_length entry)) n
      else [])"

definition entry_matches :: "u8 list \<Rightarrow> DirectoryEntry \<times> u8 list \<Rightarrow> bool" where
  "entry_matches name e = (case e of (entry, text) \<Rightarrow>
     de_inode entry \<noteq> 0 \<and> length name = unat (de_name_length entry) \<and> take (length name) text = name)"

fun lookup_blocks ::
  "'d driver \<Rightarrow> DiskInode \<Rightarrow> u8 list \<Rightarrow> u32 \<Rightarrow> nat \<Rightarrow> 'd ext2 \<Rightarrow> nat option \<times> 'd ext2" where
  "lookup_blocks drv disk name index 0 s = (None, s)"
| "lookup_blocks drv disk name index (Suc n) s =
     (if index * x_block_size s < di_size disk
      then case block_for drv disk index s of (number, s1) \<Rightarrow>
             if number = 0 then (None, s1)
             else case read_block drv number s1 of
                    (None, s2) \<Rightarrow> (None, s2)
                  | (Some block, s2) \<Rightarrow>
                      (case find (entry_matches name) (block_entries block (unat (x_block_size s)) 0 (unat (x_block_size s))) of
                         Some (entry, text) \<Rightarrow>
                           (case ext2_open drv (de_inode entry) s2 of
                              (Some i, s3) \<Rightarrow> (Some i, s3)
                            | (None, s3) \<Rightarrow> lookup_blocks drv disk name (index + 1) n s3)
                       | None \<Rightarrow> lookup_blocks drv disk name (index + 1) n s2)
      else (None, s))"

text \<open>
  The rounds of the loop over the blocks of a directory: past the direct and the indirect blocks
  \<open>block_for\<close> gives 0, which ends it.
\<close>

definition directory_rounds :: "'d ext2 \<Rightarrow> nat" where
  "directory_rounds s = Suc (12 + unat (x_block_size s div 4))"

definition ext2_lookup :: "'d driver \<Rightarrow> DiskInode \<Rightarrow> u8 list \<Rightarrow> 'd ext2 \<Rightarrow> nat option \<times> 'd ext2" where
  "ext2_lookup drv disk name s =
     (if ext2_type disk \<noteq> NT_Directory then (None, s)
      else with_page None (lookup_blocks drv disk name 0 (directory_rounds s)) s)"

fun entry_blocks ::
  "'d driver \<Rightarrow> DiskInode \<Rightarrow> nat \<Rightarrow> nat \<Rightarrow> u32 \<Rightarrow> nat \<Rightarrow> 'd ext2 \<Rightarrow> u8 list option \<times> 'd ext2" where
  "entry_blocks drv disk wanted seen index 0 s = (None, s)"
| "entry_blocks drv disk wanted seen index (Suc n) s =
     (if index * x_block_size s < di_size disk
      then case block_for drv disk index s of (number, s1) \<Rightarrow>
             if number = 0 then (None, s1)
             else case read_block drv number s1 of
                    (None, s2) \<Rightarrow> (None, s2)
                  | (Some block, s2) \<Rightarrow>
                      let es = filter (\<lambda>e. de_inode (fst e) \<noteq> 0) (block_entries block (unat (x_block_size s)) 0 (unat (x_block_size s)))
                      in if wanted - seen < length es
                         then let (entry, text) = es ! (wanted - seen) in (Some (take (min 63 (unat (de_name_length entry))) text), s2)
                         else entry_blocks drv disk wanted (seen + length es) (index + 1) n s2
      else (None, s))"

definition ext2_entry_at :: "'d driver \<Rightarrow> DiskInode \<Rightarrow> usize \<Rightarrow> 'd ext2 \<Rightarrow> u8 list option \<times> 'd ext2" where
  "ext2_entry_at drv disk index s =
     (if ext2_type disk \<noteq> NT_Directory then (None, s)
      else with_page None (entry_blocks drv disk (unat index) 0 0 (directory_rounds s)) s)"

definition ext2_ops :: "'d driver \<Rightarrow> (nat, 'd ext2) inode_ops" where
  "ext2_ops drv =
     \<lparr>o_type = (\<lambda>n s. ext2_type (xi_disk (x_inodes s ! n))),
      o_size = (\<lambda>n s. ext2_size (xi_disk (x_inodes s ! n))),
      o_read = (\<lambda>n off len s. ext2_read drv (xi_disk (x_inodes s ! n)) off len s),
      o_write = (\<lambda>n off d s. inode_write_default off d s),
      o_lookup = (\<lambda>n c s. ext2_lookup drv (xi_disk (x_inodes s ! n)) (map of_char c) s),
      o_entry_at = (\<lambda>n i s. case ext2_entry_at drv (xi_disk (x_inodes s ! n)) i s of
                       (e, s') \<Rightarrow> (map_option (map (\<lambda>b. char_of (unat b))) e, s'))\<rparr>"

section \<open>Pages and blocks\<close>

definition free_page_set :: "page_alloc \<Rightarrow> nat set" where
  "free_page_set pa = {..<managed_pages} - allocated pa"

lemma alloc_page_ok:
  assumes good: "pa_good pa" and some: "0 < card (free_page_set pa)"
  obtains f pa' where "alloc_page pa = (f, pa')" "f \<noteq> 0" "pa_good pa'" "card (free_page_set pa') = card (free_page_set pa) - 1"
    "\<And>pa''. pa_good pa'' \<Longrightarrow> allocated pa'' = allocated pa' \<Longrightarrow> pa_good (free_page f pa'') \<and> allocated (free_page f pa'') = allocated pa"
proof -
  obtain g where g: "g < managed_pages" "g \<notin> allocated pa"
    using some by (auto simp: free_page_set_def card_gt_0_iff)
  obtain f pa' where a: "alloc_page pa = (f, pa')" by fastforce
  have inv: "pa_inv pa" using good by (simp add: pa_good_def)
  have "free_run pa g (unat (1 :: u64))" using g by (simp add: free_run_def)
  then obtain i where "f = of_nat i * 4096" "free_run pa i 1"
    using alloc_pages_success [OF inv, of 1 g] a unfolding alloc_page_def
    by (metis prod.inject unsigned_1 zero_neq_one)
  then have f: "f \<noteq> 0" using good unat_page_address [of i] by (auto simp: free_run_def pa_good_def)
  note T = frames.take_fresh [OF good a f]
  have "unat f div 4096 < managed_pages" using T by (auto intro: allocated_less)
  then have "unat f div 4096 \<in> free_page_set pa" using T by (simp add: free_page_set_def)
  moreover have "free_page_set pa' = free_page_set pa - {unat f div 4096}" using T by (auto simp: free_page_set_def)
  ultimately have "card (free_page_set pa') = card (free_page_set pa) - 1" by (simp add: card_Diff_singleton)
  moreover have "pa_good (free_page f pa'') \<and> allocated (free_page f pa'') = allocated pa"
    if "pa_good pa''" "allocated pa'' = allocated pa'" for pa''
    using frames.give_back [OF that(1) _ f] T that by auto
  ultimately show thesis using that a f T by blast
qed

text \<open>A step that leaves everything but the driver state and the order of the free pages.\<close>

definition quiet :: "'d ext2 \<Rightarrow> 'd ext2 \<Rightarrow> bool" where
  "quiet s s' \<longleftrightarrow> (\<exists>pa d. s' = s\<lparr>x_frames := pa, x_driver := d\<rparr> \<and> pa_good pa \<and> allocated pa = allocated (x_frames s))"

lemma quietI:
  "s' = s\<lparr>x_frames := pa, x_driver := d\<rparr> \<Longrightarrow> pa_good pa \<Longrightarrow> allocated pa = allocated (x_frames s) \<Longrightarrow> quiet s s'"
  unfolding quiet_def by blast

lemma quiet_trans:
  assumes "quiet s s'" and "quiet s' s''"
  shows "quiet s s''"
proof -
  from assms obtain pa d pa' d' where "s' = s\<lparr>x_frames := pa, x_driver := d\<rparr>" "allocated pa = allocated (x_frames s)"
    "s'' = s'\<lparr>x_frames := pa', x_driver := d'\<rparr>" "pa_good pa'" "allocated pa' = allocated (x_frames s')"
    by (auto simp: quiet_def)
  then show ?thesis by (intro quietI [where pa = pa' and d = d']) simp_all
qed

lemma quietD:
  assumes "quiet s s'"
  shows "x_device s' = x_device s" "x_block_size s' = x_block_size s" "x_fault s' = x_fault s"
    "pa_good (x_frames s')" "free_page_set (x_frames s') = free_page_set (x_frames s)"
  using assms by (auto simp: quiet_def free_page_set_def)

lemma quiet_refl: "pa_good (x_frames s) \<Longrightarrow> quiet s s"
  by (rule quietI [where pa = "x_frames s" and d = "x_driver s"]) simp_all

lemma with_page_quiet:
  assumes "pa_good (x_frames s)" and "0 < card (free_page_set (x_frames s))"
    and body: "\<And>t. x_device t = x_device s \<Longrightarrow> x_block_size t = x_block_size s \<Longrightarrow> pa_good (x_frames t) \<Longrightarrow>
      card (free_page_set (x_frames t)) = card (free_page_set (x_frames s)) - 1 \<Longrightarrow> \<exists>t'. body t = (r, t') \<and> quiet t t'"
  shows "\<exists>s'. with_page fail body s = (r, s') \<and> quiet s s'"
proof -
  obtain f pa' where a: "alloc_page (x_frames s) = (f, pa')" "f \<noteq> 0" "pa_good pa'"
      "card (free_page_set pa') = card (free_page_set (x_frames s)) - 1"
    and give: "\<And>pa''. pa_good pa'' \<Longrightarrow> allocated pa'' = allocated pa' \<Longrightarrow>
        pa_good (free_page f pa'') \<and> allocated (free_page f pa'') = allocated (x_frames s)"
    using alloc_page_ok [OF assms(1,2)] by metis
  obtain t' where t': "body (s\<lparr>x_frames := pa'\<rparr>) = (r, t')" "quiet (s\<lparr>x_frames := pa'\<rparr>) t'"
    using body [of "s\<lparr>x_frames := pa'\<rparr>"] a by auto
  then obtain pa d where q: "t' = s\<lparr>x_frames := pa, x_driver := d\<rparr>" "pa_good pa" "allocated pa = allocated pa'"
    by (auto simp: quiet_def)
  let ?s = "s\<lparr>x_frames := free_page f pa, x_driver := d\<rparr>"
  have "with_page fail body s = (r, ?s)" using a t' q by (simp add: with_page_def)
  moreover have "quiet s ?s" by (rule quietI [OF refl]) (use give [OF q(2,3)] in auto)
  ultimately show ?thesis by blast
qed

section \<open>Reading files\<close>

text \<open>A mounted image on a device that serves the bytes of a disk.\<close>

definition mounted :: "'d driver \<Rightarrow> (nat \<Rightarrow> u8) \<Rightarrow> nat \<Rightarrow> 'd ext2 \<Rightarrow> bool" where
  "mounted drv disk sectors s \<longleftrightarrow> (\<exists>device. x_device s = Some device
       \<and> serves (\<lambda>sector. device_read drv device sector 1) disk sectors)
     \<and> sectors * 512 < 18446744073709551616 \<and> pa_good (x_frames s)
     \<and> x_block_size s \<in> {1024, 2048, 4096}"

lemma mounted_quiet: "mounted drv disk sectors s \<Longrightarrow> quiet s s' \<Longrightarrow> mounted drv disk sectors s'"
  using quietD [of s s'] by (simp add: mounted_def)

lemma block_size_facts:
  assumes "mounted drv disk sectors s"
  shows "0 < unat (x_block_size s)" "unat (x_block_size s) \<le> 4096" "\<not> x_block_size s > 4096"
  using assms by (auto simp: mounted_def)

lemma read_block_exact:
  assumes m: "mounted drv disk sectors s" and "0 < card (free_page_set (x_frames s))"
    and inr: "(unat block + 1) * unat (x_block_size s) \<le> sectors * 512"
  shows "\<exists>s'. read_block drv block s = (Some (map disk [unat block * unat (x_block_size s)..<unat block * unat (x_block_size s) + unat (x_block_size s)]), s')
     \<and> quiet s s'"
proof -
  obtain device where dev: "x_device s = Some device" "serves (\<lambda>sector. device_read drv device sector 1) disk sectors"
    and lim: "sectors * 512 < 18446744073709551616" and good: "pa_good (x_frames s)"
    using m by (auto simp: mounted_def)
  let ?bs = "unat (x_block_size s)"
  have "unat block * ?bs < 18446744073709551616" using inr lim by (simp add: add_mult_distrib)
  then have off: "unat (ucast block * ucast (x_block_size s) :: u64) = unat block * ?bs" by (simp add: unat_u64_mult)
  obtain f pa' where a: "alloc_page (x_frames s) = (f, pa')" "f \<noteq> 0" "pa_good pa'"
    and give: "\<And>pa''. pa_good pa'' \<Longrightarrow> allocated pa'' = allocated pa' \<Longrightarrow>
        pa_good (free_page f pa'') \<and> allocated (free_page f pa'') = allocated (x_frames s)"
    using alloc_page_ok [OF good assms(2)] by metis
  have L: "fst (read_loop (\<lambda>sector. device_read drv device sector 1) (ucast block * ucast (x_block_size s)) (ucast (x_block_size s)) (x_driver s))
      = (True, map disk [unat block * ?bs..<unat block * ?bs + ?bs])"
    using read_loop_exact [OF dev(2) _ lim, of "ucast block * ucast (x_block_size s)" "ucast (x_block_size s)" "x_driver s"] off inr
    by (simp add: add_mult_distrib)
  obtain d where d: "read_loop (\<lambda>sector. device_read drv device sector 1) (ucast block * ucast (x_block_size s)) (ucast (x_block_size s)) (x_driver s)
      = ((True, map disk [unat block * ?bs..<unat block * ?bs + ?bs]), d)"
    using L by (cases "read_loop (\<lambda>sector. device_read drv device sector 1) (ucast block * ucast (x_block_size s)) (ucast (x_block_size s)) (x_driver s)") simp
  let ?s = "s\<lparr>x_frames := free_page f pa', x_driver := d\<rparr>"
  have "read_block drv block s = (Some (map disk [unat block * ?bs..<unat block * ?bs + ?bs]), ?s)"
    using dev(1) block_size_facts(3) [OF m] a d by (simp add: read_block_def x_read_bytes_def read_bytes_def)
  moreover have "quiet s ?s" by (rule quietI [OF refl]) (use give [OF a(3) refl] in auto)
  ultimately show ?thesis by blast
qed

text \<open>The block of a file, and the byte of it, as the image lays them out.\<close>

definition file_block :: "(nat \<Rightarrow> u8) \<Rightarrow> nat \<Rightarrow> DiskInode \<Rightarrow> nat \<Rightarrow> u32" where
  "file_block disk bs inode index =
     (if index < 12 then di_direct inode ! index
      else if index - 12 \<ge> bs div 4 \<or> di_indirect inode = 0 then 0
      else le32 (map disk [unat (di_indirect inode) * bs..<unat (di_indirect inode) * bs + bs]) (4 * (index - 12)))"

definition file_byte :: "(nat \<Rightarrow> u8) \<Rightarrow> nat \<Rightarrow> DiskInode \<Rightarrow> nat \<Rightarrow> u8" where
  "file_byte disk bs inode k = disk (unat (file_block disk bs inode (k div bs)) * bs + k mod bs)"

lemma block_for_exact:
  assumes m: "mounted drv disk sectors s" and "1 < card (free_page_set (x_frames s))"
    and ind: "di_indirect inode \<noteq> 0 \<longrightarrow> (unat (di_indirect inode) + 1) * unat (x_block_size s) \<le> sectors * 512"
  shows "\<exists>s'. block_for drv inode index s = (file_block disk (unat (x_block_size s)) inode (unat index), s') \<and> quiet s s'"
proof -
  let ?bs = "unat (x_block_size s)"
  have good: "pa_good (x_frames s)" using m by (simp add: mounted_def)
  consider (direct) "index < 12" | (none) "\<not> index < 12" "index - 12 \<ge> x_block_size s div 4 \<or> di_indirect inode = 0"
    | (ind) "\<not> index < 12" "\<not> (index - 12 \<ge> x_block_size s div 4 \<or> di_indirect inode = 0)" by blast
  then show ?thesis
  proof cases
    case direct
    then have "unat index < 12" by (simp add: word_less_nat_alt)
    then show ?thesis using direct quiet_refl [OF good] by (auto simp: block_for_def file_block_def)
  next
    case none
    then have i: "\<not> unat index < 12" by (simp add: word_less_nat_alt)
    then have "12 \<le> index" by (simp add: word_le_nat_alt)
    then have s: "unat (index - 12) = unat index - 12" by (simp add: unat_sub)
    have "unat index - 12 \<ge> ?bs div 4 \<or> di_indirect inode = 0"
      using none(2) s by (auto simp: word_le_nat_alt unat_div_distrib)
    then show ?thesis using none i quiet_refl [OF good] by (auto simp: block_for_def file_block_def)
  next
    case ind
    then have i: "\<not> unat index < 12" by (simp add: word_less_nat_alt)
    then have "12 \<le> index" by (simp add: word_le_nat_alt)
    then have s: "unat (index - 12) = unat index - 12" by (simp add: unat_sub)
    have n: "\<not> (unat index - 12 \<ge> ?bs div 4 \<or> di_indirect inode = 0)"
      using ind(2) s by (auto simp: word_le_nat_alt unat_div_distrib)
    let ?r = "le32 (map disk [unat (di_indirect inode) * ?bs..<unat (di_indirect inode) * ?bs + ?bs]) (4 * unat (index - 12))"
    have "\<exists>s'. with_page 0 (\<lambda>s1. case read_block drv (di_indirect inode) s1 of
                     (None, s2) \<Rightarrow> (0, s2) | (Some table, s2) \<Rightarrow> (le32 table (4 * unat (index - 12)), s2)) s = (?r, s') \<and> quiet s s'"
    proof (rule with_page_quiet)
      show "pa_good (x_frames s)" by (rule good)
      show "0 < card (free_page_set (x_frames s))" using assms(2) by simp
      fix t :: "'a ext2"
      assume t: "x_device t = x_device s" "x_block_size t = x_block_size s" "pa_good (x_frames t)"
        "card (free_page_set (x_frames t)) = card (free_page_set (x_frames s)) - 1"
      have mt: "mounted drv disk sectors t" using m t by (simp add: mounted_def)
      have "0 < card (free_page_set (x_frames t))" using t(4) assms(2) by simp
      from read_block_exact [OF mt this, of "di_indirect inode"] ind t(2) assms(3)
      show "\<exists>t'. (case read_block drv (di_indirect inode) t of
                     (None, s2) \<Rightarrow> (0, s2) | (Some table, s2) \<Rightarrow> (le32 table (4 * unat (index - 12)), s2)) = (?r, t') \<and> quiet t t'"
        by auto
    qed
    then show ?thesis using ind(1) ind(2) i n s by (simp add: block_for_def file_block_def Let_def)
  qed
qed

lemma block_slice:
  assumes "k \<le> bs - p mod bs" and "0 < bs"
  shows "take k (drop (p mod bs) (map disk [unat (file_block disk bs inode (p div bs)) * bs..<unat (file_block disk bs inode (p div bs)) * bs + bs]))
       = map (file_byte disk bs inode) [p..<p + k]"
proof (rule nth_equalityI)
  let ?B = "unat (file_block disk bs inode (p div bs)) * bs"
  have pm: "p mod bs < bs" using assms(2) by simp
  show len: "length (take k (drop (p mod bs) (map disk [?B..<?B + bs]))) = length (map (file_byte disk bs inode) [p..<p + k])"
    using assms by simp
  fix i assume "i < length (take k (drop (p mod bs) (map disk [?B..<?B + bs])))"
  then have i: "i < k" "p mod bs + i < bs" using assms pm by auto
  have "p + i = p div bs * bs + (p mod bs + i)" by simp
  then have "(p + i) div bs = p div bs" "(p + i) mod bs = p mod bs + i"
    using i(2) by (metis add.commute add_0 div_less div_mult_self3 less_nat_zero_code, metis mod_less mod_mult_self3)
  then show "take k (drop (p mod bs) (map disk [?B..<?B + bs])) ! i = map (file_byte disk bs inode) [p..<p + k] ! i"
    using i by (simp add: file_byte_def add.assoc)
qed

text \<open>Every block the range needs is there and inside the disk.\<close>

definition covered :: "(nat \<Rightarrow> u8) \<Rightarrow> nat \<Rightarrow> nat \<Rightarrow> DiskInode \<Rightarrow> nat \<Rightarrow> nat \<Rightarrow> bool" where
  "covered disk sectors bs inode lo hi \<longleftrightarrow>
     (di_indirect inode \<noteq> 0 \<longrightarrow> (unat (di_indirect inode) + 1) * bs \<le> sectors * 512)
   \<and> (\<forall>k. lo \<le> k \<longrightarrow> k < hi \<longrightarrow> file_block disk bs inode (k div bs) \<noteq> 0
        \<and> (unat (file_block disk bs inode (k div bs)) + 1) * bs \<le> sectors * 512)"

lemma covered_mono: "covered disk sectors bs inode lo hi \<Longrightarrow> lo \<le> lo' \<Longrightarrow> covered disk sectors bs inode lo' hi"
  by (auto simp: covered_def)

lemma ext2_read_loop_exact:
  assumes "mounted drv disk sectors s" and "1 < card (free_page_set (x_frames s))" and "unat done' \<le> unat len"
    and "unat len - unat done' \<le> n" and "unat offset + unat len \<le> 2 ^ 32" and "x_block_size s = bsz"
    and "covered disk sectors (unat bsz) inode (unat offset + unat done') (unat offset + unat len)"
  shows "\<exists>s'. ext2_read_loop drv inode offset len done' n s =
      ((len, map (file_byte disk (unat bsz) inode) [unat offset + unat done'..<unat offset + unat len]), s') \<and> quiet s s'"
  using assms
proof (induction n arbitrary: done' s)
  case 0
  have good: "pa_good (x_frames s)" using "0.prems"(1) by (simp add: mounted_def)
  have "done' = len" using "0.prems" by (intro u64_eqI) simp
  then show ?case using quiet_refl [OF good] by auto
next
  case (Suc n)
  have good: "pa_good (x_frames s)" using Suc.prems(1) by (simp add: mounted_def)
  show ?case
  proof (cases "done' < len")
    case False
    then have "done' = len" using Suc.prems(3) by (intro u64_eqI) (simp add: word_less_nat_alt)
    then show ?thesis using quiet_refl [OF good] by auto
  next
    case True
    let ?bs = "unat bsz"
    define p where "p = unat offset + unat done'"
    define k where "k = min (unat len - unat done') (?bs - p mod ?bs)"
    have lt: "unat done' < unat len" using True by (simp add: word_less_nat_alt)
    have bs: "0 < ?bs" "?bs \<le> 4096" using block_size_facts [OF Suc.prems(1)] Suc.prems(6) by auto
    have pos: "unat (offset + done') = p" using Suc.prems(5) lt by (simp add: p_def unat_u64_add)
    have p32: "p < 2 ^ 32" using Suc.prems(5) lt by (simp add: p_def)
    have idx: "unat (ucast ((offset + done') div ucast bsz) :: u32) = p div ?bs"
      using pos p32 le_less_trans [OF div_le_dividend p32] by (simp add: unsigned_ucast_eq unat_div_distrib take_bit_nat_eq_self)
    have ins: "unat (ucast ((offset + done') mod ucast bsz) :: u32) = p mod ?bs"
      using pos p32 le_less_trans [OF mod_less_eq_dividend p32] by (simp add: unsigned_ucast_eq unat_mod_distrib take_bit_nat_eq_self)
    have pm: "p mod ?bs < ?bs" using bs by simp
    then have "ucast ((offset + done') mod ucast bsz) \<le> bsz" using ins by (simp add: word_le_nat_alt)
    then have room: "unat (bsz - ucast ((offset + done') mod ucast bsz)) = ?bs - p mod ?bs" using ins by (simp add: unat_sub)
    have ld: "unat (len - done') = unat len - unat done'" using lt by (simp add: unat_u64_sub word_le_nat_alt)
    let ?chunk = "if len - done' < ucast (bsz - ucast ((offset + done') mod ucast bsz) :: u32) then len - done'
        else ucast (bsz - ucast ((offset + done') mod ucast bsz) :: u32)"
    have ch: "unat ?chunk = k" using room ld by (auto simp: k_def word_less_nat_alt min_def)
    have k: "0 < k" "k \<le> unat len - unat done'" "k \<le> ?bs - p mod ?bs" using lt pm by (auto simp: k_def)
    have dk: "unat (done' + ?chunk) = unat done' + k"
      using ch k(2) u64_bound [of len] lt by (subst unat_u64_add) auto
    let ?blk = "file_block disk ?bs inode (p div ?bs)"
    have cov: "?blk \<noteq> 0" "(unat ?blk + 1) * ?bs \<le> sectors * 512"
      "di_indirect inode \<noteq> 0 \<longrightarrow> (unat (di_indirect inode) + 1) * ?bs \<le> sectors * 512"
      using Suc.prems(7) lt by (auto simp: covered_def p_def)
    obtain s1 where s1: "block_for drv inode (ucast ((offset + done') div ucast bsz)) s = (?blk, s1)" "quiet s s1"
      using block_for_exact [OF Suc.prems(1,2), of inode "ucast ((offset + done') div ucast bsz)"] cov(3) idx Suc.prems(6) by auto
    have m1: "mounted drv disk sectors s1" by (rule mounted_quiet [OF Suc.prems(1) s1(2)])
    obtain s2 where s2: "read_block drv ?blk s1 = (Some (map disk [unat ?blk * ?bs..<unat ?blk * ?bs + ?bs]), s2)" "quiet s1 s2"
      using read_block_exact [OF m1, of ?blk] quietD [OF s1(2)] Suc.prems(2,6) cov(2) by auto
    have q2: "quiet s s2" by (rule quiet_trans [OF s1(2) s2(2)])
    have "\<exists>s'. ext2_read_loop drv inode offset len (done' + ?chunk) n s2 =
        ((len, map (file_byte disk ?bs inode) [unat offset + unat (done' + ?chunk)..<unat offset + unat len]), s') \<and> quiet s2 s'"
    proof (rule Suc.IH)
      show "mounted drv disk sectors s2" by (rule mounted_quiet [OF Suc.prems(1) q2])
      show "1 < card (free_page_set (x_frames s2))" using quietD(5) [OF q2] Suc.prems(2) by simp
      show "unat (done' + ?chunk) \<le> unat len" unfolding dk using k by simp
      show "unat len - unat (done' + ?chunk) \<le> n" unfolding dk using k Suc.prems(4) by simp
      show "x_block_size s2 = bsz" using quietD(2) [OF q2] Suc.prems(6) by simp
      show "covered disk sectors ?bs inode (unat offset + unat (done' + ?chunk)) (unat offset + unat len)"
        unfolding dk by (rule covered_mono [OF Suc.prems(7)]) simp
    qed (rule Suc.prems(5))
    then obtain s3 where s3: "ext2_read_loop drv inode offset len (done' + ?chunk) n s2 =
        ((len, map (file_byte disk ?bs inode) [p + k..<unat offset + unat len]), s3)" "quiet s2 s3"
      unfolding dk by (auto simp: p_def add.assoc)
    have bytes: "take k (drop (p mod ?bs) (map disk [unat ?blk * ?bs..<unat ?blk * ?bs + ?bs])) @
        map (file_byte disk ?bs inode) [p + k..<unat offset + unat len] = map (file_byte disk ?bs inode) [p..<unat offset + unat len]"
      unfolding block_slice [OF k(3) bs(1)] map_append [symmetric]
      using k(2) lt upt_add_eq_append [of p "p + k" "unat offset + unat len - (p + k)"] by (simp add: p_def)
    have "ext2_read_loop drv inode offset len done' (Suc n) s =
        ((len, take k (drop (p mod ?bs) (map disk [unat ?blk * ?bs..<unat ?blk * ?bs + ?bs])) @
            map (file_byte disk ?bs inode) [p + k..<unat offset + unat len]), s3)"
      unfolding ext2_read_loop.simps Let_def Suc.prems(6)
      using True cov(1) by (simp only: s1(1) s2(1) s3(1) ch ins if_True if_False prod.case option.case)
    then show ?thesis unfolding bytes using quiet_trans [OF q2 s3(2)] by (auto simp: p_def)
  qed
qed

section \<open>Properties\<close>

text \<open>
  C28: Reading a file of a mounted image. For every offset inside the file and every length, as long
  as the blocks of the range are there and three pages are free, \<open>read\<close> ends and yields exactly the
  bytes that the direct and indirect blocks of the inode hold for that range, cut at the end of the
  file, and gives every page it took back.
\<close>

theorem ext2_read_exact:
  assumes m: "mounted drv disk sectors s" and pages: "2 < card (free_page_set (x_frames s))"
    and off: "unat offset < unat (di_size inode)"
    and n: "n = min (unat len) (unat (di_size inode) - unat offset)"
    and cov: "covered disk sectors (unat (x_block_size s)) inode (unat offset) (unat offset + n)"
  shows "\<exists>s'. ext2_read drv inode offset len s =
      ((int n, map (file_byte disk (unat (x_block_size s)) inode) [unat offset..<unat offset + n]), s') \<and> quiet s s'"
proof -
  have good: "pa_good (x_frames s)" using m by (simp add: mounted_def)
  let ?bsz = "x_block_size s"
  have ofs: "\<not> offset \<ge> ucast (di_size inode)" using off by (simp add: word_le_nat_alt)
  have av: "unat (ucast (di_size inode) - offset) = unat (di_size inode) - unat offset"
    using off by (simp add: unat_u64_sub word_le_nat_alt)
  let ?len = "if len > ucast (di_size inode) - offset then ucast (di_size inode) - offset else len"
  have ln: "unat ?len = n" using av n by (auto simp: word_less_nat_alt min_def)
  have n32: "unat offset + n \<le> 2 ^ 32" using n off u32_bound [of "di_size inode"] by simp
  have si: "sint ?len = int n" using sint_u64_small [of ?len] ln n32 by simp
  let ?bytes = "map (file_byte disk (unat ?bsz) inode) [unat offset..<unat offset + n]"
  have "\<exists>s'. with_page (-1, []) (\<lambda>s1. case ext2_read_loop drv inode offset ?len 0 (unat ?len) s1 of
                ((amount, bytes), s2) \<Rightarrow> ((sint amount, bytes), s2)) s = ((int n, ?bytes), s') \<and> quiet s s'"
  proof (rule with_page_quiet)
    show "pa_good (x_frames s)" by (rule good)
    show "0 < card (free_page_set (x_frames s))" using pages by simp
    fix t :: "'a ext2"
    assume t: "x_device t = x_device s" "x_block_size t = x_block_size s" "pa_good (x_frames t)"
      "card (free_page_set (x_frames t)) = card (free_page_set (x_frames s)) - 1"
    have mt: "mounted drv disk sectors t" using m t by (simp add: mounted_def)
    have "\<exists>t'. ext2_read_loop drv inode offset ?len 0 (unat ?len) t =
        ((?len, map (file_byte disk (unat ?bsz) inode) [unat offset + unat (0 :: u64)..<unat offset + unat ?len]), t') \<and> quiet t t'"
      by (rule ext2_read_loop_exact [OF mt]) (use t pages ln n32 cov in simp_all)
    then obtain t' where t': "ext2_read_loop drv inode offset ?len 0 (unat ?len) t = ((?len, ?bytes), t')" "quiet t t'"
      unfolding ln by auto
    show "\<exists>t'. (case ext2_read_loop drv inode offset ?len 0 (unat ?len) t of
                ((amount, bytes), s2) \<Rightarrow> ((sint amount, bytes), s2)) = ((int n, ?bytes), t') \<and> quiet t t'"
      unfolding t'(1) prod.case si using t'(2) by blast
  qed
  then show ?thesis unfolding ext2_read_def Let_def using ofs by simp
qed

text \<open>A disk of one kibibyte blocks, and a file of three bytes in block 1 of it.\<close>

definition small_inode :: DiskInode where
  "small_inode = \<lparr>di_mode = 0x8000, di_size = 3, di_direct = 1 # replicate 11 0, di_indirect = 0\<rparr>"

definition three_free :: page_alloc where
  "three_free = free_pages 0x1000 3 all_in_use"

definition small_ext2 :: "page_alloc \<Rightarrow> unit ext2" where
  "small_ext2 pa = \<lparr>x_device = Some \<lparr>mbd_name = ''vda'', mbd_read = 1, mbd_write = 0, mbd_capacity = 1\<rparr>,
     x_super = superblock_of [], x_block_size = 1024, x_inode_size = 128, x_group_count = 1, x_inodes = [], x_inode_total = 0,
     x_frames = pa, x_driver = (), x_fault = None\<rparr>"

lemma three_free_facts: "pa_good three_free" "card (free_page_set three_free) = 3"
proof -
  have inv: "pa_inv all_in_use" and all: "allocated all_in_use = {..<managed_pages}"
    unfolding all_in_use_def by (rule all_used)+
  have "unat (0x1000 div 4096 :: u64) = 1" by (simp add: unat_div)
  then have a: "allocated three_free = {..<managed_pages} - {1..<4}"
    using allocated_free_pages [OF inv, of "0x1000" 3] by (simp add: three_free_def all)
  show "pa_good three_free"
    using free_pages_inv [OF inv] a by (simp add: pa_good_def three_free_def managed_pages_val)
  have "4 \<le> managed_pages" by (simp add: managed_pages_val)
  then have "{1..<4} \<subseteq> {..<managed_pages}" by (intro subsetI) simp
  then have "free_page_set three_free = {1..<4}" unfolding free_page_set_def a by (intro double_diff) simp_all
  then show "card (free_page_set three_free) = 3" by simp
qed

lemma small_mounted: "mounted ram_disk (\<lambda>k. of_nat (k div 512 + k mod 512)) 8 (small_ext2 three_free)"
  using three_free_facts(1)
  by (auto simp: mounted_def small_ext2_def serves_def device_read_def ram_disk_def)

theorem ext2_read_exact_witness:
  "\<exists>s'. ext2_read ram_disk small_inode 1 10 (small_ext2 three_free)
     = ((2, map (file_byte (\<lambda>k. of_nat (k div 512 + k mod 512)) 1024 small_inode) [1..<3]), s')"
proof -
  have c: "covered (\<lambda>k. of_nat (k div 512 + k mod 512)) 8 (unat (x_block_size (small_ext2 three_free))) small_inode (unat (1 :: u64)) (unat (1 :: u64) + 2)"
  proof -
    have "k div 1024 = 0" if "k < 3" for k :: nat using that by simp
    then show ?thesis by (auto simp: covered_def small_ext2_def small_inode_def file_block_def)
  qed
  have f: "2 < card (free_page_set (x_frames (small_ext2 three_free)))"
    using three_free_facts(2) by (simp add: small_ext2_def)
  have b: "unat (x_block_size (small_ext2 three_free)) = 1024" by (simp add: small_ext2_def)
  have "\<exists>s'. ext2_read ram_disk small_inode 1 10 (small_ext2 three_free) =
      ((int 2, map (file_byte (\<lambda>k. of_nat (k div 512 + k mod 512)) (unat (x_block_size (small_ext2 three_free))) small_inode)
        [unat (1 :: u64)..<unat (1 :: u64) + 2]), s') \<and> quiet (small_ext2 three_free) s'"
    by (rule ext2_read_exact [OF small_mounted f _ _ c]) (simp_all add: small_inode_def)
  moreover have "[unat (1 :: u64)..<unat (1 :: u64) + 2] = [1..<3]" by (rule arg_cong2 [of _ _ _ _ upt]) simp_all
  ultimately show ?thesis unfolding b by fastforce
qed

text \<open>
  Limits of the code: a block larger than a page is read over the end of the page, and the type test
  takes a block device or a socket for a directory because their modes share its bit.
\<close>

lemma large_block_overruns:
  assumes "x_device s = Some device" and "x_fault s = None" and "x_block_size s = 8192"
  shows "x_fault (snd (read_block drv block s)) = Some PageOverrun"
  using assms by (auto simp: read_block_def x_read_bytes_def raise_fault_def split: prod.split)

lemma socket_is_directory: "ext2_type \<lparr>di_mode = 0xC000, di_size = 0, di_direct = [], di_indirect = 0\<rparr> = NT_Directory"
  by (simp add: ext2_type_def mode_directory_def)

end
