(* ===== verification/Fs.thy ===== *)
theory Fs
  imports Ramfs Ext2
begin

text \<open>
  The file systems of the running kernel together: the dispatch of an inode to the file system it
  belongs to, and \<open>mount_filesystems\<close> of \<^verbatim>\<open>kernel/main.cpp\<close>, which mounts them.
\<close>

datatype filesystem = FsRam | FsDev | FsExt2

definition fs_kind :: "filesystem \<Rightarrow> string" where
  "fs_kind f = (case f of FsRam \<Rightarrow> ''ramfs'' | FsDev \<Rightarrow> ''devfs'' | FsExt2 \<Rightarrow> ''ext2'')"

definition mem_ops :: "(usize \<Rightarrow> bool) \<Rightarrow> 'd driver \<Rightarrow> (ram_inode + dev_inode, ramfs option \<times> 'd devfs) inode_ops" where
  "mem_ops room drv = sum_ops (ram_ops room) (dev_ops drv)"

definition mem_root :: "filesystem \<Rightarrow> ramfs option \<times> 'd devfs \<Rightarrow> (ram_inode + dev_inode) option \<times> ramfs option \<times> 'd devfs" where
  "mem_root f s = (case f of FsRam \<Rightarrow> (Some (Inl RamRoot), s) | FsDev \<Rightarrow> (Some (Inr DevRoot), s) | FsExt2 \<Rightarrow> (None, s))"

interpretation memfs: two_providers "ram_ops room" "\<lambda>s. s = s1" ram_child "dev_ops drv" "\<lambda>s. s = s2" dev_child
  for room s1 and drv :: "'d driver" and s2 ..

definition mount_filesystems ::
  "'d driver \<Rightarrow> (string \<times> u64) list \<Rightarrow> symbols \<Rightarrow> filesystem vfs \<times> 'd devfs \<times> 'd ext2 \<Rightarrow> filesystem vfs \<times> 'd devfs \<times> 'd ext2" where
  "mount_filesystems drv kernel_symbols syms st =
     (let (v0, d0, x0) = st;
          v1 = snd (vfs_mount (Some ''/'') (Some FsRam) (vfs_init v0));
          b1 = snd (block_register_module drv kernel_symbols syms ''vda'' ''virtio_blk_read'' ''virtio_blk_write''
                 ''virtio_blk_capacity'' (dv_block d0, dv_driver d0));
          d1 = devfs_create (d0\<lparr>dv_block := b1\<rparr>);
          v2 = snd (vfs_mount (Some ''/dev'') (Some FsDev) v1)
      in case block_device_at 0 b1 of
           None \<Rightarrow> (v2, d1, x0)
         | Some i \<Rightarrow>
             (case ext2_mount drv (Some (module_devices b1 ! i)) x0 of
                (False, x1) \<Rightarrow> (v2, d1, x1)
              | (True, x1) \<Rightarrow> (snd (vfs_mount (Some ''/mnt'') (Some FsExt2) v2), d1, x1)))"

text \<open>The mounts every boot ends with, whether there is a disk or not.\<close>

lemma mount_filesystems_table:
  fixes st :: "filesystem vfs \<times> 'd devfs \<times> 'd ext2"
  assumes "length (mounts (fst st)) = 8" and "fst (mount_filesystems drv kernel_symbols syms st) = v"
  shows "take 2 (live_mounts v) = [\<lparr>mnt_path = ''/'', mnt_filesystem = FsRam\<rparr>, \<lparr>mnt_path = ''/dev'', mnt_filesystem = FsDev\<rparr>]"
proof -
  obtain v0 d0 x0 where st: "st = (v0, d0, x0)" by (cases st) auto
  let ?v2 = "snd (vfs_mount (Some ''/dev'') (Some FsDev) (snd (vfs_mount (Some ''/'') (Some FsRam) (vfs_init v0))))"
  have l: "length (mounts v0) = 8" using assms(1) st by simp
  obtain a b ms where ms: "mounts v0 = a # b # ms" "length ms = 6"
    using l by (cases "mounts v0"; cases "tl (mounts v0)") auto
  have v2: "mounts ?v2 = \<lparr>mnt_path = ''/'', mnt_filesystem = FsRam\<rparr> # \<lparr>mnt_path = ''/dev'', mnt_filesystem = FsDev\<rparr> # ms" "mount_total ?v2 = 2"
    by (simp_all add: vfs_mount_def vfs_init_def char_at_def bounded_copy_take ms)
  have ext: "take 2 (live_mounts (snd (vfs_mount (Some ''/mnt'') (Some FsExt2) ?v2))) = take 2 (mounts ?v2)"
    using v2 ms(2) by (cases ms) (simp_all add: vfs_mount_def char_at_def live_mounts_def)
  have two: "take 2 (live_mounts ?v2) = take 2 (mounts ?v2)" using v2 by (simp add: live_mounts_def)
  have "v = ?v2 \<or> v = snd (vfs_mount (Some ''/mnt'') (Some FsExt2) ?v2)"
    using assms(2) unfolding st mount_filesystems_def Let_def by (auto split: option.splits prod.splits bool.splits)
  then show ?thesis using ext two v2(1) by auto
qed

end
