(* ===== verification/Process.thy ===== *)
theory Process
  imports Loader Sched Vfs
begin

unbundle bit_operations_syntax

text \<open>
  Programs, \<^verbatim>\<open>kernel/proc/process.cpp\<close> with \<^verbatim>\<open>include/eris/process.hpp\<close>: the process table, the
  loading of an executable into an address space of its own, and the run of a program.

  A process is an index into the table. The bytes of memory are those the kernel sees, so the
  frame at physical address \<open>p\<close> is at \<open>phys_to_virt p\<close> in the direct map; the words of the page
  tables are in the memory of the MMU. A program header is read where the header says it is,
  without a bound, as the code does. What a program does between \<open>enter_user_mode\<close> and
  \<open>leave_user_mode\<close> is the argument \<open>user\<close> of \<open>process_run\<close>, a function on the whole state.
\<close>

section \<open>State\<close>

definition user_base :: virt_addr where [simp]: "user_base = 0x8000000000"
definition user_stack_top :: virt_addr where [simp]: "user_stack_top = user_base + 0x40000000"
definition user_stack_pages :: usize where [simp]: "user_stack_pages = 16"
definition max_processes :: nat where [simp]: "max_processes = 8"
definition max_program_bytes :: usize where [simp]: "max_program_bytes = push_bit 20 1"
definition process_name_length :: nat where [simp]: "process_name_length = 24"

datatype ProcessState = ProcReady | ProcRunning | ProcExited

record Process =
  p_name :: string
  p_id :: u32
  p_state :: ProcessState
  p_exit_code :: u32
  p_space :: phys_addr
  p_entry :: virt_addr
  p_brk :: virt_addr
  p_page_count :: u64

record ProgramHeader =
  ph_type :: u32
  ph_flags :: u32
  ph_offset :: u64
  ph_virtual_address :: u64
  ph_file_size :: u64
  ph_memory_size :: u64

definition program_header_at :: "memory \<Rightarrow> u64 \<Rightarrow> u64 \<Rightarrow> ProgramHeader" where
  "program_header_at m headers i =
     (let a = headers + 56 * i
      in \<lparr>ph_type = load_u32 m a, ph_flags = load_u32 m (a + 4), ph_offset = load_u64 m (a + 8),
          ph_virtual_address = load_u64 m (a + 16), ph_file_size = load_u64 m (a + 32),
          ph_memory_size = load_u64 m (a + 40)\<rparr>)"

definition program_load :: u32 where [simp]: "program_load = 1"
definition program_flag_execute :: u32 where [simp]: "program_flag_execute = 1"
definition program_flag_write :: u32 where [simp]: "program_flag_write = 2"

record ('f, 's) proc_kernel = kernel +
  y_mem :: memory
  y_processes :: "Process list"
  y_total :: nat
  y_current :: "nat option"
  y_vfs :: "'f vfs"
  y_files :: 's

section \<open>The process table\<close>

definition process_allocate ::
  "string \<Rightarrow> ('f, 's, 'z) proc_kernel_scheme \<Rightarrow> nat option \<times> ('f, 's, 'z) proc_kernel_scheme" where
  "process_allocate name s =
     (let i = y_total s
      in if i \<ge> max_processes then (None, s)
         else (Some i, s\<lparr>y_processes := (y_processes s)[i := (y_processes s ! i)
                  \<lparr>p_name := bounded_copy process_name_length name, p_id := of_nat (i + 1), p_state := ProcReady,
                   p_exit_code := 0, p_page_count := 0\<rparr>],
               y_total := i + 1\<rparr>))"

definition current_process :: "('f, 's, 'z) proc_kernel_scheme \<Rightarrow> nat option" where
  "current_process s = y_current s"

definition process_count :: "('f, 's, 'z) proc_kernel_scheme \<Rightarrow> nat" where
  "process_count s = y_total s"

definition process_at :: "usize \<Rightarrow> ('f, 's, 'z) proc_kernel_scheme \<Rightarrow> nat option" where
  "process_at index s = (if unat index < y_total s then Some (unat index) else None)"

definition process_exit :: "u32 \<Rightarrow> Process \<Rightarrow> Process" where
  "process_exit code p = p\<lparr>p_exit_code := code, p_state := ProcExited\<rparr>"

definition process_owns :: "virt_addr \<Rightarrow> usize \<Rightarrow> mmu \<Rightarrow> Process \<Rightarrow> bool" where
  "process_owns address len v p =
     (if address < user_base \<or> len > max_program_bytes then False
      else as_translate (p_space p) address v \<noteq> 0 \<and> as_translate (p_space p) (address + len - 1) v \<noteq> 0)"

section \<open>Loading\<close>

record image_load =
  il_proc :: Process
  il_mmu :: mmu
  il_mem :: memory

text \<open>
  Fresh zeroed frames under \<open>n\<close> pages from page number \<open>page\<close> on: the loop of \<open>load\<close> over the pages of
  a segment and the loop of \<open>map_stack\<close>.
\<close>

fun map_user_pages :: "PageFlags \<Rightarrow> virt_addr \<Rightarrow> usize \<Rightarrow> nat \<Rightarrow> image_load \<Rightarrow> bool \<times> image_load" where
  "map_user_pages flags start page 0 s = (True, s)"
| "map_user_pages flags start page (Suc n) s =
     (let (frame, fr) = alloc_page (frames (il_mmu s)); v1 = (il_mmu s)\<lparr>frames := fr\<rparr>
      in if frame = 0 then (False, s\<lparr>il_mmu := v1\<rparr>)
         else let m1 = memset (il_mem s) (phys_to_virt frame) 0 page_size
              in case as_map (p_space (il_proc s)) (start + page * page_size) frame page_size flags v1 of
                   (False, v2) \<Rightarrow> (False, s\<lparr>il_mmu := v2, il_mem := m1\<rparr>)
                 | (True, v2) \<Rightarrow>
                     map_user_pages flags start (page + 1) n
                       (s\<lparr>il_mmu := v2, il_mem := m1,
                          il_proc := (il_proc s)\<lparr>p_page_count := p_page_count (il_proc s) + 1\<rparr>\<rparr>))"

text \<open>The image is copied through the direct map, byte by byte; \<open>n\<close> bytes are left.\<close>

fun copy_segment :: "u64 \<Rightarrow> ProgramHeader \<Rightarrow> usize \<Rightarrow> nat \<Rightarrow> image_load \<Rightarrow> bool \<times> image_load" where
  "copy_segment img segment offset 0 s = (True, s)"
| "copy_segment img segment offset (Suc n) s =
     (let frame = as_translate (p_space (il_proc s)) (ph_virtual_address segment + offset) (il_mmu s)
      in if frame = 0 then (False, s)
         else copy_segment img segment (offset + 1) n
                (s\<lparr>il_mem := (il_mem s)(phys_to_virt frame := il_mem s (img + (ph_offset segment + offset)))\<rparr>))"

definition segment_start :: "ProgramHeader \<Rightarrow> virt_addr" where
  "segment_start segment = ph_virtual_address segment AND NOT (page_size - 1)"

definition segment_pages :: "ProgramHeader \<Rightarrow> usize" where
  "segment_pages segment =
     (ph_memory_size segment + (ph_virtual_address segment - segment_start segment) + page_size - 1) div page_size"

definition load_flags :: "ProgramHeader \<Rightarrow> PageFlags" where
  "load_flags segment =
     (if ph_flags segment AND program_flag_execute = 0 then (Flag_User OR Flag_Write) OR Flag_NoExecute
      else Flag_User OR Flag_Write)"

definition final_flags :: "ProgramHeader \<Rightarrow> PageFlags" where
  "final_flags segment =
     (if ph_flags segment AND program_flag_execute = 0 then Flag_User OR Flag_NoExecute else Flag_User)"

definition raise_brk :: "virt_addr \<Rightarrow> Process \<Rightarrow> Process" where
  "raise_brk end' p = (if end' > p_brk p then p\<lparr>p_brk := end'\<rparr> else p)"

text \<open>The result of the last \<open>protect\<close> is not looked at.\<close>

definition load_segment :: "u64 \<Rightarrow> ProgramHeader \<Rightarrow> image_load \<Rightarrow> bool \<times> image_load" where
  "load_segment img segment s =
     (if ph_type segment \<noteq> program_load \<or> ph_memory_size segment = 0 then (True, s)
      else if ph_virtual_address segment < user_base then (False, s)
      else case map_user_pages (load_flags segment) (segment_start segment) 0 (unat (segment_pages segment)) s of
             (False, s1) \<Rightarrow> (False, s1)
           | (True, s1) \<Rightarrow>
               (case copy_segment img segment 0 (unat (ph_file_size segment)) s1 of
                  (False, s2) \<Rightarrow> (False, s2)
                | (True, s2) \<Rightarrow>
                    let s3 = s2\<lparr>il_proc := raise_brk (ph_virtual_address segment + ph_memory_size segment) (il_proc s2)\<rparr>
                    in (True,
                        if ph_flags segment AND program_flag_write = 0
                        then s3\<lparr>il_mmu := snd (as_protect (p_space (il_proc s3)) (segment_start segment)
                                    (segment_pages segment * page_size) (final_flags segment) (il_mmu s3))\<rparr>
                        else s3)))"

fun load_segments :: "u64 \<Rightarrow> u64 \<Rightarrow> nat \<Rightarrow> nat \<Rightarrow> image_load \<Rightarrow> bool \<times> image_load" where
  "load_segments img headers i 0 s = (True, s)"
| "load_segments img headers i (Suc n) s =
     (case load_segment img (program_header_at (il_mem s) headers (of_nat i)) s of
        (False, s1) \<Rightarrow> (False, s1)
      | (True, s1) \<Rightarrow> load_segments img headers (i + 1) n s1)"

text \<open>
  The checks on the header, in the order of the code: the length, the magic and the machine, the
  type. The entry, the offset and the number of the program headers are the fields at 24, 32 and 56.
\<close>

definition executable_header :: "memory \<Rightarrow> u64 \<Rightarrow> usize \<Rightarrow> bool" where
  "executable_header m img len \<longleftrightarrow>
     \<not> len < 64 \<and> m img = 0x7F \<and> m (img + 1) = 0x45 \<and> m (img + 2) = 0x4C \<and> m (img + 3) = 0x46
   \<and> load_u16 m (img + 18) = machine_x86_64 \<and> load_u16 m (img + 16) = 2"

text \<open>A root table of its own, whose first entry is that of the kernel.\<close>

definition adopt_root :: "phys_addr \<Rightarrow> phys_addr \<Rightarrow> mmu \<Rightarrow> mmu" where
  "adopt_root kroot root v =
     (let v1 = fill_table (phys_to_virt root) (\<lambda>_. 0) v
      in store (slot (phys_to_virt root) 0) (qmem v1 (slot (phys_to_virt kroot) 0)) v1)"

definition process_load :: "phys_addr \<Rightarrow> u64 \<Rightarrow> usize \<Rightarrow> image_load \<Rightarrow> bool \<times> image_load" where
  "process_load kroot img len s =
     (if \<not> executable_header (il_mem s) img len then (False, s)
      else let (root, fr) = alloc_page (frames (il_mmu s)); v1 = (il_mmu s)\<lparr>frames := fr\<rparr>
           in if root = 0 then (False, s\<lparr>il_mmu := v1\<rparr>)
              else load_segments img (img + load_u64 (il_mem s) (img + 32)) 0 (unat (load_u16 (il_mem s) (img + 56)))
                     (s\<lparr>il_mmu := adopt_root kroot root v1,
                        il_proc := (il_proc s)\<lparr>p_space := root, p_entry := load_u64 (il_mem s) (img + 24)\<rparr>\<rparr>))"

definition process_map_stack :: "image_load \<Rightarrow> bool \<times> image_load" where
  "process_map_stack s =
     map_user_pages ((Flag_User OR Flag_Write) OR Flag_NoExecute)
       (user_stack_top - user_stack_pages * page_size) 0 (unat user_stack_pages) s"

section \<open>Running a program\<close>

definition set_process ::
  "nat \<Rightarrow> (Process \<Rightarrow> Process) \<Rightarrow> ('f, 's, 'z) proc_kernel_scheme \<Rightarrow> ('f, 's, 'z) proc_kernel_scheme" where
  "set_process i f s = s\<lparr>y_processes := (y_processes s)[i := f (y_processes s ! i)]\<rparr>"

definition on_vm :: "(mmu \<Rightarrow> mmu) \<Rightarrow> ('f, 's, 'z) proc_kernel_scheme \<Rightarrow> ('f, 's, 'z) proc_kernel_scheme" where
  "on_vm f s = s\<lparr>k_heap := (k_heap s)\<lparr>hp_vm := f (hp_vm (k_heap s))\<rparr>\<rparr>"

definition load_cr3 :: "u32 \<Rightarrow> phys_addr \<Rightarrow> ('f, 's, 'z) proc_kernel_scheme \<Rightarrow> ('f, 's, 'z) proc_kernel_scheme" where
  "load_cr3 c root s =
     on_vm (as_activate root) (s\<lparr>k_sched := set_percpu c (\<lambda>p. p\<lparr>c_cr3 := root\<rparr>) (k_sched s)\<rparr>)"

definition process_activate :: "u32 \<Rightarrow> nat \<Rightarrow> ('f, 's, 'z) proc_kernel_scheme \<Rightarrow> ('f, 's, 'z) proc_kernel_scheme" where
  "process_activate c i s =
     (let s1 = set_process i (\<lambda>p. p\<lparr>p_state := ProcRunning\<rparr>) (s\<lparr>y_current := Some i\<rparr>)
      in load_cr3 c (p_space (y_processes s1 ! i)) s1)"

definition process_release :: "phys_addr \<Rightarrow> u32 \<Rightarrow> ('f, 's, 'z) proc_kernel_scheme \<Rightarrow> ('f, 's, 'z) proc_kernel_scheme" where
  "process_release kroot c s = load_cr3 c kroot (s\<lparr>y_current := None\<rparr>)"

text \<open>The name of a program is what follows the last slash of its path.\<close>

fun base_name :: "string \<Rightarrow> string \<Rightarrow> string" where
  "base_name name [] = name"
| "base_name name (ch # rest) = base_name (if ch = CHR ''/'' then rest else name) rest"

primrec write_bytes :: "u64 \<Rightarrow> u8 list \<Rightarrow> memory \<Rightarrow> memory" where
  "write_bytes a [] m = m"
| "write_bytes a (b # bs) m = write_bytes (a + 1) bs (m(a := b))"

text \<open>What the thread and the processor are told before the program is entered and after it left.\<close>

definition set_thread_stack :: "u32 \<Rightarrow> virt_addr \<Rightarrow> phys_addr \<Rightarrow> sched \<Rightarrow> sched" where
  "set_thread_stack c stack root s =
     (let self = c_current (cpus s c)
      in if self \<noteq> 0 then set_thread self (\<lambda>t. t\<lparr>t_syscall_stack := stack, t_space_root := root\<rparr>) s else s)"

definition run_loaded ::
  "(u64 \<Rightarrow> u64 \<Rightarrow> ('f, 's, 'z) proc_kernel_scheme \<Rightarrow> ('f, 's, 'z) proc_kernel_scheme) \<Rightarrow> phys_addr \<Rightarrow> u32 \<Rightarrow> nat \<Rightarrow>
   ('f, 's, 'z) proc_kernel_scheme \<Rightarrow> (int \<times> u32 option) \<times> ('f, 's, 'z) proc_kernel_scheme" where
  "run_loaded user kroot c i s =
     (let (stack, fr) = alloc_pages 4 (frames (hp_vm (k_heap s)));
          s1 = on_vm (\<lambda>v. v\<lparr>frames := fr\<rparr>) s
      in if stack = 0 then ((-1, None), s1)
         else let top = phys_to_virt stack + 4 * page_size;
                  s2 = s1\<lparr>k_sched := tss_set_kernel_stack c top
                          (set_thread_stack c top (p_space (y_processes s1 ! i)) (k_sched s1))\<rparr>;
                  s3 = process_activate c i s2;
                  s4 = user (p_entry (y_processes s3 ! i)) (user_stack_top - 64) s3;
                  s5 = process_release kroot c s4;
                  s6 = s5\<lparr>k_sched := set_thread_stack c 0 0 (k_sched s5)\<rparr>;
                  s7 = on_vm (\<lambda>v. v\<lparr>frames := free_pages stack 4 (frames v)\<rparr>) s6
              in ((0, Some (p_exit_code (y_processes s7 ! i))), s7))"

definition start_process ::
  "phys_addr \<Rightarrow> u64 \<Rightarrow> usize \<Rightarrow> nat \<Rightarrow> ('f, 's, 'z) proc_kernel_scheme \<Rightarrow> bool \<times> ('f, 's, 'z) proc_kernel_scheme" where
  "start_process kroot img len i s =
     (let put = (\<lambda>l. on_vm (\<lambda>_. il_mmu l) (set_process i (\<lambda>_. il_proc l) (s\<lparr>y_mem := il_mem l\<rparr>)))
      in case process_load kroot img len \<lparr>il_proc = y_processes s ! i, il_mmu = hp_vm (k_heap s), il_mem = y_mem s\<rparr> of
           (False, l) \<Rightarrow> (False, put l)
         | (True, l) \<Rightarrow> (case process_map_stack l of (ok, l1) \<Rightarrow> (ok, put l1)))"

definition process_run ::
  "('n, 's) inode_ops \<Rightarrow> ('f \<Rightarrow> 's \<Rightarrow> 'n option \<times> 's) \<Rightarrow>
   (u64 \<Rightarrow> u64 \<Rightarrow> ('f, 's, 'z) proc_kernel_scheme \<Rightarrow> ('f, 's, 'z) proc_kernel_scheme) \<Rightarrow>
   phys_addr \<Rightarrow> u32 \<Rightarrow> string \<Rightarrow> ('f, 's, 'z) proc_kernel_scheme \<Rightarrow>
   ((int \<times> u32 option) \<times> ('f, 's, 'z) proc_kernel_scheme) option" where
  "process_run ops root user kroot c path s =
     (case vfs_stat ops root (y_vfs s) (Some path) (y_files s) of
        (None, fs) \<Rightarrow> Some ((-1, None), s\<lparr>y_files := fs\<rparr>)
      | (Some status, fs) \<Rightarrow>
          if stat_size status = 0 \<or> stat_size status > max_program_bytes then Some ((-1, None), s\<lparr>y_files := fs\<rparr>)
          else map_option (\<lambda>(img, h1).
            let s1 = s\<lparr>y_files := fs, k_heap := h1\<rparr>
            in if img = 0 then ((-1, None), s1)
               else case read_file ops root (y_vfs s1) (Some path) (stat_size status) (y_files s1) of
                 ((got, bytes), fs2) \<Rightarrow>
                   let s2 = s1\<lparr>y_files := fs2, y_mem := write_bytes img bytes (y_mem s1)\<rparr>;
                       free_image = (\<lambda>s. s\<lparr>k_heap := kfree img (k_heap s)\<rparr>)
                   in if got \<le> 0 then ((-1, None), free_image s2)
                      else case process_allocate (base_name path path) s2 of
                             (None, s3) \<Rightarrow> ((-1, None), free_image s3)
                           | (Some i, s3) \<Rightarrow>
                               (case start_process kroot img (of_int got) i s3 of
                                  (False, s4) \<Rightarrow> ((-1, None), free_image s4)
                                | (True, s4) \<Rightarrow> run_loaded user kroot c i (free_image s4)))
            (kmalloc kroot (stat_size status) (k_heap s)))"

end
