(* ===== verification/Syscall.thy ===== *)
theory Syscall
  imports Process
begin

unbundle bit_operations_syntax

text \<open>
  System calls, \<^verbatim>\<open>kernel/proc/syscall.cpp\<close>: the checks on what a program hands over, the table of
  open files and the dispatcher.

  The handlers follow the pointers of the program, so the accesses go through the page tables that
  are loaded, as the processor does it: an address that is not canonical, a page that is not present
  or a write to a read only page is a fault in the kernel, which it does not survive. The fault is the
  left of the result. The bytes of a write are read before the file is looked up; the code reads them
  while it stores them, which differs only where the range faults.
\<close>

section \<open>Accesses of the processor\<close>

definition canonical :: "virt_addr \<Rightarrow> bool" where
  "canonical a \<longleftrightarrow> drop_bit 47 a = 0 \<or> drop_bit 47 a = 0x1FFFF"

fun access_loop :: "bool \<Rightarrow> nat \<Rightarrow> virt_addr \<Rightarrow> u64 \<Rightarrow> (u64 \<Rightarrow> u64) \<Rightarrow> phys_addr option" where
  "access_loop wr 0 a table m =
     (let e = m (slot table (index_of a 0))
      in if e AND pte_present = 0 \<or> wr \<and> e AND pte_write = 0 then None
         else Some ((e AND pte_address_mask) + (a AND (page_size - 1))))"
| "access_loop wr (Suc n) a table m =
     (let e = m (slot table (index_of a (Suc n)))
      in if e AND pte_present = 0 \<or> wr \<and> e AND pte_write = 0 then None
         else if e AND pte_huge \<noteq> 0 then Some ((e AND pte_address_mask) + (a AND (huge_page_size - 1)))
         else access_loop wr n a (table_at e) m)"

definition kernel_access :: "bool \<Rightarrow> virt_addr \<Rightarrow> mmu \<Rightarrow> phys_addr option" where
  "kernel_access wr a v = (if canonical a then access_loop wr 3 a (table_at (cr3 v)) (qmem v) else None)"

datatype kernel_fault = KernelFault virt_addr

section \<open>State\<close>

datatype Call = Call_Exit | Call_Write | Call_Read | Call_GetPid | Call_Sleep | Call_Open | Call_Close | Call_Time

definition call_of :: "u64 \<Rightarrow> Call option" where
  "call_of number =
     (if number = 0 then Some Call_Exit else if number = 1 then Some Call_Write else if number = 2 then Some Call_Read
      else if number = 3 then Some Call_GetPid else if number = 4 then Some Call_Sleep else if number = 5 then Some Call_Open
      else if number = 6 then Some Call_Close else if number = 7 then Some Call_Time else None)"

definition max_open_files :: nat where [simp]: "max_open_files = 8"
definition max_user_string :: usize where [simp]: "max_user_string = 1024"

record OpenFile =
  of_used :: bool
  of_offset :: u64
  of_path :: string

record ('f, 's) system = "('f, 's) proc_kernel" +
  y_open :: "OpenFile list"
  y_console :: "u8 list"

definition vm_of :: "('f, 's) system \<Rightarrow> mmu" where
  "vm_of s = hp_vm (k_heap s)"

primrec read_user :: "('f, 's) system \<Rightarrow> virt_addr \<Rightarrow> nat \<Rightarrow> kernel_fault + u8 list" where
  "read_user s a 0 = Inr []"
| "read_user s a (Suc n) =
     (case kernel_access False a (vm_of s) of
        None \<Rightarrow> Inl (KernelFault a)
      | Some p \<Rightarrow> (case read_user s (a + 1) n of Inl f \<Rightarrow> Inl f | Inr bs \<Rightarrow> Inr (y_mem s p # bs)))"

primrec write_user :: "virt_addr \<Rightarrow> u8 list \<Rightarrow> ('f, 's) system \<Rightarrow> kernel_fault + ('f, 's) system" where
  "write_user a [] s = Inr s"
| "write_user a (b # bs) s =
     (case kernel_access True a (vm_of s) of
        None \<Rightarrow> Inl (KernelFault a)
      | Some p \<Rightarrow> write_user (a + 1) bs (s\<lparr>y_mem := (y_mem s)(p := b)\<rparr>))"

text \<open>A string of the program up to its end; \<open>None\<close> is a string that never ends.\<close>

partial_function (option) read_user_string :: "('f, 's) system \<Rightarrow> virt_addr \<Rightarrow> (kernel_fault + string) option" where
  "read_user_string s a =
     (if kernel_access False a (vm_of s) = None then Some (Inl (KernelFault a))
      else let b = y_mem s (the (kernel_access False a (vm_of s)))
           in if b = 0 then Some (Inr [])
              else Option.bind (read_user_string s (a + 1)) (\<lambda>r.
                Some (case r of Inl f \<Rightarrow> Inl f | Inr cs \<Rightarrow> Inr (char_of (unat b) # cs))))"

declare read_user_string.simps [code]

section \<open>Handlers\<close>

definition user_range_ok :: "virt_addr \<Rightarrow> usize \<Rightarrow> ('f, 's) system \<Rightarrow> bool" where
  "user_range_ok address len s =
     (case current_process s of
        None \<Rightarrow> False
      | Some i \<Rightarrow> len \<le> max_user_string \<and> process_owns address len (vm_of s) (y_processes s ! i))"

definition sys_write ::
  "('n, 's) inode_ops \<Rightarrow> ('f \<Rightarrow> 's \<Rightarrow> 'n option \<times> 's) \<Rightarrow> u64 \<Rightarrow> u64 \<Rightarrow> u64 \<Rightarrow> ('f, 's) system \<Rightarrow>
   kernel_fault + int \<times> ('f, 's) system" where
  "sys_write ops root handle buffer len s =
     (if \<not> user_range_ok buffer len s then Inr (-1, s)
      else if handle = 1 \<or> handle = 2
      then case read_user s buffer (unat len) of
             Inl f \<Rightarrow> Inl f
           | Inr text \<Rightarrow> Inr (sint len, s\<lparr>y_console := y_console s @ text\<rparr>)
      else let index = handle - 3
           in if unat index \<ge> max_open_files \<or> \<not> of_used (y_open s ! unat index) then Inr (-1, s)
              else case read_user s buffer (unat len) of
                     Inl f \<Rightarrow> Inl f
                   | Inr text \<Rightarrow>
                       (case write_file ops root (y_vfs s) (Some (of_path (y_open s ! unat index))) text (y_files s) of
                          (written, fs) \<Rightarrow> Inr (written, s\<lparr>y_files := fs\<rparr>)))"

fun free_slot :: "OpenFile list \<Rightarrow> nat option" where
  "free_slot [] = None"
| "free_slot (f # fs) = (if of_used f then map_option Suc (free_slot fs) else Some 0)"

definition sys_open ::
  "('n, 's) inode_ops \<Rightarrow> ('f \<Rightarrow> 's \<Rightarrow> 'n option \<times> 's) \<Rightarrow> u64 \<Rightarrow> ('f, 's) system \<Rightarrow>
   (kernel_fault + int \<times> ('f, 's) system) option" where
  "sys_open ops root path s =
     (if \<not> user_range_ok path 1 s then Some (Inr (-1, s))
      else map_option (\<lambda>r. case r of
        Inl f \<Rightarrow> Inl f
      | Inr name \<Rightarrow>
          (case vfs_stat ops root (y_vfs s) (Some name) (y_files s) of
             (None, fs) \<Rightarrow> Inr (-1, s\<lparr>y_files := fs\<rparr>)
           | (Some status, fs) \<Rightarrow>
               (case free_slot (y_open s) of
                  None \<Rightarrow> Inr (-1, s\<lparr>y_files := fs\<rparr>)
                | Some i \<Rightarrow> Inr (int i + 3, s\<lparr>y_files := fs,
                    y_open := (y_open s)[i := \<lparr>of_used = True, of_offset = 0, of_path = bounded_copy 128 name\<rparr>]\<rparr>))))
        (read_user_string s path))"

definition sys_read ::
  "('n, 's) inode_ops \<Rightarrow> ('f \<Rightarrow> 's \<Rightarrow> 'n option \<times> 's) \<Rightarrow> u64 \<Rightarrow> u64 \<Rightarrow> u64 \<Rightarrow> ('f, 's) system \<Rightarrow>
   kernel_fault + int \<times> ('f, 's) system" where
  "sys_read ops root handle buffer len s =
     (if \<not> user_range_ok buffer len s then Inr (-1, s)
      else let index = unat (handle - 3)
           in if handle < 3 \<or> index \<ge> max_open_files \<or> \<not> of_used (y_open s ! index) then Inr (-1, s)
              else case resolve_path ops root (y_vfs s) (Some (of_path (y_open s ! index))) (y_files s) of
                     (None, fs) \<Rightarrow> Inr (-1, s\<lparr>y_files := fs\<rparr>)
                   | (Some node, fs) \<Rightarrow>
                       (case o_read ops node (of_offset (y_open s ! index)) len fs of
                          ((got, bytes), fs2) \<Rightarrow>
                            (case write_user buffer bytes (s\<lparr>y_files := fs2\<rparr>) of
                               Inl f \<Rightarrow> Inl f
                             | Inr s2 \<Rightarrow>
                                 Inr (got, if got > 0
                                   then s2\<lparr>y_open := (y_open s2)[index := (y_open s2 ! index)
                                          \<lparr>of_offset := of_offset (y_open s2 ! index) + of_int got\<rparr>]\<rparr>
                                   else s2))))"

definition sys_close :: "u64 \<Rightarrow> ('f, 's) system \<Rightarrow> int \<times> ('f, 's) system" where
  "sys_close handle s =
     (let index = unat (handle - 3)
      in if handle < 3 \<or> index \<ge> max_open_files \<or> \<not> of_used (y_open s ! index) then (-1, s)
         else (0, s\<lparr>y_open := (y_open s)[index := (y_open s ! index)\<lparr>of_used := False\<rparr>]\<rparr>))"

section \<open>The dispatcher\<close>

record SyscallFrame =
  sf_number :: u64
  sf_first :: u64
  sf_second :: u64
  sf_third :: u64
  sf_fourth :: u64
  sf_fifth :: u64
  sf_sixth :: u64

text \<open>A call comes back to the program with its frame, or the program is left for good.\<close>

datatype call_end = Resumed SyscallFrame | LeftUserMode

definition answer :: "SyscallFrame \<Rightarrow> int \<times> ('f, 's) system \<Rightarrow> call_end \<times> ('f, 's) system" where
  "answer frame r = (Resumed (frame\<lparr>sf_number := of_int (fst r)\<rparr>), snd r)"

text \<open>\<open>now\<close> is the monotonic clock at the call, \<open>c\<close> the processor it runs on.\<close>

definition syscall_dispatch ::
  "('n, 's) inode_ops \<Rightarrow> ('f \<Rightarrow> 's \<Rightarrow> 'n option \<times> 's) \<Rightarrow> phys_addr \<Rightarrow> u32 \<Rightarrow> u64 \<Rightarrow> SyscallFrame \<Rightarrow> ('f, 's) system \<Rightarrow>
   (kernel_fault + call_end \<times> ('f, 's) system) option" where
  "syscall_dispatch ops root kroot c now frame s =
     (case call_of (sf_number frame) of
        Some Call_Exit \<Rightarrow>
          Some (Inr (LeftUserMode,
            case current_process s of
              None \<Rightarrow> s
            | Some i \<Rightarrow> set_process i (process_exit (ucast (sf_first frame))) s))
      | Some Call_Write \<Rightarrow>
          Some (map_sum id (answer frame) (sys_write ops root (sf_first frame) (sf_second frame) (sf_third frame) s))
      | Some Call_Read \<Rightarrow>
          Some (map_sum id (answer frame) (sys_read ops root (sf_first frame) (sf_second frame) (sf_third frame) s))
      | Some Call_GetPid \<Rightarrow>
          Some (Inr (Resumed (frame\<lparr>sf_number := (case current_process s of None \<Rightarrow> 0 | Some i \<Rightarrow> ucast (p_id (y_processes s ! i)))\<rparr>), s))
      | Some Call_Sleep \<Rightarrow>
          Some (Inr (Resumed (frame\<lparr>sf_number := 0\<rparr>),
            s\<lparr>k_sched := thread_sleep_ms kroot c now (sf_first frame) (k_sched s)\<rparr>))
      | Some Call_Open \<Rightarrow> map_option (map_sum id (answer frame)) (sys_open ops root (sf_first frame) s)
      | Some Call_Close \<Rightarrow> Some (Inr (answer frame (sys_close (sf_first frame) s)))
      | Some Call_Time \<Rightarrow> Some (Inr (Resumed (frame\<lparr>sf_number := now\<rparr>), s))
      | None \<Rightarrow> Some (Inr (Resumed (frame\<lparr>sf_number := -1\<rparr>), s)))"

section \<open>The call gate\<close>

record syscall_msrs =
  msr_efer :: u64
  msr_star :: u64
  msr_lstar :: u64
  msr_sfmask :: u64

definition efer_syscall_enable :: u64 where [simp]: "efer_syscall_enable = 1"
definition selector_kernel_code :: u16 where [simp]: "selector_kernel_code = 0x08"
definition selector_user_base :: u16 where [simp]: "selector_user_base = 0x18"
definition selector_user_data :: u16 where [simp]: "selector_user_data = 0x20"
definition selector_user_code :: u16 where [simp]: "selector_user_code = 0x28"

definition syscall_init_cpu :: "u64 \<Rightarrow> syscall_msrs \<Rightarrow> syscall_msrs" where
  "syscall_init_cpu syscall_entry m =
     \<lparr>msr_efer = msr_efer m OR efer_syscall_enable,
      msr_star = push_bit 48 (ucast selector_user_base) OR push_bit 32 (ucast selector_kernel_code),
      msr_lstar = syscall_entry, msr_sfmask = push_bit 9 1\<rparr>"

text \<open>
  \<open>sysret\<close> takes the data selector eight above and the code selector sixteen above the base in the
  upper word, \<open>syscall\<close> the code selector in the word below it: the layout of the GDT fits both.
\<close>

lemma sysret_selectors:
  "drop_bit 48 (msr_star (syscall_init_cpu e m)) + 8 = ucast selector_user_data"
  "drop_bit 48 (msr_star (syscall_init_cpu e m)) + 16 = ucast selector_user_code"
  "take_bit 16 (drop_bit 32 (msr_star (syscall_init_cpu e m))) = ucast selector_kernel_code"
  by (simp_all add: syscall_init_cpu_def)

end
