(* ===== verification/Process_Correct.thy ===== *)
theory Process_Correct
  imports Process Loader_Correct Heap_Alloc Stacks
begin

unbundle bit_operations_syntax

text \<open>
  What \<open>load\<close> builds: an address space that shares the kernel below the user base and holds the
  segments of the program above it, each in frames of its own.
\<close>

section \<open>One page of a user space\<close>

lemma as_map_page: "as_map root a f page_size flags s = map_page root a f flags s"
proof -
  have "page_loop (\<lambda>offset. map_page root (a + offset) (f + offset) flags) 4096 4096 t = (True, t)" for t
    by (simp add: page_loop.simps)
  then show ?thesis
    by (cases "map_page root a f flags s") (auto simp: as_map_def page_loop.simps [of _ 4096 0] split: bool.splits)
qed

text \<open>The page of an address is mapped by an entry of a page table, not by a huge page.\<close>

definition small_mapped :: "(u64 \<Rightarrow> u64) \<Rightarrow> phys_addr \<Rightarrow> virt_addr \<Rightarrow> bool" where
  "small_mapped m root w \<longleftrightarrow>
     (\<exists>t. walk m 3 root (path_of w) = Some t \<and> bit (ent m t (index_of w 0)) 0)"

lemma small_mapped_vpn: "vpn w = vpn v \<Longrightarrow> small_mapped m root w \<longleftrightarrow> small_mapped m root v"
  using same_leaf [of w v] by (simp add: small_mapped_def)

lemma small_mapped_same:
  assumes "vm_same root s s'" "small_mapped (qmem s) root w"
  shows "small_mapped (qmem s') root w"
  using assms vm_sameD(4,5) [OF assms(1)] unfolding small_mapped_def
  by (metis index_of_less valid_path_of(1,2))

lemma small_mapped_store:
  assumes inv: "vm_inv root s" and t: "walk (qmem s) 3 root (path_of v) = Some t" and e: "bit e 0"
    and w: "vpn w = vpn v \<or> small_mapped (qmem s) root w"
  shows "small_mapped (qmem (store (slot t (index_of v 0)) e s)) root w"
proof -
  have wf: "wf_tables (qmem s) root (allocated (frames s))" using inv by (simp add: vm_inv_def)
  have walk: "walk (qmem (store (slot t (index_of v 0)) e s)) 3 root (path_of w) = walk (qmem s) 3 root (path_of w)"
    using walk_leaf_write [OF wf valid_path_of t, of "index_of v 0" "path_of w" e] by simp
  show ?thesis
  proof (cases "vpn w = vpn v")
    case True
    then have "path_of w = path_of v" "index_of w 0 = index_of v 0" using same_leaf by blast+
    then show ?thesis using walk t e by (simp add: small_mapped_def ent_def)
  next
    case False
    then obtain t' where t': "walk (qmem s) 3 root (path_of w) = Some t'" "bit (ent (qmem s) t' (index_of w 0)) 0"
      using w by (auto simp: small_mapped_def)
    have al: "page_aligned t" "page_aligned t'" using wf_aligned [OF wf] t t'(1) by blast+
    have "bit (ent (qmem (store (slot t (index_of v 0)) e s)) t' (index_of w 0)) 0"
      using t'(2) e al by (simp add: ent_update del: fun_upd_apply)
    then show ?thesis using walk t'(1) by (auto simp: small_mapped_def)
  qed
qed

lemma small_mapped_map_page:
  assumes inv: "vm_inv root s" and step: "map_page root v frame flags s = (True, s')"
    and w: "vpn w = vpn v \<or> small_mapped (qmem s) root w"
  shows "small_mapped (qmem s') root w"
proof -
  obtain t s1 where tf: "table_for root v True (has_flag flags Flag_User) s = (Some t, s1)"
    and s': "s' = invalidate v (store (slot t (index_of v 0)) ((frame AND pte_address_mask) OR encode flags) s1)"
    using step by (auto simp: map_page_def split: prod.splits option.splits)
  note T = table_for_spec [OF inv tf]
  have "vpn w = vpn v \<or> small_mapped (qmem s1) root w" using w small_mapped_same [OF T(1)] by blast
  then show ?thesis
    unfolding s' invalidate_simps using leaf_entry [of frame flags]
    by (intro small_mapped_store [OF vm_sameD(1) [OF T(1)] T(2) [OF refl]]) auto
qed

lemma table_for_loop_present:
  assumes "n \<le> 3" "vm_inv root s" "p = take (3 - n) (path_of v)" "walk (qmem s) 3 root p = Some t"
    and "walk (qmem s) 3 root (path_of v) = Some tf"
  shows "\<exists>s'. table_for_loop n v create user t s = (Some tf, s')"
  using assms
proof (induction n arbitrary: s p t)
  case 0
  then show ?case by simp
next
  case (Suc n)
  define i where "i = index_of v (Suc n)"
  have len: "length p = 2 - n" "3 - length p = Suc n" using Suc.prems(1,3) by simp_all
  have "n = 0 \<or> n = 1 \<or> n = 2" using Suc.prems(1) by auto
  then have ext: "take (3 - n) (path_of v) = p @ [i]"
    using Suc.prems(3) by (auto simp: path_of_def dir_path_def i_def numeral_3_eq_3 numeral_2_eq_2)
  then have path: "path_of v = (p @ [i]) @ drop (3 - n) (path_of v)" by (metis append_take_drop_id)
  have p: "valid_path (p @ [i])" using valid_path_append valid_path_of(1) [of v] path by metis
  have "walk (qmem s) 3 root (path_of v) =
      Option.bind (walk (qmem s) 3 root (p @ [i])) (\<lambda>t'. walk (qmem s) (3 - length (p @ [i])) t' (drop (3 - n) (path_of v)))"
    by (subst path) (rule walk_append)
  then obtain t' where t': "walk (qmem s) 3 root (p @ [i]) = Some t'"
    using Suc.prems(5) by (cases "walk (qmem s) 3 root (p @ [i])") auto
  then have nt: "next_table (qmem s) (Suc n) t i = Some t'" using Suc.prems(4) len by (simp add: walk_snoc)
  then have pr: "bit (ent (qmem s) t i) 0" "\<not> (n = 0 \<and> bit (ent (qmem s) t i) 7)"
    by (auto simp: next_table_def Let_def split: if_splits)
  have e: "ensure_table (slot t i) create s = (True, s)"
    using pr(1) by (simp add: ensure_table_def ent_def pte_simps)
  define s1 where "s1 = (if user then store (slot t i) (qmem s (slot t i) OR pte_user) s else s)"
  have d: "descend (slot t i) (Suc n) v create user s = (True, s1)"
    using pr(2) by (auto simp: descend_def Let_def s1_def ent_def pte_simps bit_or_iff)
  note D = descend_spec [OF Suc.prems(2) p Suc.prems(4) pr(1), unfolded len(2), OF d]
  have "\<exists>s'. table_for_loop n v create user (table_at (qmem s1 (slot t i))) s1 = (Some tf, s')"
    using Suc.prems(1) D(2) vm_sameD(4) [OF D(1) valid_path_of(1) Suc.prems(5)]
    by (intro Suc.IH [OF _ vm_sameD(1) [OF D(1)] ext [symmetric]]) simp_all
  then show ?case using e d by (simp add: i_def [symmetric])
qed

lemma table_for_present:
  assumes "vm_inv root s" and "walk (qmem s) 3 root (path_of v) = Some t"
  shows "\<exists>s'. table_for root v create user s = (Some t, s')"
  using table_for_loop_present [of 3 root s "[]" v root t create user] assms
  by (simp add: table_for_def vm_inv_root)

lemma protect_page_succeeds:
  assumes inv: "vm_inv root s" and w: "small_mapped (qmem s) root v"
  obtains s' where "protect_page root v flags s = (True, s')"
    and "\<And>w. small_mapped (qmem s) root w \<Longrightarrow> small_mapped (qmem s') root w"
    and "allocated (frames s) \<subseteq> allocated (frames s')"
proof -
  obtain t where t: "walk (qmem s) 3 root (path_of v) = Some t" "bit (ent (qmem s) t (index_of v 0)) 0"
    using w by (auto simp: small_mapped_def)
  obtain s1 where tf: "table_for root v True (has_flag flags Flag_User) s = (Some t, s1)"
    using table_for_present [OF inv t(1)] by blast
  note T = table_for_spec [OF inv tf]
  let ?e = "qmem s1 (slot t (index_of v 0))"
  have b: "bit ?e 0" using t vm_sameD(5) [OF T(1) valid_path_of t(1)] by (simp add: ent_def)
  let ?s' = "invalidate v (store (slot t (index_of v 0)) ((?e AND pte_address_mask) OR encode flags) s1)"
  have "protect_page root v flags s = (True, ?s')"
    using tf b by (simp add: protect_page_def Let_def pte_simps)
  moreover have "small_mapped (qmem ?s') root w" if "small_mapped (qmem s) root w" for w
    unfolding invalidate_simps using small_mapped_same [OF T(1) that] leaf_entry(1)
    by (intro small_mapped_store [OF vm_sameD(1) [OF T(1)] T(2) [OF refl]]) auto
  moreover have "allocated (frames s) \<subseteq> allocated (frames ?s')"
    using vm_sameD(6) [OF T(1)] by (simp add: tables_kept_def)
  ultimately show thesis using that by blast
qed

lemma as_protect_succeeds:
  assumes inv: "vm_inv root s"
    and m: "\<forall>k < pages (unat len). small_mapped (qmem s) root (a + of_nat (4096 * k))"
  shows "\<exists>s'. as_protect root a len flags s = (True, s')
    \<and> (\<forall>w. small_mapped (qmem s) root w \<longrightarrow> small_mapped (qmem s') root w)
    \<and> allocated (frames s) \<subseteq> allocated (frames s')"
proof -
  let ?I = "\<lambda>j t. vm_inv root t \<and> (\<forall>w. small_mapped (qmem s) root w \<longrightarrow> small_mapped (qmem t) root w)
    \<and> allocated (frames s) \<subseteq> allocated (frames t)"
  have "\<exists>s'. page_loop (\<lambda>offset. protect_page root (a + offset) flags) (unat len) (4096 * 0) s = (True, s') \<and> ?I (pages (unat len)) s'"
  proof (rule page_loop_succeeds [where I = ?I])
    fix j t assume "j < pages (unat len)" and I: "?I j t"
    then have "small_mapped (qmem t) root (a + of_nat (4096 * j))" using m by blast
    from protect_page_succeeds [OF conjunct1 [OF I] this, of flags]
    obtain t' where t': "protect_page root (a + of_nat (4096 * j)) flags t = (True, t')"
      "\<And>w. small_mapped (qmem t) root w \<Longrightarrow> small_mapped (qmem t') root w"
      "allocated (frames t) \<subseteq> allocated (frames t')" by blast
    then show "\<exists>t'. protect_page root (a + of_nat (4096 * j)) flags t = (True, t') \<and> ?I (Suc j) t'"
      using I protect_page_spec(1) [OF conjunct1 [OF I] t'(1)] by blast
  qed (use inv in auto)
  then show ?thesis by (auto simp: as_protect_def)
qed

section \<open>User spaces\<close>

text \<open>
  The part of an address space above the kernel. Its pages are mapped one by one, and no two of
  them share a frame, so a byte written to one address is seen at no other.
\<close>

definition user_address :: "virt_addr \<Rightarrow> bool" where
  "user_address w \<longleftrightarrow> 2 ^ 39 \<le> unat w \<and> unat w < 2 ^ 48"

definition frame_no :: "u64 \<Rightarrow> nat" where
  "frame_no a = unat a div 4096"

definition user_ok :: "phys_addr \<Rightarrow> mmu \<Rightarrow> bool" where
  "user_ok root v \<longleftrightarrow> vm_inv root v
   \<and> (\<forall>w. user_address w \<longrightarrow> as_translate root w v \<noteq> 0 \<longrightarrow>
        small_mapped (qmem v) root w \<and> frame_no (as_translate root w v) \<in> allocated (frames v))
   \<and> (\<forall>w w'. user_address w \<longrightarrow> user_address w' \<longrightarrow> as_translate root w v \<noteq> 0 \<longrightarrow> as_translate root w' v \<noteq> 0 \<longrightarrow>
        frame_no (as_translate root w v) = frame_no (as_translate root w' v) \<longrightarrow> frame_no w = frame_no w')"

lemma user_okD:
  assumes "user_ok root v"
  shows "vm_inv root v"
    and "\<And>w. user_address w \<Longrightarrow> as_translate root w v \<noteq> 0 \<Longrightarrow> small_mapped (qmem v) root w"
    and "\<And>w. user_address w \<Longrightarrow> as_translate root w v \<noteq> 0 \<Longrightarrow> frame_no (as_translate root w v) \<in> allocated (frames v)"
    and "\<And>w w'. user_address w \<Longrightarrow> user_address w' \<Longrightarrow> as_translate root w v \<noteq> 0 \<Longrightarrow> as_translate root w' v \<noteq> 0 \<Longrightarrow>
        frame_no (as_translate root w v) = frame_no (as_translate root w' v) \<Longrightarrow> frame_no w = frame_no w'"
  using assms unfolding user_ok_def by blast+

lemma vpn_low: "unat w < 2 ^ 48 \<Longrightarrow> vpn w = frame_no w"
  by (simp add: vpn_def frame_no_def less_mult_imp_div_less)

lemma frame_span: "page_aligned f \<Longrightarrow> unat (b - f) < 4096 \<longleftrightarrow> frame_no b = frame_no f"
proof -
  assume "page_aligned f"
  then obtain q where q: "unat f = 4096 * q" unfolding page_aligned_def dvd_def by blast
  have bound: "unat f \<le> 18446744073709551616 - 4096" "unat b < 18446744073709551616"
    using u64_bound [of f] u64_bound [of b] q by auto
  show ?thesis
  proof (cases "f \<le> b")
    case True
    then have "unat (b - f) = unat b - 4096 * q" "4096 * q \<le> unat b"
      using q by (simp_all add: unat_u64_sub word_le_nat_alt)
    then show ?thesis by (auto simp: frame_no_def q div_4096_eq)
  next
    case False
    then have "unat (b - f) = 18446744073709551616 + unat b - unat f" "unat b < unat f"
      by (simp_all add: unat_sub_if' word_le_nat_alt)
    then show ?thesis using bound q by (auto simp: frame_no_def div_4096_eq)
  qed
qed

lemma in_frame:
  assumes "page_aligned f" "unat f < 1073741824"
  shows "unat (f + (w AND 4095)) = unat f + unat w mod 4096" "frame_no (f + (w AND 4095)) = frame_no f"
proof -
  have m: "unat (w AND 4095) = unat w mod 4096" by (rule unat_and_4095)
  moreover have "unat w mod 4096 < 4096" by simp
  ultimately have "unat f + unat (w AND 4095) < 18446744073709551616" using assms(2) by linarith
  then show u: "unat (f + (w AND 4095)) = unat f + unat w mod 4096"
    unfolding m [symmetric] by (rule unat_u64_add)
  show "frame_no (f + (w AND 4095)) = frame_no f"
    using assms(1) unfolding frame_no_def u page_aligned_def dvd_def by auto
qed

text \<open>A fresh frame under one page.\<close>

lemma map_user_page:
  assumes ok: "user_ok root v" and a: "alloc_page (frames v) = (f, fr)" "f \<noteq> 0"
    and u: "page_aligned p" "user_address p" and m: "map_page root p f flags (v\<lparr>frames := fr\<rparr>) = (True, v')"
  shows "user_ok root v'" and "frame_no f \<notin> allocated (frames v)" and "frame_no f \<in> allocated (frames v')"
    and "allocated (frames v) \<subseteq> allocated (frames v')" and "page_aligned f"
    and "\<And>w. unat w < 2 ^ 48 \<Longrightarrow> as_translate root w v' = (if frame_no w = frame_no p then f + (w AND 4095) else as_translate root w v)"
    and "\<And>w. unat w < 2 ^ 48 \<Longrightarrow> rights (qmem v') root w = (if frame_no w = frame_no p then flag_rights flags else rights (qmem v) root w)"
    and "\<And>w. f + (w AND 4095) \<noteq> 0"
proof -
  note F = vm_inv_take_frame [OF user_okD(1) [OF ok] a]
  note M = map_page_spec [OF F(1) m]
  have mask: "f AND pte_address_mask = f" using F(2,5) by (intro mask_frame) simp_all
  note I = in_frame [OF F(2,5)]
  show fresh: "frame_no f \<notin> allocated (frames v)" using F(3) by (simp add: frame_no_def)
  have keep: "allocated fr \<subseteq> allocated (frames v')"
    using map_page_tables_kept [OF F(1) m] by (simp add: tables_kept_def)
  show sub: "allocated (frames v) \<subseteq> allocated (frames v')" using keep F(4) by auto
  show mem: "frame_no f \<in> allocated (frames v')" using keep F(4) by (auto simp: frame_no_def)
  show "page_aligned f" by (rule F(2))
  show nz: "f + (w AND 4095) \<noteq> 0" for w using I(1) [of w] F(6) by (metis add_is_0 not_numeral_le_zero unat_0)
  have vpn: "vpn w = vpn p \<longleftrightarrow> frame_no w = frame_no p" if "unat w < 2 ^ 48" for w
    using vpn_low that u(2) by (simp add: user_address_def)
  show tr: "as_translate root w v' = (if frame_no w = frame_no p then f + (w AND 4095) else as_translate root w v)"
    if "unat w < 2 ^ 48" for w
    using M(2) [of w] vpn [OF that] mask vm_inv_translate [OF M(1)] vm_inv_translate [OF user_okD(1) [OF ok]] by simp
  show "rights (qmem v') root w = (if frame_no w = frame_no p then flag_rights flags else rights (qmem v) root w)"
    if "unat w < 2 ^ 48" for w using M(3) [of w] vpn [OF that] by simp
  have low: "unat w < 2 ^ 48" if "user_address w" for w using that by (simp add: user_address_def)
  have old: "frame_no (as_translate root w v) \<noteq> frame_no f" if "user_address w" "as_translate root w v \<noteq> 0" for w
    using user_okD(3) [OF ok that] fresh by auto
  show "user_ok root v'"
    unfolding user_ok_def
  proof (intro conjI allI impI)
    show "vm_inv root v'" by (rule M(1))
    fix w assume w: "user_address w" "as_translate root w v' \<noteq> 0"
    show "small_mapped (qmem v') root w"
      using small_mapped_map_page [OF F(1) m, of w] tr [OF low [OF w(1)]] vpn [OF low [OF w(1)]] w user_okD(2) [OF ok, of w]
      by (auto split: if_splits)
    show "frame_no (as_translate root w v') \<in> allocated (frames v')"
      using tr [OF low [OF w(1)]] w user_okD(3) [OF ok, of w] sub mem I(2) by (auto split: if_splits)
  next
    fix w w' assume w: "user_address w" "user_address w'" "as_translate root w v' \<noteq> 0" "as_translate root w' v' \<noteq> 0"
      "frame_no (as_translate root w v') = frame_no (as_translate root w' v')"
    note t = tr [OF low [OF w(1)]] tr [OF low [OF w(2)]]
    show "frame_no w = frame_no w'"
    proof (cases "frame_no w = frame_no p")
      case True
      then have "frame_no (as_translate root w' v') = frame_no f" using w(5) t(1) I(2) by simp
      then have "frame_no w' = frame_no p" using old [OF w(2)] t(2) w(4) by (cases "frame_no w' = frame_no p") simp_all
      then show ?thesis using True by simp
    next
      case False
      then have n: "as_translate root w v \<noteq> 0" "frame_no (as_translate root w v) = frame_no (as_translate root w' v')"
        using w(3,5) t(1) by simp_all
      then have "frame_no w' \<noteq> frame_no p" using old [OF w(1) n(1)] t(2) I(2) by auto
      then show ?thesis using n w(4) t(2) user_okD(4) [OF ok w(1,2) n(1)] by simp
    qed
  qed
qed

lemma map_user_pages_spec:
  assumes "user_ok root (il_mmu s)" "p_space (il_proc s) = root" "page_aligned start" "2 ^ 39 \<le> unat start"
    and "unat start + 4096 * (k + n) \<le> 2 ^ 48" and "map_user_pages flags start (of_nat k) n s = (True, s')"
  shows "user_ok root (il_mmu s') \<and> (\<exists>c. il_proc s' = (il_proc s)\<lparr>p_page_count := c\<rparr>)
    \<and> allocated (frames (il_mmu s)) \<subseteq> allocated (frames (il_mmu s'))
    \<and> (\<forall>a. frame_no a \<in> allocated (frames (il_mmu s)) \<or> 1073741824 \<le> unat a \<longrightarrow> il_mem s' a = il_mem s a)
    \<and> (\<forall>w. unat w < 2 ^ 48 \<longrightarrow>
        (if frame_no w \<in> {frame_no start + k..<frame_no start + (k + n)}
         then as_translate root w (il_mmu s') \<noteq> 0 \<and> il_mem s' (as_translate root w (il_mmu s')) = 0
            \<and> rights (qmem (il_mmu s')) root w = flag_rights flags
            \<and> frame_no (as_translate root w (il_mmu s')) \<notin> allocated (frames (il_mmu s))
         else as_translate root w (il_mmu s') = as_translate root w (il_mmu s)
            \<and> rights (qmem (il_mmu s')) root w = rights (qmem (il_mmu s)) root w))"
  using assms
proof (induction n arbitrary: k s)
  case 0
  then show ?case by (auto intro: exI [of _ "p_page_count (il_proc s)"])
next
  case (Suc n)
  obtain f fr where a: "alloc_page (frames (il_mmu s)) = (f, fr)" by fastforce
  have f: "f \<noteq> 0" using Suc.prems(6) a by (auto simp: Let_def split: if_splits)
  let ?p = "start + of_nat k * page_size"
  obtain b v2 where m: "as_map root ?p f page_size flags ((il_mmu s)\<lparr>frames := fr\<rparr>) = (b, v2)" by fastforce
  have b: "b" using Suc.prems(2,6) a f m by (cases b) (auto simp: Let_def)
  define s1 where "s1 = s\<lparr>il_mmu := v2, il_mem := memset (il_mem s) (phys_to_virt f) 0 page_size,
     il_proc := (il_proc s)\<lparr>p_page_count := p_page_count (il_proc s) + 1\<rparr>\<rparr>"
  have rest: "map_user_pages flags start (of_nat (Suc k)) n s1 = (True, s')"
    using Suc.prems(2,6) a f m b by (simp add: Let_def s1_def add.commute)
  have kb: "4096 * k < 18446744073709551616" using Suc.prems(5) by simp
  have up: "unat ?p = unat start + 4096 * k"
    using Suc.prems(5) unat_u64_of_nat [of "4096 * k"] kb
    by (subst unat_u64_add) (simp_all add: mult.commute)
  have p: "page_aligned ?p" "user_address ?p" "frame_no ?p = frame_no start + k"
    using Suc.prems(3,4,5) up by (auto simp: page_aligned_def user_address_def frame_no_def)
  have mp: "map_page root ?p f flags ((il_mmu s)\<lparr>frames := fr\<rparr>) = (True, v2)" using m b by (simp only: as_map_page)
  note U = map_user_page [OF Suc.prems(1) a f p(1,2) mp]
  have s1: "il_mmu s1 = v2" "p_space (il_proc s1) = root" using Suc.prems(2) by (simp_all add: s1_def)
  note IH = Suc.IH [of s1 "Suc k", unfolded s1, OF U(1) refl Suc.prems(3,4) _ rest]
  have mem1: "il_mem s1 x = (if frame_no x = frame_no f then 0 else il_mem s x)" for x
    using frame_span [OF U(5), of x] by (simp add: s1_def memset_any phys_to_virt_def)
  have bound: "unat start + 4096 * (Suc k + n) \<le> 2 ^ 48" using Suc.prems(5) by simp
  note I = IH [OF bound]
  have fl: "unat f < 1073741824" using vm_inv_take_frame(5) [OF user_okD(1) [OF Suc.prems(1)] a f] .
  show ?case
  proof (intro conjI allI impI)
    show "user_ok root (il_mmu s')" using I by blast
    show "\<exists>c. il_proc s' = (il_proc s)\<lparr>p_page_count := c\<rparr>" using I by (auto simp: s1_def)
    show "allocated (frames (il_mmu s)) \<subseteq> allocated (frames (il_mmu s'))" using I U(4) by blast
    fix x assume x: "frame_no x \<in> allocated (frames (il_mmu s)) \<or> 1073741824 \<le> unat x"
    then have "frame_no x \<noteq> frame_no f" using U(2,5) fl by (auto simp: frame_no_def page_aligned_def)
    moreover have "il_mem s' x = il_mem s1 x" using x I U(4) by blast
    ultimately show "il_mem s' x = il_mem s x" by (simp add: mem1)
  next
    fix w :: u64 assume w: "unat w < 2 ^ 48"
    have J: "if frame_no w \<in> {frame_no start + Suc k..<frame_no start + (Suc k + n)}
         then as_translate root w (il_mmu s') \<noteq> 0 \<and> il_mem s' (as_translate root w (il_mmu s')) = 0
            \<and> rights (qmem (il_mmu s')) root w = flag_rights flags
            \<and> frame_no (as_translate root w (il_mmu s')) \<notin> allocated (frames v2)
         else as_translate root w (il_mmu s') = as_translate root w v2
            \<and> rights (qmem (il_mmu s')) root w = rights (qmem v2) root w" using I w by blast
    show "if frame_no w \<in> {frame_no start + k..<frame_no start + (k + Suc n)}
         then as_translate root w (il_mmu s') \<noteq> 0 \<and> il_mem s' (as_translate root w (il_mmu s')) = 0
            \<and> rights (qmem (il_mmu s')) root w = flag_rights flags
            \<and> frame_no (as_translate root w (il_mmu s')) \<notin> allocated (frames (il_mmu s))
         else as_translate root w (il_mmu s') = as_translate root w (il_mmu s)
            \<and> rights (qmem (il_mmu s')) root w = rights (qmem (il_mmu s)) root w"
    proof (cases "frame_no w = frame_no start + k")
      case True
      then have w': "as_translate root w (il_mmu s') = f + (w AND 4095)" "rights (qmem (il_mmu s')) root w = flag_rights flags"
        using J U(6,7) [OF w] p(3) by simp_all
      have fr: "frame_no (f + (w AND 4095)) = frame_no f" using in_frame(2) [OF U(5) fl] .
      then have "il_mem s' (f + (w AND 4095)) = 0" using I U(3) by (simp add: mem1)
      then show ?thesis using w' U(2,8) True fr by simp
    next
      case False
      then show ?thesis using J U(4) U(6,7) [OF w] p(3) by (auto split: if_splits)
    qed
  qed
qed

section \<open>The contents of a segment\<close>

lemma user_ok_inj:
  assumes ok: "user_ok root v" and w: "user_address w" "user_address w'" "as_translate root w v \<noteq> 0"
    and eq: "as_translate root w v = as_translate root w' v"
  shows "w = w'"
proof -
  have off: "unat (as_translate root x v) mod 4096 = unat x mod 4096" if sm: "small_mapped (qmem v) root x" for x
  proof -
    obtain t where t: "walk (qmem v) 3 root (path_of x) = Some t" "bit (ent (qmem v) t (index_of x 0)) 0"
      using sm by (auto simp: small_mapped_def)
    define f where "f = ent (qmem v) t (index_of x 0) AND pte_address_mask"
    have tr: "as_translate root x v = f + (x AND 4095)"
      using t vm_inv_translate [OF user_okD(1) [OF ok]]
      by (simp add: resolve_def view_def small_page_def leaf_address_def f_def)
    obtain q where q: "unat f = 4096 * q" using mask_aligned unfolding f_def page_aligned_def dvd_def by blast
    have x: "unat (x AND 4095) = unat x mod 4096" by (rule unat_and_4095)
    have "unat f \<le> 18446744073709551616 - 4096" using u64_bound [of f] q by auto
    moreover have "unat x mod 4096 < 4096" by simp
    ultimately have "unat f + unat (x AND 4095) < 18446744073709551616" unfolding x by linarith
    then have "unat (f + (x AND 4095)) = 4096 * q + unat x mod 4096" by (simp add: unat_u64_add q x)
    then show ?thesis by (simp add: tr)
  qed
  have "frame_no w = frame_no w'" using user_okD(4) [OF ok w(1,2,3)] w(3) eq by simp
  moreover have "unat w mod 4096 = unat w' mod 4096"
    using off [of w] off [of w'] user_okD(2) [OF ok] w eq by simp
  ultimately show ?thesis unfolding frame_no_def by (metis div_mult_mod_eq u64_eqI)
qed

lemma unat_user_offset:
  "2 ^ 39 \<le> unat va \<Longrightarrow> unat va + n \<le> 2 ^ 48 \<Longrightarrow> i < n \<Longrightarrow> unat (va + of_nat i) = unat va + i"
  "2 ^ 39 \<le> unat va \<Longrightarrow> unat va + n \<le> 2 ^ 48 \<Longrightarrow> i < n \<Longrightarrow> user_address (va + of_nat i)"
proof -
  assume a: "2 ^ 39 \<le> unat va" "unat va + n \<le> 2 ^ 48" "i < n"
  then have "unat (of_nat i :: u64) = i" by (simp add: unat_u64_of_nat)
  then show "unat (va + of_nat i) = unat va + i" using a by (simp add: unat_u64_add)
  then show "user_address (va + of_nat i)" using a by (simp add: user_address_def)
qed

lemma copy_segment_spec:
  assumes "user_ok root (il_mmu s)" "p_space (il_proc s) = root"
    and "2 ^ 39 \<le> unat (ph_virtual_address sg)" "unat (ph_virtual_address sg) + (off + n) \<le> 2 ^ 48"
    and "\<forall>i < off + n. 1073741824 \<le> unat (img + (ph_offset sg + of_nat i))"
    and "copy_segment img sg (of_nat off) n s = (True, s')"
  shows "il_mmu s' = il_mmu s \<and> il_proc s' = il_proc s
    \<and> (\<forall>i. off \<le> i \<longrightarrow> i < off + n \<longrightarrow>
         il_mem s' (as_translate root (ph_virtual_address sg + of_nat i) (il_mmu s)) = il_mem s (img + (ph_offset sg + of_nat i)))
    \<and> (\<forall>a. (\<forall>i. off \<le> i \<longrightarrow> i < off + n \<longrightarrow> a \<noteq> as_translate root (ph_virtual_address sg + of_nat i) (il_mmu s)) \<longrightarrow>
         il_mem s' a = il_mem s a)"
  using assms
proof (induction n arbitrary: off s)
  case 0
  then show ?case by simp
next
  case (Suc n)
  let ?va = "ph_virtual_address sg" and ?v = "il_mmu s"
  let ?t = "\<lambda>i. as_translate root (?va + of_nat i) ?v" and ?b = "\<lambda>i. img + (ph_offset sg + of_nat i)"
  have nz: "?t off \<noteq> 0" using Suc.prems(2,6) by (auto simp: Let_def split: if_splits)
  define s1 where "s1 = s\<lparr>il_mem := (il_mem s)(phys_to_virt (?t off) := il_mem s (?b off))\<rparr>"
  have rest: "copy_segment img sg (of_nat (Suc off)) n s1 = (True, s')"
    using Suc.prems(2,6) nz by (simp add: Let_def s1_def add.commute)
  have s1: "il_mmu s1 = ?v" "il_proc s1 = il_proc s" by (simp_all add: s1_def)
  have IH: "il_mmu s' = ?v \<and> il_proc s' = il_proc s
    \<and> (\<forall>i. Suc off \<le> i \<longrightarrow> i < Suc off + n \<longrightarrow> il_mem s' (?t i) = il_mem s1 (?b i))
    \<and> (\<forall>a. (\<forall>i. Suc off \<le> i \<longrightarrow> i < Suc off + n \<longrightarrow> a \<noteq> ?t i) \<longrightarrow> il_mem s' a = il_mem s1 a)"
    using Suc.IH [of s1 "Suc off", unfolded s1, OF Suc.prems(1,2,3) _ _ rest] Suc.prems(4,5) by simp
  have ua: "user_address (?va + of_nat i)" if "i < off + Suc n" for i
    using unat_user_offset(2) [OF Suc.prems(3,4) that] .
  have inj: "?t i \<noteq> ?t off" if "off < i" "i < off + Suc n" for i
  proof
    assume eq: "?t i = ?t off"
    have o: "off < off + Suc n" by simp
    have "?va + of_nat off = ?va + of_nat i"
      by (rule user_ok_inj [OF Suc.prems(1) ua [OF o] ua [OF that(2)] nz eq [symmetric]])
    then have "unat (?va + of_nat off) = unat (?va + of_nat i)" by (rule arg_cong)
    then show False
      unfolding unat_user_offset(1) [OF Suc.prems(3,4) o] unat_user_offset(1) [OF Suc.prems(3,4) that(2)]
      using that(1) by simp
  qed
  have img: "?b i \<noteq> ?t off" if "i < off + Suc n" for i
  proof -
    have "unat (?t off) < 1073741824"
      using user_okD(3) [OF Suc.prems(1) ua nz] by (intro allocated_frame_less) (simp_all add: frame_no_def)
    then show ?thesis using Suc.prems(5) [rule_format, OF that] by auto
  qed
  have mem1: "il_mem s1 a = (if a = ?t off then il_mem s (?b off) else il_mem s a)" for a
    by (simp add: s1_def phys_to_virt_def)
  show ?case
  proof (intro conjI allI impI)
    show "il_mmu s' = ?v" "il_proc s' = il_proc s" using IH by blast+
    fix i assume i: "off \<le> i" "i < off + Suc n"
    show "il_mem s' (?t i) = il_mem s (?b i)"
    proof (cases "i = off")
      case True
      have "\<forall>j. Suc off \<le> j \<longrightarrow> j < Suc off + n \<longrightarrow> ?t off \<noteq> ?t j" using inj by (metis Suc_le_eq add_Suc_shift)
      then show ?thesis using IH True mem1 by simp
    next
      case False
      then have "il_mem s' (?t i) = il_mem s1 (?b i)" using IH i by simp
      then show ?thesis using mem1 img [OF i(2)] by simp
    qed
  next
    fix a assume a: "\<forall>i. off \<le> i \<longrightarrow> i < off + Suc n \<longrightarrow> a \<noteq> ?t i"
    then have "il_mem s' a = il_mem s1 a" using IH by simp
    then show "il_mem s' a = il_mem s a" using mem1 a [rule_format, of off] by simp
  qed
qed

section \<open>One segment\<close>

definition segment_loads :: "ProgramHeader \<Rightarrow> bool" where
  "segment_loads sg \<longleftrightarrow> ph_type sg = program_load \<and> ph_memory_size sg \<noteq> 0"

text \<open>
  A sound segment ends below the end of the lower half of the address space with a page to spare,
  its image is not longer than it is, and the bytes of the image are outside the direct map.
\<close>

definition segment_fits :: "u64 \<Rightarrow> ProgramHeader \<Rightarrow> bool" where
  "segment_fits img sg \<longleftrightarrow> unat (ph_virtual_address sg) + unat (ph_memory_size sg) + 4096 \<le> 2 ^ 48
   \<and> ph_file_size sg \<le> ph_memory_size sg
   \<and> (\<forall>i < unat (ph_file_size sg). 1073741824 \<le> unat (img + (ph_offset sg + of_nat i)))"

definition segment_range :: "ProgramHeader \<Rightarrow> nat set" where
  "segment_range sg = {frame_no (ph_virtual_address sg)..<frame_no (ph_virtual_address sg) + unat (segment_pages sg)}"

definition segment_flags :: "ProgramHeader \<Rightarrow> PageFlags" where
  "segment_flags sg = (if ph_flags sg AND program_flag_write = 0 then final_flags sg else load_flags sg)"

lemma segment_geometry:
  assumes "segment_fits img sg"
  defines "va \<equiv> ph_virtual_address sg" and "st \<equiv> segment_start sg" and "n \<equiv> unat (segment_pages sg)"
  shows "page_aligned st" "unat st = unat va - unat va mod 4096" "frame_no st = frame_no va"
    and "n = (unat (ph_memory_size sg) + unat va mod 4096 + 4095) div 4096"
    and "unat st + 4096 * n \<le> 2 ^ 48"
    and "unat (segment_pages sg * page_size) = 4096 * n"
    and "i < unat (ph_memory_size sg) \<Longrightarrow> (unat va + i) div 4096 \<in> segment_range sg"
proof -
  have b: "unat va + unat (ph_memory_size sg) + 4096 \<le> 2 ^ 48" using assms(1) by (simp add: segment_fits_def va_def)
  have st: "st = va AND NOT 4095" by (simp add: st_def segment_start_def va_def)
  show al: "page_aligned st" unfolding st by (rule page_aligned_align_down)
  show us: "unat st = unat va - unat va mod 4096" unfolding st by (rule unat_page_align_down)
  show fst': "frame_no st = frame_no va" by (simp add: frame_no_def us minus_mod_eq_mult_div)
  have "va - st = va AND 4095" unfolding st word_split_mask by simp
  then have off: "unat (va - st) = unat va mod 4096" by (simp add: unat_and_4095)
  have r: "unat va mod 4096 < 4096" by simp
  have lt: "unat (ph_memory_size sg) + unat va mod 4096 + 4095 < 18446744073709551616" using b r by simp
  then have "unat (ph_memory_size sg) + unat (va - st) < 18446744073709551616" unfolding off by linarith
  then have "unat (ph_memory_size sg + (va - st)) = unat (ph_memory_size sg) + unat va mod 4096"
    unfolding off [symmetric] by (rule unat_u64_add)
  then have "unat (ph_memory_size sg + (va - st) + 4095) = unat (ph_memory_size sg) + unat va mod 4096 + 4095"
    using lt unat_u64_add [of "ph_memory_size sg + (va - st)" 4095] by simp
  moreover have "segment_pages sg = (ph_memory_size sg + (va - st) + 4095) div 4096"
    by (simp add: segment_pages_def va_def st_def algebra_simps)
  ultimately show n: "n = (unat (ph_memory_size sg) + unat va mod 4096 + 4095) div 4096"
    by (simp only: n_def unat_div_distrib) simp
  have le: "4096 * n \<le> unat (ph_memory_size sg) + unat va mod 4096 + 4095" unfolding n by simp
  then show "unat st + 4096 * n \<le> 2 ^ 48" using b us by simp
  have "4096 * n < 18446744073709551616" using le b r by simp
  then show "unat (segment_pages sg * page_size) = 4096 * n" by (simp add: unat_u64_mult n_def mult.commute)
  assume i: "i < unat (ph_memory_size sg)"
  define x where "x = unat (ph_memory_size sg) + unat va mod 4096 + 4095"
  have "x = 4096 * n + x mod 4096" unfolding n x_def by (rule mult_div_mod_eq [symmetric])
  moreover have "x mod 4096 < 4096" by simp
  ultimately have "x < 4096 * n + 4096" by linarith
  then have "unat (ph_memory_size sg) + unat va mod 4096 \<le> 4096 * n" by (simp add: x_def)
  moreover have "unat va = 4096 * (unat va div 4096) + unat va mod 4096" by (rule mult_div_mod_eq [symmetric])
  ultimately have "unat va + i < 4096 * (unat va div 4096) + 4096 * n" using i by linarith
  then have "unat va + i < 4096 * (unat va div 4096 + n)" by (simp only: add_mult_distrib2)
  then have "(unat va + i) div 4096 < unat va div 4096 + n" by (simp add: less_mult_imp_div_less mult.commute)
  moreover have "unat va div 4096 \<le> (unat va + i) div 4096" by (simp add: div_le_mono)
  ultimately show "(unat va + i) div 4096 \<in> segment_range sg"
    by (simp add: segment_range_def frame_no_def va_def n_def)
qed

lemma protect_user_pages:
  assumes ok: "user_ok root v" and st: "page_aligned st" "2 ^ 39 \<le> unat st" "unat st + 4096 * n \<le> 2 ^ 48"
    and len: "unat len = 4096 * n"
    and mapped: "\<forall>w. unat w < 2 ^ 48 \<longrightarrow> frame_no w \<in> {frame_no st..<frame_no st + n} \<longrightarrow> as_translate root w v \<noteq> 0"
    and step: "snd (as_protect root st len flags v) = v'"
  shows "user_ok root v'" and "allocated (frames v) \<subseteq> allocated (frames v')"
    and "as_translate root w v' = as_translate root w v"
    and "unat w < 2 ^ 48 \<Longrightarrow> rights (qmem v') root w =
      (if frame_no w \<in> {frame_no st..<frame_no st + n} then flag_rights flags else rights (qmem v) root w)"
proof -
  have pg: "pages (unat len) = n" by (simp add: pages_def len)
  have "small_mapped (qmem v) root (st + of_nat (4096 * k))" if k: "k < n" for k
  proof -
    have "4096 * k < 4096 * n" using k by simp
    note U = unat_user_offset [OF st(2,3) this]
    have "frame_no (st + of_nat (4096 * k)) = frame_no st + k" unfolding frame_no_def U(1) by simp
    then have "as_translate root (st + of_nat (4096 * k)) v \<noteq> 0"
      using mapped k U(2) by (simp add: user_address_def)
    then show ?thesis by (rule user_okD(2) [OF ok U(2)])
  qed
  then obtain v1 where p: "as_protect root st len flags v = (True, v1)"
    and sm: "\<And>w. small_mapped (qmem v) root w \<Longrightarrow> small_mapped (qmem v1) root w"
    and sub: "allocated (frames v) \<subseteq> allocated (frames v1)"
    using as_protect_succeeds [OF user_okD(1) [OF ok], of len st flags] pg by auto
  have v': "v' = v1" using p step by simp
  have P: "vm_inv root v1" "\<And>w. resolve (qmem v1) root w = resolve (qmem v) root w"
    "\<And>w. rights (qmem v1) root w = overlay st (\<lambda>k w. flag_rights flags) (rights (qmem v) root) n w"
    using as_protect_spec [OF user_okD(1) [OF ok] p] unfolding pg by auto
  show sub': "allocated (frames v) \<subseteq> allocated (frames v')" using sub v' by simp
  have tr: "as_translate root w v' = as_translate root w v" for w
    using P(1,2) vm_inv_translate user_okD(1) [OF ok] v' by simp
  then show "as_translate root w v' = as_translate root w v" .
  show "user_ok root v'"
    unfolding user_ok_def tr using P(1) sm sub user_okD [OF ok] v' by blast
  assume w: "unat w < 2 ^ 48"
  have "(unat st \<le> unat w \<and> unat w < unat st + 4096 * n) \<longleftrightarrow> frame_no w \<in> {frame_no st..<frame_no st + n}"
  proof -
    obtain q where q: "unat st = 4096 * q" using st(1) unfolding page_aligned_def dvd_def by blast
    have "unat w < 4096 * q + 4096 * n \<longleftrightarrow> unat w div 4096 < q + n"
      using div_less_iff_less_mult [of 4096 "unat w" "q + n"] by (simp add: algebra_simps)
    moreover have "4096 * q \<le> unat w \<longleftrightarrow> q \<le> unat w div 4096"
      using less_eq_div_iff_mult_less_eq [of 4096 q "unat w"] by (simp add: mult.commute)
    ultimately show ?thesis by (simp add: frame_no_def q)
  qed
  then show "rights (qmem v') root w =
      (if frame_no w \<in> {frame_no st..<frame_no st + n} then flag_rights flags else rights (qmem v) root w)"
    using P(3) [of w] overlay_range [OF st(1,3) w] by (simp add: v')
qed

text \<open>
  What loading a segment does: the pages of the segment are mapped to fresh frames with the rights
  of the segment, its bytes are those of the image and then zeroes, and nothing else changes.
\<close>

definition segment_loaded :: "u64 \<Rightarrow> phys_addr \<Rightarrow> ProgramHeader \<Rightarrow> memory \<Rightarrow> image_load \<Rightarrow> bool" where
  "segment_loaded img root sg m s' \<longleftrightarrow>
     (\<forall>w. unat w < 2 ^ 48 \<longrightarrow> frame_no w \<in> segment_range sg \<longrightarrow>
        as_translate root w (il_mmu s') \<noteq> 0 \<and> rights (qmem (il_mmu s')) root w = flag_rights (segment_flags sg))
   \<and> (\<forall>i < unat (ph_memory_size sg). il_mem s' (as_translate root (ph_virtual_address sg + of_nat i) (il_mmu s'))
        = (if i < unat (ph_file_size sg) then m (img + (ph_offset sg + of_nat i)) else 0))"

definition space_kept :: "phys_addr \<Rightarrow> nat set \<Rightarrow> image_load \<Rightarrow> image_load \<Rightarrow> bool" where
  "space_kept root changed s s' \<longleftrightarrow>
     allocated (frames (il_mmu s)) \<subseteq> allocated (frames (il_mmu s'))
   \<and> (\<forall>a. frame_no a \<in> allocated (frames (il_mmu s)) \<or> 1073741824 \<le> unat a \<longrightarrow> il_mem s' a = il_mem s a)
   \<and> (\<forall>w. unat w < 2 ^ 48 \<longrightarrow> frame_no w \<notin> changed \<longrightarrow>
        as_translate root w (il_mmu s') = as_translate root w (il_mmu s)
      \<and> rights (qmem (il_mmu s')) root w = rights (qmem (il_mmu s)) root w)
   \<and> p_space (il_proc s') = p_space (il_proc s) \<and> p_entry (il_proc s') = p_entry (il_proc s)"

lemma raise_brk_eq: "raise_brk e p = p\<lparr>p_brk := max e (p_brk p)\<rparr>"
  by (simp add: raise_brk_def max_def)

lemma load_segment_spec:
  assumes ok: "user_ok root (il_mmu s)" and root: "p_space (il_proc s) = root"
    and sg: "segment_loads sg" "segment_fits img sg" and step: "load_segment img sg s = (True, s')"
  shows "user_ok root (il_mmu s')" and "space_kept root (segment_range sg) s s'"
    and "segment_loaded img root sg (il_mem s) s'" and "user_base \<le> ph_virtual_address sg"
proof -
  let ?va = "ph_virtual_address sg" and ?n = "unat (segment_pages sg)" and ?st = "segment_start sg"
  note G = segment_geometry [OF sg(2)]
  obtain s1 where m: "map_user_pages (load_flags sg) ?st 0 ?n s = (True, s1)"
    using step sg(1) by (auto simp: load_segment_def segment_loads_def Let_def split: if_splits prod.splits bool.splits)
  obtain s2 where c: "copy_segment img sg 0 (unat (ph_file_size sg)) s1 = (True, s2)"
    using step sg(1) m by (auto simp: load_segment_def segment_loads_def Let_def split: if_splits prod.splits bool.splits)
  have nl: "\<not> ?va < user_base" using step sg(1) by (auto simp: load_segment_def segment_loads_def)
  then show ub: "user_base \<le> ?va" by simp
  define s3 where "s3 = s2\<lparr>il_proc := raise_brk (?va + ph_memory_size sg) (il_proc s2)\<rparr>"
  have s': "s' = (if ph_flags sg AND program_flag_write = 0
        then s3\<lparr>il_mmu := snd (as_protect (p_space (il_proc s3)) ?st (segment_pages sg * page_size) (final_flags sg) (il_mmu s3))\<rparr>
        else s3)"
    using step sg(1) nl m c by (auto simp: load_segment_def segment_loads_def Let_def s3_def)
  have va: "2 ^ 39 \<le> unat ?va" using ub by (simp add: word_le_nat_alt)
  have low: "2 ^ 39 \<le> unat ?st"
  proof -
    have "(2 ^ 39 :: nat) div 4096 \<le> unat ?va div 4096" by (rule div_le_mono [OF va])
    then have "(2 ^ 39 :: nat) \<le> 4096 * (unat ?va div 4096)" by simp
    then show ?thesis by (simp only: G(2) minus_mod_eq_mult_div)
  qed
  have mm: "map_user_pages (load_flags sg) ?st (of_nat 0) ?n s = (True, s1)" using m by simp
  have bnd: "unat ?st + 4096 * (0 + ?n) \<le> 2 ^ 48" using G(5) by simp
  note M = map_user_pages_spec [OF ok root G(1) low bnd mm, unfolded add_0 add_0_right G(3)]
  have root1: "p_space (il_proc s1) = root" using M root by auto
  have fits: "unat ?va + (0 + unat (ph_file_size sg)) \<le> 2 ^ 48"
    "unat ?va + unat (ph_memory_size sg) \<le> 2 ^ 48" "unat (ph_file_size sg) \<le> unat (ph_memory_size sg)"
    "\<forall>i < 0 + unat (ph_file_size sg). 1073741824 \<le> unat (img + (ph_offset sg + of_nat i))"
    using sg(2) by (auto simp: segment_fits_def word_le_nat_alt)
  have cc: "copy_segment img sg (of_nat 0) (unat (ph_file_size sg)) s1 = (True, s2)" using c by simp
  note C = copy_segment_spec [OF conjunct1 [OF M] root1 va fits(1,4) cc]
  obtain c where c1: "il_proc s1 = (il_proc s)\<lparr>p_page_count := c\<rparr>" using M by blast
  have s3: "il_mmu s3 = il_mmu s1" "il_mem s3 = il_mem s2" "il_proc s3 = raise_brk (?va + ph_memory_size sg) (il_proc s1)"
    using C by (simp_all add: s3_def)
  have p3: "p_space (il_proc s3) = root" "p_entry (il_proc s3) = p_entry (il_proc s)"
    unfolding s3(3) c1 raise_brk_eq using root by auto
  let ?t = "\<lambda>i. as_translate root (?va + of_nat i) (il_mmu s1)"
  have U: "unat (?va + of_nat i) = unat ?va + i" "user_address (?va + of_nat i)"
    if "i < unat (ph_memory_size sg)" for i using unat_user_offset [OF va fits(2) that] .
  have R: "?t i \<noteq> 0" "frame_no (?t i) \<notin> allocated (frames (il_mmu s))" "il_mem s1 (?t i) = 0"
    if i: "i < unat (ph_memory_size sg)" for i
  proof -
    have "frame_no (?va + of_nat i) \<in> segment_range sg" using G(7) [OF i] U(1) [OF i] by (simp add: frame_no_def)
    moreover have "unat (?va + of_nat i) < 2 ^ 48" using U(2) [OF i] by (simp add: user_address_def)
    ultimately show "?t i \<noteq> 0" "frame_no (?t i) \<notin> allocated (frames (il_mmu s))" "il_mem s1 (?t i) = 0"
      using M unfolding segment_range_def by (metis (no_types, lifting))+
  qed
  have high: "unat (?t i) < 1073741824" if "i < unat (ph_memory_size sg)" for i
    using user_okD(3) [OF conjunct1 [OF M] U(2) [OF that] R(1) [OF that]]
    by (intro allocated_frame_less) (simp add: frame_no_def)
  have mem: "il_mem s2 a = il_mem s a" if "frame_no a \<in> allocated (frames (il_mmu s)) \<or> 1073741824 \<le> unat a" for a
  proof -
    have "a \<noteq> ?t i" if i: "i < unat (ph_file_size sg)" for i
      using that R(2) [of i] high [of i] i fits(3) \<open>frame_no a \<in> _ \<or> _\<close> by auto
    then have "il_mem s2 a = il_mem s1 a" using C by simp
    then show ?thesis using M that by simp
  qed
  have bytes: "il_mem s2 (?t i) = (if i < unat (ph_file_size sg) then il_mem s (img + (ph_offset sg + of_nat i)) else 0)"
    if i: "i < unat (ph_memory_size sg)" for i
  proof (cases "i < unat (ph_file_size sg)")
    case True
    then have "il_mem s2 (?t i) = il_mem s1 (img + (ph_offset sg + of_nat i))" using C by simp
    then show ?thesis using True M fits(4) by simp
  next
    case False
    have "?t i \<noteq> ?t j" if j: "j < unat (ph_file_size sg)" for j
    proof
      assume "?t i = ?t j"
      then have "?va + of_nat i = ?va + of_nat j"
        using user_ok_inj [OF conjunct1 [OF M] U(2) [OF i] U(2) R(1) [OF i]] j fits(3) by (meson less_le_trans)
      then have "unat (?va + of_nat i) = unat (?va + of_nat j)" by (rule arg_cong)
      then show False using U(1) [OF i] U(1) [of j] j fits(3) False by simp
    qed
    then have "il_mem s2 (?t i) = il_mem s1 (?t i)" using C by simp
    then show ?thesis using False R(3) [OF i] by simp
  qed
  have mapped: "\<forall>w. unat w < 2 ^ 48 \<longrightarrow> frame_no w \<in> {frame_no ?st..<frame_no ?st + ?n} \<longrightarrow> as_translate root w (il_mmu s1) \<noteq> 0"
    using M unfolding G(3) by metis
  note P = protect_user_pages [OF conjunct1 [OF M] G(1) low G(5) G(6) mapped refl, where flags = "final_flags sg"]
  have rng: "{frame_no ?st..<frame_no ?st + ?n} = segment_range sg" by (simp add: segment_range_def G(3))
  have mr: "rights (qmem (il_mmu s1)) root w = (if frame_no w \<in> segment_range sg then flag_rights (load_flags sg) else rights (qmem (il_mmu s)) root w)"
    if "unat w < 2 ^ 48" for w using M that unfolding segment_range_def by (metis (no_types, lifting))
  have mmu': "il_mmu s' = (if ph_flags sg AND program_flag_write = 0
      then snd (as_protect root ?st (segment_pages sg * page_size) (final_flags sg) (il_mmu s1)) else il_mmu s1)"
    using s' s3(1) p3(1) by simp
  have fin: "user_ok root (il_mmu s')" "allocated (frames (il_mmu s1)) \<subseteq> allocated (frames (il_mmu s'))"
    "\<And>w. as_translate root w (il_mmu s') = as_translate root w (il_mmu s1)"
    using P(1-3) conjunct1 [OF M] unfolding mmu' by simp_all
  have fin4: "rights (qmem (il_mmu s')) root w =
       (if frame_no w \<in> segment_range sg then flag_rights (segment_flags sg) else rights (qmem (il_mmu s)) root w)"
    if "unat w < 2 ^ 48" for w
    using P(4) [OF that] mr [OF that] unfolding mmu' segment_flags_def rng by (cases "frame_no w \<in> segment_range sg") simp_all
  have fin5: "il_mem s' = il_mem s2" "il_proc s' = il_proc s3" using s' s3(2) by simp_all
  have tr: "as_translate root w (il_mmu s1) \<noteq> 0" if "unat w < 2 ^ 48" "frame_no w \<in> segment_range sg" for w
    using mapped that rng by blast
  have tk: "as_translate root w (il_mmu s1) = as_translate root w (il_mmu s)" if "unat w < 2 ^ 48" "frame_no w \<notin> segment_range sg" for w
    using M that unfolding segment_range_def by (metis (no_types, lifting))
  show "user_ok root (il_mmu s')" by (rule fin(1))
  show "space_kept root (segment_range sg) s s'"
    unfolding space_kept_def fin(3) fin5 using M fin(2) fin4 tk mem p3 root by auto
  show "segment_loaded img root sg (il_mem s) s'"
    unfolding segment_loaded_def fin(3) fin5 using tr fin4 bytes by auto
qed

section \<open>The root table\<close>

lemma adopt_root_walk:
  fixes fr :: page_alloc
  assumes inv: "vm_inv kroot v" and root: "page_aligned root" "frame_no root \<notin> allocated (frames v)"
  defines "m' \<equiv> qmem (adopt_root kroot root (v\<lparr>frames := fr\<rparr>))"
  shows "\<And>t j. page_aligned t \<Longrightarrow> t \<noteq> root \<Longrightarrow> j < 512 \<Longrightarrow> ent m' t j = ent (qmem v) t j"
    and "\<And>j. j < 512 \<Longrightarrow> ent m' root j = (if j = 0 then ent (qmem v) kroot 0 else 0)"
    and "\<And>i p. valid_path (i # p) \<Longrightarrow> walk m' 3 root (i # p) = (if i = 0 then walk (qmem v) 3 kroot (i # p) else None)"
proof -
  have wf: "wf_tables (qmem v) kroot (allocated (frames v))" using inv by (simp add: vm_inv_def)
  have kr: "page_aligned kroot" "kroot \<noteq> root"
    using wf_root [OF wf] wf_used [OF wf, of "[]"] root(2) by (auto simp: frame_no_def)
  have ent': "ent m' t j = (if t = root \<and> j = 0 then ent (qmem v) kroot 0 else if t = root then 0 else ent (qmem v) t j)"
    if "page_aligned t" "j < 512" for t j
    using that root(1) kr ent_fill_table [OF root(1) kr(1), of 0] ent_fill_table [OF root(1) that, of "\<lambda>_. 0" "v\<lparr>frames := fr\<rparr>"]
    by (auto simp: m'_def adopt_root_def Let_def phys_to_virt_def ent_update ent_def [symmetric] simp del: fun_upd_apply)
  show other: "ent m' t j = ent (qmem v) t j" if "page_aligned t" "t \<noteq> root" "j < 512" for t j using ent' that by simp
  show top: "ent m' root j = (if j = 0 then ent (qmem v) kroot 0 else 0)" if "j < 512" for j using ent' root(1) that by simp
  have nt: "next_table m' 3 root i = (if i = 0 then next_table (qmem v) 3 kroot i else None)" if "i < 512" for i
    using top [OF that] by (simp add: next_table_def Let_def)
  show "walk m' 3 root (i # p) = (if i = 0 then walk (qmem v) 3 kroot (i # p) else None)" if "valid_path (i # p)" for i p
    using that
  proof (induction p rule: rev_induct)
    case Nil
    then show ?case using nt [of i] by (simp add: valid_path_def walk_levels)
  next
    case (snoc j p)
    have vp: "valid_path (i # p)" "j < 512" using snoc.prems by (auto simp: valid_path_def)
    note IH = snoc.IH [OF vp(1)]
    have app: "i # p @ [j] = (i # p) @ [j]" by simp
    show ?case
    proof (cases "i = 0 \<and> walk (qmem v) 3 kroot (i # p) \<noteq> None")
      case True
      then obtain t where t: "walk (qmem v) 3 kroot (i # p) = Some t" by blast
      have "page_aligned t" "t \<noteq> root" using wf_aligned [OF wf t] wf_used [OF wf vp(1) t] root(2) by (auto simp: frame_no_def)
      then have "next_table m' l t j = next_table (qmem v) l t j" for l using other vp(2) by (simp add: next_table_def)
      then show ?thesis using IH t True unfolding app walk_snoc by simp
    next
      case False
      then show ?thesis using IH unfolding app walk_snoc by auto
    qed
  qed
qed

lemma index_3: "unat w < 2 ^ 48 \<Longrightarrow> index_of w 3 = 0 \<longleftrightarrow> unat w < 2 ^ 39"
proof -
  assume "unat w < 2 ^ 48"
  then have "unat w div 2 ^ 39 < 512" by (simp add: less_mult_imp_div_less)
  then have "unat (index_of w 3) = unat w div 2 ^ 39" using unat_index_of [of w 3] by simp
  moreover have "index_of w 3 = 0 \<longleftrightarrow> unat (index_of w 3) = 0" by (rule unat_eq_0 [symmetric])
  ultimately show ?thesis by (simp add: div_eq_0_iff)
qed

lemma adopt_root_spec:
  assumes inv: "vm_inv kroot v" and a: "alloc_page (frames v) = (root, fr)" "root \<noteq> 0"
  defines "v' \<equiv> adopt_root kroot root (v\<lparr>frames := fr\<rparr>)"
  shows "user_ok root v'" and "allocated (frames v) \<subseteq> allocated (frames v')" and "frame_no root \<notin> allocated (frames v)"
    and "unat w < 2 ^ 48 \<Longrightarrow> as_translate root w v' = (if unat w < 2 ^ 39 then as_translate kroot w v else 0)"
    and "unat w < 2 ^ 48 \<Longrightarrow> rights (qmem v') root w = (if unat w < 2 ^ 39 then rights (qmem v) kroot w else 0)"
proof -
  note F = vm_inv_take_frame [OF inv a]
  show fresh: "frame_no root \<notin> allocated (frames v)" using F(3) by (simp add: frame_no_def)
  note W = adopt_root_walk [OF inv F(2) fresh, where fr = fr, folded v'_def]
  have fr: "frames v' = fr" by (simp add: v'_def adopt_root_def Let_def)
  show "allocated (frames v) \<subseteq> allocated (frames v')" using F(4) fr by auto
  have wf: "wf_tables (qmem v) kroot (allocated (frames v))" using inv by (simp add: vm_inv_def)
  have reach: "p = [] \<and> t = root \<or> (\<exists>q. p = 0 # q) \<and> walk (qmem v) 3 kroot p = Some t \<and> t \<noteq> root \<and> page_aligned t"
    if "valid_path p" "walk (qmem v') 3 root p = Some t" for p t
  proof (cases p)
    case Nil
    then show ?thesis using that(2) by simp
  next
    case (Cons i q)
    then have "i = 0" "walk (qmem v) 3 kroot p = Some t" using W(3) [of i q] that by (auto split: if_splits)
    then show ?thesis using wf_used [OF wf that(1)] wf_aligned [OF wf] fresh Cons by (auto simp: frame_no_def)
  qed
  have wf': "wf_tables (qmem v') root (allocated fr)"
    unfolding wf_tables_def
  proof (intro conjI allI impI)
    show "page_aligned root" by (rule F(2))
    fix p t assume p: "valid_path p" "walk (qmem v') 3 root p = Some t"
    show "unat t div 4096 \<in> allocated fr" using reach [OF p] wf_used [OF wf p(1)] F(4) by auto
  next
    fix p q t assume "valid_path p" "valid_path q" "walk (qmem v') 3 root p = Some t" "walk (qmem v') 3 root q = Some t"
    then show "p = q" using reach [of p t] reach [of q t] wf_inj [OF wf, of p q t] by auto
  next
    fix p t i assume p: "valid_path p" "length p < 2" "walk (qmem v') 3 root p = Some t" "i < 512" "bit (ent (qmem v') t i) 0"
    show "\<not> bit (ent (qmem v') t i) 7"
      using reach [OF p(1,3)] p(4,5) W(1) [of t i] W(2) [of i] wf_not_huge [OF wf p(1,2) _ p(4)] wf_not_huge [OF wf, of "[]" kroot 0]
      by (auto split: if_splits)
  next
    fix p t i assume p: "valid_path p" "length p = 2" "walk (qmem v') 3 root p = Some t" "i < 512" "bit (ent (qmem v') t i) 0" "bit (ent (qmem v') t i) 7"
    show "2097152 dvd unat (ent (qmem v') t i AND pte_address_mask)"
      using reach [OF p(1,3)] p(2,4,5,6) W(1) [of t i] wf_huge [OF wf p(1,2) _ p(4)] by auto
  qed
  have inv': "vm_inv root v'" using wf' fr F(1) by (simp add: vm_inv_def)
  have view: "view g h (qmem v') root w = (if unat w < 2 ^ 39 then view g h (qmem v) kroot w else 0)" if w: "unat w < 2 ^ 48" for g h w
  proof -
    have pw: "path_of w = index_of w 3 # [index_of w 2, index_of w 1]" "dir_path w = index_of w 3 # [index_of w 2]"
      by (simp_all add: path_of_def dir_path_def)
    have k: "ent (qmem v') t j = ent (qmem v) t j" if "walk (qmem v') 3 root p = Some t" "valid_path p" "p \<noteq> []" "j < 512" for p t j
      using reach [OF that(2,1)] that(3,4) W(1) [of t j] by auto
    have "walk (qmem v') 3 root (path_of w) = (if index_of w 3 = 0 then walk (qmem v) 3 kroot (path_of w) else None)"
      "walk (qmem v') 3 root (dir_path w) = (if index_of w 3 = 0 then walk (qmem v) 3 kroot (dir_path w) else None)"
      using W(3) [of "index_of w 3"] valid_path_of(1) [of w] valid_dir_path(1) [of w] unfolding pw by auto
    moreover have "walk (qmem v') 3 root (path_of w) = Some t \<Longrightarrow> ent (qmem v') t (index_of w 0) = ent (qmem v) t (index_of w 0)"
      "walk (qmem v') 3 root (dir_path w) = Some t \<Longrightarrow> ent (qmem v') t (index_of w 1) = ent (qmem v) t (index_of w 1)" for t
      using k [of "path_of w" t] k [of "dir_path w" t] by (simp_all add: path_of_def dir_path_def valid_path_def)
    ultimately show ?thesis using index_3 [OF w] by (auto simp: view_def split: option.splits)
  qed
  show tr: "as_translate root w v' = (if unat w < 2 ^ 39 then as_translate kroot w v else 0)" if "unat w < 2 ^ 48" for w
    using view [OF that] vm_inv_translate [OF inv'] vm_inv_translate [OF inv] by (simp add: resolve_def)
  show "rights (qmem v') root w = (if unat w < 2 ^ 39 then rights (qmem v) kroot w else 0)" if "unat w < 2 ^ 48" for w
    using view [OF that] by (simp add: rights_def)
  have "as_translate root w v' = 0" if "user_address w" for w using tr [of w] that by (simp add: user_address_def)
  then show "user_ok root v'" unfolding user_ok_def using inv' by blast
qed

section \<open>All segments\<close>

lemma program_header_at_cong:
  assumes "\<forall>j < 56. m (headers + 56 * i + of_nat j) = m' (headers + 56 * i + of_nat j)"
  shows "program_header_at m headers i = program_header_at m' headers i"
proof -
  have f: "load_le n m (headers + 56 * i + of_nat k) = load_le n m' (headers + 56 * i + of_nat k)" if "k + n \<le> 56" for k n
    by (rule load_le_cong) (use assms [rule_format, of "k + j" for j] that in \<open>simp add: add.assoc\<close>)
  show ?thesis
    using f [of 0 4] f [of 4 4] f [of 8 8] f [of 16 8] f [of 32 8] f [of 40 8]
    by (simp add: program_header_at_def Let_def load_u32_def load_u64_def)
qed

lemma space_kept_refl: "space_kept root C s s"
  unfolding space_kept_def by simp

lemma space_kept_trans:
  assumes "space_kept root A s s1" "space_kept root B s1 s2"
  shows "space_kept root (A \<union> B) s s2"
proof -
  have "il_mem s2 a = il_mem s a" if "frame_no a \<in> allocated (frames (il_mmu s)) \<or> 1073741824 \<le> unat a" for a
    using assms that unfolding space_kept_def by (metis subsetD)
  then show ?thesis using assms unfolding space_kept_def by auto
qed

lemma segment_loaded_kept:
  assumes ok: "user_ok root (il_mmu s1)" and l: "segment_loaded img root sg m s1" and k: "space_kept root C s1 s2"
    and d: "C \<inter> segment_range sg = {}" and fit: "segment_fits img sg" "user_base \<le> ph_virtual_address sg"
  shows "segment_loaded img root sg m s2"
  unfolding segment_loaded_def
proof (intro conjI allI impI)
  fix w :: u64 assume w: "unat w < 2 ^ 48" "frame_no w \<in> segment_range sg"
  then have "frame_no w \<notin> C" using d by blast
  then have "as_translate root w (il_mmu s2) = as_translate root w (il_mmu s1)"
    "rights (qmem (il_mmu s2)) root w = rights (qmem (il_mmu s1)) root w"
    using k w unfolding space_kept_def by blast+
  then show "as_translate root w (il_mmu s2) \<noteq> 0" "rights (qmem (il_mmu s2)) root w = flag_rights (segment_flags sg)"
    using l w unfolding segment_loaded_def by simp_all
next
  fix i assume i: "i < unat (ph_memory_size sg)"
  let ?w = "ph_virtual_address sg + of_nat i"
  have fits: "2 ^ 39 \<le> unat (ph_virtual_address sg)" "unat (ph_virtual_address sg) + unat (ph_memory_size sg) \<le> 2 ^ 48"
    using fit by (simp_all add: segment_fits_def word_le_nat_alt)
  note U = unat_user_offset [OF fits i]
  have w: "unat ?w < 2 ^ 48" "frame_no ?w \<in> segment_range sg"
    using U segment_geometry(7) [OF fit(1) i] by (simp_all add: user_address_def frame_no_def)
  then have nz: "as_translate root ?w (il_mmu s1) \<noteq> 0" using l unfolding segment_loaded_def by blast
  have tr: "as_translate root ?w (il_mmu s2) = as_translate root ?w (il_mmu s1)"
    using k w d unfolding space_kept_def by blast
  have "il_mem s2 (as_translate root ?w (il_mmu s1)) = il_mem s1 (as_translate root ?w (il_mmu s1))"
    using k user_okD(3) [OF ok U(2) nz] unfolding space_kept_def by blast
  then show "il_mem s2 (as_translate root ?w (il_mmu s2))
      = (if i < unat (ph_file_size sg) then m (img + (ph_offset sg + of_nat i)) else 0)"
    unfolding tr using l i unfolding segment_loaded_def by simp
qed

text \<open>
  A sound program: its headers are outside the direct map, its segments are sound and no two of them
  share a page.
\<close>

definition sound_program :: "memory \<Rightarrow> u64 \<Rightarrow> u64 \<Rightarrow> nat \<Rightarrow> bool" where
  "sound_program m img headers cnt \<longleftrightarrow>
     (let sg = (\<lambda>k. program_header_at m headers (of_nat k))
      in (\<forall>k < cnt. \<forall>j < 56. 1073741824 \<le> unat (headers + 56 * of_nat k + of_nat j))
       \<and> (\<forall>k < cnt. segment_loads (sg k) \<longrightarrow> segment_fits img (sg k))
       \<and> (\<forall>j < cnt. \<forall>k < cnt. j \<noteq> k \<longrightarrow> segment_loads (sg j) \<longrightarrow> segment_loads (sg k) \<longrightarrow>
            segment_range (sg j) \<inter> segment_range (sg k) = {}))"

lemma load_segments_spec:
  fixes m :: memory and headers :: u64
  defines "sg \<equiv> \<lambda>k. program_header_at m headers (of_nat k)"
  assumes "sound_program m img headers cnt" "user_ok root (il_mmu s)" "p_space (il_proc s) = root"
    and "\<forall>a. 1073741824 \<le> unat a \<longrightarrow> il_mem s a = m a"
    and "i + n \<le> cnt" and "load_segments img headers i n s = (True, s')"
  shows "user_ok root (il_mmu s') \<and> space_kept root (\<Union>k\<in>{k. i \<le> k \<and> k < i + n \<and> segment_loads (sg k)}. segment_range (sg k)) s s'
    \<and> (\<forall>k. i \<le> k \<longrightarrow> k < i + n \<longrightarrow> segment_loads (sg k) \<longrightarrow>
         segment_loaded img root (sg k) m s' \<and> user_base \<le> ph_virtual_address (sg k))"
  using assms(3-)
proof (induction n arbitrary: i s)
  case 0
  then show ?case by (simp add: space_kept_refl)
next
  case (Suc n)
  have S: "1073741824 \<le> unat (headers + 56 * of_nat k + of_nat j)" "segment_loads (sg k) \<Longrightarrow> segment_fits img (sg k)"
    if "k < cnt" "j < 56" for k j using assms(2) that by (auto simp: sound_program_def sg_def Let_def)
  have D: "segment_range (sg j) \<inter> segment_range (sg k) = {}"
    if "j < cnt" "k < cnt" "j \<noteq> k" "segment_loads (sg j)" "segment_loads (sg k)" for j k
    using assms(2) that unfolding sound_program_def sg_def Let_def by blast
  have hd: "program_header_at (il_mem s) headers (of_nat i) = sg i"
    unfolding sg_def using Suc.prems(3) S(1) [of i] Suc.prems(4) by (intro program_header_at_cong) simp
  obtain s1 where step: "load_segment img (sg i) s = (True, s1)" and rest: "load_segments img headers (i + 1) n s1 = (True, s')"
    using Suc.prems(5) hd by (auto split: prod.splits bool.splits)
  let ?R = "\<lambda>i n. \<Union>k\<in>{k. i \<le> k \<and> k < i + n \<and> segment_loads (sg k)}. segment_range (sg k)"
  let ?A = "if segment_loads (sg i) then segment_range (sg i) else {}"
  have one: "user_ok root (il_mmu s1) \<and> space_kept root ?A s s1 \<and>
      (segment_loads (sg i) \<longrightarrow> segment_loaded img root (sg i) (il_mem s) s1 \<and> user_base \<le> ph_virtual_address (sg i))"
  proof (cases "segment_loads (sg i)")
    case True
    then have "segment_fits img (sg i)" using S(2) [of i 0] Suc.prems(4) by simp
    then show ?thesis using load_segment_spec [OF Suc.prems(1,2) True _ step] True by simp
  next
    case False
    then have "s1 = s" using step by (auto simp: load_segment_def segment_loads_def split: if_splits)
    then show ?thesis using Suc.prems(1) False space_kept_refl by simp
  qed
  have p1: "p_space (il_proc s1) = root" using one Suc.prems(2) by (auto simp: space_kept_def)
  have h1: "\<forall>a. 1073741824 \<le> unat a \<longrightarrow> il_mem s1 a = m a" using one Suc.prems(3) by (auto simp: space_kept_def)
  have b1: "i + 1 + n \<le> cnt" using Suc.prems(4) by simp
  note IH = Suc.IH [OF conjunct1 [OF one] p1 h1 b1 rest]
  have U: "?A \<union> ?R (i + 1) n = ?R i (Suc n)"
  proof -
    have "{k. i \<le> k \<and> k < i + Suc n \<and> segment_loads (sg k)}
        = (if segment_loads (sg i) then {i} else {}) \<union> {k. i + 1 \<le> k \<and> k < i + 1 + n \<and> segment_loads (sg k)}"
      by (auto simp: Suc_le_eq le_less)
    then show ?thesis by auto
  qed
  have kept: "space_kept root (?R i (Suc n)) s s'"
    using space_kept_trans [OF conjunct1 [OF conjunct2 [OF one]] conjunct1 [OF conjunct2 [OF IH]]] U by simp
  have first: "segment_loaded img root (sg i) m s'" if l: "segment_loads (sg i)"
  proof -
    have fit: "segment_fits img (sg i)" using S(2) [of i 0] l Suc.prems(4) by simp
    have "segment_loaded img root (sg i) m s1"
      using one l fit Suc.prems(3) by (auto simp: segment_loaded_def segment_fits_def)
    moreover have "segment_range (sg k) \<inter> segment_range (sg i) = {}"
      if "i + 1 \<le> k" "k < i + 1 + n" "segment_loads (sg k)" for k using D [of k i] l that Suc.prems(4) by simp
    then have "?R (i + 1) n \<inter> segment_range (sg i) = {}" by blast
    ultimately show ?thesis
      using segment_loaded_kept [OF conjunct1 [OF one] _ conjunct1 [OF conjunct2 [OF IH]] _ fit] one l by blast
  qed
  show ?case
  proof (intro conjI allI impI)
    show "user_ok root (il_mmu s')" "space_kept root (?R i (Suc n)) s s'" using IH kept by blast+
    fix k assume k: "i \<le> k" "k < i + Suc n" "segment_loads (sg k)"
    show "segment_loaded img root (sg k) m s'" "user_base \<le> ph_virtual_address (sg k)"
      using k first one IH by (cases "k = i"; simp)+
  qed
qed

section \<open>The whole program\<close>

lemma process_load_spec:
  assumes inv: "vm_inv kroot (il_mmu s)"
    and sound: "sound_program (il_mem s) img (img + load_u64 (il_mem s) (img + 32)) (unat (load_u16 (il_mem s) (img + 56)))"
    and ok: "process_load kroot img len s = (True, s')"
  shows "let root = p_space (il_proc s'); sg = \<lambda>k. program_header_at (il_mem s) (img + load_u64 (il_mem s) (img + 32)) (of_nat k)
    in user_ok root (il_mmu s') \<and> p_entry (il_proc s') = load_u64 (il_mem s) (img + 24)
     \<and> (\<forall>k < unat (load_u16 (il_mem s) (img + 56)). segment_loads (sg k) \<longrightarrow> segment_loaded img root (sg k) (il_mem s) s')
     \<and> (\<forall>w. unat w < 2 ^ 39 \<longrightarrow> as_translate root w (il_mmu s') = as_translate kroot w (il_mmu s)
          \<and> rights (qmem (il_mmu s')) root w = rights (qmem (il_mmu s)) kroot w)
     \<and> (\<forall>a. frame_no a \<in> allocated (frames (il_mmu s)) \<longrightarrow> il_mem s' a = il_mem s a)"
proof -
  let ?h = "img + load_u64 (il_mem s) (img + 32)" and ?n = "unat (load_u16 (il_mem s) (img + 56))"
  let ?sg = "\<lambda>k. program_header_at (il_mem s) ?h (of_nat k)"
  obtain root fr where a: "alloc_page (frames (il_mmu s)) = (root, fr)" by fastforce
  have r: "root \<noteq> 0" "executable_header (il_mem s) img len"
    using ok a by (auto simp: process_load_def Let_def split: if_splits)
  define s1 where "s1 = s\<lparr>il_mmu := adopt_root kroot root ((il_mmu s)\<lparr>frames := fr\<rparr>),
      il_proc := (il_proc s)\<lparr>p_space := root, p_entry := load_u64 (il_mem s) (img + 24)\<rparr>\<rparr>"
  have ld: "load_segments img ?h 0 ?n s1 = (True, s')"
    using ok a r by (simp add: process_load_def Let_def s1_def)
  note A = adopt_root_spec [OF inv a r(1)]
  have s1: "user_ok root (il_mmu s1)" "p_space (il_proc s1) = root" "il_mem s1 = il_mem s"
    using A(1) by (simp_all add: s1_def)
  note L = load_segments_spec [OF sound s1(1,2) _ _ ld]
  have L: "user_ok root (il_mmu s')" "space_kept root (\<Union>k\<in>{k. 0 \<le> k \<and> k < 0 + ?n \<and> segment_loads (?sg k)}. segment_range (?sg k)) s1 s'"
    "\<forall>k < ?n. segment_loads (?sg k) \<longrightarrow> segment_loaded img root (?sg k) (il_mem s) s' \<and> user_base \<le> ph_virtual_address (?sg k)"
    using L s1(3) by simp_all
  have root: "p_space (il_proc s') = root" "p_entry (il_proc s') = load_u64 (il_mem s) (img + 24)"
    using L(2) by (simp_all add: space_kept_def s1_def)
  have low: "frame_no w \<notin> segment_range (?sg k)" if "unat w < 2 ^ 39" "k < ?n" "segment_loads (?sg k)" for w k
  proof -
    have "2 ^ 39 \<le> unat (ph_virtual_address (?sg k))" using L(3) that(2,3) by (simp add: word_le_nat_alt)
    then have "2 ^ 39 div 4096 \<le> frame_no (ph_virtual_address (?sg k))" unfolding frame_no_def by (rule div_le_mono)
    moreover have "frame_no w < 2 ^ 39 div 4096" using that(1) by (simp add: frame_no_def less_mult_imp_div_less)
    ultimately show ?thesis by (simp add: segment_range_def)
  qed
  have kern: "as_translate root w (il_mmu s') = as_translate kroot w (il_mmu s)
      \<and> rights (qmem (il_mmu s')) root w = rights (qmem (il_mmu s)) kroot w" if w: "unat w < 2 ^ 39" for w
  proof -
    have w48: "unat w < 2 ^ 48" using w by simp
    have "frame_no w \<notin> (\<Union>k\<in>{k. 0 \<le> k \<and> k < 0 + ?n \<and> segment_loads (?sg k)}. segment_range (?sg k))" using low [OF w] by auto
    then have "as_translate root w (il_mmu s') = as_translate root w (il_mmu s1)
        \<and> rights (qmem (il_mmu s')) root w = rights (qmem (il_mmu s1)) root w"
      using L(2) w48 unfolding space_kept_def by blast
    then show ?thesis using A(4,5) [OF w48] w by (simp add: s1_def)
  qed
  have mem: "il_mem s' x = il_mem s x" if "frame_no x \<in> allocated (frames (il_mmu s))" for x
    using L(2) A(2) that s1(3) unfolding space_kept_def by (auto simp: s1_def)
  show ?thesis unfolding Let_def root using L(1,3) kern mem by blast
qed

section \<open>Properties\<close>


section \<open>A program that loads\<close>

lemma alloc_page_succeeds:
  assumes "vm_inv root v" "0 < free_frames v"
  obtains f fr where "alloc_page (frames v) = (f, fr)" "f \<noteq> 0" "free_frames (v\<lparr>frames := fr\<rparr>) = free_frames v - 1"
proof -
  obtain f fr where a: "alloc_page (frames v) = (f, fr)" by fastforce
  obtain t v1 where t: "allocate_table v = (Some t, v1)" "free_frames v1 = free_frames v - 1"
    using allocate_table_succeeds [of v] assms by (auto simp: vm_inv_def)
  then have "f \<noteq> 0" "frames v1 = fr" using a by (auto simp: allocate_table_def Let_def split: if_splits)
  then show thesis using that a t(2) by (simp add: free_frames_def)
qed

lemma map_user_pages_succeeds:
  assumes "vm_inv root (il_mmu s)" "p_space (il_proc s) = root" "4 * n \<le> free_frames (il_mmu s)"
  shows "\<exists>s'. map_user_pages flags start page n s = (True, s')"
  using assms
proof (induction n arbitrary: page s)
  case (Suc n)
  obtain f fr where a: "alloc_page (frames (il_mmu s)) = (f, fr)" "f \<noteq> 0"
      "free_frames ((il_mmu s)\<lparr>frames := fr\<rparr>) = free_frames (il_mmu s) - 1"
    using alloc_page_succeeds [OF Suc.prems(1)] Suc.prems(3) by auto
  note F = vm_inv_take_frame [OF Suc.prems(1) a(1,2)]
  have "3 \<le> free_frames ((il_mmu s)\<lparr>frames := fr\<rparr>)" using a(3) Suc.prems(3) by simp
  then obtain v2 where m: "map_page root (start + page * page_size) f flags ((il_mmu s)\<lparr>frames := fr\<rparr>) = (True, v2)"
      "free_frames ((il_mmu s)\<lparr>frames := fr\<rparr>) \<le> free_frames v2 + 3"
    using map_page_succeeds [OF F(1)] by blast
  define s1 where "s1 = s\<lparr>il_mmu := v2, il_mem := memset (il_mem s) (phys_to_virt f) 0 page_size,
     il_proc := (il_proc s)\<lparr>p_page_count := p_page_count (il_proc s) + 1\<rparr>\<rparr>"
  have "\<exists>s'. map_user_pages flags start (page + 1) n s1 = (True, s')"
    using Suc.prems(2,3) m(2) a(3) map_page_spec(1) [OF F(1) m(1)] by (intro Suc.IH) (simp_all add: s1_def)
  moreover have "map_user_pages flags start page (Suc n) s = map_user_pages flags start (page + 1) n s1"
    using a(1,2) m(1) Suc.prems(2) unfolding as_map_page [symmetric] by (simp add: Let_def s1_def)
  ultimately show ?case by simp
qed simp

lemma copy_segment_succeeds:
  assumes "\<forall>i < n. as_translate (p_space (il_proc s)) (ph_virtual_address sg + (off + of_nat i)) (il_mmu s) \<noteq> 0"
  shows "\<exists>s'. copy_segment img sg off n s = (True, s')"
  using assms
proof (induction n arbitrary: off s)
  case (Suc n)
  have "as_translate (p_space (il_proc s)) (ph_virtual_address sg + off) (il_mmu s) \<noteq> 0" using Suc.prems [rule_format, of 0] by simp
  moreover have "\<forall>i < n. as_translate (p_space (il_proc s)) (ph_virtual_address sg + (off + 1 + of_nat i)) (il_mmu s) \<noteq> 0"
    using Suc.prems [rule_format, of "Suc i" for i] by (simp add: add.assoc)
  ultimately show ?case using Suc.IH by (simp add: Let_def)
qed simp

lemma load_segment_succeeds:
  assumes ok: "user_ok root (il_mmu s)" "p_space (il_proc s) = root" and sg: "segment_loads sg" "segment_fits img sg"
    and va: "user_base \<le> ph_virtual_address sg" and free: "4 * unat (segment_pages sg) \<le> free_frames (il_mmu s)"
  shows "\<exists>s'. load_segment img sg s = (True, s')"
proof -
  let ?va = "ph_virtual_address sg" and ?n = "unat (segment_pages sg)" and ?st = "segment_start sg"
  note G = segment_geometry [OF sg(2)]
  obtain s1 where m: "map_user_pages (load_flags sg) ?st 0 ?n s = (True, s1)"
    using map_user_pages_succeeds [OF user_okD(1) [OF ok(1)] ok(2) free] by blast
  have va': "2 ^ 39 \<le> unat ?va" using va by (simp add: word_le_nat_alt)
  have "(2 ^ 39 :: nat) div 4096 \<le> unat ?va div 4096" by (rule div_le_mono [OF va'])
  then have low: "2 ^ 39 \<le> unat ?st" by (simp add: G(2) minus_mod_eq_mult_div)
  have mm: "map_user_pages (load_flags sg) ?st (of_nat 0) ?n s = (True, s1)" using m by simp
  have bnd: "unat ?st + 4096 * (0 + ?n) \<le> 2 ^ 48" using G(5) by simp
  note M = map_user_pages_spec [OF ok G(1) low bnd mm, unfolded add_0 add_0_right G(3)]
  have p1: "p_space (il_proc s1) = root" using M ok(2) by auto
  have fits: "unat ?va + unat (ph_memory_size sg) \<le> 2 ^ 48" "unat (ph_file_size sg) \<le> unat (ph_memory_size sg)"
    using sg(2) by (auto simp: segment_fits_def word_le_nat_alt)
  have nz: "as_translate root (?va + (0 + of_nat i)) (il_mmu s1) \<noteq> 0" if "i < unat (ph_file_size sg)" for i
  proof -
    have i: "i < unat (ph_memory_size sg)" using that fits(2) by simp
    note U = unat_user_offset [OF va' fits(1) i]
    have w: "frame_no (?va + of_nat i) \<in> {frame_no ?va..<frame_no ?va + ?n}" "unat (?va + of_nat i) < 2 ^ 48"
      using G(7) [OF i] U by (simp_all add: frame_no_def user_address_def segment_range_def)
    then have "as_translate root (?va + of_nat i) (il_mmu s1) \<noteq> 0" using M by (metis (no_types, lifting))
    then show ?thesis by simp
  qed
  then obtain s2 where c: "copy_segment img sg 0 (unat (ph_file_size sg)) s1 = (True, s2)"
    using copy_segment_succeeds [of "unat (ph_file_size sg)" s1 sg 0 img] p1 by auto
  have "\<not> ?va < user_base" using va by simp
  then show ?thesis using sg(1) m c by (simp add: load_segment_def segment_loads_def Let_def)
qed

text \<open>An executable of one segment: four bytes of code and four of zeroes at the user base.\<close>

definition tiny_memory :: memory where
  "tiny_memory = (\<lambda>_. 0)(
     0x40000000 := 0x7F, 0x40000001 := 0x45, 0x40000002 := 0x4C, 0x40000003 := 0x46, 0x40000010 :=
     0x2, 0x40000012 := 0x3E, 0x4000001C := 0x80, 0x40000020 := 0x40, 0x40000038 := 0x1, 0x40000040
     := 0x1, 0x40000044 := 0x5, 0x40000048 := 0x78, 0x40000054 := 0x80, 0x40000060 := 0x4,
     0x40000068 := 0x8, 0x40000071 := 0x10, 0x40000078 := 0x90, 0x40000079 := 0x90, 0x4000007A :=
     0xF, 0x4000007B := 0x5)"

definition tiny_load :: image_load where
  "tiny_load = \<lparr>il_proc = \<lparr>p_name = ''tiny'', p_id = 1, p_state = ProcReady, p_exit_code = 0, p_space = 0,
     p_entry = 0, p_brk = 0, p_page_count = 0\<rparr>, il_mmu = empty_vm, il_mem = tiny_memory\<rparr>"

definition tiny_segment :: ProgramHeader where
  "tiny_segment = \<lparr>ph_type = 1, ph_flags = 5, ph_offset = 120, ph_virtual_address = 0x8000000000, ph_file_size = 4, ph_memory_size = 8\<rparr>"

lemma tiny_header:
  "executable_header tiny_memory 0x40000000 124" "load_u64 tiny_memory (0x40000000 + 24) = 0x8000000000"
  "load_u64 tiny_memory (0x40000000 + 32) = 64" "load_u16 tiny_memory (0x40000000 + 56) = 1"
  "program_header_at tiny_memory 0x40000040 0 = tiny_segment"
  by (simp_all add: executable_header_def program_header_at_def load_u16_def load_u32_def load_u64_def load_le_numeral
      tiny_memory_def tiny_segment_def machine_x86_64_def)

lemma tiny_segment_fits: "segment_loads tiny_segment" "segment_fits 0x40000000 tiny_segment" "segment_pages tiny_segment = 1"
proof -
  show "segment_loads tiny_segment" "segment_pages tiny_segment = 1" by code_simp+
  have "1073741824 \<le> unat (0x40000000 + (120 + of_nat i) :: u64)" if "i < 4" for i :: nat
  proof -
    have "i = 0 \<or> i = 1 \<or> i = 2 \<or> i = 3" using that by auto
    then show ?thesis by auto
  qed
  then show "segment_fits 0x40000000 tiny_segment" by (simp add: segment_fits_def tiny_segment_def)
qed

lemma tiny_sound: "sound_program tiny_memory 0x40000000 (0x40000000 + 64) 1"
proof -
  have "1073741824 \<le> unat (0x40000040 + of_nat j :: u64)" if "j < 56" for j :: nat
    using that by (subst unat_u64_add) (simp_all add: unat_u64_of_nat)
  then show ?thesis using tiny_header(5) tiny_segment_fits(2) by (simp add: sound_program_def)
qed

lemma tiny_loads: "\<exists>s'. process_load 0x1000 0x40000000 124 tiny_load = (True, s')"
proof -
  obtain root fr where a: "alloc_page (frames empty_vm) = (root, fr)" "root \<noteq> 0"
      "free_frames (empty_vm\<lparr>frames := fr\<rparr>) = free_frames empty_vm - 1"
    using alloc_page_succeeds [OF empty_vm_inv] empty_vm_free by auto
  define s1 where "s1 = tiny_load\<lparr>il_mmu := adopt_root 0x1000 root (empty_vm\<lparr>frames := fr\<rparr>),
      il_proc := (il_proc tiny_load)\<lparr>p_space := root, p_entry := 0x8000000000\<rparr>\<rparr>"
  have u: "user_ok root (il_mmu s1)" using adopt_root_spec(1) [OF empty_vm_inv a(1,2)] by (simp add: s1_def)
  have "free_frames (il_mmu s1) = 4095"
    using a(3) by (simp add: s1_def free_frames_def empty_vm_free [unfolded free_frames_def] adopt_root_def Let_def)
  then obtain s2 where "load_segment 0x40000000 tiny_segment s1 = (True, s2)"
    using load_segment_succeeds [OF u _ tiny_segment_fits(1,2)] tiny_segment_fits(3)
    by (auto simp: s1_def tiny_segment_def)
  then have "load_segments 0x40000000 0x40000040 0 1 s1 = (True, s2)"
    using tiny_header(5) by (simp add: s1_def tiny_load_def)
  then show ?thesis
    using a(1,2) tiny_header by (simp add: process_load_def tiny_load_def s1_def Let_def)
qed

lemma tiny_loaded:
  assumes "process_load 0x1000 0x40000000 124 tiny_load = (True, s')"
  shows "segment_loaded 0x40000000 (p_space (il_proc s')) tiny_segment tiny_memory s'"
proof -
  have cnt: "unat (load_u16 tiny_memory (0x40000000 + 56)) = 1" using tiny_header(4) by simp
  have "sound_program (il_mem tiny_load) 0x40000000 (0x40000000 + load_u64 (il_mem tiny_load) (0x40000000 + 32))
      (unat (load_u16 (il_mem tiny_load) (0x40000000 + 56)))"
    unfolding tiny_load_def image_load.select_convs tiny_header(3) cnt by (rule tiny_sound)
  from process_load_spec [OF _ this assms] show ?thesis
    using tiny_header tiny_segment_fits(1) cnt by (simp add: tiny_load_def empty_vm_inv Let_def)
qed


end
