(* ===== verification/Syscall_Correct.thy ===== *)
theory Syscall_Correct
  imports Syscall Process_Correct Ramfs Heap_Correct Sched_Correct
begin

unbundle bit_operations_syntax

text \<open>
  What the checks of the system calls are worth: a range that passes is readable as a whole, and no
  call leaves the tables of the kernel in a bad state.
\<close>

section \<open>Ranges of a program\<close>

lemma access_translate: "access_loop False n a t m = Some p \<Longrightarrow> translate_loop n a t m = p"
  by (induction n arbitrary: t) (auto simp: Let_def split: if_splits)

lemma translate_access: "translate_loop n a t m \<noteq> 0 \<Longrightarrow> access_loop False n a t m \<noteq> None"
  by (induction n arbitrary: t) (auto simp: Let_def split: if_splits)

lemma access_same_page:
  "(\<forall>l \<le> n. index_of a l = index_of b l) \<Longrightarrow> access_loop wr n a t m \<noteq> None \<Longrightarrow> access_loop wr n b t m \<noteq> None"
  by (induction n arbitrary: t) (auto simp: Let_def split: if_splits)

lemma same_page_index: "frame_no a = frame_no b \<Longrightarrow> index_of a l = index_of b l"
proof -
  assume f: "frame_no a = frame_no b"
  have "unat x div 2 ^ (12 + 9 * l) = frame_no x div 2 ^ (9 * l)" for x :: u64
    by (simp add: frame_no_def power_add div_mult2_eq)
  then have "unat (index_of a l) = unat (index_of b l)" unfolding unat_index_of using f by simp
  then show ?thesis by (simp add: word_unat_eq_iff)
qed

lemma low_canonical: "unat a < 2 ^ 47 \<Longrightarrow> canonical a"
proof -
  assume "unat a < 2 ^ 47"
  then have "unat (drop_bit 47 a) = 0" by (simp add: drop_bit_eq_div unat_div_distrib)
  then show ?thesis by (simp add: canonical_def unat_eq_0)
qed

text \<open>Both ends of at most a page are mapped, so all of it is.\<close>

lemma owned_access:
  assumes own: "process_owns a len v p" and root: "cr3 v = p_space p" and n: "unat len \<le> 4096" "i < unat len"
    and b: "unat a + unat len \<le> 2 ^ 47"
  shows "kernel_access False (a + of_nat i) v = Some (as_translate (p_space p) (a + of_nat i) v)"
proof -
  have ends: "as_translate (p_space p) a v \<noteq> 0" "as_translate (p_space p) (a + len - 1) v \<noteq> 0"
    using own by (auto simp: process_owns_def split: if_splits)
  have i: "unat (a + of_nat i) = unat a + i"
    using n(2) b by (simp add: unat_u64_add unat_u64_of_nat)
  have "1 \<le> len" using n(2) by (simp add: word_le_nat_alt)
  then have l: "unat (len - 1) = unat len - 1" by (simp add: unat_u64_sub)
  then have "unat (a + (len - 1)) = unat a + (unat len - 1)" using b by (simp add: unat_u64_add)
  then have e: "unat (a + len - 1) = unat a + (unat len - 1)" by (simp add: add_diff_eq)
  have "frame_no (a + of_nat i) = frame_no a \<or> frame_no (a + of_nat i) = frame_no (a + len - 1)"
  proof -
    define q r where "q = unat a div 4096" and "r = unat a mod 4096"
    have a: "unat a = 4096 * q + r" "r < 4096" unfolding q_def r_def by simp_all
    have d: "(4096 * q + x) div 4096 = q + (if x < 4096 then 0 else 1)" if "x < 8192" for x
      unfolding div_4096_eq using that by auto
    have "r + i < 8192" "r + (unat len - 1) < 8192" using a(2) n by simp_all
    then show ?thesis
      using d [of "r + i"] d [of "r + (unat len - 1)"] d [of r] a n(2)
      by (cases "r + i < 4096") (simp_all add: frame_no_def i e add.assoc)
  qed
  moreover have "access_loop False 3 (a + of_nat i) (table_at (p_space p)) (qmem v) \<noteq> None"
    if x: "frame_no (a + of_nat i) = frame_no x" "as_translate (p_space p) x v \<noteq> 0" for x
  proof (rule access_same_page)
    show "\<forall>l \<le> 3. index_of x l = index_of (a + of_nat i) l" using same_page_index [OF x(1)] by simp
    show "access_loop False 3 x (table_at (p_space p)) (qmem v) \<noteq> None"
      using x(2) unfolding as_translate_def by (rule translate_access)
  qed
  ultimately have "access_loop False 3 (a + of_nat i) (table_at (p_space p)) (qmem v) \<noteq> None"
    using ends by blast
  moreover have "canonical (a + of_nat i)" using i n(2) b by (intro low_canonical) simp
  ultimately show ?thesis
    using access_translate by (auto simp: kernel_access_def root as_translate_def)
qed

lemma read_user_bytes:
  assumes "\<forall>i < n. kernel_access False (a + of_nat i) (vm_of s) = Some (f (a + of_nat i))"
  shows "read_user s a n = Inr (map (\<lambda>i. y_mem s (f (a + of_nat i))) [0..<n])"
  using assms
proof (induction n arbitrary: a)
  case (Suc n)
  have "read_user s (a + 1) n = Inr (map (\<lambda>i. y_mem s (f (a + 1 + of_nat i))) [0..<n])"
    by (rule Suc.IH) (use Suc.prems [rule_format, of "Suc i" for i] in \<open>simp add: add.assoc\<close>)
  moreover have "kernel_access False a (vm_of s) = Some (f a)" using Suc.prems [rule_format, of 0] by simp
  moreover have "map (\<lambda>i. y_mem s (f (a + of_nat i))) [0..<Suc n]
      = y_mem s (f a) # map (\<lambda>i. y_mem s (f (a + 1 + of_nat i))) [0..<n]"
    unfolding upt_conv_Cons [OF zero_less_Suc] map_Suc_upt [symmetric] by (simp add: add.assoc)
  ultimately show ?case by simp
qed simp

section \<open>The tables of the kernel\<close>

text \<open>
  What the calls rely on: both tables have their fixed size, the running process is one of the
  table, process numbers follow their slots, and an open file has an absolute path that was cut to
  its field.
\<close>

definition open_file_ok :: "OpenFile \<Rightarrow> bool" where
  "open_file_ok f \<longleftrightarrow> (of_used f \<longrightarrow> of_path f \<noteq> [] \<and> hd (of_path f) = CHR ''/'' \<and> length (of_path f) < 128)"

definition system_ok :: "('f, 's) system \<Rightarrow> bool" where
  "system_ok s \<longleftrightarrow> length (y_open s) = max_open_files \<and> (\<forall>f \<in> set (y_open s). open_file_ok f)
   \<and> length (y_processes s) = max_processes \<and> y_total s \<le> max_processes
   \<and> (\<forall>i < y_total s. p_id (y_processes s ! i) = of_nat (i + 1))
   \<and> (\<forall>i. y_current s = Some i \<longrightarrow> i < y_total s)"

lemma system_okI:
  assumes "system_ok s" "y_processes s' = y_processes s" "y_total s' = y_total s" "y_current s' = y_current s"
    and "length (y_open s') = length (y_open s)" "\<And>f. f \<in> set (y_open s') \<Longrightarrow> f \<in> set (y_open s) \<or> open_file_ok f"
  shows "system_ok s'"
  using assms by (auto simp: system_ok_def)

lemma in_set_update: "x \<in> set (xs[i := y]) \<Longrightarrow> x \<in> set xs \<or> x = y"
  using set_update_subset_insert [of xs i y] by blast

lemma write_user_frame:
  "write_user a bs s = Inr s' \<Longrightarrow> y_open s' = y_open s \<and> y_processes s' = y_processes s \<and> y_total s' = y_total s
     \<and> y_current s' = y_current s \<and> k_heap s' = k_heap s"
  by (induction bs arbitrary: a s) (fastforce split: option.splits)+

lemma sys_write_ok: "system_ok s \<Longrightarrow> sys_write ops root handle buffer len s = Inr (r, s') \<Longrightarrow> system_ok s'"
  by (erule system_okI) (auto simp: sys_write_def Let_def split: if_splits sum.splits prod.splits)

lemma sys_read_ok:
  assumes ok: "system_ok s" and step: "sys_read ops root handle buffer len s = Inr (r, s')"
  shows "system_ok s'"
proof -
  let ?i = "unat (handle - 3)"
  consider "\<exists>fs. s' = s\<lparr>y_files := fs\<rparr>" | "s' = s"
    | fs bytes s2 where "?i < max_open_files" "write_user buffer bytes (s\<lparr>y_files := fs\<rparr>) = Inr s2"
        "s' = s2 \<or> (\<exists>o'. s' = s2\<lparr>y_open := (y_open s2)[?i := (y_open s2 ! ?i)\<lparr>of_offset := o'\<rparr>]\<rparr>)"
    using step by (fastforce simp: sys_read_def Let_def split: if_splits sum.splits prod.splits option.splits)
  then show ?thesis
  proof cases
    case 3
    note W = write_user_frame [OF 3(2)]
    have l: "?i < length (y_open s)" using 3(1) ok by (simp add: system_ok_def)
    have "\<forall>o'. open_file_ok ((y_open s ! ?i)\<lparr>of_offset := o'\<rparr>)"
      using ok nth_mem [OF l] by (simp add: system_ok_def open_file_ok_def)
    then show ?thesis using 3(3) W by (intro system_okI [OF ok]) (auto dest!: in_set_update)
  qed (use ok in \<open>auto intro: system_okI\<close>)
qed

lemma sys_close_ok:
  assumes ok: "system_ok s" and step: "sys_close handle s = (r, s')"
  shows "system_ok s'"
proof -
  have "s' = s \<or> s' = s\<lparr>y_open := (y_open s)[unat (handle - 3) := (y_open s ! unat (handle - 3))\<lparr>of_used := False\<rparr>]\<rparr>"
    using step by (auto simp: sys_close_def Let_def split: if_splits)
  then show ?thesis
    by (intro system_okI [OF ok]) (auto simp: open_file_ok_def dest!: in_set_update)
qed

lemma stat_absolute:
  assumes "vfs_stat ops root v (Some name) s = (Some sti, s')"
  shows "name \<noteq> [] \<and> hd name = CHR ''/''"
  using assms
  by (cases name) (auto simp: vfs_stat_def resolve_path_def char_at_def split: prod.splits option.splits if_splits)

lemma sys_open_ok:
  assumes ok: "system_ok s" and step: "sys_open ops root path s = Some (Inr (r, s'))"
  shows "system_ok s'"
proof (cases "user_range_ok path 1 s")
  case False
  then show ?thesis using ok step by (simp add: sys_open_def)
next
  case True
  then obtain name where name: "read_user_string s path = Some (Inr name)"
    using step by (cases "read_user_string s path"; cases "the (read_user_string s path)") (auto simp: sys_open_def)
  obtain sti fs where sti: "vfs_stat ops root (y_vfs s) (Some name) (y_files s) = (sti, fs)" by fastforce
  show ?thesis
  proof (cases "sti = None \<or> free_slot (y_open s) = None")
    case None: True
    then have "s' = s\<lparr>y_files := fs\<rparr>" using True name sti step by (auto simp: sys_open_def split: option.splits)
    then show ?thesis by (intro system_okI [OF ok]) auto
  next
    case False
    then obtain sti' i where i: "sti = Some sti'" "free_slot (y_open s) = Some i" by auto
    let ?f = "\<lparr>of_used = True, of_offset = 0, of_path = bounded_copy 128 name\<rparr>"
    have "s' = s\<lparr>y_files := fs, y_open := (y_open s)[i := ?f]\<rparr>" using True name sti i step by (simp add: sys_open_def)
    moreover have "open_file_ok ?f"
      using stat_absolute [OF sti [unfolded i(1)]] by (cases name) (auto simp: open_file_ok_def bounded_copy_take)
    ultimately show ?thesis by (intro system_okI [OF ok]) (auto dest!: in_set_update)
  qed
qed

section \<open>Properties\<close>



section \<open>What the check on a range misses\<close>

text \<open>
  \<open>owns\<close> looks only at the bits of an address that index the tables. An address with bit 48 set is
  above the user base and translates like the kernel address below it, so it passes, and the access
  that follows faults in the kernel: a program can stop the machine with one call.
\<close>

lemma translate_alias: "as_translate root (a + 2 ^ 48) v = as_translate root a v"
proof -
  have low: "take_bit 48 (a + 2 ^ 48) = take_bit 48 a"
    by (simp add: take_bit_eq_mod unat_word_ariths word_unat_eq_iff unat_mod_distrib mod_mod_cancel)
  have b: "bit (a + 2 ^ 48) n \<longleftrightarrow> bit a n" if "n < 48" for n
    using low that by (metis bit_take_bit_iff)
  have i: "index_of (a + 2 ^ 48) l = index_of a l" if "l \<le> 3" for l
    unfolding index_of_def
  proof (rule bit_word_eqI)
    fix n assume "n < LENGTH(64)"
    have m: "bit (0x1FF :: u64) n \<longleftrightarrow> n < 9" using bit_mask_iff [where 'a = u64, of 9 n] by (auto simp: mask_eq_exp_minus_1)
    show "bit (drop_bit (12 + 9 * l) (a + 2 ^ 48) AND 0x1FF) n \<longleftrightarrow> bit (drop_bit (12 + 9 * l) a AND 0x1FF) n"
    proof (cases "n < 9")
      case True
      then show ?thesis using that b [of "12 + 9 * l + n"] by (simp add: bit_and_iff bit_drop_bit_eq)
    next
      case False
      then have "\<not> bit (0x1FF :: u64) n" using m by simp
      then show ?thesis by (simp only: bit_and_iff) blast
    qed
  qed
  have o: "(a + 2 ^ 48) AND mask j = a AND mask j" if "j \<le> 48" for j
    by (rule bit_word_eqI) (use b that in \<open>auto simp: bit_and_iff bit_mask_iff\<close>)
  have k: "(a + 2 ^ 48) AND 4095 = a AND 4095" "(a + 2 ^ 48) AND 2097151 = a AND 2097151"
    using o [of 12] o [of 21] by (simp_all add: mask_eq_exp_minus_1)
  show ?thesis
    unfolding as_translate_def translate_levels leaf_address_def Let_def k using i by simp
qed

lemma sys_write_non_canonical:
  assumes "current_process s = Some i" and "as_translate (p_space (y_processes s ! i)) a (vm_of s) \<noteq> 0" and "unat a < 2 ^ 39"
  shows "sys_write ops root 1 (a + 2 ^ 48) 1 s = Inl (KernelFault (a + 2 ^ 48))"
proof -
  have u: "unat (a + 2 ^ 48) = unat a + 2 ^ 48" using assms(3) by (simp add: unat_u64_add)
  then have "\<not> a + 2 ^ 48 < user_base" by (simp add: word_less_nat_alt)
  then have r: "user_range_ok (a + 2 ^ 48) 1 s"
    using assms(1,2) translate_alias [of _ a] by (simp add: user_range_ok_def process_owns_def add.commute [of _ a])
  have "unat (drop_bit 47 (a + 2 ^ 48)) = 2"
    using u assms(3) by (simp add: drop_bit_eq_div unat_div_distrib div_add1_eq)
  then have "\<not> canonical (a + 2 ^ 48)" unfolding canonical_def by auto
  then show ?thesis using r by (simp add: sys_write_def kernel_access_def)
qed

section \<open>Witnesses\<close>

text \<open>The tiny program of the loader as the running process, with an empty root file system.\<close>

definition tiny_system :: "image_load \<Rightarrow> (unit, ramfs option) system" where
  "tiny_system l = \<lparr>k_heap = small_heap\<lparr>hp_vm := (il_mmu l)\<lparr>cr3 := p_space (il_proc l)\<rparr>\<rparr>, k_vm = fresh_vmalloc,
     k_sched = one_cpu, y_mem = il_mem l, y_processes = il_proc l # replicate 7 (il_proc tiny_load), y_total = 1,
     y_current = Some 0, y_vfs = ram_vfs, y_files = Some empty_ram,
     y_open = replicate 8 \<lparr>of_used = False, of_offset = 0, of_path = []\<rparr>, y_console = []\<rparr>"

lemma tiny_system_maps:
  assumes "process_load 0x1000 0x40000000 124 tiny_load = (True, l)" and "i < 8"
  shows "as_translate (p_space (il_proc l)) (0x8000000000 + of_nat i) (vm_of (tiny_system l)) \<noteq> 0"
    and "y_mem (tiny_system l) (as_translate (p_space (il_proc l)) (0x8000000000 + of_nat i) (vm_of (tiny_system l)))
       = (if i < 4 then tiny_memory (0x40000000 + (120 + of_nat i)) else 0)"
proof -
  note S = tiny_loaded [OF assms(1), unfolded segment_loaded_def]
  have v: "as_translate r w (vm_of (tiny_system l)) = as_translate r w (il_mmu l)" for r w
    by (simp add: vm_of_def tiny_system_def as_translate_def)
  have "unat (0x8000000000 + of_nat i :: u64) = 549755813888 + i"
    using assms(2) by (simp add: unat_u64_add unat_u64_of_nat)
  moreover from this have "frame_no (0x8000000000 + of_nat i) = 134217728" using assms(2) by (simp add: frame_no_def div_4096_eq)
  moreover have "134217728 \<in> segment_range tiny_segment"
    using tiny_segment_fits(3) by (simp add: segment_range_def tiny_segment_def frame_no_def)
  ultimately show "as_translate (p_space (il_proc l)) (0x8000000000 + of_nat i) (vm_of (tiny_system l)) \<noteq> 0"
    using S assms(2) unfolding v by simp
  show "y_mem (tiny_system l) (as_translate (p_space (il_proc l)) (0x8000000000 + of_nat i) (vm_of (tiny_system l)))
       = (if i < 4 then tiny_memory (0x40000000 + (120 + of_nat i)) else 0)"
    using S assms(2) unfolding v by (simp add: tiny_segment_def tiny_system_def)
qed


lemma tiny_system_ok: "system_ok (tiny_system tiny_load)"
  by (auto simp: system_ok_def open_file_ok_def tiny_system_def tiny_load_def)


end
