(* ===== verification/Console.thy ===== *)
theory Console
  imports Bytes
begin

unbundle bit_operations_syntax

text \<open>
  The kernel log: the console table of \<^verbatim>\<open>kernel/lib/console.cpp\<close> and the formatted output of
  \<^verbatim>\<open>kernel/lib/printk.cpp\<close>.

  A console is an object with a virtual \<open>put\<close>; it is known by its address, and the state keeps
  the characters each of them was given. The recursive lock around every operation makes the
  operations atomic; the lock itself is the subject of \<^verbatim>\<open>Lock\<close>. A variable argument is the 64 bit
  slot it is passed in, of which an \<open>int\<close> conversion reads the lower half. \<open>None\<close> is a call with
  undefined behaviour: an argument that was not passed, a string without an end, or a digit
  written in front of the buffer.
\<close>

section \<open>The console table\<close>

definition max_consoles :: nat where [simp]: "max_consoles = 4"

record console_state =
  consoles :: "u64 list"
  printed :: "u64 \<Rightarrow> string"

definition put :: "u64 \<Rightarrow> char \<Rightarrow> console_state \<Rightarrow> console_state" where
  "put con c s = s\<lparr>printed := (printed s)(con := printed s con @ [c])\<rparr>"

definition console_object_write :: "u64 \<Rightarrow> string \<Rightarrow> console_state \<Rightarrow> console_state" where
  "console_object_write con text s = fold (put con) text s"

definition console_register :: "u64 \<Rightarrow> console_state \<Rightarrow> console_state" where
  "console_register con s =
     (if con = 0 \<or> length (consoles s) \<ge> max_consoles then s
      else if \<exists>i \<in> set [0..<length (consoles s)]. consoles s ! i = con then s
      else s\<lparr>consoles := consoles s @ [con]\<rparr>)"

definition close_gap :: "nat \<Rightarrow> 'a list \<Rightarrow> 'a list" where
  "close_gap i t = take (length t - 1) (fold (\<lambda>j t. t[j := t ! (j + 1)]) [i..<length t - 1] t)"

fun console_unregister_loop :: "nat list \<Rightarrow> u64 \<Rightarrow> u64 list \<Rightarrow> u64 list" where
  "console_unregister_loop [] con t = t"
| "console_unregister_loop (i # is) con t =
     (if t ! i \<noteq> con then console_unregister_loop is con t else close_gap i t)"

definition console_unregister :: "u64 \<Rightarrow> console_state \<Rightarrow> console_state" where
  "console_unregister con s =
     s\<lparr>consoles := console_unregister_loop [0..<length (consoles s)] con (consoles s)\<rparr>"

definition console_put :: "char \<Rightarrow> console_state \<Rightarrow> console_state" where
  "console_put c s = fold (\<lambda>i s. put (consoles s ! i) c s) [0..<length (consoles s)] s"

definition console_write :: "string \<Rightarrow> console_state \<Rightarrow> console_state" where
  "console_write text s =
     fold (\<lambda>c s. fold (\<lambda>i s. put (consoles s ! i) c s) [0..<length (consoles s)] s) text s"

section \<open>Formatted output\<close>

datatype LogLevel = Debug | Info | Warn | Error

fun level_prefix :: "LogLevel \<Rightarrow> string" where
  "level_prefix Debug = ''[dbg] ''"
| "level_prefix Info = ''[inf] ''"
| "level_prefix Warn = ''[wrn] ''"
| "level_prefix Error = ''[err] ''"

definition digit_buffer :: nat where [simp]: "digit_buffer = 24"

definition digit_chars :: "bool \<Rightarrow> string" where
  "digit_chars uppercase = (if uppercase then ''0123456789ABCDEF'' else ''0123456789abcdef'')"

text \<open>The loop fills the buffer from its end; \<open>text\<close> is the part already filled.\<close>

fun digits_loop :: "string \<Rightarrow> u64 \<Rightarrow> u64 \<Rightarrow> nat \<Rightarrow> string \<Rightarrow> string option" where
  "digits_loop digits val base 0 text = None"
| "digits_loop digits val base (Suc index) text =
     (let text' = digits ! unat (val mod base) # text;
          val' = val div base
      in if val' \<noteq> 0 then digits_loop digits val' base index text' else Some text')"

definition print_unsigned :: "u64 \<Rightarrow> u32 \<Rightarrow> bool \<Rightarrow> console_state \<Rightarrow> console_state option" where
  "print_unsigned val base uppercase s =
     Option.bind (digits_loop (digit_chars uppercase) val (ucast base) digit_buffer [])
       (\<lambda>text. Some (fold console_put text s))"

definition print_signed :: "u64 \<Rightarrow> console_state \<Rightarrow> console_state option" where
  "print_signed val s =
     (if sint val < 0 then print_unsigned (0 - val) 10 False (console_put (CHR ''-'') s)
      else print_unsigned val 10 False s)"

definition va_unsigned :: "bool \<Rightarrow> u64 \<Rightarrow> u64" where
  "va_unsigned is_long arg = (if is_long then arg else ucast (ucast arg :: u32))"

definition va_signed :: "bool \<Rightarrow> u64 \<Rightarrow> u64" where
  "va_signed is_long arg = (if is_long then arg else scast (ucast arg :: u32))"

text \<open>The \<open>switch\<close> of the loop, given the argument a conversion takes.\<close>

definition convert ::
  "memory \<Rightarrow> bool \<Rightarrow> char \<Rightarrow> u64 \<Rightarrow> console_state \<Rightarrow> console_state option" where
  "convert m is_long p arg s =
     (if p = CHR ''c'' then Some (console_put (char_of (unat (ucast arg :: u8))) s)
      else if p = CHR ''s'' then
        (if arg \<noteq> 0 then Option.bind (c_string m arg) (\<lambda>text. Some (console_write text s))
         else Some (console_write ''(null)'' s))
      else if p = CHR ''d'' \<or> p = CHR ''i'' then print_signed (va_signed is_long arg) s
      else if p = CHR ''u'' then print_unsigned (va_unsigned is_long arg) 10 False s
      else if p = CHR ''x'' then print_unsigned (va_unsigned is_long arg) 16 False s
      else if p = CHR ''X'' then print_unsigned (va_unsigned is_long arg) 16 True s
      else print_unsigned arg 16 False (console_write ''0x'' s))"

definition takes_argument :: "char \<Rightarrow> bool" where
  "takes_argument p \<longleftrightarrow> p \<in> set ''csdiuxXp''"

definition literal :: "char \<Rightarrow> console_state \<Rightarrow> console_state" where
  "literal p s =
     (if p = CHR ''%'' then console_put (CHR ''%'') s
      else console_put p (console_put (CHR ''%'') s))"

definition skip_long :: "string \<Rightarrow> string" where
  "skip_long p = dropWhile (\<lambda>c. c = CHR ''l'') p"

lemma length_skip_long: "length (skip_long p) \<le> length p"
  by (simp add: skip_long_def length_dropWhile_le)

function vprintk ::
  "memory \<Rightarrow> string \<Rightarrow> u64 list \<Rightarrow> console_state \<Rightarrow> console_state option" where
  "vprintk m fmt args s =
     (case fmt of
        [] \<Rightarrow> Some s
      | c # p \<Rightarrow>
          if c \<noteq> CHR ''%'' then vprintk m p args (console_put c s)
          else (case skip_long p of
              [] \<Rightarrow> Some s
            | d # q \<Rightarrow>
                if takes_argument d then
                  (case args of
                     [] \<Rightarrow> None
                   | a # rest \<Rightarrow>
                       Option.bind (convert m (d # q \<noteq> p) d a s) (vprintk m q rest))
                else vprintk m q args (literal d s)))"
  by pat_completeness auto
termination
  by (relation "measure (\<lambda>(m, fmt, args, s). length fmt)")
    (auto simp: less_Suc_eq_le dest!: arg_cong [where f = length]
       intro: order.trans [OF _ length_skip_long] Suc_leD)

declare vprintk.simps [simp del]

definition printk ::
  "memory \<Rightarrow> LogLevel \<Rightarrow> string \<Rightarrow> u64 list \<Rightarrow> console_state \<Rightarrow> console_state option" where
  "printk m level fmt args s = vprintk m fmt args (console_write (level_prefix level) s)"


section \<open>The table keeps its shape\<close>

definition console_ok :: "console_state \<Rightarrow> bool" where
  "console_ok s \<longleftrightarrow> distinct (consoles s) \<and> length (consoles s) \<le> max_consoles \<and> 0 \<notin> set (consoles s)"

lemma close_gap_eq:
  assumes "i < length t"
  shows "close_gap i t = take i t @ drop (Suc i) t"
proof -
  have shift: "length (fold (\<lambda>j t. t[j := t ! (j + 1)]) [i..<n] t) = length t \<and>
      (\<forall>k < length t. fold (\<lambda>j t. t[j := t ! (j + 1)]) [i..<n] t ! k
         = (if i \<le> k \<and> k < n then t ! (k + 1) else t ! k))" if "n \<le> length t - 1" for n
    using that
  proof (induction n)
    case (Suc n)
    then show ?case
      by (cases "i \<le> n") (auto simp: nth_list_update)
  qed simp
  show ?thesis
    unfolding close_gap_def
    by (rule nth_equalityI)
      (use assms shift [of "length t - 1"] in \<open>auto simp: nth_append min_def split: if_splits\<close>)
qed

lemma console_unregister_loop_eq:
  "i \<le> length t \<Longrightarrow> con \<notin> set (take i t) \<Longrightarrow>
   console_unregister_loop [i..<length t] con t = remove1 con t"
proof (induction "length t - i" arbitrary: i)
  case 0
  then show ?case by (simp add: remove1_idem)
next
  case (Suc n)
  then have less: "i < length t" by simp
  show ?case
  proof (cases "t ! i = con")
    case True
    have "remove1 con t = remove1 con (take i t @ t ! i # drop (Suc i) t)"
      using less by (simp add: id_take_nth_drop [symmetric])
    also have "\<dots> = take i t @ drop (Suc i) t"
      using Suc.prems(2) True by (simp add: remove1_append)
    finally show ?thesis
      using True less by (simp add: upt_rec [of i] close_gap_eq)
  next
    case False
    have "console_unregister_loop [Suc i..<length t] con t = remove1 con t"
      by (rule Suc.hyps(1)) (use Suc less False in \<open>auto simp: take_Suc_conv_app_nth\<close>)
    with False less show ?thesis by (simp add: upt_rec [of i])
  qed
qed

lemma console_unregister_consoles:
  "consoles (console_unregister con s) = remove1 con (consoles s)"
  by (simp add: console_unregister_def console_unregister_loop_eq)

lemma console_register_consoles:
  "consoles (console_register con s) =
     (if con = 0 \<or> length (consoles s) \<ge> 4 \<or> con \<in> set (consoles s) then consoles s
      else consoles s @ [con])"
  by (auto simp: console_register_def in_set_conv_nth)

lemma console_register_ok [inv_intros]: "console_ok s \<Longrightarrow> console_ok (console_register con s)"
  by (auto simp: console_ok_def console_register_consoles)

lemma console_unregister_ok [inv_intros]: "console_ok s \<Longrightarrow> console_ok (console_unregister con s)"
  by (auto simp: console_ok_def console_unregister_consoles length_remove1 dest: notin_set_remove1)

section \<open>What the consoles receive\<close>

definition emit :: "string \<Rightarrow> console_state \<Rightarrow> console_state" where
  "emit text s = s\<lparr>printed := \<lambda>con. if con \<in> set (consoles s) then printed s con @ text else printed s con\<rparr>"

lemma put_consoles [frame_simps]: "consoles (put con c s) = consoles s"
  by (simp add: put_def)

lemma fold_put:
  assumes "distinct (consoles s)" and "n \<le> length (consoles s)"
  shows "fold (\<lambda>i s. put (consoles s ! i) c s) [0..<n] s
       = s\<lparr>printed := \<lambda>con. if con \<in> set (take n (consoles s)) then printed s con @ [c] else printed s con\<rparr>"
  using assms(2)
proof (induction n)
  case 0
  then show ?case by simp
next
  case (Suc n)
  have "consoles s ! n \<notin> set (take n (consoles s))"
    using distinct_take [OF assms(1), of "Suc n"] Suc.prems
    by (simp add: take_Suc_conv_app_nth)
  with Suc show ?case
    by (auto simp: put_def fun_eq_iff take_Suc_conv_app_nth)
qed

lemma console_put_emit: "distinct (consoles s) \<Longrightarrow> console_put c s = emit [c] s"
  by (simp add: console_put_def emit_def fold_put)

lemma emit_consoles [frame_simps, simp]: "consoles (emit text s) = consoles s"
  by (simp add: emit_def)

lemma emit_emit: "emit b (emit a s) = emit (a @ b) s"
  by (auto simp: emit_def fun_eq_iff)

lemma emit_Nil [simp]: "emit [] s = s"
  by (auto simp: emit_def intro!: console_state.equality)

lemma fold_console_put: "distinct (consoles s) \<Longrightarrow> fold console_put ln s = emit ln s"
proof (induction ln arbitrary: s)
  case (Cons c ln)
  then have "fold console_put ln (emit [c] s) = emit ln (emit [c] s)"
    by simp
  with Cons.prems show ?case by (simp add: console_put_emit emit_emit)
qed simp

lemma console_write_emit: "distinct (consoles s) \<Longrightarrow> console_write ln s = emit ln s"
  using fold_console_put [of s ln] by (simp add: console_write_def console_put_def [abs_def])


section \<open>Numbers\<close>

text \<open>The notation of a number, and the number a notation stands for.\<close>

definition digit_value :: "char \<Rightarrow> nat" where
  "digit_value c =
     (let n = of_char c in if n \<le> 57 then n - 48 else if 97 \<le> n then n - 87 else n - 55)"

definition parse_number :: "nat \<Rightarrow> string \<Rightarrow> nat" where
  "parse_number base ln = foldl (\<lambda>n c. n * base + digit_value c) 0 ln"

fun notation_of :: "nat \<Rightarrow> string \<Rightarrow> nat \<Rightarrow> nat \<Rightarrow> string" where
  "notation_of base digits 0 n = []"
| "notation_of base digits (Suc k) n =
     (if n < base then [digits ! n]
      else notation_of base digits k (n div base) @ [digits ! (n mod base)])"

definition number_text :: "nat \<Rightarrow> bool \<Rightarrow> nat \<Rightarrow> string" where
  "number_text base uppercase n = notation_of base (digit_chars uppercase) digit_buffer n"

lemma notation_of_numeral:
  "notation_of base digits (numeral k) n =
     (if n < base then [digits ! n]
      else notation_of base digits (pred_numeral k) (n div base) @ [digits ! (n mod base)])"
  by (simp add: numeral_eq_Suc)

lemma digits_loop_notation:
  assumes "1 < unat base"
  shows "unat v < unat base ^ index \<Longrightarrow> 0 < index \<Longrightarrow>
         digits_loop digits v base index ln = Some (notation_of (unat base) digits index (unat v) @ ln)"
proof (induction index arbitrary: v ln)
  case (Suc index)
  have d: "unat (v div base) = unat v div unat base" and r: "unat (v mod base) = unat v mod unat base"
    by (simp_all add: unat_div_distrib unat_mod_distrib)
  show ?case
  proof (cases "unat v < unat base")
    case True
    then have "v div base = 0" by (simp add: d word_unat_eq_iff)
    with True show ?thesis by (simp add: Let_def r)
  next
    case False
    with assms have nz: "unat v div unat base \<noteq> 0" by (simp add: div_eq_0_iff)
    then have nz': "v div base \<noteq> 0" by (metis d unat_0)
    have "unat v div unat base < unat base ^ index"
      using Suc.prems(1) by (simp add: less_mult_imp_div_less mult.commute)
    moreover have "0 < index"
      using calculation nz by (cases index) simp_all
    ultimately have "digits_loop digits (v div base) base index ln'
        = Some (notation_of (unat base) digits index (unat v div unat base) @ ln')" for ln'
      using Suc.IH [of "v div base" ln'] by (simp add: d)
    with False nz' show ?thesis by (simp add: Let_def r)
  qed
qed simp

lemma print_unsigned_emit:
  assumes "distinct (consoles s)" and "base = 10 \<or> base = 16"
  shows "print_unsigned v base uppercase s = Some (emit (number_text (unat base) uppercase (unat v)) s)"
proof -
  have b: "unat (ucast base :: u64) = unat base" by simp
  have "(18446744073709551616 :: nat) \<le> unat base ^ 24"
    using assms(2) by auto
  then have "unat v < unat base ^ 24" using u64_bound [of v] by linarith
  moreover have "1 < unat base" using assms(2) by auto
  ultimately have "digits_loop (digit_chars uppercase) v (ucast base) 24 []
      = Some (notation_of (unat base) (digit_chars uppercase) 24 (unat v))"
    using digits_loop_notation [of "ucast base" v 24 "digit_chars uppercase" "[]"] by simp
  then show ?thesis
    by (simp add: print_unsigned_def number_text_def fold_console_put [OF assms(1)] del: digits_loop.simps)
qed

lemma digit_value_lookup:
  "n < 16 \<Longrightarrow> digit_value (digit_chars uppercase ! n) = n"
  by (auto simp: digit_value_def digit_chars_def less_Suc_eq eval_nat_numeral)

lemma parse_notation:
  assumes "1 < base" "base \<le> 16"
  shows "n < base ^ k \<Longrightarrow> parse_number base (notation_of base (digit_chars uppercase) k n) = n"
proof (induction k arbitrary: n)
  case 0
  then show ?case by (simp add: parse_number_def)
next
  case (Suc k)
  have "n mod base < 16" using assms by (metis mod_less_divisor less_le_trans zero_less_one less_trans)
  moreover have "n div base < base ^ k"
    using Suc.prems by (simp add: less_mult_imp_div_less mult.commute)
  ultimately show ?case
    using Suc.IH [of "n div base"] assms
    by (auto simp: parse_number_def digit_value_lookup)
qed

lemma notation_length:
  assumes "1 < base"
  shows "n < base ^ j \<Longrightarrow> 0 < j \<Longrightarrow> length (notation_of base digits k n) \<le> j"
proof (induction k arbitrary: n j)
  case (Suc k)
  show ?case
  proof (cases "n < base")
    case False
    from Suc.prems obtain i where j: "j = Suc i" by (cases j) auto
    have "n div base < base ^ i"
      using Suc.prems by (simp add: j less_mult_imp_div_less mult.commute)
    moreover have "0 < i" using Suc.prems False j by (cases i) simp_all
    ultimately show ?thesis using Suc.IH [of "n div base" i] False by (simp add: j)
  qed (use Suc.prems in simp)
qed simp


lemma number_text_ok:
  assumes "base = 10 \<or> base = 16"
  shows "parse_number base (number_text base uppercase (unat (v :: u64))) = unat v"
    and "length (number_text base uppercase (unat v)) \<le> 20"
proof -
  have b: "1 < base" "base \<le> 16" using assms by auto
  have "(18446744073709551616 :: nat) \<le> base ^ 20" using assms by auto
  then have n: "unat v < base ^ 20" using u64_bound [of v] by linarith
  then show "length (number_text base uppercase (unat v)) \<le> 20"
    unfolding number_text_def by (intro notation_length) (use b in simp_all)
  have "base ^ 20 \<le> base ^ digit_buffer" by (rule power_increasing) (use b in simp_all)
  with n have "unat v < base ^ digit_buffer" by linarith
  then show "parse_number base (number_text base uppercase (unat v)) = unat v"
    unfolding number_text_def by (rule parse_notation [OF b])
qed

section \<open>What a format stands for\<close>

definition signed_text :: "int \<Rightarrow> string" where
  "signed_text i = (if i < 0 then CHR ''-'' # number_text 10 False (nat (- i)) else number_text 10 False (nat i))"

definition conversion_text :: "memory \<Rightarrow> bool \<Rightarrow> char \<Rightarrow> u64 \<Rightarrow> string option" where
  "conversion_text m is_long p arg =
     (if p = CHR ''c'' then Some [char_of (unat arg mod 256)]
      else if p = CHR ''s'' then (if arg = 0 then Some ''(null)'' else c_string m arg)
      else if p = CHR ''d'' \<or> p = CHR ''i''
        then Some (signed_text (if is_long then sint arg else sint (ucast arg :: u32)))
      else if p = CHR ''u''
        then Some (number_text 10 False (if is_long then unat arg else unat arg mod 4294967296))
      else if p = CHR ''x'' \<or> p = CHR ''X''
        then Some (number_text 16 (p = CHR ''X'') (if is_long then unat arg else unat arg mod 4294967296))
      else Some (''0x'' @ number_text 16 False (unat arg)))"

function format_text :: "memory \<Rightarrow> string \<Rightarrow> u64 list \<Rightarrow> string option" where
  "format_text m fmt args =
     (case fmt of
        [] \<Rightarrow> Some []
      | c # p \<Rightarrow>
          if c \<noteq> CHR ''%'' then map_option ((#) c) (format_text m p args)
          else (case skip_long p of
              [] \<Rightarrow> Some []
            | d # q \<Rightarrow>
                if takes_argument d then
                  (case args of
                     [] \<Rightarrow> None
                   | a # rest \<Rightarrow>
                       Option.bind (conversion_text m (d # q \<noteq> p) d a)
                         (\<lambda>t. map_option ((@) t) (format_text m q rest)))
                else map_option ((@) (if d = CHR ''%'' then ''%'' else [CHR ''%'', d]))
                       (format_text m q args)))"
  by pat_completeness auto
termination
  by (relation "measure (\<lambda>(m, fmt, args). length fmt)")
    (auto simp: less_Suc_eq_le dest!: arg_cong [where f = length]
       intro: order.trans [OF _ length_skip_long] Suc_leD)

declare format_text.simps [simp del]

lemma sint_u64:
  "sint (v :: u64) < 0 \<Longrightarrow> sint v = int (unat v) - 18446744073709551616"
  "\<not> sint v < 0 \<Longrightarrow> sint v = int (unat v)"
proof -
  have e: "sint v = uint v - 18446744073709551616 * of_bool (bit (uint v) 63)"
    using uint_lt2p [of v]
    by (simp add: sint_uint signed_take_bit_eq_take_bit_minus take_bit_eq_mod)
  have u: "uint v = int (unat v)" by (rule uint_nat)
  have b: "uint v < 18446744073709551616" using uint_lt2p [of v] by simp
  show "sint v = int (unat v) - 18446744073709551616" if "sint v < 0"
    using e b that uint_ge_0 [of v] unfolding u by (cases "bit (int (unat v)) 63") simp_all
  show "sint v = int (unat v)" if "\<not> sint v < 0"
    using e b that uint_ge_0 [of v] unfolding u by (cases "bit (int (unat v)) 63") simp_all
qed

lemma print_signed_emit:
  assumes "distinct (consoles s)"
  shows "print_signed v s = Some (emit (signed_text (sint v)) s)"
proof (cases "sint v < 0")
  case True
  note i = sint_u64(1) [OF True]
  have "v \<noteq> 0" using True by auto
  then have "unat v > 0" by (simp add: unat_gt_0)
  moreover have "unat (0 - v) = (18446744073709551616 - unat v) mod 18446744073709551616"
    using unat_sub_if' [of 0 v] u64_bound [of v] by simp
  ultimately have "unat (0 - v) = 18446744073709551616 - unat v" by simp
  also have "\<dots> = nat (- sint v)"
    using u64_bound [of v] i by linarith
  finally have "print_unsigned (0 - v) 10 False (emit ''-'' s)
      = Some (emit (number_text 10 False (nat (- sint v))) (emit ''-'' s))"
    using print_unsigned_emit [of "emit ''-'' s" 10 "0 - v" False] assms by simp
  with True show ?thesis
    by (simp add: print_signed_def console_put_emit [OF assms] emit_emit signed_text_def)
next
  case False
  from sint_u64(2) [OF False] have "nat (sint v) = unat v" by simp
  with False show ?thesis
    using print_unsigned_emit [OF assms, of 10 v False] by (simp add: print_signed_def signed_text_def)
qed

lemma unat_va_unsigned:
  "unat (va_unsigned is_long arg) = (if is_long then unat arg else unat arg mod 4294967296)"
  by (simp add: va_unsigned_def unsigned_ucast_eq take_bit_eq_mod unat_mod_distrib)

lemma sint_va_signed:
  "sint (va_signed is_long arg) = (if is_long then sint arg else sint (ucast arg :: u32))"
proof -
  have "sint (scast (x :: u32) :: u64) = sint x" for x
    using sint_lt [of x] sint_ge [of x]
    by (simp add: signed_scast_eq signed_take_bit_int_eq_self)
  then show ?thesis by (simp add: va_signed_def)
qed

lemma convert_emit:
  assumes d: "distinct (consoles s)" and "takes_argument p"
  shows "convert m is_long p arg s = map_option (\<lambda>t. emit t s) (conversion_text m is_long p arg)"
proof -
  have c: "unat (ucast arg :: u8) = unat arg mod 256"
    by (simp add: unsigned_ucast_eq take_bit_eq_mod)
  have hex: "print_unsigned arg 16 False (emit ''0x'' s)
      = Some (emit (number_text 16 False (unat arg)) (emit ''0x'' s))"
    using print_unsigned_emit [of "emit ''0x'' s" 16] d by simp
  have num: "print_unsigned v 10 False s = Some (emit (number_text 10 False (unat v)) s)"
    "print_unsigned v 16 up s = Some (emit (number_text 16 up (unat v)) s)" for v up
    using print_unsigned_emit [OF d] by simp_all
  have "p = CHR ''c'' \<or> p = CHR ''s'' \<or> p = CHR ''d'' \<or> p = CHR ''i'' \<or> p = CHR ''u''
      \<or> p = CHR ''x'' \<or> p = CHR ''X'' \<or> p = CHR ''p''"
    using assms(2) by (simp add: takes_argument_def)
  then show ?thesis
    unfolding convert_def conversion_text_def console_put_emit [OF d] console_write_emit [OF d]
      print_signed_emit [OF d] num hex c sint_va_signed unat_va_unsigned
    by (cases "c_string m arg"; elim disjE; simp add: emit_emit)
qed

text \<open>One step of the loop and of its reference, case by case.\<close>

lemma vprintk_steps:
  "vprintk m [] args s = Some s"
  "c \<noteq> CHR ''%'' \<Longrightarrow> vprintk m (c # p) args s = vprintk m p args (console_put c s)"
  "skip_long p = [] \<Longrightarrow> vprintk m (CHR ''%'' # p) args s = Some s"
  "skip_long p = d # q \<Longrightarrow> \<not> takes_argument d \<Longrightarrow>
     vprintk m (CHR ''%'' # p) args s = vprintk m q args (literal d s)"
  "skip_long p = d # q \<Longrightarrow> takes_argument d \<Longrightarrow> vprintk m (CHR ''%'' # p) [] s = None"
  "skip_long p = d # q \<Longrightarrow> takes_argument d \<Longrightarrow>
     vprintk m (CHR ''%'' # p) (a # rest) s
       = Option.bind (convert m (d # q \<noteq> p) d a s) (vprintk m q rest)"
  by (subst vprintk.simps, simp)+

lemma format_text_steps:
  "format_text m [] args = Some []"
  "c \<noteq> CHR ''%'' \<Longrightarrow> format_text m (c # p) args = map_option ((#) c) (format_text m p args)"
  "skip_long p = [] \<Longrightarrow> format_text m (CHR ''%'' # p) args = Some []"
  "skip_long p = d # q \<Longrightarrow> \<not> takes_argument d \<Longrightarrow>
     format_text m (CHR ''%'' # p) args
       = map_option ((@) (if d = CHR ''%'' then ''%'' else [CHR ''%'', d])) (format_text m q args)"
  "skip_long p = d # q \<Longrightarrow> takes_argument d \<Longrightarrow> format_text m (CHR ''%'' # p) [] = None"
  "skip_long p = d # q \<Longrightarrow> takes_argument d \<Longrightarrow>
     format_text m (CHR ''%'' # p) (a # rest)
       = Option.bind (conversion_text m (d # q \<noteq> p) d a) (\<lambda>t. map_option ((@) t) (format_text m q rest))"
  by (subst format_text.simps, simp)+

lemma literal_emit:
  "distinct (consoles s) \<Longrightarrow> literal d s = emit (if d = CHR ''%'' then ''%'' else [CHR ''%'', d]) s"
  by (simp add: literal_def console_put_emit emit_emit)

lemma vprintk_emit:
  "distinct (consoles s) \<Longrightarrow>
   vprintk m fmt args s = map_option (\<lambda>t. emit t s) (format_text m fmt args)"
proof (induction "length fmt" arbitrary: fmt args s rule: less_induct)
  case less
  note steps = vprintk_steps format_text_steps
  have IH: "vprintk m q as (emit t s) = map_option (\<lambda>t'. emit (t @ t') s) (format_text m q as)"
    if "length q < length fmt" for q as t
    using less.hyps [OF that, of "emit t s" as] less.prems by (simp add: emit_emit)
  show ?case
  proof (cases fmt)
    case Nil
    then show ?thesis by (simp add: steps)
  next
    case (Cons c p)
    show ?thesis
    proof (cases "c = CHR ''%''")
      case False
      with Cons less.prems IH [of p args "[c]"] show ?thesis
        by (simp add: steps console_put_emit option.map_comp comp_def)
    next
      case percent: True
      show ?thesis
      proof (cases "skip_long p")
        case Nil
        with Cons percent show ?thesis by (simp add: steps)
      next
        case dq: (Cons d q)
        then have len: "length q < length fmt"
          using length_skip_long [of p] Cons by simp
        show ?thesis
        proof (cases "takes_argument d")
          case False
          from IH [OF len] show ?thesis
            unfolding Cons percent steps(4) [OF dq False] steps(10) [OF dq False]
              literal_emit [OF less.prems] by (simp add: option.map_comp comp_def)
        next
          case takes: True
          show ?thesis
          proof (cases args)
            case Nil
            then show ?thesis unfolding Cons percent by (simp add: steps(5, 11) [OF dq takes])
          next
            case args: (Cons a rest)
            show ?thesis
              unfolding Cons percent args steps(6) [OF dq takes] steps(12) [OF dq takes]
                convert_emit [OF less.prems takes]
              by (cases "conversion_text m (d # q \<noteq> p) d a")
                (simp_all add: IH [OF len] option.map_comp comp_def)
          qed
        qed
      qed
    qed
  qed
qed


lemma printk_emit:
  assumes "console_ok s"
  shows "printk m level fmt args s
       = map_option (\<lambda>t. emit (level_prefix level @ t) s) (format_text m fmt args)"
proof -
  have d: "distinct (consoles s)" using assms by (simp add: console_ok_def)
  have "vprintk m fmt args (emit (level_prefix level) s)
      = map_option (\<lambda>t. emit t (emit (level_prefix level) s)) (format_text m fmt args)"
    by (rule vprintk_emit) (simp add: d)
  then show ?thesis by (simp add: printk_def console_write_emit [OF d] emit_emit)
qed

lemma print_unsigned_digits:
  assumes "console_ok s" and "base = 10 \<or> base = 16"
  shows "\<exists>s' t. print_unsigned v base uppercase s = Some s' \<and> consoles s' = consoles s \<and>
           (\<forall>con. printed s' con = printed s con @ (if con \<in> set (consoles s) then t else [])) \<and>
           parse_number (unat base) t = unat v \<and> length t \<le> 20"
proof -
  let ?t = "number_text (unat base) uppercase (unat v)"
  have b: "unat base = 10 \<or> unat base = 16" using assms(2) by auto
  have "print_unsigned v base uppercase s = Some (emit ?t s)"
    using assms by (intro print_unsigned_emit) (simp_all add: console_ok_def)
  moreover have "\<forall>con. printed (emit ?t s) con = printed s con @ (if con \<in> set (consoles s) then ?t else [])"
    by (simp add: emit_def)
  ultimately show ?thesis
    using number_text_ok [OF b, of uppercase v] emit_consoles [of ?t s] by blast
qed

text \<open>
  Printing a number in base 10 or 16 succeeds for every 64 bit value, every registered
  console receives the same digits, reading them back gives the value, and there are at most
  20 of them, so the loop stays inside its 24 byte buffer.
\<close>

lemma print_unsigned_round_trip:
  assumes "console_ok s" and "base = 10 \<or> base = 16"
  shows "\<exists>s' t. print_unsigned v base uppercase s = Some s' \<and> consoles s' = consoles s \<and>
           (\<forall>con. printed s' con = printed s con @ (if con \<in> set (consoles s) then t else [])) \<and>
           parse_number (unat base) t = unat v \<and> length t \<le> 20"
  by (rule print_unsigned_digits [OF assms])

definition two_consoles :: console_state where
  "two_consoles = \<lparr>consoles = [16, 32], printed = \<lambda>_. []\<rparr>"

lemma two_consoles_ok: "console_ok two_consoles"
  by (simp add: console_ok_def two_consoles_def)

lemma print_unsigned_round_trip_example:
  "\<exists>s' t. print_unsigned 18446744073709551615 10 False two_consoles = Some s' \<and> printed s' 16 = t \<and> printed s' 32 = t \<and>
     parse_number 10 t = 18446744073709551615"
  using print_unsigned_round_trip [OF two_consoles_ok, of 10 18446744073709551615 False]
  by (auto simp: two_consoles_def)

text \<open>
  C32: a log line is its level prefix followed by the text its format and arguments stand for,
  the same on every registered console; a call is undefined only for a missing argument or a
  string without an end.
\<close>

theorem printk_refines_format:
  assumes "console_ok s"
  shows "printk m level fmt args s
       = map_option (\<lambda>t. emit (level_prefix level @ t) s) (format_text m fmt args)"
  by (rule printk_emit [OF assms])

theorem printk_refines_format_witness:
  "printk (\<lambda>_. 0) Warn ''at %d%% %X'' [- 5, 255] two_consoles
     = Some (emit ''[wrn] at -5% FF'' two_consoles)"
proof -
  have "format_text (\<lambda>_. 0) ''at %d%% %X'' [- 5, 255] = Some ''at -5% FF''"
    by (simp add: format_text_steps skip_long_def takes_argument_def conversion_text_def signed_text_def
        number_text_def digit_chars_def notation_of_numeral)
  then show ?thesis
    using printk_refines_format [OF two_consoles_ok, of "\<lambda>_. 0" Warn "''at %d%% %X''" "[- 5, 255]"]
    by simp
qed

end
