(* ===== verification/Ports.thy ===== *)
theory Ports
  imports Console
begin

unbundle bit_operations_syntax

text \<open>
  Port input and output, the serial console of \<^verbatim>\<open>kernel/lib/serial.cpp\<close> and the two legacy
  interrupt controllers of \<^verbatim>\<open>kernel/cpu/pic.cpp\<close>.

  The devices behind the ports are not part of the repository. A value of type \<open>'d ports\<close> says what
  reading and writing a port and waiting do to the state \<open>'d\<close> of the machine around the processor,
  and the drivers take it as their first argument.
\<close>

record 'd ports =
  out_port :: "u16 \<Rightarrow> u8 \<Rightarrow> 'd \<Rightarrow> 'd"
  in_port :: "u16 \<Rightarrow> 'd \<Rightarrow> u8 \<times> 'd"
  out_long :: "u16 \<Rightarrow> u32 \<Rightarrow> 'd \<Rightarrow> 'd"
  in_long :: "u16 \<Rightarrow> 'd \<Rightarrow> u32 \<times> 'd"
  delay_us :: "nat \<Rightarrow> 'd \<Rightarrow> 'd"

definition out_ports :: "'d ports \<Rightarrow> (u16 \<times> u8) list \<Rightarrow> 'd \<Rightarrow> 'd" where
  "out_ports io writes d = fold (\<lambda>(p, v). out_port io p v) writes d"

section \<open>The serial console\<close>

abbreviation (input) serial_port :: u16 where "serial_port \<equiv> 0x3F8"

partial_function (option) wait_transmit :: "'d ports \<Rightarrow> 'd \<Rightarrow> 'd option" where
  "wait_transmit io d =
     (case in_port io (serial_port + 5) d of (status, d) \<Rightarrow>
        if status AND 0x20 = 0 then wait_transmit io d else Some d)"

definition serial_send :: "'d ports \<Rightarrow> char \<Rightarrow> 'd \<Rightarrow> 'd option" where
  "serial_send io c d =
     Option.bind (wait_transmit io d) (\<lambda>d. Some (out_port io serial_port (of_char c) d))"

definition serial_put :: "'d ports \<Rightarrow> char \<Rightarrow> 'd \<Rightarrow> 'd option" where
  "serial_put io c d =
     (if c = CHR 0x0A then Option.bind (serial_send io (CHR 0x0D) d) (serial_send io c)
      else serial_send io c d)"

fun serial_write :: "'d ports \<Rightarrow> string \<Rightarrow> 'd \<Rightarrow> 'd option" where
  "serial_write io [] d = Some d"
| "serial_write io (c # p) d = Option.bind (serial_put io c d) (serial_write io p)"

definition serial_setup :: "(u16 \<times> u8) list" where
  "serial_setup = [(serial_port + 1, 0x00), (serial_port + 3, 0x80), (serial_port + 0, 0x01),
     (serial_port + 1, 0x00), (serial_port + 3, 0x03), (serial_port + 2, 0xC7), (serial_port + 4, 0x1E),
     (serial_port + 0, 0xAE)]"

definition serial_init ::
  "'d ports \<Rightarrow> u64 \<Rightarrow> 'd \<Rightarrow> console_state \<Rightarrow> bool \<times> 'd \<times> console_state" where
  "serial_init io self d con =
     (let (echo, d) = in_port io (serial_port + 0) (out_ports io serial_setup d)
      in if echo \<noteq> 0xAE then (False, d, con)
         else (True, out_port io (serial_port + 4) 0x0F d, console_register self con))"

section \<open>The legacy interrupt controllers\<close>

abbreviation (input) pic1_command :: u16 where "pic1_command \<equiv> 0x20"
abbreviation (input) pic1_data :: u16 where "pic1_data \<equiv> 0x21"
abbreviation (input) pic2_command :: u16 where "pic2_command \<equiv> 0xA0"
abbreviation (input) pic2_data :: u16 where "pic2_data \<equiv> 0xA1"
abbreviation (input) pic_end :: u8 where "pic_end \<equiv> 0x20"

definition pic_disable :: "'d ports \<Rightarrow> 'd \<Rightarrow> 'd" where
  "pic_disable io d = out_ports io [(pic1_data, 0xFF), (pic2_data, 0xFF)] d"

text \<open>\<open>io_wait\<close> writes to the unused port 0x80.\<close>

definition io_wait :: "'d ports \<Rightarrow> 'd \<Rightarrow> 'd" where
  "io_wait io d = out_port io 0x80 0 d"

definition pic_setup :: "(u16 \<times> u8) list" where
  "pic_setup = [(pic1_command, 0x11), (pic2_command, 0x11), (pic1_data, 0x20), (pic2_data, 0x28),
     (pic1_data, 0x04), (pic2_data, 0x02), (pic1_data, 0x01), (pic2_data, 0x01)]"

definition pic_init :: "'d ports \<Rightarrow> 'd \<Rightarrow> 'd" where
  "pic_init io d =
     (let (mask1, d) = in_port io pic1_data d;
          (mask2, d) = in_port io pic2_data d;
          d = fold (\<lambda>(p, v) d. io_wait io (out_port io p v d)) pic_setup d
      in out_ports io [(pic1_data, mask1), (pic2_data, mask2)] d)"

definition pic_eoi :: "'d ports \<Rightarrow> u8 \<Rightarrow> 'd \<Rightarrow> 'd" where
  "pic_eoi io irq d =
     (let d = (if irq \<ge> 8 then out_port io pic2_command pic_end d else d)
      in out_port io pic1_command pic_end d)"

definition pic_line :: "u8 \<Rightarrow> u16 \<times> nat" where
  "pic_line irq = (if irq < 8 then (pic1_data, unat irq) else (pic2_data, unat (irq - 8)))"

definition pic_unmask :: "'d ports \<Rightarrow> u8 \<Rightarrow> 'd \<Rightarrow> 'd" where
  "pic_unmask io irq d =
     (let (port, line) = pic_line irq;
          (mask, d) = in_port io port d
      in out_port io port (mask AND NOT (push_bit line 1)) d)"

definition pic_mask :: "'d ports \<Rightarrow> u8 \<Rightarrow> 'd \<Rightarrow> 'd" where
  "pic_mask io irq d =
     (let (port, line) = pic_line irq;
          (mask, d) = in_port io port d
      in out_port io port (mask OR push_bit line 1) d)"

section \<open>What the serial line carries\<close>

text \<open>\<open>line_ready\<close> is what the code needs of the line: the transmitter becomes free at once.\<close>

definition line_ready :: "'d ports \<Rightarrow> bool" where
  "line_ready io \<longleftrightarrow> (\<forall>d. \<exists>s. in_port io 0x3FD d = (s, d) \<and> s AND 0x20 \<noteq> 0)"

definition on_the_line :: "string \<Rightarrow> u8 list" where
  "on_the_line p = concat (map (\<lambda>c. if c = CHR 0x0A then [0x0D, 0x0A] else [of_char c]) p)"

lemma serial_send_ready:
  assumes "line_ready io"
  shows "serial_send io c d = Some (out_port io 0x3F8 (of_char c) d)"
proof -
  obtain s where "in_port io 0x3FD d = (s, d)" "s AND 0x20 \<noteq> 0"
    using assms unfolding line_ready_def by blast
  then have "wait_transmit io d = Some d" by (subst wait_transmit.simps) simp
  then show ?thesis by (simp add: serial_send_def)
qed

lemma serial_write_ready:
  assumes "line_ready io"
  shows "serial_write io p d = Some (out_ports io (map (Pair 0x3F8) (on_the_line p)) d)"
proof (induction p arbitrary: d)
  case (Cons c p)
  show ?case
    by (auto simp: serial_put_def serial_send_ready [OF assms] Cons out_ports_def on_the_line_def)
qed (simp add: out_ports_def on_the_line_def)

lemma pic_line_bit:
  assumes "irq < 16"
  shows "snd (pic_line irq) < 8" and "(fst (pic_line irq) = pic2_data) = (8 \<le> irq)"
  using assms by (auto simp: pic_line_def word_less_nat_alt word_le_nat_alt unat_sub_if')

text \<open>On a controller whose data port reads back what was written, only the line's bit changes.\<close>

lemma pic_mask_bits:
  fixes mask :: u8
  shows "bit (mask OR push_bit line 1) i = (bit mask i \<or> i = line \<and> i < 8)"
    and "bit (mask AND NOT (push_bit line 1)) i = (bit mask i \<and> i \<noteq> line)"
  by (auto simp: bit_simps dest: bit_imp_le_length)

end
