(* ===== verification/Vga.thy ===== *)
theory Vga
  imports Ports
begin

unbundle bit_operations_syntax

text \<open>
  The text screen of \<^verbatim>\<open>modules/vga/vga.cpp\<close>: a console whose characters land in the cells of a
  frame buffer of 80 by 25.

  The frame buffer is the list of its cells, empty while the module has not mapped it. An access
  to a cell that is not there is \<open>None\<close>, so that every operation that returns has stayed inside
  the mapping. Whether the mapping succeeds is up to \<open>map_device\<close>, the subject of \<^verbatim>\<open>Vmalloc\<close>;
  here its result is an argument. The cursor is hidden through two ports, whose machine is the
  parameter of \<^verbatim>\<open>Ports\<close>.
\<close>

section \<open>The screen\<close>

definition screen_width :: nat where [simp]: "screen_width = 80"
definition screen_height :: nat where [simp]: "screen_height = 25"

record VgaConsole =
  vga_buffer :: "u16 list"
  vga_column :: nat
  vga_row :: nat
  vga_color :: u8

definition make_cell :: "char \<Rightarrow> u8 \<Rightarrow> u16" where
  "make_cell c color = ucast (of_char c :: u8) OR push_bit 8 (ucast color)"

definition vga_store :: "nat \<Rightarrow> u16 \<Rightarrow> VgaConsole \<Rightarrow> VgaConsole option" where
  "vga_store i cell s =
     (if i < length (vga_buffer s) then Some (s\<lparr>vga_buffer := (vga_buffer s)[i := cell]\<rparr>) else None)"

definition vga_load :: "nat \<Rightarrow> VgaConsole \<Rightarrow> u16 option" where
  "vga_load i s = (if i < length (vga_buffer s) then Some (vga_buffer s ! i) else None)"

definition vga_attach :: "u16 list option \<Rightarrow> VgaConsole \<Rightarrow> bool \<times> VgaConsole" where
  "vga_attach mapped s =
     (case mapped of None \<Rightarrow> (False, s\<lparr>vga_buffer := []\<rparr>)
      | Some cells \<Rightarrow> (cells \<noteq> [], s\<lparr>vga_buffer := cells\<rparr>))"

definition vga_detach :: "VgaConsole \<Rightarrow> VgaConsole" where
  "vga_detach s = s\<lparr>vga_buffer := []\<rparr>"

definition vga_clear :: "VgaConsole \<Rightarrow> VgaConsole option" where
  "vga_clear s =
     Option.bind (for_each [0..<screen_width * screen_height]
         (\<lambda>i s. vga_store i (make_cell (CHR '' '') (vga_color s)) s) s)
       (\<lambda>s. Some (s\<lparr>vga_column := 0, vga_row := 0\<rparr>))"

definition vga_put_cell :: "nat \<Rightarrow> nat \<Rightarrow> char \<Rightarrow> u8 \<Rightarrow> VgaConsole \<Rightarrow> VgaConsole option" where
  "vga_put_cell x y c color s =
     (if x < screen_width \<and> y < screen_height
      then vga_store (y * screen_width + x) (make_cell c color) s else Some s)"

definition scroll_row :: "nat \<Rightarrow> VgaConsole \<Rightarrow> VgaConsole option" where
  "scroll_row y =
     for_each [0..<screen_width]
       (\<lambda>x s. Option.bind (vga_load (y * screen_width + x) s)
          (\<lambda>cell. vga_store ((y - 1) * screen_width + x) cell s))"

definition vga_scroll :: "VgaConsole \<Rightarrow> VgaConsole option" where
  "vga_scroll s =
     Option.bind (for_each [1..<screen_height] scroll_row s)
       (for_each [0..<screen_width]
          (\<lambda>x s. vga_store ((screen_height - 1) * screen_width + x) (make_cell (CHR '' '') (vga_color s)) s))"

definition place :: "char \<Rightarrow> VgaConsole \<Rightarrow> VgaConsole option" where
  "place c s =
     (if c = CHR 0x0A then Some (s\<lparr>vga_column := 0, vga_row := vga_row s + 1\<rparr>)
      else if c = CHR 0x0D then Some (s\<lparr>vga_column := 0\<rparr>)
      else if c = CHR 0x09 then Some (s\<lparr>vga_column := (vga_column s + 8) div 8 * 8\<rparr>)
      else if c = CHR 0x08 then
        (let s = (if vga_column s > 0 then s\<lparr>vga_column := vga_column s - 1\<rparr> else s)
         in vga_put_cell (vga_column s) (vga_row s) (CHR '' '') (vga_color s) s)
      else Option.bind (vga_put_cell (vga_column s) (vga_row s) c (vga_color s) s)
        (\<lambda>s. Some (s\<lparr>vga_column := vga_column s + 1\<rparr>)))"

definition wrap_line :: "VgaConsole \<Rightarrow> VgaConsole" where
  "wrap_line s = (if vga_column s \<ge> screen_width then s\<lparr>vga_column := 0, vga_row := vga_row s + 1\<rparr> else s)"

definition wrap_screen :: "VgaConsole \<Rightarrow> VgaConsole option" where
  "wrap_screen s =
     (if vga_row s \<ge> screen_height
      then Option.bind (vga_scroll s) (\<lambda>s. Some (s\<lparr>vga_row := screen_height - 1\<rparr>))
      else Some s)"

definition vga_put :: "char \<Rightarrow> VgaConsole \<Rightarrow> VgaConsole option" where
  "vga_put c s = Option.bind (place c s) (\<lambda>s. wrap_screen (wrap_line s))"

fun vga_console_write :: "string \<Rightarrow> VgaConsole \<Rightarrow> VgaConsole option" where
  "vga_console_write [] s = Some s"
| "vga_console_write (c # p) s = Option.bind (vga_put c s) (vga_console_write p)"

fun vga_write_loop :: "usize \<Rightarrow> usize \<Rightarrow> string \<Rightarrow> u8 \<Rightarrow> VgaConsole \<Rightarrow> VgaConsole option" where
  "vga_write_loop cursor y [] color s = Some s"
| "vga_write_loop cursor y (c # p) color s =
     Option.bind (vga_put_cell (unat cursor) (unat y) c color s) (vga_write_loop (cursor + 1) y p color)"

definition vga_write :: "usize \<Rightarrow> usize \<Rightarrow> string \<Rightarrow> u8 \<Rightarrow> VgaConsole \<Rightarrow> VgaConsole option" where
  "vga_write x y text color s = vga_write_loop x y text color s"

definition vga_fill_row :: "usize \<Rightarrow> char \<Rightarrow> u8 \<Rightarrow> VgaConsole \<Rightarrow> VgaConsole option" where
  "vga_fill_row y c color s =
     for_each [0..<screen_width] (\<lambda>x. vga_put_cell x (unat y) c color) s"

definition vga_set_color :: "u8 \<Rightarrow> VgaConsole \<Rightarrow> VgaConsole" where
  "vga_set_color color s = s\<lparr>vga_color := color\<rparr>"

text \<open>The module: the screen, its entry in the console table and the flag that guards it;
  \<open>self\<close> is the address of the console object.\<close>

record vga_module =
  vga_instance :: VgaConsole
  console_enabled :: bool
  table :: console_state
  self :: u64

definition vga_console_enable :: "bool \<Rightarrow> vga_module \<Rightarrow> vga_module" where
  "vga_console_enable enabled v =
     (if enabled = console_enabled v then v
      else v\<lparr>console_enabled := enabled,
             table := (if enabled then console_register (self v) (table v)
                       else console_unregister (self v) (table v))\<rparr>)"

definition hide_cursor :: "'d ports \<Rightarrow> 'd \<Rightarrow> 'd" where
  "hide_cursor io d = out_ports io [(0x3D4, 0x0A), (0x3D5, 0x20)] d"

definition vga_module_init ::
  "'d ports \<Rightarrow> u16 list option \<Rightarrow> 'd \<Rightarrow> vga_module \<Rightarrow> (int \<times> 'd \<times> vga_module) option" where
  "vga_module_init io mapped d v =
     (let (ok, scr) = vga_attach mapped (vga_instance v)
      in if \<not> ok then Some (-1, d, v\<lparr>vga_instance := scr\<rparr>)
         else Option.bind (vga_clear scr)
           (\<lambda>scr. Some (0, hide_cursor io d, vga_console_enable True (v\<lparr>vga_instance := scr\<rparr>))))"

definition vga_module_exit :: "vga_module \<Rightarrow> vga_module option" where
  "vga_module_exit v =
     (let v = vga_console_enable False v
      in Option.bind (vga_clear (vga_instance v)) (\<lambda>scr. Some (v\<lparr>vga_instance := vga_detach scr\<rparr>)))"

section \<open>The cursor stays on the screen\<close>

definition vga_ok :: "VgaConsole \<Rightarrow> bool" where
  "vga_ok s \<longleftrightarrow> length (vga_buffer s) = 2000 \<and> vga_column s < 80 \<and> vga_row s < 25"

lemma cell_index: "x < 80 \<Longrightarrow> y < 25 \<Longrightarrow> y * 80 + x < (2000 :: nat)"
  by simp

lemma fill_cells:
  assumes "a + n \<le> length (vga_buffer s)"
  shows "for_each [0..<n] (\<lambda>x t. vga_store (a + x) (h (vga_color t)) t) s
       = Some (s\<lparr>vga_buffer := take a (vga_buffer s) @ replicate n (h (vga_color s)) @ drop (a + n) (vga_buffer s)\<rparr>)"
  using assms
proof (induction n)
  case (Suc n)
  then have "a + n < length (vga_buffer s)" by simp
  then have "drop (a + n) (vga_buffer s) = vga_buffer s ! (a + n) # drop (Suc (a + n)) (vga_buffer s)"
    by (simp add: Cons_nth_drop_Suc)
  with Suc show ?case
    by (simp add: for_each_append vga_store_def list_update_append replicate_append_same)
qed simp

definition moved_up :: "nat \<Rightarrow> u16 list \<Rightarrow> u16 list" where
  "moved_up n b = take n (drop 80 b) @ drop n b"

lemma moved_up_nth:
  "n + 80 \<le> length b \<Longrightarrow> i < length b \<Longrightarrow> moved_up n b ! i = (if i < n then b ! (i + 80) else b ! i)"
  by (auto simp: moved_up_def nth_append add.commute)

lemma moved_up_length: "n + 80 \<le> length b \<Longrightarrow> length (moved_up n b) = length b"
  by (simp add: moved_up_def)

lemma moved_up_Suc:
  assumes "n + 80 < length b"
  shows "(moved_up n b)[n := b ! (n + 80)] = moved_up (Suc n) b"
  by (rule nth_equalityI) (use assms in \<open>auto simp: moved_up_length moved_up_nth nth_list_update less_Suc_eq\<close>)

lemma scroll_row_moved:
  assumes "length b = 2000" and "y < 24" and "x \<le> 80" and "vga_buffer s = moved_up (y * 80) b"
  shows "for_each [0..<x]
       (\<lambda>x s. Option.bind (vga_load (Suc y * screen_width + x) s)
          (\<lambda>cell. vga_store ((Suc y - 1) * screen_width + x) cell s)) s
     = Some (s\<lparr>vga_buffer := moved_up (y * 80 + x) b\<rparr>)"
  using assms(3)
proof (induction x)
  case 0
  then show ?case using assms(4) by simp
next
  case (Suc x)
  have "y * 80 \<le> 23 * 80" using assms(2) by simp
  then have len: "y * 80 + x + 80 < length b" using Suc.prems assms(1) by simp
  have "moved_up (y * 80 + x) b ! (Suc y * 80 + x) = b ! (y * 80 + x + 80)"
    using len by (subst moved_up_nth) (auto simp: add_ac)
  with Suc len show ?case
    using moved_up_Suc [OF len]
    by (simp add: for_each_append vga_load_def vga_store_def moved_up_length add_ac)
qed

lemma scroll_rows_moved:
  assumes "length (vga_buffer s) = 2000" and "n < 25"
  shows "for_each [1..<Suc n] scroll_row s = Some (s\<lparr>vga_buffer := moved_up (n * 80) (vga_buffer s)\<rparr>)"
  using assms(2)
proof (induction n)
  case 0
  then show ?case by (simp add: moved_up_def)
next
  case (Suc n)
  let ?t = "s\<lparr>vga_buffer := moved_up (n * 80) (vga_buffer s)\<rparr>"
  have "scroll_row (Suc n) ?t = Some (?t\<lparr>vga_buffer := moved_up (n * 80 + 80) (vga_buffer s)\<rparr>)"
    unfolding scroll_row_def using scroll_row_moved [OF assms(1), of n 80 ?t] Suc.prems by (simp del: upt_rec_numeral)
  with Suc show ?case by (simp add: for_each_append add.commute)
qed

lemma vga_scroll_eq:
  assumes "length (vga_buffer s) = 2000"
  shows "vga_scroll s
       = Some (s\<lparr>vga_buffer := drop 80 (vga_buffer s) @ replicate 80 (make_cell (CHR '' '') (vga_color s))\<rparr>)"
proof -
  let ?b = "moved_up 1920 (vga_buffer s)"
  have "for_each [1..<25] scroll_row s = Some (s\<lparr>vga_buffer := ?b\<rparr>)"
    using scroll_rows_moved [OF assms, of 24] by (simp del: upt_rec_numeral)
  moreover have "take 1920 ?b = drop 80 (vga_buffer s)" and "length ?b = 2000"
    using assms by (simp_all add: moved_up_def)
  ultimately show ?thesis
    using fill_cells [of 1920 80 "s\<lparr>vga_buffer := ?b\<rparr>" "make_cell (CHR '' '')"]
    by (simp add: vga_scroll_def del: upt_rec_numeral)
qed


section \<open>What a character does\<close>

lemma vga_put_cell_ok:
  assumes "vga_ok s"
  shows "vga_put_cell x y c color s
       = Some (if x < 80 \<and> y < 25
               then s\<lparr>vga_buffer := (vga_buffer s)[y * 80 + x := make_cell c color]\<rparr> else s)"
  using assms cell_index [of x y] by (simp add: vga_put_cell_def vga_store_def vga_ok_def)

definition ordinary :: "char \<Rightarrow> bool" where
  "ordinary c \<longleftrightarrow> c \<notin> {CHR 0x0A, CHR 0x0D, CHR 0x09, CHR 0x08}"

lemma place_ok:
  assumes "vga_ok s"
  shows "\<exists>t. place c s = Some t \<and> length (vga_buffer t) = 2000 \<and> vga_column t \<le> 80 \<and> vga_row t \<le> 25"
proof -
  have ok: "length (vga_buffer s) = 2000" "vga_column s \<le> 79" "vga_row s \<le> 24"
    using assms by (auto simp: vga_ok_def)
  have "(vga_column s + 8) div 8 \<le> 87 div 8"
    by (rule div_le_mono) (use ok in simp)
  then have tab: "(vga_column s + 8) div 8 * 8 \<le> 80" by simp
  let ?b = "if vga_column s > 0 then s\<lparr>vga_column := vga_column s - 1\<rparr> else s"
  have left: "vga_ok ?b" and b: "vga_column ?b \<le> 80" "vga_row ?b \<le> 25" "length (vga_buffer ?b) = 2000"
    using ok by (auto simp: vga_ok_def)
  have p: "length (vga_buffer t) = 2000 \<and> vga_column t = vga_column u \<and> vga_row t = vga_row u"
    if "vga_put_cell x y d color u = Some t" "vga_ok u" for x y d color u t
    using that by (auto simp: vga_put_cell_ok vga_ok_def split: if_splits)
  have total: "\<exists>t. vga_put_cell x y d color u = Some t" if "vga_ok u" for x y d color u
    using that by (simp add: vga_put_cell_ok)
  consider "c = CHR 0x0A" | "c = CHR 0x0D" | "c = CHR 0x09" | "c = CHR 0x08" | "ordinary c"
    by (auto simp: ordinary_def)
  then show ?thesis
  proof cases
    case 4
    obtain t where "vga_put_cell (vga_column ?b) (vga_row ?b) (CHR '' '') (vga_color ?b) ?b = Some t"
      using total [OF left] by blast
    with p [OF this left] b 4 show ?thesis by (simp add: place_def Let_def)
  next
    case 5
    obtain t where "vga_put_cell (vga_column s) (vga_row s) c (vga_color s) s = Some t"
      using total [OF assms] by blast
    with p [OF this assms] ok 5 show ?thesis by (simp add: place_def ordinary_def)
  qed (use ok tab in \<open>simp_all add: place_def\<close>)
qed

lemma wrap_ok:
  assumes "length (vga_buffer s) = 2000" "vga_column s \<le> 80" "vga_row s \<le> 25"
  shows "\<exists>t. wrap_screen (wrap_line s) = Some t \<and> vga_ok t"
  using assms by (auto simp: wrap_screen_def wrap_line_def vga_scroll_eq vga_ok_def)

lemma vga_put_ok: "vga_ok s \<Longrightarrow> \<exists>t. vga_put c s = Some t \<and> vga_ok t"
  using place_ok [of s c] wrap_ok by (fastforce simp: vga_put_def)

lemma vga_console_write_ok: "vga_ok s \<Longrightarrow> \<exists>t. vga_console_write p s = Some t \<and> vga_ok t"
proof (induction p arbitrary: s)
  case (Cons c p)
  from vga_put_ok [OF Cons.prems] obtain t where "vga_put c s = Some t" "vga_ok t" by blast
  with Cons.IH show ?case by simp
qed simp

definition next_position :: "VgaConsole \<Rightarrow> nat \<times> nat" where
  "next_position s =
     (if vga_column s + 1 < 80 then (vga_column s + 1, vga_row s)
      else (0, min (vga_row s + 1) 24))"

lemma vga_put_ordinary:
  assumes "vga_ok s" and "ordinary c"
  defines "b \<equiv> (vga_buffer s)[vga_row s * 80 + vga_column s := make_cell c (vga_color s)]"
  shows "vga_put c s = Some (s\<lparr>
      vga_buffer := (if vga_column s = 79 \<and> vga_row s = 24
                     then drop 80 b @ replicate 80 (make_cell (CHR '' '') (vga_color s)) else b),
      vga_column := fst (next_position s), vga_row := snd (next_position s)\<rparr>)"
proof -
  have ok: "length (vga_buffer s) = 2000" "vga_column s < 80" "vga_row s < 25"
    using assms(1) by (auto simp: vga_ok_def)
  let ?t = "s\<lparr>vga_buffer := b, vga_column := vga_column s + 1\<rparr>"
  have p: "place c s = Some ?t"
    using assms(2) ok by (simp add: place_def ordinary_def vga_put_cell_ok [OF assms(1)] b_def)
  have len: "length b = 2000" using ok by (simp add: b_def)
  consider "vga_column s < 79" | "vga_column s = 79" "vga_row s < 24" | "vga_column s = 79" "vga_row s = 24"
    using ok by linarith
  then show ?thesis
    by cases (use p len ok in \<open>auto simp: vga_put_def wrap_line_def wrap_screen_def next_position_def
        vga_scroll_eq intro!: VgaConsole.equality\<close>)
qed

lemma vga_clear_eq:
  assumes "length (vga_buffer s) = 2000"
  shows "vga_clear s = Some (s\<lparr>vga_buffer := replicate 2000 (make_cell (CHR '' '') (vga_color s)),
     vga_column := 0, vga_row := 0\<rparr>)"
  using fill_cells [of 0 2000 s "make_cell (CHR '' '')"] assms
  by (simp add: vga_clear_def del: upt_rec_numeral)

lemma vga_module_init_ok:
  assumes "length cells = 2000"
  shows "\<exists>v'. vga_module_init io (Some cells) d v = Some (0, hide_cursor io d, v') \<and> vga_ok (vga_instance v') \<and> console_enabled v'"
proof -
  have "cells \<noteq> []" using assms by auto
  then show ?thesis
    using assms
    by (auto simp: vga_module_init_def vga_attach_def vga_clear_eq vga_console_enable_def vga_ok_def)
qed

text \<open>
  C33: once the frame buffer is mapped, any text written to the screen, whatever characters it
  holds, stays inside the frame buffer and leaves the cursor on the screen; an ordinary character
  fills the cell under the cursor and advances it, and past the last cell the screen moves up one
  line with a blank line at the bottom.
\<close>

theorem vga_console_safe:
  assumes "vga_ok s" and "ordinary c"
  shows "(\<exists>t. vga_console_write p s = Some t \<and> vga_ok t) \<and>
    (let b = (vga_buffer s)[vga_row s * 80 + vga_column s := make_cell c (vga_color s)]
     in vga_put c s = Some (s\<lparr>
      vga_buffer := (if vga_column s = 79 \<and> vga_row s = 24
                     then drop 80 b @ replicate 80 (make_cell (CHR '' '') (vga_color s)) else b),
      vga_column := fst (next_position s), vga_row := snd (next_position s)\<rparr>))"
  using vga_console_write_ok [OF assms(1)] vga_put_ordinary [OF assms]
  unfolding Let_def by blast

definition last_cell :: VgaConsole where
  "last_cell = \<lparr>vga_buffer = replicate 2000 0, vga_column = 79, vga_row = 24, vga_color = 7\<rparr>"

theorem vga_console_safe_witness:
  "vga_put (CHR ''A'') last_cell = Some (last_cell\<lparr>
     vga_buffer := replicate 1919 0 @ make_cell (CHR ''A'') 7 # replicate 80 (make_cell (CHR '' '') 7),
     vga_column := 0\<rparr>)"
proof -
  have "(replicate 2000 0)[1999 := make_cell (CHR ''A'') 7] = replicate 1999 (0 :: u16) @ [make_cell (CHR ''A'') 7]"
    by (rule nth_equalityI) (auto simp: nth_append nth_list_update)
  then show ?thesis
    using vga_console_safe [of last_cell "CHR ''A''" "[]"]
    by (simp add: last_cell_def vga_ok_def ordinary_def next_position_def Let_def)
qed

end
