(* ===== verification/Rtc.thy ===== *)
theory Rtc
  imports Ports
begin

unbundle bit_operations_syntax

text \<open>
  The clock chip module, \<^verbatim>\<open>modules/rtc/rtc.cpp\<close>: a consistent reading of the chip through its two
  ports, and the conversion of the reading to seconds since 1970.

  The chip is not part of the repository; it is the machine behind the ports. Waiting for
  the end of an update may take forever, so reading is partial. The time read is a result here, so
  the null pointer check of \<^verbatim>\<open>rtc_read\<close> has no counterpart.
\<close>

section \<open>Reading the chip\<close>

abbreviation (input) port_index :: u16 where "port_index \<equiv> 0x70"
abbreviation (input) port_data :: u16 where "port_data \<equiv> 0x71"

abbreviation (input) register_seconds :: u8 where "register_seconds \<equiv> 0x00"
abbreviation (input) register_minutes :: u8 where "register_minutes \<equiv> 0x02"
abbreviation (input) register_hours :: u8 where "register_hours \<equiv> 0x04"
abbreviation (input) register_day :: u8 where "register_day \<equiv> 0x07"
abbreviation (input) register_month :: u8 where "register_month \<equiv> 0x08"
abbreviation (input) register_year :: u8 where "register_year \<equiv> 0x09"
abbreviation (input) register_status_a :: u8 where "register_status_a \<equiv> 0x0A"
abbreviation (input) register_status_b :: u8 where "register_status_b \<equiv> 0x0B"

abbreviation (input) status_a_update_in_progress :: u8 where "status_a_update_in_progress \<equiv> 0x80"
abbreviation (input) status_b_binary :: u8 where "status_b_binary \<equiv> 0x04"
abbreviation (input) status_b_24_hour :: u8 where "status_b_24_hour \<equiv> 0x02"

record RtcTime =
  year :: u16
  month :: u8
  day :: u8
  hour :: u8
  minute :: u8
  second :: u8

definition read_register :: "'d ports \<Rightarrow> u8 \<Rightarrow> 'd \<Rightarrow> u8 \<times> 'd" where
  "read_register io index d = in_port io port_data (out_port io port_index (index AND 0x7F) d)"

definition update_in_progress :: "'d ports \<Rightarrow> 'd \<Rightarrow> bool \<times> 'd" where
  "update_in_progress io d =
     (let (a, d) = read_register io register_status_a d
      in ((a AND status_a_update_in_progress) \<noteq> 0, d))"

definition decode :: "u8 \<Rightarrow> bool \<Rightarrow> u8" where
  "decode val binary = (if binary then val else (val AND 0x0F) + drop_bit 4 val * 10)"

definition read_once :: "'d ports \<Rightarrow> u8 \<Rightarrow> 'd \<Rightarrow> RtcTime \<times> 'd" where
  "read_once io status_b d =
     (let binary = (status_b AND status_b_binary \<noteq> 0);
          twenty_four_hour = (status_b AND status_b_24_hour \<noteq> 0);
          (raw_hour, d) = read_register io register_hours d;
          (s, d) = read_register io register_seconds d;
          (mi, d) = read_register io register_minutes d;
          (da, d) = read_register io register_day d;
          (mo, d) = read_register io register_month d;
          (y, d) = read_register io register_year d;
          h = decode (raw_hour AND 0x7F) binary;
          h = (if \<not> twenty_four_hour \<and> raw_hour AND 0x80 \<noteq> 0 then h mod 12 + 12 else h)
      in (\<lparr>year = 2000 + ucast (decode y binary), month = decode mo binary, day = decode da binary,
           hour = h, minute = decode mi binary, second = decode s binary\<rparr>, d))"

definition same :: "RtcTime \<Rightarrow> RtcTime \<Rightarrow> bool" where
  "same a b \<longleftrightarrow> second a = second b \<and> minute a = minute b \<and> hour a = hour b
     \<and> day a = day b \<and> month a = month b \<and> year a = year b"

partial_function (option) wait_for_update :: "'d ports \<Rightarrow> 'd \<Rightarrow> 'd option" where
  "wait_for_update io d =
     (case update_in_progress io d of (busy, d) \<Rightarrow>
        if busy then wait_for_update io (delay_us io 100 d) else Some d)"

text \<open>The result is \<open>Inl\<close> when the chip never settled within the attempts.\<close>

fun rtc_attempts :: "'d ports \<Rightarrow> u8 \<Rightarrow> nat \<Rightarrow> 'd \<Rightarrow> ((unit + RtcTime) \<times> 'd) option" where
  "rtc_attempts io status_b 0 d = Some (Inl (), d)"
| "rtc_attempts io status_b (Suc n) d =
     Option.bind (wait_for_update io d)
       (\<lambda>d. let (first, d) = read_once io status_b d;
                (second, d) = read_once io status_b d
            in if same first second then Some (Inr first, d) else rtc_attempts io status_b n d)"

definition rtc_read :: "'d ports \<Rightarrow> 'd \<Rightarrow> ((unit + RtcTime) \<times> 'd) option" where
  "rtc_read io d =
     (let (status_b, d) = read_register io register_status_b d
      in rtc_attempts io status_b 8 d)"

section \<open>Seconds since 1970\<close>

definition month_days :: "nat list" where
  "month_days = [0, 31, 59, 90, 120, 151, 181, 212, 243, 273, 304, 334]"

definition is_leap :: "u16 \<Rightarrow> bool" where
  "is_leap y \<longleftrightarrow> (unat y mod 4 = 0 \<and> unat y mod 100 \<noteq> 0) \<or> unat y mod 400 = 0"

definition unix_days :: "RtcTime \<Rightarrow> u64" where
  "unix_days now =
     (let years = of_int (uint (year now) - 1970) :: u64;
          days = years * 365 + (years + 1) div 4;
          days = (if month now \<ge> 1 \<and> month now \<le> 12
                  then days + of_nat (month_days ! (unat (month now) - 1)) else days);
          days = (if is_leap (year now) \<and> month now > 2 then days + 1 else days)
      in days + of_int (uint (day now) - 1))"

definition unix_seconds :: "RtcTime \<Rightarrow> u64" where
  "unix_seconds now =
     ((unix_days now * 24 + ucast (hour now)) * 60 + ucast (minute now)) * 60 + ucast (second now)"

definition rtc_unix_time :: "'d ports \<Rightarrow> 'd \<Rightarrow> (u64 \<times> 'd) option" where
  "rtc_unix_time io d =
     map_option (\<lambda>(r, d). (case r of Inl _ \<Rightarrow> 0 | Inr now \<Rightarrow> unix_seconds now, d)) (rtc_read io d)"

definition rtc_init :: "'d ports \<Rightarrow> 'd \<Rightarrow> bool \<Rightarrow> (int \<times> bool \<times> 'd) option" where
  "rtc_init io d attached =
     map_option (\<lambda>(r, d). (case r of Inl _ \<Rightarrow> (-1, attached, d) | Inr now \<Rightarrow> (0, True, d))) (rtc_read io d)"

definition rtc_exit :: "bool \<Rightarrow> bool" where
  "rtc_exit attached = False"

section \<open>The reference calendar\<close>

definition leap_year :: "nat \<Rightarrow> bool" where
  "leap_year y \<longleftrightarrow> (4 dvd y \<and> \<not> 100 dvd y) \<or> 400 dvd y"

definition year_length :: "nat \<Rightarrow> nat" where
  "year_length y = (if leap_year y then 366 else 365)"

definition month_length :: "nat \<Rightarrow> nat \<Rightarrow> nat" where
  "month_length y m =
     (if m = 2 then (if leap_year y then 29 else 28) else if m \<in> {4, 6, 9, 11} then 30 else 31)"

definition calendar_days :: "nat \<Rightarrow> nat \<Rightarrow> nat \<Rightarrow> nat" where
  "calendar_days y m d =
     sum_list (map year_length [1970..<y]) + sum_list (map (month_length y) [1..<m]) + (d - 1)"

lemma leap_in_range:
  assumes "n < 130"
  shows "leap_year (1970 + n) \<longleftrightarrow> n mod 4 = 2"
proof (cases "100 dvd 1970 + n")
  case True
  then obtain k where "1970 + n = 100 * k" by (elim dvdE)
  with assms have "n = 30" by presburger
  then show ?thesis by (simp add: leap_year_def)
next
  case False
  have hundred: "(100 :: nat) dvd 400" by simp
  have "\<not> 400 dvd 1970 + n"
    using dvd_trans [OF hundred] False by blast
  moreover have "4 dvd 1970 + n \<longleftrightarrow> n mod 4 = 2" by presburger
  ultimately show ?thesis using False unfolding leap_year_def by blast
qed

lemma year_days:
  "n \<le> 130 \<Longrightarrow> sum_list (map year_length [1970..<1970 + n]) = n * 365 + (n + 1) div 4"
proof (induction n)
  case (Suc n)
  have "(Suc n + 1) div 4 = (n + 1) div 4 + (if n mod 4 = 2 then 1 else 0)"
    by presburger
  moreover have "[1970..<1970 + Suc n] = [1970..<1970 + n] @ [1970 + n]"
    using upt_Suc_append [of 1970 "1970 + n"] by simp
  moreover have "year_length (1970 + n) = 365 + (if n mod 4 = 2 then 1 else 0)"
    using Suc.prems leap_in_range [of n] by (simp add: year_length_def)
  moreover have "sum_list (map year_length [1970..<1970 + n]) = n * 365 + (n + 1) div 4"
    using Suc by simp
  ultimately show ?case by (simp only: map_append sum_list_append list.map sum_list.Cons sum_list.Nil) simp
qed simp

lemma month_days_sum:
  assumes "1 \<le> m" "m \<le> 12"
  shows "sum_list (map (month_length y) [1..<m])
       = month_days ! (m - 1) + (if leap_year y \<and> 2 < m then 1 else 0)"
proof -
  have "m = 1 \<or> m = 2 \<or> m = 3 \<or> m = 4 \<or> m = 5 \<or> m = 6 \<or> m = 7 \<or> m = 8 \<or> m = 9 \<or> m = 10
      \<or> m = 11 \<or> m = 12"
    using assms by presburger
  then show ?thesis
    by (elim disjE) (simp_all add: month_length_def month_days_def upt_rec)
qed

definition valid_time :: "RtcTime \<Rightarrow> bool" where
  "valid_time t \<longleftrightarrow> 2000 \<le> year t \<and> year t < 2100 \<and> 1 \<le> month t \<and> month t \<le> 12 \<and>
     1 \<le> day t \<and> day t \<le> 31 \<and> hour t < 24 \<and> minute t < 60 \<and> second t < 60"

lemma is_leap_eq: "is_leap y \<longleftrightarrow> leap_year (unat y)"
  by (auto simp: is_leap_def leap_year_def dvd_eq_mod_eq_0)

lemma unix_days_calendar:
  assumes "valid_time t"
  shows "unat (unix_days t) = calendar_days (unat (year t)) (unat (month t)) (unat (day t))"
proof -
  define n where "n = unat (year t) - 1970"
  have bounds: "2000 \<le> unat (year t)" "unat (year t) < 2100" "1 \<le> unat (month t)" "unat (month t) \<le> 12"
    "1 \<le> unat (day t)" "unat (day t) \<le> 31"
    using assms by (simp_all add: valid_time_def word_le_nat_alt word_less_nat_alt)
  then have y: "unat (year t) = 1970 + n" and n: "n \<le> 130" by (simp_all add: n_def)
  have "uint (year t) - 1970 = int n"
    using y uint_nat [of "year t"] by linarith
  then have yr: "(of_int (uint (year t) - 1970) :: u64) = of_nat n"
    by (metis of_int_of_nat_eq)
  have "uint (day t) - 1 = int (unat (day t) - 1)"
    using bounds(5) uint_nat [of "day t"] by linarith
  then have dy: "(of_int (uint (day t) - 1) :: u64) = of_nat (unat (day t) - 1)"
    by (metis of_int_of_nat_eq)
  have "unat (of_nat (n + 1) div 4 :: u64) = (n + 1) div 4"
    using n unat_u64_of_nat [of "n + 1"] by (simp only: unat_div_distrib) simp
  then have "(of_nat (n + 1) :: u64) div 4 = of_nat ((n + 1) div 4)"
    by (metis of_nat_unat ucast_id)
  then have q: "(of_nat n + 1 :: u64) div 4 = of_nat ((n + 1) div 4)"
    by (metis of_nat_1 of_nat_add)
  have mo: "month t \<ge> 1 \<and> month t \<le> 12" and mo2: "month t > 2 \<longleftrightarrow> unat (month t) > 2"
    using bounds by (simp_all add: word_le_nat_alt word_less_nat_alt)
  have md: "month_days ! (unat (month t) - 1) \<le> 334"
  proof -
    have "month_days ! (unat (month t) - 1) \<in> set month_days"
      by (rule nth_mem) (use bounds in \<open>simp add: month_days_def\<close>)
    then show ?thesis by (auto simp: month_days_def)
  qed
  let ?total = "n * 365 + (n + 1) div 4 + month_days ! (unat (month t) - 1)
      + (if leap_year (unat (year t)) \<and> 2 < unat (month t) then 1 else 0) + (unat (day t) - 1)"
  have "unix_days t = of_nat ?total"
    unfolding unix_days_def Let_def yr dy q is_leap_eq mo2 using mo by simp
  moreover have small: "?total < 18446744073709551616"
  proof -
    have "(if leap_year (unat (year t)) \<and> 2 < unat (month t) then 1 else 0) \<le> (1 :: nat)" by simp
    then show ?thesis using n md bounds div_le_dividend [of "n + 1" 4] by linarith
  qed
  ultimately have "unat (unix_days t) = ?total"
    by (metis unat_u64_of_nat)
  also have "\<dots> = calendar_days (unat (year t)) (unat (month t)) (unat (day t))"
    unfolding calendar_days_def month_days_sum [OF bounds(3,4)] y year_days [OF n] by simp
  finally show ?thesis .
qed


definition calendar_seconds :: "RtcTime \<Rightarrow> nat" where
  "calendar_seconds t =
     calendar_days (unat (year t)) (unat (month t)) (unat (day t)) * 86400
     + unat (hour t) * 3600 + unat (minute t) * 60 + unat (second t)"

lemma calendar_days_bound:
  assumes "valid_time t"
  shows "calendar_days (unat (year t)) (unat (month t)) (unat (day t)) < 100000"
proof -
  have b: "2000 \<le> unat (year t)" "unat (year t) < 2100" "1 \<le> unat (month t)" "unat (month t) \<le> 12"
    "unat (day t) \<le> 31"
    using assms by (simp_all add: valid_time_def word_le_nat_alt word_less_nat_alt)
  define n where "n = unat (year t) - 1970"
  have y: "unat (year t) = 1970 + n" and n: "n \<le> 130" using b by (simp_all add: n_def)
  have "month_days ! (unat (month t) - 1) \<in> set month_days"
    by (rule nth_mem) (use b in \<open>simp add: month_days_def\<close>)
  then have "month_days ! (unat (month t) - 1) \<le> 334" by (auto simp: month_days_def)
  then have "sum_list (map (month_length (1970 + n)) [1..<unat (month t)]) \<le> 335"
    unfolding month_days_sum [OF b(3,4)] by simp
  moreover have "(n + 1) div 4 \<le> 33" using n by simp
  ultimately show ?thesis
    unfolding calendar_days_def y year_days [OF n] using n b(5) by linarith
qed

lemma unix_seconds_calendar:
  assumes "valid_time t"
  shows "unat (unix_seconds t) = calendar_seconds t"
proof -
  have v: "unat (hour t) < 24" "unat (minute t) < 60" "unat (second t) < 60"
    using assms by (simp_all add: valid_time_def word_less_nat_alt)
  note d = unix_days_calendar [OF assms] calendar_days_bound [OF assms]
  have h: "unat (unix_days t * 24 + ucast (hour t)) = unat (unix_days t) * 24 + unat (hour t)"
    using d v by (simp add: u64_simps)
  have m: "unat ((unix_days t * 24 + ucast (hour t)) * 60 + ucast (minute t))
      = (unat (unix_days t) * 24 + unat (hour t)) * 60 + unat (minute t)"
    using d v h by (simp add: u64_simps)
  have "unat (unix_seconds t)
      = ((unat (unix_days t) * 24 + unat (hour t)) * 60 + unat (minute t)) * 60 + unat (second t)"
    unfolding unix_seconds_def using d v m by (simp add: u64_simps)
  then show ?thesis unfolding calendar_seconds_def d(1) by simp
qed

text \<open>
  From 2101 on the count of leap days is one too many: the year 2100 is not a leap year, and the
  sum over the years before does not know it.
\<close>

lemma unix_time_after_2100:
  defines "t \<equiv> \<lparr>year = 2101, month = 1, day = 1, hour = 0, minute = 0, second = 0\<rparr>"
  shows "unat (unix_seconds t) = calendar_seconds t + 86400"
proof -
  have "[1970..<2101] = [1970..<1970 + 130] @ [2100]"
    using upt_Suc_append [of 1970 2100] by (simp del: upt_rec_numeral)
  then have "sum_list (map year_length [1970..<2101]) = 130 * 365 + 131 div 4 + 365"
    using year_days [of 130]
    by (simp add: year_length_def leap_year_def del: upt_rec_numeral)
  then have "calendar_seconds t = 47847 * 86400"
    by (simp add: calendar_seconds_def calendar_days_def t_def del: upt_rec_numeral)
  moreover have "unix_seconds t = 47848 * 86400"
    by (simp add: unix_seconds_def unix_days_def is_leap_def month_days_def t_def)
  ultimately show ?thesis by simp
qed


section \<open>A chip at rest\<close>

text \<open>
  \<open>quiet\<close> says what the code relies on while no update is in progress: selecting a register and
  reading the data port gives the register, and the registers keep their values. \<open>stores\<close> says how
  the chip keeps a time, in binary or with a decimal digit per half byte.
\<close>

definition quiet :: "'d ports \<Rightarrow> ('d \<Rightarrow> bool) \<Rightarrow> (u8 \<Rightarrow> u8) \<Rightarrow> bool" where
  "quiet io P regs \<longleftrightarrow>
     (\<forall>d index. P d \<longrightarrow> (\<exists>d'. read_register io index d = (regs (index AND 0x7F), d') \<and> P d'))
     \<and> regs register_status_a AND status_a_update_in_progress = 0"

definition encode :: "bool \<Rightarrow> u8 \<Rightarrow> u8" where
  "encode binary n = (if binary then n else n div 10 * 16 + n mod 10)"

definition stores :: "(u8 \<Rightarrow> u8) \<Rightarrow> RtcTime \<Rightarrow> bool" where
  "stores regs t \<longleftrightarrow>
     (let binary = regs register_status_b AND status_b_binary \<noteq> 0
      in regs register_status_b AND status_b_24_hour \<noteq> 0 \<and>
         regs register_year = encode binary (ucast (year t - 2000)) \<and>
         regs register_month = encode binary (month t) \<and> regs register_day = encode binary (day t) \<and>
         regs register_hours = encode binary (hour t) \<and> regs register_minutes = encode binary (minute t) \<and>
         regs register_seconds = encode binary (second t))"

lemma decode_encode:
  assumes "n < 100"
  shows "decode (encode binary n) binary = n"
proof (cases binary)
  case False
  define a b where "a = unat n div 10" and "b = unat n mod 10"
  have "unat n < 100" using assms by (simp add: word_less_nat_alt)
  then have ab: "a < 10" "b < 10" and n: "unat n = a * 10 + b" by (simp_all add: a_def b_def)
  let ?e = "n div 10 * 16 + n mod 10"
  have "unat ?e = (a * 16 + b) mod 256"
    unfolding unat_word_ariths unat_div_distrib unat_mod_distrib a_def b_def
    by (simp add: mod_simps)
  then have u: "unat ?e = a * 16 + b" using ab by simp
  have "?e AND 0x0F = ?e mod 16"
    using take_bit_eq_mask [of 4 ?e] by (simp add: take_bit_eq_mod mask_eq_exp_minus_1)
  then have low: "unat (?e AND 0x0F) = b"
    unfolding u unat_mod_distrib using u ab by (simp add: unat_mod_distrib)
  have high: "unat (drop_bit 4 ?e) = a"
    unfolding drop_bit_eq_div using u ab by (simp add: unat_div_distrib)
  have "unat ((?e AND 0x0F) + drop_bit 4 ?e * 10) = (b + a * 10 mod 256) mod 256"
    unfolding unat_word_ariths low high by simp
  also have "\<dots> = unat n" using ab n by simp
  finally have "(?e AND 0x0F) + drop_bit 4 ?e * 10 = n" by (simp only: word_unat_eq_iff)
  then show ?thesis
    using False by (simp add: decode_def encode_def)
qed (simp add: decode_def encode_def)

lemma encode_small:
  assumes "n < 24"
  shows "encode binary n AND 0x7F = encode binary n"
proof -
  have n: "unat n < 24" using assms by (simp add: word_less_nat_alt)
  have "unat n div 10 * 16 + unat n mod 10 < 128"
  proof -
    have "unat n div 10 \<le> 2" "unat n mod 10 \<le> 9" using n by simp_all
    then show ?thesis by linarith
  qed
  then have "unat (n div 10 * 16 + n mod 10) < 128"
    by (simp add: unat_word_ariths unat_div_distrib unat_mod_distrib)
  with n have small: "unat (encode binary n) < 128" by (simp add: encode_def)
  have "x AND 0x7F = x mod 128" for x :: u8
    using take_bit_eq_mask [of 7 x] by (simp add: take_bit_eq_mod mask_eq_exp_minus_1)
  then show ?thesis using small by (simp add: word_unat_eq_iff unat_mod_distrib)
qed

lemma read_once_quiet:
  assumes "quiet io P regs" and "stores regs t" and "valid_time t" and "P d"
  shows "\<exists>d'. read_once io (regs register_status_b) d = (t, d') \<and> P d'"
proof -
  have step: "\<exists>d'. read_register io index e = (regs (index AND 0x7F), d') \<and> P d'" if "P e" for index e
    using assms(1) that by (simp add: quiet_def)
  obtain d1 where d1: "read_register io register_hours d = (regs register_hours, d1)" "P d1"
    using step [OF assms(4), of register_hours] by auto
  obtain d2 where d2: "read_register io register_seconds d1 = (regs register_seconds, d2)" "P d2"
    using step [OF d1(2), of register_seconds] by auto
  obtain d3 where d3: "read_register io register_minutes d2 = (regs register_minutes, d3)" "P d3"
    using step [OF d2(2), of register_minutes] by auto
  obtain d4 where d4: "read_register io register_day d3 = (regs register_day, d4)" "P d4"
    using step [OF d3(2), of register_day] by auto
  obtain d5 where d5: "read_register io register_month d4 = (regs register_month, d5)" "P d5"
    using step [OF d4(2), of register_month] by auto
  obtain d6 where d6: "read_register io register_year d5 = (regs register_year, d6)" "P d6"
    using step [OF d5(2), of register_year] by auto
  define bin where "bin = (regs register_status_b AND status_b_binary \<noteq> 0)"
  have st: "regs register_status_b AND status_b_24_hour \<noteq> 0"
    "regs register_year = encode bin (ucast (year t - 2000))"
    "regs register_month = encode bin (month t)" "regs register_day = encode bin (day t)"
    "regs register_hours = encode bin (hour t)" "regs register_minutes = encode bin (minute t)"
    "regs register_seconds = encode bin (second t)"
    using assms(2) unfolding stores_def Let_def bin_def by blast+
  have v: "month t < 100" "day t < 100" "hour t < 100" "hour t < 24" "minute t < 100" "second t < 100"
    "2000 \<le> year t" "year t < 2100"
    using assms(3) by (simp_all add: valid_time_def word_less_nat_alt word_le_nat_alt)
  have yu: "unat (year t - 2000) = unat (year t) - 2000" and yl: "unat (year t) < 2100"
    using v(7,8) by (simp_all add: unat_sub word_less_nat_alt)
  define c where "c = (ucast (year t - 2000) :: u8)"
  have c: "unat c = unat (year t) - 2000"
    unfolding c_def using yu yl by (simp add: unsigned_ucast_eq take_bit_nat_eq_self)
  have "unat (2000 + ucast c :: u16) = 2000 + unat c"
    using unsigned_less [of c, where ?'a = nat]
    by (simp add: unat_word_ariths unsigned_ucast_eq take_bit_nat_eq_self)
  then have y: "c < 100" and y2: "2000 + ucast c = year t"
    using c yl v(7) by (simp_all add: word_less_nat_alt word_unat_eq_iff word_le_nat_alt)
  have "read_once io (regs register_status_b) d = (t, d6)"
    unfolding read_once_def Let_def bin_def [symmetric] using d1 d2 d3 d4 d5 d6 st v y y2 c_def
    by (simp add: decode_encode encode_small)
  with d6 show ?thesis by blast
qed


lemma rtc_read_quiet:
  assumes "quiet io P regs" and "stores regs t" and "valid_time t" and "P d"
  shows "\<exists>d'. rtc_read io d = Some (Inr t, d') \<and> P d'"
proof -
  have step: "\<exists>d'. read_register io index e = (regs (index AND 0x7F), d') \<and> P d'" if "P e" for index e
    using assms(1) that by (simp add: quiet_def)
  obtain d0 where d0: "read_register io register_status_b d = (regs register_status_b, d0)" "P d0"
    using step [OF assms(4), of register_status_b] by auto
  obtain d1 where d1: "read_register io register_status_a d0 = (regs register_status_a, d1)" "P d1"
    using step [OF d0(2), of register_status_a] by auto
  have idle: "regs register_status_a AND status_a_update_in_progress = 0"
    using assms(1) by (simp only: quiet_def)
  have w: "wait_for_update io d0 = Some d1"
    using d1(1) idle by (subst wait_for_update.simps) (simp add: update_in_progress_def)
  obtain d2 where d2: "read_once io (regs register_status_b) d1 = (t, d2)" "P d2"
    using read_once_quiet [OF assms(1-3) d1(2)] by blast
  obtain d3 where d3: "read_once io (regs register_status_b) d2 = (t, d3)" "P d3"
    using read_once_quiet [OF assms(1-3) d2(2)] by blast
  have attempt: "rtc_attempts io (regs register_status_b) (Suc n) d0 = Some (Inr t, d3)" for n
    using d2 d3 w by (simp add: same_def)
  have "rtc_read io d = rtc_attempts io (regs register_status_b) (Suc 7) d0"
    using d0 by (simp add: rtc_read_def)
  then show ?thesis using d3(2) unfolding attempt by blast
qed

lemma rtc_unix_time_quiet:
  assumes "quiet io P regs" and "stores regs t" and "valid_time t" and "P d"
  shows "\<exists>u d'. rtc_unix_time io d = Some (u, d') \<and> unat u = calendar_seconds t"
proof -
  obtain d' where "rtc_read io d = Some (Inr t, d')"
    using rtc_read_quiet [OF assms] by blast
  then have "rtc_unix_time io d = Some (unix_seconds t, d')" by (simp add: rtc_unix_time_def)
  then show ?thesis using unix_seconds_calendar [OF assms(3)] by blast
qed


text \<open>A chip whose registers do not change: its state is the index last selected.\<close>

definition still_chip :: "(u8 \<Rightarrow> u8) \<Rightarrow> u8 ports" where
  "still_chip regs = \<lparr>out_port = \<lambda>p v d. if p = port_index then v else d,
     in_port = \<lambda>p d. (if p = port_data then regs d else 0, d),
     out_long = \<lambda>_ _ d. d, in_long = \<lambda>_ d. (0, d), delay_us = \<lambda>_ d. d\<rparr>"

definition first_of_march :: RtcTime where
  "first_of_march = \<lparr>year = 2024, month = 3, day = 1, hour = 13, minute = 30, second = 59\<rparr>"

definition decimal_registers :: "u8 \<Rightarrow> u8" where
  "decimal_registers = (\<lambda>_. 0)(register_status_b := 2, register_year := 0x24, register_month := 0x03,
     register_day := 0x01, register_hours := 0x13, register_minutes := 0x30, register_seconds := 0x59)"

lemma quiet_still_chip:
  "regs register_status_a AND status_a_update_in_progress = 0 \<Longrightarrow> quiet (still_chip regs) (\<lambda>_. True) regs"
  by (simp add: quiet_def still_chip_def read_register_def)


text \<open>
  On a 12 hour clock the hour from midnight is 12 with the afternoon bit clear, and it is returned
  as 12, half a day late.
\<close>

lemma twelve_hour_midnight:
  "hour (fst (read_once (still_chip ((\<lambda>_. 0)(register_hours := 0x12))) 0 0)) = 12"
  by (simp add: read_once_def read_register_def still_chip_def decode_def)

end
