(* ===== verification/Cpu.thy ===== *)
theory Cpu
  imports Stacks
begin

unbundle bit_operations_syntax

text \<open>
  What a processor owns: its descriptor table and task state segment, \<^verbatim>\<open>kernel/cpu/gdt.cpp\<close> and
  \<^verbatim>\<open>kernel/cpu/tss.cpp\<close>, the interrupt gates of \<^verbatim>\<open>kernel/cpu/idt.cpp\<close>, and the per processor
  blocks of \<^verbatim>\<open>kernel/cpu/percpu.cpp\<close>.

  A processor block is a record in a table of eight; its address is \<open>cpu_block\<close> of its index, an
  argument where the code takes one. The instructions that load the tables are not modelled: the
  model keeps the values they are given.
\<close>

section \<open>Task state and descriptors\<close>

abbreviation (input) ist_double_fault :: u8 where "ist_double_fault \<equiv> 1"
abbreviation (input) ist_nmi :: u8 where "ist_nmi \<equiv> 2"
abbreviation (input) ist_machine_check :: u8 where "ist_machine_check \<equiv> 3"
abbreviation (input) max_cpus :: nat where "max_cpus \<equiv> 8"
abbreviation (input) sizeof_tss :: u64 where "sizeof_tss \<equiv> 104"
abbreviation (input) selector_tss :: u16 where "selector_tss \<equiv> 0x30"

record Tss =
  tss_rsp :: "u64 list"
  tss_ist :: "u64 list"
  iomap_base :: u16

record percpu =
  pc_self :: u64
  pc_index :: u32
  pc_apic_id :: u32
  pc_online :: bool
  pc_kernel_stack_top :: virt_addr
  pc_gdt :: "u64 list"
  pc_tss :: Tss

definition zero_tss :: Tss where
  "zero_tss = \<lparr>tss_rsp = replicate 3 0, tss_ist = replicate 7 0, iomap_base = 0\<rparr>"

definition zero_percpu :: percpu where
  "zero_percpu = \<lparr>pc_self = 0, pc_index = 0, pc_apic_id = 0, pc_online = False,
     pc_kernel_stack_top = 0, pc_gdt = replicate 9 0, pc_tss = zero_tss\<rparr>"

definition tss_init_cpu :: "guards \<Rightarrow> percpu \<Rightarrow> percpu" where
  "tss_init_cpu g c =
     (let t = zero_tss\<lparr>iomap_base := ucast sizeof_tss,
            tss_ist := (tss_ist zero_tss)
              [unat (ist_double_fault - 1) := exception_stack_top g ist_double_fault,
               unat (ist_nmi - 1) := exception_stack_top g ist_nmi,
               unat (ist_machine_check - 1) := exception_stack_top g ist_machine_check]\<rparr>;
          t = (if pc_kernel_stack_top c \<noteq> 0
               then t\<lparr>tss_rsp := (tss_rsp t)[0 := pc_kernel_stack_top c]\<rparr> else t)
      in c\<lparr>pc_tss := t\<rparr>)"

definition percpu_set_kernel_stack :: "virt_addr \<Rightarrow> percpu \<Rightarrow> percpu" where
  "percpu_set_kernel_stack stack_top c =
     c\<lparr>pc_kernel_stack_top := stack_top, pc_tss := (pc_tss c)\<lparr>tss_rsp := (tss_rsp (pc_tss c))[0 := stack_top]\<rparr>\<rparr>"

definition descriptor :: "u8 \<Rightarrow> u8 \<Rightarrow> u64" where
  "descriptor access flags = push_bit 40 (ucast access) OR push_bit 52 (ucast flags)"

definition tss_descriptor_low :: "u64 \<Rightarrow> u64 \<Rightarrow> u64" where
  "tss_descriptor_low base limit =
     (limit AND 0xFFFF) OR push_bit 16 (base AND 0xFFFFFF) OR push_bit 40 0x89
     OR push_bit 48 (drop_bit 16 limit AND 0xF) OR push_bit 56 (drop_bit 24 base AND 0xFF)"

definition gdt_init_cpu :: "u64 \<Rightarrow> percpu \<Rightarrow> percpu" where
  "gdt_init_cpu tss_address c =
     c\<lparr>pc_gdt := [0, descriptor 0x9A 0xA, descriptor 0x92 0xA, descriptor 0xFA 0xC, descriptor 0xF2 0xA,
       descriptor 0xFA 0xA, tss_descriptor_low tss_address (sizeof_tss - 1), drop_bit 32 tss_address, 0]\<rparr>"

section \<open>Gates\<close>

record IdtEntry =
  offset_low :: u16
  gate_selector :: u16
  gate_ist :: u8
  type_attr :: u8
  offset_mid :: u16
  offset_high :: u32

definition ist_for_vector :: "u8 \<Rightarrow> u8" where
  "ist_for_vector vector =
     (if vector = 2 then ist_nmi else if vector = 8 then ist_double_fault
      else if vector = 18 then ist_machine_check else 0)"

definition set_gate :: "u8 \<Rightarrow> u64 \<Rightarrow> IdtEntry list \<Rightarrow> IdtEntry list" where
  "set_gate vector address idt =
     idt[unat vector := \<lparr>offset_low = ucast (address AND 0xFFFF), gate_selector = 0x08,
       gate_ist = ist_for_vector vector, type_attr = 0x8E,
       offset_mid = ucast (drop_bit 16 address AND 0xFFFF), offset_high = ucast (drop_bit 32 address)\<rparr>]"

definition idt_init :: "(nat \<Rightarrow> u64) \<Rightarrow> IdtEntry list \<Rightarrow> IdtEntry list" where
  "idt_init stubs idt = fold (\<lambda>v. set_gate (of_nat v) (stubs v)) [0..<256] idt"

section \<open>Processor blocks\<close>

record cpu_table =
  blocks :: "percpu list"
  online_cpus :: nat
  gs_ready :: bool
  gs_base :: u64

text \<open>\<open>None\<close> is the panic for an index past the table.\<close>

definition percpu_setup :: "(nat \<Rightarrow> u64) \<Rightarrow> u32 \<Rightarrow> u32 \<Rightarrow> cpu_table \<Rightarrow> cpu_table option" where
  "percpu_setup cpu_block index apic_id t =
     (if unat index \<ge> max_cpus then None
      else Some (t\<lparr>blocks := (blocks t)[unat index := zero_percpu\<lparr>pc_self := cpu_block (unat index),
               pc_index := index, pc_apic_id := apic_id, pc_online := True\<rparr>],
             gs_base := cpu_block (unat index), gs_ready := True, online_cpus := online_cpus t + 1\<rparr>))"

definition this_cpu :: "(nat \<Rightarrow> u64) \<Rightarrow> cpu_table \<Rightarrow> u64" where
  "this_cpu cpu_block t = (if \<not> gs_ready t then cpu_block 0 else if gs_base t \<noteq> 0 then gs_base t else cpu_block 0)"

definition cpu_at :: "(nat \<Rightarrow> u64) \<Rightarrow> nat \<Rightarrow> cpu_table \<Rightarrow> u64" where
  "cpu_at cpu_block index t =
     (if index < max_cpus \<and> pc_online (blocks t ! index) then cpu_block index else 0)"

definition cpu_online_count :: "cpu_table \<Rightarrow> nat" where
  "cpu_online_count t = (if online_cpus t = 0 then 1 else online_cpus t)"

section \<open>Addresses survive their encoding\<close>

text \<open>The address the processor puts together from a gate and from a task state descriptor.\<close>

definition gate_address :: "IdtEntry \<Rightarrow> u64" where
  "gate_address e = ucast (offset_low e) OR push_bit 16 (ucast (offset_mid e)) OR push_bit 32 (ucast (offset_high e))"

definition descriptor_base :: "u64 \<Rightarrow> u64 \<Rightarrow> u64" where
  "descriptor_base low high =
     (drop_bit 16 low AND 0xFFFFFF) OR push_bit 24 (drop_bit 56 low AND 0xFF) OR push_bit 32 (high AND 0xFFFFFFFF)"

definition descriptor_limit :: "u64 \<Rightarrow> u64" where
  "descriptor_limit low = (low AND 0xFFFF) OR push_bit 16 (drop_bit 48 low AND 0xF)"

lemma numeral_masks:
  "(0xFFFF :: u64) = mask 16" "(0xFFFFFF :: u64) = mask 24" "(0xFF :: u64) = mask 8" "(0xF :: u64) = mask 4"
  "(0xFFFFFFFF :: u64) = mask 32"
  by (simp_all add: mask_eq_exp_minus_1)

lemma gate_round_trip:
  "ucast (ucast (a AND 0xFFFF) :: u16) OR push_bit 16 (ucast (ucast (drop_bit 16 a AND 0xFFFF) :: u16))
     OR push_bit 32 (ucast (ucast (drop_bit 32 a) :: u32)) = (a :: u64)"
  unfolding numeral_masks
proof (rule bit_word_eqI)
  fix n
  assume "n < LENGTH(64)"
  then have n: "n < 64" by simp
  consider "n < 16" | "16 \<le> n" "n < 32" | "32 \<le> n" by linarith
  then show "bit (ucast (ucast (a AND mask 16) :: u16)
      OR push_bit 16 (ucast (ucast (drop_bit 16 a AND mask 16) :: u16))
      OR push_bit 32 (ucast (ucast (drop_bit 32 a) :: u32)) :: u64) n = bit a n"
    by cases (use n in \<open>auto simp: bit_simps\<close>)
qed

lemma tss_descriptor_round_trip:
  assumes "limit < 0x10000"
  shows "descriptor_base (tss_descriptor_low base limit) (drop_bit 32 base) = base"
    and "descriptor_limit (tss_descriptor_low base limit) = limit"
proof -
  define c where "c = push_bit 40 (0x89 :: u64)"
  have "c = push_bit 40 1 OR push_bit 43 1 OR push_bit 47 1" by (simp add: c_def)
  then have cb: "bit c k \<longleftrightarrow> k = 40 \<or> k = 43 \<or> k = 47" for k
    by (auto simp: bit_or_iff bit_push_bit_iff bit_1_iff simp del: push_bit_numeral push_bit_of_1)
  have "limit = take_bit 16 limit" using assms by (simp add: take_bit_eq_mod mod_word_less)
  then have high: "bit limit n \<longleftrightarrow> n < 16 \<and> bit limit n" for n by (metis bit_take_bit_iff)
  have n16: "\<not> bit limit n" if "16 \<le> n" for n using high [of n] that by simp
  show "descriptor_base (tss_descriptor_low base limit) (drop_bit 32 base) = base"
    unfolding descriptor_base_def tss_descriptor_low_def numeral_masks c_def [symmetric]
  proof (rule bit_word_eqI, goal_cases)
    case (1 n)
    then have n: "n < 64" by simp
    consider "n < 24" | "24 \<le> n" "n < 32" | "32 \<le> n" by linarith
    then show ?case by cases (use n in \<open>auto simp: bit_simps cb n16\<close>)
  qed
  show "descriptor_limit (tss_descriptor_low base limit) = limit"
    unfolding descriptor_limit_def tss_descriptor_low_def numeral_masks c_def [symmetric]
  proof (rule bit_word_eqI, goal_cases)
    case (1 n)
    then have n: "n < 64" by simp
    consider "n < 16" | "16 \<le> n" by linarith
    then show ?case by cases (use n in \<open>auto simp: bit_simps cb n16\<close>)
  qed
qed


section \<open>The tables the processor reads\<close>

lemma fold_set_gate:
  assumes "n \<le> 256"
  shows "length (fold (\<lambda>v. set_gate (of_nat v) (stubs v)) [0..<n] idt) = length idt \<and>
     (length idt = 256 \<longrightarrow> v < n \<longrightarrow>
      fold (\<lambda>v. set_gate (of_nat v) (stubs v)) [0..<n] idt ! v = set_gate (of_nat v) (stubs v) idt ! v)"
  using assms
proof (induction n)
  case (Suc n)
  have "unat (of_nat n :: u8) = n" using Suc.prems by (simp add: unat_of_nat)
  with Suc show ?case
    by (cases "v = n") (auto simp: set_gate_def unat_of_nat nth_list_update)
qed simp

lemma idt_init_nth:
  assumes "length idt = 256" and "v < 256"
  shows "idt_init stubs idt ! v = set_gate (of_nat v) (stubs v) idt ! v"
  using fold_set_gate [of 256 stubs idt v] assms unfolding idt_init_def by blast

lemma idt_init_gate:
  assumes "length idt = 256" and "v < 256"
  shows "gate_address (idt_init stubs idt ! v) = stubs v"
    and "gate_ist (idt_init stubs idt ! v) = ist_for_vector (of_nat v)"
    and "gate_selector (idt_init stubs idt ! v) = 0x08"
proof -
  have "unat (of_nat v :: u8) = v" using assms(2) by (simp add: unat_of_nat)
  then have e: "set_gate (of_nat v) (stubs v) idt ! v =
      \<lparr>offset_low = ucast (stubs v AND 0xFFFF), gate_selector = 0x08, gate_ist = ist_for_vector (of_nat v),
       type_attr = 0x8E, offset_mid = ucast (drop_bit 16 (stubs v) AND 0xFFFF),
       offset_high = ucast (drop_bit 32 (stubs v))\<rparr>"
    using assms by (simp add: set_gate_def)
  show "gate_address (idt_init stubs idt ! v) = stubs v"
    unfolding idt_init_nth [OF assms] e gate_address_def IdtEntry.simps by (rule gate_round_trip)
  show "gate_ist (idt_init stubs idt ! v) = ist_for_vector (of_nat v)"
    and "gate_selector (idt_init stubs idt ! v) = 0x08"
    unfolding idt_init_nth [OF assms] e by simp_all
qed

lemma gdt_tss_base:
  "descriptor_base (pc_gdt (gdt_init_cpu a c) ! 6) (pc_gdt (gdt_init_cpu a c) ! 7) = a"
  "descriptor_limit (pc_gdt (gdt_init_cpu a c) ! 6) = 103"
  using tss_descriptor_round_trip [of 103 a] by (simp_all add: gdt_init_cpu_def)

text \<open>
  The tables the processor reads say what the code meant. Each of the 256 gates holds the
  address of its stub, split over three fields, the kernel code selector and the interrupt stack of
  its vector, and the descriptor the task register selects holds the address and the size of the
  processor's own task state.
\<close>

lemma descriptor_tables_correct:
  assumes "length idt = 256" and "v < 256"
  shows "gate_address (idt_init stubs idt ! v) = stubs v \<and>
     gate_ist (idt_init stubs idt ! v) = ist_for_vector (of_nat v) \<and>
     gate_selector (idt_init stubs idt ! v) = 0x08 \<and>
     descriptor_base (pc_gdt (gdt_init_cpu a c) ! unat (selector_tss div 8))
       (pc_gdt (gdt_init_cpu a c) ! unat (selector_tss div 8 + 1)) = a \<and>
     descriptor_limit (pc_gdt (gdt_init_cpu a c) ! unat (selector_tss div 8)) = sizeof_tss - 1"
  using idt_init_gate [OF assms] gdt_tss_base [of a c] by simp

lemma descriptor_tables_correct_example:
  "gate_address (idt_init (\<lambda>v. 0xFFFFFFFF80000000 + 16 * of_nat v)
      (replicate 256 \<lparr>offset_low = 0, gate_selector = 0, gate_ist = 0, type_attr = 0, offset_mid = 0,
        offset_high = 0\<rparr>) ! 14) = 0xFFFFFFFF800000E0"
  using descriptor_tables_correct [of "replicate 256 \<lparr>offset_low = 0, gate_selector = 0, gate_ist = 0,
      type_attr = 0, offset_mid = 0, offset_high = 0\<rparr>" 14 "\<lambda>v. 0xFFFFFFFF80000000 + 16 * of_nat v"]
  by simp

text \<open>A processor block is found again by its index, and another block is untouched.\<close>

lemma percpu_setup_spec:
  assumes "percpu_setup cpu_block index apic_id t = Some u" and "length (blocks t) = 8"
  shows "cpu_at cpu_block (unat index) u = cpu_block (unat index)"
    and "length (blocks u) = 8" and "online_cpus u = online_cpus t + 1"
    and "j \<noteq> unat index \<Longrightarrow> blocks u ! j = blocks t ! j"
    and "cpu_block (unat index) \<noteq> 0 \<Longrightarrow> this_cpu cpu_block u = cpu_block (unat index)"
  using assms by (auto simp: percpu_setup_def cpu_at_def this_cpu_def split: if_splits)

text \<open>
  All processors get the same interrupt stacks: \<open>exception_stack_top\<close> does not depend on the
  processor. Two processors that take a machine check or a non maskable interrupt at the same time
  run on one stack.
\<close>

lemma interrupt_stacks_shared:
  "tss_ist (pc_tss (tss_init_cpu g a)) = tss_ist (pc_tss (tss_init_cpu g b))"
  by (simp add: tss_init_cpu_def Let_def)

end
