(* ===== verification/Acpi.thy ===== *)
theory Acpi
  imports Bytes Paging
begin

unbundle bit_operations_syntax

text \<open>
  The firmware tables, \<^verbatim>\<open>kernel/acpi/tables.cpp\<close>: the search for the root pointer, the root
  table, the lookup of a table by signature, and the interrupt table that tells the kernel its
  processors, its interrupt controller and the lines the firmware has moved.

  The tables are bytes in memory, read through the direct map. A pointer is its address and the
  null pointer is 0. The walk over the interrupt table follows the lengths it finds there, and an
  address may wrap, so it is partial.
\<close>

section \<open>Layout\<close>

abbreviation (input) sizeof_rsdp :: u64 where "sizeof_rsdp \<equiv> 36"
abbreviation (input) sizeof_header :: u64 where "sizeof_header \<equiv> 36"
abbreviation (input) sizeof_madt :: u64 where "sizeof_madt \<equiv> 44"
abbreviation (input) sizeof_madt_entry :: u64 where "sizeof_madt_entry \<equiv> 2"

definition rsdp_revision :: "memory \<Rightarrow> u64 \<Rightarrow> u8" where "rsdp_revision m p = m (p + 15)"
definition rsdt_address :: "memory \<Rightarrow> u64 \<Rightarrow> u32" where "rsdt_address m p = load_u32 m (p + 16)"
definition xsdt_address :: "memory \<Rightarrow> u64 \<Rightarrow> u64" where "xsdt_address m p = load_u64 m (p + 24)"
definition table_length :: "memory \<Rightarrow> u64 \<Rightarrow> u32" where "table_length m p = load_u32 m (p + 4)"
definition madt_lapic :: "memory \<Rightarrow> u64 \<Rightarrow> u32" where "madt_lapic m p = load_u32 m (p + 36)"
definition hpet_table_address :: "memory \<Rightarrow> u64 \<Rightarrow> u64" where "hpet_table_address m p = load_u64 m (p + 44)"

abbreviation (input) max_irqs :: nat where "max_irqs \<equiv> 16"
abbreviation (input) max_cpus :: nat where "max_cpus \<equiv> 64"

record acpi_state =
  present :: bool
  root :: u64
  root_is_xsdt :: bool
  root_entries :: usize
  lapic_address :: phys_addr
  ioapic_address :: phys_addr
  ioapic_gsi_base :: u32
  hpet_base :: phys_addr
  cpu_apic_ids :: "u32 list"
  irq_to_gsi :: "u32 list"
  irq_low :: "bool list"
  irq_level :: "bool list"

section \<open>Finding the tables\<close>

definition checksum_ok :: "memory \<Rightarrow> u64 \<Rightarrow> usize \<Rightarrow> bool" where
  "checksum_ok m table len \<longleftrightarrow> fold (\<lambda>i sum. sum + m (table + of_nat i)) [0..<unat len] (0 :: u8) = 0"

partial_function (option) scan_for_rsdp :: "memory \<Rightarrow> phys_addr \<Rightarrow> phys_addr \<Rightarrow> u64 option" where
  "scan_for_rsdp m address end =
     (if address + sizeof_rsdp < end then
        (if signature_is m (phys_to_virt address) ''RSD PTR '' \<and> checksum_ok m (phys_to_virt address) 20
         then Some (phys_to_virt address)
         else scan_for_rsdp m (address + 16) end)
      else Some 0)"

definition ebda_address :: "memory \<Rightarrow> phys_addr" where
  "ebda_address m = push_bit 4 (ucast (load_u16 m (phys_to_virt 0x40E)))"

definition find_rsdp :: "memory \<Rightarrow> u64 option" where
  "find_rsdp m =
     (let ebda = ebda_address m
      in Option.bind (if ebda \<ge> 0x400 \<and> ebda < 0xA0000 then scan_for_rsdp m ebda (ebda + 1024) else Some 0)
        (\<lambda>rsdp. if rsdp \<noteq> 0 then Some rsdp else scan_for_rsdp m 0xE0000 0x100000))"

definition entry_at :: "memory \<Rightarrow> acpi_state \<Rightarrow> usize \<Rightarrow> u64" where
  "entry_at m s index =
     (let base = root s + sizeof_header
      in phys_to_virt (if root_is_xsdt s then load_u64 m (base + 8 * index)
                       else ucast (load_u32 m (base + 4 * index))))"

definition table_matches :: "memory \<Rightarrow> string \<Rightarrow> u64 \<Rightarrow> bool" where
  "table_matches m sig table \<longleftrightarrow>
     signature_is m table sig \<and> checksum_ok m table (ucast (table_length m table))"

fun find_table_loop :: "memory \<Rightarrow> acpi_state \<Rightarrow> string \<Rightarrow> nat list \<Rightarrow> u64" where
  "find_table_loop m s sig [] = 0"
| "find_table_loop m s sig (i # is) =
     (let table = entry_at m s (of_nat i)
      in if table_matches m sig table then table else find_table_loop m s sig is)"

definition find_table :: "memory \<Rightarrow> acpi_state \<Rightarrow> string \<Rightarrow> u64" where
  "find_table m s sig =
     (if root s = 0 then 0 else find_table_loop m s sig [0..<unat (root_entries s)])"

section \<open>The interrupt table\<close>

definition local_apic_entry :: "memory \<Rightarrow> u64 \<Rightarrow> acpi_state \<Rightarrow> acpi_state" where
  "local_apic_entry m e s =
     (if load_u32 m (e + 4) AND 1 \<noteq> 0 \<and> length (cpu_apic_ids s) < max_cpus
      then s\<lparr>cpu_apic_ids := cpu_apic_ids s @ [ucast (m (e + 3))]\<rparr> else s)"

definition io_apic_entry :: "memory \<Rightarrow> u64 \<Rightarrow> acpi_state \<Rightarrow> acpi_state" where
  "io_apic_entry m e s =
     (if ioapic_address s = 0
      then s\<lparr>ioapic_address := ucast (load_u32 m (e + 4)), ioapic_gsi_base := load_u32 m (e + 8)\<rparr> else s)"

definition override_entry :: "memory \<Rightarrow> u64 \<Rightarrow> acpi_state \<Rightarrow> acpi_state" where
  "override_entry m e s =
     (let source = unat (m (e + 3)); flags = load_u16 m (e + 8)
      in if source < max_irqs
         then s\<lparr>irq_to_gsi := (irq_to_gsi s)[source := load_u32 m (e + 4)],
                irq_low := (irq_low s)[source := (flags AND 0x3 = 0x3)],
                irq_level := (irq_level s)[source := (flags AND 0xC = 0xC)]\<rparr> else s)"

definition madt_entry :: "memory \<Rightarrow> u64 \<Rightarrow> acpi_state \<Rightarrow> acpi_state" where
  "madt_entry m e s =
     (if m e = 0 then local_apic_entry m e s
      else if m e = 1 then io_apic_entry m e s
      else if m e = 2 then override_entry m e s
      else s)"

partial_function (option) parse_madt_loop ::
  "memory \<Rightarrow> u64 \<Rightarrow> u64 \<Rightarrow> acpi_state \<Rightarrow> acpi_state option" where
  "parse_madt_loop m cursor end s =
     (if cursor + sizeof_madt_entry \<le> end then
        (let len = m (cursor + 1)
         in if ucast len < sizeof_madt_entry then Some s
            else parse_madt_loop m (cursor + ucast len) end (madt_entry m cursor s))
      else Some s)"

definition parse_madt :: "memory \<Rightarrow> u64 \<Rightarrow> acpi_state \<Rightarrow> acpi_state option" where
  "parse_madt m madt s =
     parse_madt_loop m (madt + sizeof_madt) (madt + ucast (table_length m madt))
       (s\<lparr>lapic_address := ucast (madt_lapic m madt)\<rparr>)"

section \<open>Start and queries\<close>

definition choose_root :: "memory \<Rightarrow> u64 \<Rightarrow> acpi_state \<Rightarrow> acpi_state" where
  "choose_root m rsdp s =
     (if rsdp_revision m rsdp \<ge> 2 \<and> xsdt_address m rsdp \<noteq> 0
      then s\<lparr>root := phys_to_virt (xsdt_address m rsdp), root_is_xsdt := True\<rparr>
      else s\<lparr>root := phys_to_virt (ucast (rsdt_address m rsdp)), root_is_xsdt := False\<rparr>)"

definition read_tables :: "memory \<Rightarrow> acpi_state \<Rightarrow> acpi_state option" where
  "read_tables m s =
     (let madt = find_table m s ''APIC''
      in Option.bind (if madt \<noteq> 0 then parse_madt m madt s else Some s)
        (\<lambda>s. let hpet = find_table m s ''HPET''
             in Some (if hpet \<noteq> 0 then s\<lparr>hpet_base := hpet_table_address m hpet\<rparr> else s)))"

definition acpi_init :: "memory \<Rightarrow> acpi_state \<Rightarrow> (bool \<times> acpi_state) option" where
  "acpi_init m s =
     (let s = s\<lparr>irq_to_gsi := map of_nat [0..<max_irqs]\<rparr>
      in Option.bind (find_rsdp m)
        (\<lambda>rsdp. if rsdp = 0 then Some (False, s)
          else let s = choose_root m rsdp s;
                   len = table_length m (root s)
               in if \<not> checksum_ok m (root s) (ucast len) then Some (False, s\<lparr>root := 0\<rparr>)
                  else let entry_size = (if root_is_xsdt s then 8 else 4);
                           s = s\<lparr>root_entries := (ucast len - sizeof_header) div entry_size\<rparr>
                       in map_option (\<lambda>s. (True, s\<lparr>present := True\<rparr>)) (read_tables m s)))"

definition acpi_available :: "acpi_state \<Rightarrow> bool" where "acpi_available s = present s"

definition gsi_for_irq :: "acpi_state \<Rightarrow> u8 \<Rightarrow> u32" where
  "gsi_for_irq s irq = (if unat irq < max_irqs then irq_to_gsi s ! unat irq else ucast irq)"

definition irq_active_low :: "acpi_state \<Rightarrow> u8 \<Rightarrow> bool" where
  "irq_active_low s irq \<longleftrightarrow> unat irq < max_irqs \<and> irq_low s ! unat irq"

definition irq_level_triggered :: "acpi_state \<Rightarrow> u8 \<Rightarrow> bool" where
  "irq_level_triggered s irq \<longleftrightarrow> unat irq < max_irqs \<and> irq_level s ! unat irq"

definition cpu_apic_id :: "acpi_state \<Rightarrow> usize \<Rightarrow> u32" where
  "cpu_apic_id s index = (if unat index < length (cpu_apic_ids s) then cpu_apic_ids s ! unat index else 0)"

definition acpi_cpu_count :: "acpi_state \<Rightarrow> nat" where
  "acpi_cpu_count s = (if length (cpu_apic_ids s) = 0 then 1 else length (cpu_apic_ids s))"

section \<open>Lookup\<close>

lemma find_table_loop_spec:
  "find_table_loop m s sig is =
     (case find (\<lambda>i. table_matches m sig (entry_at m s (of_nat i))) is of
        None \<Rightarrow> 0 | Some i \<Rightarrow> entry_at m s (of_nat i))"
  by (induction "is") (simp_all add: Let_def)

lemma find_table_valid:
  assumes "find_table m s sig \<noteq> 0"
  shows "\<exists>i < unat (root_entries s). find_table m s sig = entry_at m s (of_nat i) \<and>
     table_matches m sig (find_table m s sig) \<and>
     (\<forall>j < i. \<not> table_matches m sig (entry_at m s (of_nat j)))"
proof -
  obtain i where i: "find (\<lambda>i. table_matches m sig (entry_at m s (of_nat i))) [0..<unat (root_entries s)] = Some i"
    and t: "find_table m s sig = entry_at m s (of_nat i)"
    using assms by (auto simp: find_table_def find_table_loop_spec split: if_splits option.splits)
  from i t show ?thesis
    by (auto simp: find_Some_iff)
qed

section \<open>The walk ends and keeps the shape\<close>

definition acpi_ok :: "acpi_state \<Rightarrow> bool" where
  "acpi_ok s \<longleftrightarrow> length (cpu_apic_ids s) \<le> max_cpus \<and> length (irq_to_gsi s) = max_irqs \<and>
     length (irq_low s) = max_irqs \<and> length (irq_level s) = max_irqs"

lemma madt_entry_ok [inv_intros]: "acpi_ok s \<Longrightarrow> acpi_ok (madt_entry m e s)"
  by (simp add: acpi_ok_def madt_entry_def local_apic_entry_def io_apic_entry_def override_entry_def Let_def)

lemma madt_entry_frame [frame_simps]:
  "root (madt_entry m e s) = root s" "root_is_xsdt (madt_entry m e s) = root_is_xsdt s"
  "root_entries (madt_entry m e s) = root_entries s" "present (madt_entry m e s) = present s"
  "lapic_address (madt_entry m e s) = lapic_address s" "hpet_base (madt_entry m e s) = hpet_base s"
  by (simp_all add: madt_entry_def local_apic_entry_def io_apic_entry_def override_entry_def Let_def)

text \<open>The entries of a table, as offsets: the reference for the walk.\<close>

function walk :: "memory \<Rightarrow> u64 \<Rightarrow> nat \<Rightarrow> nat \<Rightarrow> nat list" where
  "walk m base offset len =
     (if offset + 2 \<le> len \<and> 2 \<le> unat (m (base + of_nat offset + 1))
      then offset # walk m base (offset + unat (m (base + of_nat offset + 1))) len else [])"
  by pat_completeness auto
termination by (relation "measure (\<lambda>(m, base, offset, len). len - offset)") auto

declare walk.simps [simp del]

lemma ucast_of_nat_u8: "of_nat (unat (x :: u8)) = (ucast x :: u64)"
  by (rule u64_eqI) (use unsigned_less [of x, where ?'a = nat] in \<open>simp add: unat_u64_of_nat\<close>)

lemma parse_madt_loop_walk:
  assumes "unat base + len + 512 < 18446744073709551616"
  shows "offset \<le> len + 255 \<Longrightarrow>
     parse_madt_loop m (base + of_nat offset) (base + of_nat len) s
       = Some (fold (\<lambda>k s. madt_entry m (base + of_nat k) s) (walk m base offset len) s)"
  using assms
proof (induction m base offset len arbitrary: s rule: walk.induct)
  case (1 m base offset len)
  let ?c = "base + of_nat offset :: u64" and ?e = "base + of_nat len :: u64"
  define l where "l = m (?c + 1)"
  have l: "unat l < 256" using unsigned_less [of l, where ?'a = nat] by simp
  have c: "unat ?c = unat base + offset" "unat ?e = unat base + len"
    using 1(2,3) by (simp_all add: u64_simps)
  have c2: "unat (?c + 2) = unat base + offset + 2"
    using 1(2,3) c(1) unat_u64_add [of ?c 2] by simp
  have inside: "?c + 2 \<le> ?e \<longleftrightarrow> offset + 2 \<le> len"
    by (simp add: word_le_nat_alt c c2)
  have short: "(ucast l :: u64) < 2 \<longleftrightarrow> \<not> 2 \<le> unat l"
    by (simp add: word_less_nat_alt not_le)
  show ?case
  proof (cases "offset + 2 \<le> len \<and> 2 \<le> unat l")
    case True
    have step: "base + of_nat (offset + unat l) = ?c + ucast l"
      by (simp add: ucast_of_nat_u8)
    have "parse_madt_loop m (base + of_nat (offset + unat l)) ?e s'
        = Some (fold (\<lambda>k s. madt_entry m (base + of_nat k) s) (walk m base (offset + unat l) len) s')" for s'
      using "1.IH" [of s'] "1.prems"(2) True l unfolding l_def [symmetric] by simp
    then show ?thesis
      using True inside short
      by (subst parse_madt_loop.simps, subst walk.simps)
        (simp add: Let_def l_def [symmetric] step del: of_nat_add)
  next
    case False
    then show ?thesis
      using inside short
      by (subst parse_madt_loop.simps, subst walk.simps) (auto simp: Let_def l_def [symmetric])
  qed
qed


section \<open>What the walk collects\<close>

definition enabled_cpu :: "memory \<Rightarrow> u64 \<Rightarrow> bool" where
  "enabled_cpu m e \<longleftrightarrow> m e = 0 \<and> load_u32 m (e + 4) AND 1 \<noteq> 0"

definition moves_irq :: "memory \<Rightarrow> nat \<Rightarrow> u64 \<Rightarrow> bool" where
  "moves_irq m irq e \<longleftrightarrow> m e = 2 \<and> unat (m (e + 3)) = irq"

definition madt_entries :: "memory \<Rightarrow> u64 \<Rightarrow> u64 list" where
  "madt_entries m madt = map (\<lambda>k. madt + of_nat k) (walk m madt 44 (unat (table_length m madt)))"

lemma fold_madt_cpus:
  "cpu_apic_ids (fold (madt_entry m) es s)
     = cpu_apic_ids s @ take (64 - length (cpu_apic_ids s))
         (map (\<lambda>e. ucast (m (e + 3))) (filter (enabled_cpu m) es))"
proof (induction es arbitrary: s)
  case (Cons e es)
  show ?case
  proof (cases "enabled_cpu m e \<and> length (cpu_apic_ids s) < 64")
    case True
    then have "64 - length (cpu_apic_ids s) = Suc (64 - Suc (length (cpu_apic_ids s)))"
      by (simp only: Suc_diff_Suc)
    moreover have "madt_entry m e s = s\<lparr>cpu_apic_ids := cpu_apic_ids s @ [ucast (m (e + 3))]\<rparr>"
      using True by (simp add: madt_entry_def local_apic_entry_def enabled_cpu_def)
    ultimately show ?thesis using True by (simp add: Cons.IH)
  next
    case False
    then have "cpu_apic_ids (madt_entry m e s) = cpu_apic_ids s"
      by (auto simp: madt_entry_def local_apic_entry_def io_apic_entry_def override_entry_def Let_def
          enabled_cpu_def)
    with False show ?thesis by (auto simp: Cons.IH)
  qed
qed simp

lemma fold_madt_ok: "acpi_ok s \<Longrightarrow> acpi_ok (fold (madt_entry m) es s)"
  by (induction es arbitrary: s) (simp_all add: inv_intros)

lemma fold_madt_frame:
  "lapic_address (fold (madt_entry m) es s) = lapic_address s"
  "root (fold (madt_entry m) es s) = root s"
  by (induction es arbitrary: s) (simp_all add: frame_simps)

lemma madt_entry_irq:
  assumes "acpi_ok s" and "irq < 16"
  shows "irq_to_gsi (madt_entry m e s) ! irq
       = (if moves_irq m irq e then load_u32 m (e + 4) else irq_to_gsi s ! irq)"
  using assms
  by (auto simp: madt_entry_def local_apic_entry_def io_apic_entry_def override_entry_def Let_def
      moves_irq_def acpi_ok_def nth_list_update)

lemma fold_madt_irq:
  assumes "irq < 16"
  shows "acpi_ok s \<Longrightarrow> irq_to_gsi (fold (madt_entry m) es s) ! irq
     = (case find (moves_irq m irq) (rev es) of None \<Rightarrow> irq_to_gsi s ! irq | Some e \<Rightarrow> load_u32 m (e + 4))"
proof (induction es rule: rev_induct)
  case (snoc e es)
  then show ?case
    using madt_entry_irq [OF fold_madt_ok [OF snoc.prems] assms] by simp
qed simp

lemma parse_madt_entries:
  assumes "unat madt + unat (table_length m madt) + 512 < 18446744073709551616"
  shows "parse_madt m madt s
       = Some (fold (madt_entry m) (madt_entries m madt) (s\<lparr>lapic_address := ucast (madt_lapic m madt)\<rparr>))"
proof -
  have "(of_nat (unat (table_length m madt)) :: u64) = ucast (table_length m madt)"
    using u32_bound [of "table_length m madt"] by (intro u64_eqI) (simp add: u64_simps)
  then show ?thesis
    using parse_madt_loop_walk [OF assms, of 44 m]
    by (simp add: parse_madt_def madt_entries_def fold_map comp_def)
qed

lemma parse_madt_spec:
  assumes "unat madt + unat (table_length m madt) + 512 < 18446744073709551616"
    and "acpi_ok s" and "cpu_apic_ids s = []"
  shows "\<exists>s'. parse_madt m madt s = Some s' \<and> acpi_ok s' \<and>
     lapic_address s' = ucast (madt_lapic m madt) \<and>
     cpu_apic_ids s' = take 64 (map (\<lambda>e. ucast (m (e + 3))) (filter (enabled_cpu m) (madt_entries m madt))) \<and>
     (\<forall>irq. unat irq < 16 \<longrightarrow> gsi_for_irq s' irq
        = (case find (moves_irq m (unat irq)) (rev (madt_entries m madt)) of
             None \<Rightarrow> gsi_for_irq s irq | Some e \<Rightarrow> load_u32 m (e + 4)))"
proof -
  let ?s = "s\<lparr>lapic_address := ucast (madt_lapic m madt)\<rparr>"
  have ok: "acpi_ok ?s" using assms(2) by (simp add: acpi_ok_def)
  show ?thesis
    using parse_madt_entries [OF assms(1), of s] fold_madt_ok [OF ok] fold_madt_cpus [of m _ ?s]
      fold_madt_frame(1) [of m _ ?s] fold_madt_irq [OF _ ok] assms(3)
    by (simp add: gsi_for_irq_def split: option.splits)
qed


section \<open>Start\<close>

lemma scan_for_rsdp_end: "\<not> address + 36 < end \<Longrightarrow> scan_for_rsdp m address end = Some 0"
  by (subst scan_for_rsdp.simps) simp

lemma scan_for_rsdp_returns:
  assumes "unat end \<le> 4294967296"
  shows "unat address \<le> 4294967296 + 16 \<Longrightarrow> \<exists>p. scan_for_rsdp m address end = Some p \<and>
     (p \<noteq> 0 \<longrightarrow> signature_is m p ''RSD PTR '' \<and> checksum_ok m p 20)"
proof (induction "unat end - unat address" arbitrary: address rule: less_induct)
  case less
  show ?case
  proof (cases "address + 36 < end")
    case False
    then show ?thesis by (simp add: scan_for_rsdp_end)
  next
    case True
    have a36: "unat (address + 36) = unat address + 36" and a16: "unat (address + 16) = unat address + 16"
      using less.prems unat_u64_add [of address 36] unat_u64_add [of address 16] by simp_all
    have lt: "unat address + 36 < unat end" using True by (simp add: word_less_nat_alt a36)
    show ?thesis
    proof (cases "signature_is m address ''RSD PTR '' \<and> checksum_ok m address 20")
      case found: True
      with True show ?thesis by (subst scan_for_rsdp.simps) (simp add: phys_to_virt_def)
    next
      case missed: False
      have "scan_for_rsdp m address end = scan_for_rsdp m (address + 16) end"
        using True missed by (subst scan_for_rsdp.simps) (auto simp: phys_to_virt_def)
      moreover have "\<exists>p. scan_for_rsdp m (address + 16) end = Some p \<and>
          (p \<noteq> 0 \<longrightarrow> signature_is m p ''RSD PTR '' \<and> checksum_ok m p 20)"
        by (rule less.hyps) (use lt assms a16 in simp_all)
      ultimately show ?thesis by simp
    qed
  qed
qed

lemma find_rsdp_returns: "\<exists>p. find_rsdp m = Some p"
proof -
  define ebda where "ebda = ebda_address m"
  obtain q where q: "scan_for_rsdp m 0xE0000 0x100000 = Some q"
    using scan_for_rsdp_returns [of "0x100000" "0xE0000" m] by auto
  show ?thesis
  proof (cases "ebda \<ge> 0x400 \<and> ebda < 0xA0000")
    case True
    then have "unat ebda < 655360" by (simp add: word_less_nat_alt)
    then have "unat (ebda + 1024) \<le> 4294967296" "unat ebda \<le> 4294967296 + 16"
      using unat_u64_add [of ebda 1024] by simp_all
    then obtain p where "scan_for_rsdp m ebda (ebda + 1024) = Some p"
      using scan_for_rsdp_returns [of "ebda + 1024" ebda m] by blast
    with True q show ?thesis by (simp add: find_rsdp_def ebda_def [symmetric] Let_def)
  next
    case False
    with q show ?thesis by (auto simp: find_rsdp_def ebda_def [symmetric] Let_def)
  qed
qed

lemma find_table_cong:
  assumes "root s = root t" "root_is_xsdt s = root_is_xsdt t" "root_entries s = root_entries t"
  shows "find_table m s sig = find_table m t sig"
proof -
  have e: "entry_at m s = entry_at m t" using assms by (simp add: entry_at_def fun_eq_iff)
  show ?thesis unfolding find_table_def find_table_loop_spec assms e ..
qed

definition tables_end :: "memory \<Rightarrow> bool" where
  "tables_end m \<longleftrightarrow> (\<forall>p. table_matches m ''APIC'' p \<longrightarrow>
     unat p + unat (table_length m p) + 512 < 18446744073709551616)"

definition cpus_of :: "memory \<Rightarrow> u64 \<Rightarrow> u32 list" where
  "cpus_of m madt = (if madt = 0 then [] else
     take 64 (map (\<lambda>e. ucast (m (e + 3))) (filter (enabled_cpu m) (madt_entries m madt))))"

lemma fold_madt_root:
  "root (fold (madt_entry m) es s) = root s \<and> root_is_xsdt (fold (madt_entry m) es s) = root_is_xsdt s \<and>
   root_entries (fold (madt_entry m) es s) = root_entries s"
  by (induction es arbitrary: s) (simp_all add: frame_simps)

lemma read_tables_spec:
  assumes "tables_end m" and "acpi_ok s" and "cpu_apic_ids s = []"
  shows "\<exists>t. read_tables m s = Some t \<and> acpi_ok t \<and> root t = root s \<and> root_is_xsdt t = root_is_xsdt s \<and>
     root_entries t = root_entries s \<and> cpu_apic_ids t = cpus_of m (find_table m s ''APIC'')"
proof (cases "find_table m s ''APIC'' = 0")
  case True
  with assms show ?thesis by (simp add: read_tables_def Let_def cpus_of_def acpi_ok_def)
next
  case False
  let ?p = "find_table m s ''APIC''"
  have "table_matches m ''APIC'' ?p" using find_table_valid [OF False] by blast
  then have bound: "unat ?p + unat (table_length m ?p) + 512 < 18446744073709551616"
    using assms(1) by (simp add: tables_end_def)
  let ?t = "fold (madt_entry m) (madt_entries m ?p) (s\<lparr>lapic_address := ucast (madt_lapic m ?p)\<rparr>)"
  obtain t where t: "parse_madt m ?p s = Some t" "acpi_ok t" "cpu_apic_ids t = cpus_of m ?p"
    using parse_madt_spec [OF bound assms(2,3)] False unfolding cpus_of_def by auto
  have "t = ?t" using t(1) parse_madt_entries [OF bound, of s] by simp
  then have "root t = root s" "root_is_xsdt t = root_is_xsdt s" "root_entries t = root_entries s"
    using fold_madt_root [of m "madt_entries m ?p" "s\<lparr>lapic_address := ucast (madt_lapic m ?p)\<rparr>"] by simp_all
  with t False show ?thesis by (simp add: read_tables_def Let_def acpi_ok_def)
qed

definition acpi_boot :: acpi_state where
  "acpi_boot = \<lparr>present = False, root = 0, root_is_xsdt = False, root_entries = 0, lapic_address = 0,
     ioapic_address = 0, ioapic_gsi_base = 0, hpet_base = 0, cpu_apic_ids = [],
     irq_to_gsi = replicate 16 0, irq_low = replicate 16 False, irq_level = replicate 16 False\<rparr>"

text \<open>The root table the firmware points to, 0 when there is none or its checksum is wrong.\<close>

definition valid_root :: "memory \<Rightarrow> u64 option" where
  "valid_root m =
     Option.bind (find_rsdp m)
       (\<lambda>p. if p = 0 then None
            else let r = root (choose_root m p acpi_boot)
                 in if checksum_ok m r (ucast (table_length m r)) then Some r else None)"

lemma acpi_init_spec:
  assumes "tables_end m"
  shows "\<exists>ok s. acpi_init m acpi_boot = Some (ok, s) \<and> acpi_ok s \<and> present s = ok \<and>
     (case valid_root m of None \<Rightarrow> \<not> ok
      | Some r \<Rightarrow> ok \<and> root s = r \<and> cpu_apic_ids s = cpus_of m (find_table m s ''APIC''))"
proof -
  obtain p where p: "find_rsdp m = Some p" using find_rsdp_returns by blast
  let ?s = "acpi_boot\<lparr>irq_to_gsi := map of_nat [0..<max_irqs]\<rparr>"
  define r where "r = choose_root m p ?s"
  have r: "acpi_ok r" "cpu_apic_ids r = []" "present r = False"
    by (simp_all add: r_def choose_root_def acpi_ok_def acpi_boot_def)
  have s: "acpi_ok ?s" "\<not> present ?s" by (simp_all add: acpi_ok_def acpi_boot_def)
  let ?l = "table_length m (root r)"
  define e where "e = (if root_is_xsdt r then 8 else 4 :: usize)"
  let ?r = "r\<lparr>root_entries := (ucast ?l - sizeof_header) div e\<rparr>"
  have "acpi_ok ?r" "cpu_apic_ids ?r = []" using r by (simp_all add: acpi_ok_def)
  then obtain t where t: "read_tables m ?r = Some t" "acpi_ok t" "root t = root ?r"
      "root_is_xsdt t = root_is_xsdt ?r" "root_entries t = root_entries ?r"
      "cpu_apic_ids t = cpus_of m (find_table m ?r ''APIC'')"
    using read_tables_spec [OF assms] by metis
  have same: "find_table m (t\<lparr>present := True\<rparr>) ''APIC'' = find_table m ?r ''APIC''"
    by (rule find_table_cong) (use t in simp_all)
  have rt: "root r = root (choose_root m p acpi_boot)"
    by (simp add: r_def choose_root_def)
  consider "p = 0" | "p \<noteq> 0" "\<not> checksum_ok m (root r) (ucast ?l)" | "p \<noteq> 0" "checksum_ok m (root r) (ucast ?l)"
    by blast
  then show ?thesis
  proof cases
    case 1
    then have "acpi_init m acpi_boot = Some (False, ?s)" "valid_root m = None"
      using p unfolding acpi_init_def valid_root_def Let_def by simp_all
    then show ?thesis using s by auto
  next
    case 2
    then have "acpi_init m acpi_boot = Some (False, r\<lparr>root := 0\<rparr>)" "valid_root m = None"
      using p rt unfolding acpi_init_def valid_root_def Let_def r_def by simp_all
    then show ?thesis using r by (auto simp: acpi_ok_def)
  next
    case 3
    then have "acpi_init m acpi_boot = Some (True, t\<lparr>present := True\<rparr>)" "valid_root m = Some (root r)"
      using p t(1) rt unfolding acpi_init_def valid_root_def Let_def r_def e_def by simp_all
    then show ?thesis using t same 3 by (auto simp: acpi_ok_def)
  qed
qed


text \<open>A machine with one processor, whose identifier is 5.\<close>

definition small_rsdp :: "u8 list" where
  "small_rsdp = map of_char ''RSD PTR '' @ [209, 0, 0, 0, 0, 0, 0, 0, 0, 16, 0, 0]"

definition small_rsdt :: "u8 list" where
  "small_rsdt = [0, 0, 0, 0, 40, 0, 0, 0, 0, 184] @ replicate 26 0 @ [0, 32, 0, 0]"

definition small_madt :: "u8 list" where
  "small_madt = map of_char ''APIC'' @ [52, 0, 0, 0, 0, 194] @ replicate 26 0 @ [0, 0, 224, 254, 0, 0, 0, 0]
     @ [0, 8, 1, 5, 1, 0, 0, 0]"

definition small_firmware :: memory where
  "small_firmware a =
     (if 0xE0000 \<le> a \<and> a < 0xE0014 then small_rsdp ! unat (a - 0xE0000)
      else if 0x1000 \<le> a \<and> a < 0x1028 then small_rsdt ! unat (a - 0x1000)
      else if 0x2000 \<le> a \<and> a < 0x2034 then small_madt ! unat (a - 0x2000) else 0)"

lemma small_rsdp_checksum: "checksum_ok small_firmware 0xE0000 20"
  by (simp add: checksum_ok_def small_firmware_def small_rsdp_def upt_rec)


lemma small_firmware_words:
  "load_u16 small_firmware 0x40E = 0" "load_u32 small_firmware 0xE0010 = 0x1000"
  "load_u32 small_firmware 0x1004 = 40" "load_u32 small_firmware 0x1024 = 0x2000"
  "load_u32 small_firmware 0x2004 = 52" "load_u32 small_firmware 0x2030 = 1" "small_firmware 0xE000F = 0"
  by (simp_all add: load_u16_def load_u32_def load_le_numeral small_firmware_def small_rsdp_def
      small_rsdt_def small_madt_def nth_append)

lemma small_rsdt_checksum: "checksum_ok small_firmware 0x1000 40"
  by (simp add: checksum_ok_def small_firmware_def small_rsdt_def upt_rec nth_append)

lemma small_madt_checksum: "checksum_ok small_firmware 0x2000 52"
  by (simp add: checksum_ok_def small_firmware_def small_madt_def upt_rec nth_append)


lemma small_find_rsdp: "find_rsdp small_firmware = Some 0xE0000"
proof -
  have "signature_is small_firmware 0xE0000 ''RSD PTR ''"
    by (simp add: signature_is_def small_firmware_def small_rsdp_def)
  then have "scan_for_rsdp small_firmware 0xE0000 0x100000 = Some 0xE0000"
    using small_rsdp_checksum by (subst scan_for_rsdp.simps) (simp add: phys_to_virt_def)
  then show ?thesis
    by (simp add: find_rsdp_def ebda_address_def small_firmware_words phys_to_virt_def)
qed

lemma small_valid_root: "valid_root small_firmware = Some 0x1000"
  using small_find_rsdp small_rsdt_checksum small_firmware_words
  by (simp add: valid_root_def Let_def choose_root_def rsdp_revision_def rsdt_address_def table_length_def
      phys_to_virt_def)

lemma small_tables_end: "tables_end small_firmware"
  unfolding tables_end_def
proof (intro allI impI)
  fix p
  assume "table_matches small_firmware ''APIC'' p"
  then have "small_firmware p = 65"
    by (simp add: table_matches_def signature_is_def)
  then have "unat p < 0x100000"
    by (auto simp: small_firmware_def word_less_nat_alt split: if_splits)
  moreover have "unat (table_length small_firmware p) < 4294967296" by (rule u32_bound)
  ultimately show "unat p + unat (table_length small_firmware p) + 512 < 18446744073709551616" by simp
qed



text \<open>
  A root table shorter than its own header passes the checksum of its few bytes, and the number of
  its entries then wraps: the lookup follows two thousand million million pointers.
\<close>

lemma short_root_entries:
  "(ucast (35 :: u32) - sizeof_header) div 8 = (2305843009213693951 :: u64)"
  by simp

end
