(* ===== verification/Interrupts.thy ===== *)
theory Interrupts
  imports Ports Acpi
begin

unbundle bit_operations_syntax

text \<open>
  Interrupt controllers and dispatch: the local controller and its timer, \<^verbatim>\<open>kernel/cpu/lapic.cpp\<close>,
  the routing controller, \<^verbatim>\<open>kernel/cpu/ioapic.cpp\<close>, the choice between them and the legacy pair,
  \<^verbatim>\<open>kernel/cpu/irq.cpp\<close>, and the interrupt handler of \<^verbatim>\<open>kernel/cpu/idt.cpp\<close>.

  The chips are a parameter, a value of type \<open>'d chips\<close>: what a read or a write of a register does to
  the state \<open>'d\<close> of the machine. Mapping the register windows is \<open>map_device\<close> of \<^verbatim>\<open>Vmalloc\<close>; here
  its success is an argument. Waiting for a chip may take forever, so those operations are partial.
\<close>

record 'd mmio =
  mm_write :: "u32 \<Rightarrow> u32 \<Rightarrow> 'd \<Rightarrow> 'd"
  mm_read :: "u32 \<Rightarrow> 'd \<Rightarrow> u32 \<times> 'd"

record 'd chips =
  pio :: "'d ports"
  lapic_io :: "'d mmio"
  ioapic_io :: "'d mmio"
  rd_msr :: "u32 \<Rightarrow> 'd \<Rightarrow> u64"
  wr_msr :: "u32 \<Rightarrow> u64 \<Rightarrow> 'd \<Rightarrow> 'd"

record 'd irq_state =
  machine :: 'd
  lapic_mapped :: bool
  timer_hz :: u64
  ioapic_mapped :: bool
  gsi_base :: u32
  entry_count :: u32
  apic_active :: bool

section \<open>The local controller\<close>

abbreviation (input) reg_id :: u32 where "reg_id \<equiv> 0x020"
abbreviation (input) reg_eoi :: u32 where "reg_eoi \<equiv> 0x0B0"
abbreviation (input) reg_spurious :: u32 where "reg_spurious \<equiv> 0x0F0"
abbreviation (input) reg_lvt_timer :: u32 where "reg_lvt_timer \<equiv> 0x320"
abbreviation (input) reg_timer_initial :: u32 where "reg_timer_initial \<equiv> 0x380"
abbreviation (input) reg_timer_current :: u32 where "reg_timer_current \<equiv> 0x390"
abbreviation (input) reg_timer_divide :: u32 where "reg_timer_divide \<equiv> 0x3E0"
abbreviation (input) reg_icr_low :: u32 where "reg_icr_low \<equiv> 0x300"
abbreviation (input) reg_icr_high :: u32 where "reg_icr_high \<equiv> 0x310"

abbreviation (input) icr_init :: u32 where "icr_init \<equiv> 0x500"
abbreviation (input) icr_startup :: u32 where "icr_startup \<equiv> 0x600"
abbreviation (input) icr_nmi :: u32 where "icr_nmi \<equiv> 0x400"
abbreviation (input) icr_level_assert :: u32 where "icr_level_assert \<equiv> 0x4000"
abbreviation (input) icr_all_excluding_self :: u32 where "icr_all_excluding_self \<equiv> 0xC0000"
abbreviation (input) icr_delivery_pending :: u32 where "icr_delivery_pending \<equiv> 0x1000"
abbreviation (input) lvt_masked :: u32 where "lvt_masked \<equiv> 0x10000"
abbreviation (input) spurious_enable :: u32 where "spurious_enable \<equiv> 0x100"
abbreviation (input) divide_by_16 :: u32 where "divide_by_16 \<equiv> 3"
abbreviation (input) apic_base_msr :: u32 where "apic_base_msr \<equiv> 0x1B"
abbreviation (input) apic_global_enable :: u64 where "apic_global_enable \<equiv> 0x800"

abbreviation (input) vector_lapic_timer :: u64 where "vector_lapic_timer \<equiv> 0x40"
abbreviation (input) vector_tlb_shootdown :: u64 where "vector_tlb_shootdown \<equiv> 0x41"
abbreviation (input) vector_spurious :: u64 where "vector_spurious \<equiv> 0xFF"

definition lapic_write :: "'d chips \<Rightarrow> u32 \<Rightarrow> u32 \<Rightarrow> 'd irq_state \<Rightarrow> 'd irq_state" where
  "lapic_write ch offset val s = s\<lparr>machine := mm_write (lapic_io ch) offset val (machine s)\<rparr>"

definition lapic_read :: "'d chips \<Rightarrow> u32 \<Rightarrow> 'd irq_state \<Rightarrow> u32 \<times> 'd irq_state" where
  "lapic_read ch offset s =
     (let (v, d) = mm_read (lapic_io ch) offset (machine s) in (v, s\<lparr>machine := d\<rparr>))"

partial_function (option) pit_poll :: "'d ports \<Rightarrow> 'd \<Rightarrow> 'd option" where
  "pit_poll io d =
     (case in_port io 0x61 d of (v, d) \<Rightarrow> if v AND 0x20 = 0 then pit_poll io d else Some d)"

definition pit_wait :: "'d ports \<Rightarrow> u16 \<Rightarrow> 'd \<Rightarrow> 'd option" where
  "pit_wait io divisor d =
     (let (v, d) = in_port io 0x61 d;
          d = out_port io 0x61 ((v AND 0xFD) OR 0x01) d;
          d = out_port io 0x43 0xB2 d;
          d = out_port io 0x42 (ucast (divisor AND 0xFF)) d;
          d = out_port io 0x42 (ucast (drop_bit 8 divisor)) d;
          (v, d) = in_port io 0x61 d;
          gate = v AND 0xFE;
          d = out_port io 0x61 gate d;
          d = out_port io 0x61 (gate OR 1) d
      in pit_poll io d)"

abbreviation (input) interval_hz :: nat where "interval_hz \<equiv> 100"
abbreviation (input) pit_divisor :: u16 where "pit_divisor \<equiv> 11931"

definition calibrate :: "'d chips \<Rightarrow> 'd irq_state \<Rightarrow> 'd irq_state option" where
  "calibrate ch s =
     (let s = lapic_write ch reg_timer_divide divide_by_16 s;
          s = lapic_write ch reg_lvt_timer lvt_masked s;
          s = lapic_write ch reg_timer_initial 0xFFFFFFFF s
      in Option.bind (pit_wait (pio ch) pit_divisor (machine s))
        (\<lambda>d. let (remaining, s) = lapic_read ch reg_timer_current (s\<lparr>machine := d\<rparr>);
                 s = lapic_write ch reg_timer_initial 0 s;
                 ticks = 0xFFFFFFFF - ucast remaining
             in Some (s\<lparr>timer_hz := ticks * of_nat interval_hz\<rparr>)))"

definition lapic_enable :: "'d chips \<Rightarrow> 'd irq_state \<Rightarrow> 'd irq_state" where
  "lapic_enable ch s =
     (let d = machine s;
          s = s\<lparr>machine := wr_msr ch apic_base_msr (rd_msr ch apic_base_msr d OR apic_global_enable) d\<rparr>
      in lapic_write ch reg_spurious (spurious_enable OR ucast vector_spurious) s)"

definition lapic_id :: "'d chips \<Rightarrow> 'd irq_state \<Rightarrow> u32 \<times> 'd irq_state" where
  "lapic_id ch s =
     (if \<not> lapic_mapped s then (0, s)
      else let (v, s) = lapic_read ch reg_id s in (drop_bit 24 v, s))"

definition lapic_init :: "'d chips \<Rightarrow> acpi_state \<Rightarrow> bool \<Rightarrow> 'd irq_state \<Rightarrow> (bool \<times> 'd irq_state) option" where
  "lapic_init ch acpi mapped s =
     (if \<not> acpi_available acpi \<or> lapic_address acpi = 0 then Some (False, s)
      else if \<not> mapped then Some (False, s\<lparr>lapic_mapped := False\<rparr>)
      else map_option (\<lambda>s. (True, snd (lapic_id ch s))) (calibrate ch (lapic_enable ch (s\<lparr>lapic_mapped := True\<rparr>))))"

definition lapic_init_cpu :: "'d chips \<Rightarrow> 'd irq_state \<Rightarrow> 'd irq_state" where
  "lapic_init_cpu ch s = (if \<not> lapic_mapped s then s else lapic_enable ch s)"

partial_function (option) wait_delivery :: "'d chips \<Rightarrow> 'd irq_state \<Rightarrow> 'd irq_state option" where
  "wait_delivery ch s =
     (case lapic_read ch reg_icr_low s of (v, s) \<Rightarrow>
        if v AND icr_delivery_pending \<noteq> 0 then wait_delivery ch s else Some s)"

definition send_ipi :: "'d chips \<Rightarrow> u32 \<Rightarrow> u32 \<Rightarrow> 'd irq_state \<Rightarrow> 'd irq_state option" where
  "send_ipi ch apic_id command s =
     wait_delivery ch (lapic_write ch reg_icr_low command
       (lapic_write ch reg_icr_high (push_bit 24 apic_id) s))"

definition lapic_send_init :: "'d chips \<Rightarrow> u32 \<Rightarrow> 'd irq_state \<Rightarrow> 'd irq_state option" where
  "lapic_send_init ch apic_id s = send_ipi ch apic_id (icr_init OR icr_level_assert) s"

definition lapic_send_startup :: "'d chips \<Rightarrow> u32 \<Rightarrow> u8 \<Rightarrow> 'd irq_state \<Rightarrow> 'd irq_state option" where
  "lapic_send_startup ch apic_id page s = send_ipi ch apic_id (icr_startup OR ucast page) s"

definition lapic_broadcast_ipi :: "'d chips \<Rightarrow> u8 \<Rightarrow> 'd irq_state \<Rightarrow> 'd irq_state option" where
  "lapic_broadcast_ipi ch vector s =
     (if \<not> lapic_mapped s then Some s
      else wait_delivery ch (lapic_write ch reg_icr_low
             (icr_all_excluding_self OR icr_level_assert OR ucast vector) (lapic_write ch reg_icr_high 0 s)))"

definition lapic_broadcast_nmi :: "'d chips \<Rightarrow> 'd irq_state \<Rightarrow> 'd irq_state" where
  "lapic_broadcast_nmi ch s =
     (if \<not> lapic_mapped s then s
      else lapic_write ch reg_icr_low (icr_nmi OR icr_level_assert OR icr_all_excluding_self)
             (lapic_write ch reg_icr_high 0 s))"

definition lapic_eoi :: "'d chips \<Rightarrow> 'd irq_state \<Rightarrow> 'd irq_state" where
  "lapic_eoi ch s = (if lapic_mapped s then lapic_write ch reg_eoi 0 s else s)"

definition oneshot_count :: "u64 \<Rightarrow> u64 \<Rightarrow> u64" where
  "oneshot_count hz nanoseconds =
     (let count = (hz * nanoseconds) div 1000000000;
          count = (if count = 0 then 1 else count)
      in if count > 0xFFFFFFFF then 0xFFFFFFFF else count)"

definition lapic_timer_oneshot :: "'d chips \<Rightarrow> u64 \<Rightarrow> 'd irq_state \<Rightarrow> 'd irq_state" where
  "lapic_timer_oneshot ch nanoseconds s =
     (if \<not> lapic_mapped s \<or> timer_hz s = 0 then s
      else lapic_write ch reg_timer_initial (ucast (oneshot_count (timer_hz s) nanoseconds))
             (lapic_write ch reg_lvt_timer (ucast vector_lapic_timer) s))"

definition lapic_timer_stop :: "'d chips \<Rightarrow> 'd irq_state \<Rightarrow> 'd irq_state" where
  "lapic_timer_stop ch s =
     (if \<not> lapic_mapped s then s
      else lapic_write ch reg_lvt_timer lvt_masked (lapic_write ch reg_timer_initial 0 s))"

section \<open>The routing controller\<close>

abbreviation (input) reg_select :: u32 where "reg_select \<equiv> 0x00"
abbreviation (input) reg_window :: u32 where "reg_window \<equiv> 0x10"
abbreviation (input) index_version :: u32 where "index_version \<equiv> 0x01"
abbreviation (input) index_redirection :: u32 where "index_redirection \<equiv> 0x10"
definition entry_masked :: u64 where [simp]: "entry_masked = 0x10000"
definition entry_level_triggered :: u64 where [simp]: "entry_level_triggered = 0x8000"
definition entry_active_low :: u64 where [simp]: "entry_active_low = 0x2000"

definition ioapic_read :: "'d chips \<Rightarrow> u32 \<Rightarrow> 'd irq_state \<Rightarrow> u32 \<times> 'd irq_state" where
  "ioapic_read ch index s =
     (let (v, d) = mm_read (ioapic_io ch) reg_window (mm_write (ioapic_io ch) reg_select index (machine s))
      in (v, s\<lparr>machine := d\<rparr>))"

definition ioapic_write :: "'d chips \<Rightarrow> u32 \<Rightarrow> u32 \<Rightarrow> 'd irq_state \<Rightarrow> 'd irq_state" where
  "ioapic_write ch index val s =
     s\<lparr>machine := mm_write (ioapic_io ch) reg_window val (mm_write (ioapic_io ch) reg_select index (machine s))\<rparr>"

definition entry_index :: "'d irq_state \<Rightarrow> u32 \<Rightarrow> u32" where
  "entry_index s gsi = index_redirection + 2 * (gsi - gsi_base s)"

definition read_entry :: "'d chips \<Rightarrow> u32 \<Rightarrow> 'd irq_state \<Rightarrow> u64 \<times> 'd irq_state" where
  "read_entry ch gsi s =
     (let index = entry_index s gsi;
          (high, s) = ioapic_read ch (index + 1) s;
          (low, s) = ioapic_read ch index s
      in (push_bit 32 (ucast high) OR ucast low, s))"

definition write_entry :: "'d chips \<Rightarrow> u32 \<Rightarrow> u64 \<Rightarrow> 'd irq_state \<Rightarrow> 'd irq_state" where
  "write_entry ch gsi val s =
     (let index = entry_index s gsi
      in ioapic_write ch (index + 1) (ucast (drop_bit 32 val)) (ioapic_write ch index (ucast val) s))"

definition owns :: "'d irq_state \<Rightarrow> u32 \<Rightarrow> bool" where
  "owns s gsi \<longleftrightarrow> ioapic_mapped s \<and> gsi \<ge> gsi_base s \<and> gsi < gsi_base s + entry_count s"

definition ioapic_init :: "'d chips \<Rightarrow> acpi_state \<Rightarrow> bool \<Rightarrow> 'd irq_state \<Rightarrow> bool \<times> 'd irq_state" where
  "ioapic_init ch acpi mapped s =
     (if \<not> acpi_available acpi \<or> ioapic_address acpi = 0 then (False, s)
      else if \<not> mapped then (False, s\<lparr>ioapic_mapped := False\<rparr>)
      else let s = s\<lparr>ioapic_mapped := True, gsi_base := ioapic_gsi_base acpi\<rparr>;
               (version, s) = ioapic_read ch index_version s;
               s = s\<lparr>entry_count := (drop_bit 16 version AND 0xFF) + 1\<rparr>
           in (True, fold (\<lambda>i s. write_entry ch (gsi_base s + of_nat i) entry_masked s)
                 [0..<unat (entry_count s)] s))"

definition ioapic_route :: "'d chips \<Rightarrow> acpi_state \<Rightarrow> u8 \<Rightarrow> u8 \<Rightarrow> 'd irq_state \<Rightarrow> 'd irq_state" where
  "ioapic_route ch acpi irq vector s =
     (let gsi = gsi_for_irq acpi irq
      in if \<not> owns s gsi then s
         else let (id, s) = lapic_id ch s;
                  entry = ucast vector OR push_bit 56 (ucast id);
                  entry = (if irq_active_low acpi irq then entry OR entry_active_low else entry);
                  entry = (if irq_level_triggered acpi irq then entry OR entry_level_triggered else entry)
              in write_entry ch gsi (entry OR entry_masked) s)"

definition ioapic_mask :: "'d chips \<Rightarrow> acpi_state \<Rightarrow> u8 \<Rightarrow> 'd irq_state \<Rightarrow> 'd irq_state" where
  "ioapic_mask ch acpi irq s =
     (let gsi = gsi_for_irq acpi irq
      in if \<not> owns s gsi then s
         else let (entry, s) = read_entry ch gsi s in write_entry ch gsi (entry OR entry_masked) s)"

definition ioapic_unmask :: "'d chips \<Rightarrow> acpi_state \<Rightarrow> u8 \<Rightarrow> 'd irq_state \<Rightarrow> 'd irq_state" where
  "ioapic_unmask ch acpi irq s =
     (let gsi = gsi_for_irq acpi irq
      in if \<not> owns s gsi then s
         else let (entry, s) = read_entry ch gsi s in write_entry ch gsi (entry AND NOT entry_masked) s)"

definition apic_in_use :: "'d irq_state \<Rightarrow> bool" where
  "apic_in_use s \<longleftrightarrow> lapic_mapped s \<and> ioapic_mapped s"

section \<open>The controller in charge\<close>

definition on_ports :: "('d \<Rightarrow> 'd) \<Rightarrow> 'd irq_state \<Rightarrow> 'd irq_state" where
  "on_ports f s = s\<lparr>machine := f (machine s)\<rparr>"

definition irq_init :: "'d chips \<Rightarrow> acpi_state \<Rightarrow> bool \<Rightarrow> bool \<Rightarrow> 'd irq_state \<Rightarrow> 'd irq_state option" where
  "irq_init ch acpi lapic_window ioapic_window s =
     Option.bind (lapic_init ch acpi lapic_window (on_ports (pic_init (pio ch)) s))
       (\<lambda>(ok, s). if \<not> ok then Some s
          else let (ok, s) = ioapic_init ch acpi ioapic_window s
               in if \<not> ok then Some s
                  else Some ((on_ports (pic_disable (pio ch)) s)\<lparr>apic_active := True\<rparr>))"

definition irq_mask :: "'d chips \<Rightarrow> acpi_state \<Rightarrow> u8 \<Rightarrow> 'd irq_state \<Rightarrow> 'd irq_state" where
  "irq_mask ch acpi irq s =
     (if apic_active s then ioapic_mask ch acpi irq s else on_ports (pic_mask (pio ch) irq) s)"

definition irq_unmask :: "'d chips \<Rightarrow> acpi_state \<Rightarrow> u8 \<Rightarrow> 'd irq_state \<Rightarrow> 'd irq_state" where
  "irq_unmask ch acpi irq s =
     (if apic_active s then ioapic_unmask ch acpi irq (ioapic_route ch acpi irq (32 + irq) s)
      else on_ports (pic_unmask (pio ch) irq) s)"

definition irq_eoi :: "'d chips \<Rightarrow> u8 \<Rightarrow> 'd irq_state \<Rightarrow> 'd irq_state" where
  "irq_eoi ch irq s =
     (if apic_active s then lapic_eoi ch s else on_ports (pic_eoi (pio ch) irq) s)"


section \<open>Dispatch\<close>

text \<open>
  The handler as the sequence of what it does: the calls it makes into the rest of the kernel, each
  modelled where it belongs, and how it ends. The last event of a handler that does not come back
  is \<open>Halted\<close>, \<open>LeftUserMode\<close> or \<open>Panicked\<close>.
\<close>

datatype isr_event =
  Halted | Killed int | LeftUserMode | ReportDoubleFault | ReportPageFault | Panicked u64
| TlbFlushLocal | Eoi | TimersRun | SchedTick | HandlerRun u64 | IrqEoi u8 | Unhandled u64

record isr_env =
  smp_halting :: bool
  in_process :: bool
  irq_handlers :: "u64 list"

definition irq_register :: "u8 \<Rightarrow> u64 \<Rightarrow> isr_env \<Rightarrow> isr_env" where
  "irq_register irq handler e =
     (if irq < 16 then e\<lparr>irq_handlers := (irq_handlers e)[unat irq := handler]\<rparr> else e)"

definition exception_events :: "u64 \<Rightarrow> isr_event list" where
  "exception_events vector =
     (if vector = 8 then [ReportDoubleFault] else []) @ (if vector = 14 then [ReportPageFault] else [])
     @ [Panicked vector]"

definition isr_dispatch :: "isr_env \<Rightarrow> u64 \<Rightarrow> u64 \<Rightarrow> isr_event list" where
  "isr_dispatch e vector cs =
     (if vector = 2 \<and> smp_halting e then [Halted]
      else if vector < 32 \<and> cs AND 3 = 3 \<and> in_process e then [Killed (- uint vector), LeftUserMode]
      else if vector < 32 then exception_events vector
      else if vector = vector_spurious then []
      else if vector = vector_tlb_shootdown then [TlbFlushLocal, Eoi]
      else if vector = vector_lapic_timer then [Eoi, TimersRun, SchedTick]
      else if vector \<ge> 32 \<and> vector < 48 then
        (let irq = ucast (vector - 32)
         in (if irq_handlers e ! unat irq \<noteq> 0 then [HandlerRun (irq_handlers e ! unat irq)] else [])
            @ [IrqEoi irq])
      else [Unhandled vector])"

section \<open>Routing\<close>

text \<open>
  The documented behaviour of the routing controller, with its registers seen through \<open>regs\<close>: the
  window reads and writes the selected register and no other, and reading changes none. The status
  bits the chip sets on its own while an interrupt is on its way are left out.
\<close>

definition indexed_chip :: "'d mmio \<Rightarrow> ('d \<Rightarrow> u32 \<Rightarrow> u32) \<Rightarrow> bool" where
  "indexed_chip io regs \<longleftrightarrow>
     (\<forall>d i. fst (mm_read io 0x10 (mm_write io 0 i d)) = regs d i \<and>
            regs (snd (mm_read io 0x10 (mm_write io 0 i d))) = regs d) \<and>
     (\<forall>d i v. regs (mm_write io 0x10 v (mm_write io 0 i d)) = (regs d)(i := v))"

text \<open>Reading the identifier of the local controller leaves the routing registers alone.\<close>

definition id_read_only :: "'d chips \<Rightarrow> ('d \<Rightarrow> u32 \<Rightarrow> u32) \<Rightarrow> bool" where
  "id_read_only ch regs \<longleftrightarrow> (\<forall>d. regs (snd (mm_read (lapic_io ch) reg_id d)) = regs d)"

lemma ioapic_write_regs:
  "indexed_chip (ioapic_io ch) regs \<Longrightarrow>
   regs (machine (ioapic_write ch index v s)) = (regs (machine s))(index := v)"
  by (simp add: indexed_chip_def ioapic_write_def)

lemma ioapic_read_regs:
  assumes "indexed_chip (ioapic_io ch) regs"
  shows "fst (ioapic_read ch index s) = regs (machine s) index"
    and "regs (machine (snd (ioapic_read ch index s))) = regs (machine s)"
    and "snd (ioapic_read ch index s) = s\<lparr>machine := machine (snd (ioapic_read ch index s))\<rparr>"
  using assms by (simp_all add: indexed_chip_def ioapic_read_def Let_def case_prod_unfold)


lemma entry_index_machine: "entry_index (s\<lparr>machine := d\<rparr>) gsi = entry_index s gsi"
  by (simp add: entry_index_def)

lemma entry_index_write: "entry_index (ioapic_write ch i v s) gsi = entry_index s gsi"
  by (simp add: entry_index_def ioapic_write_def)

lemma write_entry_regs:
  assumes "indexed_chip (ioapic_io ch) regs"
  shows "regs (machine (write_entry ch gsi val s))
       = (regs (machine s))(entry_index s gsi := ucast val, entry_index s gsi + 1 := ucast (drop_bit 32 val))"
  by (simp add: write_entry_def Let_def ioapic_write_regs [OF assms])

lemma write_entry_frame [frame_simps]:
  "entry_index (write_entry ch gsi val s) = entry_index s" "owns (write_entry ch gsi val s) = owns s"
  "apic_active (write_entry ch gsi val s) = apic_active s"
  by (simp_all add: write_entry_def Let_def ioapic_write_def entry_index_def owns_def fun_eq_iff)

lemma halves_u64:
  fixes x :: u64
  shows "push_bit 32 (ucast (ucast (drop_bit 32 x) :: u32)) OR ucast (ucast x :: u32) = x"
proof (rule bit_word_eqI, goal_cases)
  case (1 n)
  then have n: "n < 64" by simp
  consider "n < 32" | "32 \<le> n" by linarith
  then show ?case by cases (use n in \<open>auto simp: bit_simps\<close>)
qed

lemma read_entry_regs:
  assumes "indexed_chip (ioapic_io ch) regs"
  shows "fst (read_entry ch gsi s)
       = push_bit 32 (ucast (regs (machine s) (entry_index s gsi + 1))) OR ucast (regs (machine s) (entry_index s gsi))"
    and "regs (machine (snd (read_entry ch gsi s))) = regs (machine s)"
    and "snd (read_entry ch gsi s) = s\<lparr>machine := machine (snd (read_entry ch gsi s))\<rparr>"
proof -
  note r = ioapic_read_regs [OF assms]
  let ?i = "entry_index s gsi" and ?t = "snd (ioapic_read ch (entry_index s gsi + 1) s)"
  have "snd (ioapic_read ch ?i ?t) = ?t\<lparr>machine := machine (snd (ioapic_read ch ?i ?t))\<rparr>"
    by (rule r(3))
  also have "?t\<lparr>machine := machine (snd (ioapic_read ch ?i ?t))\<rparr> = s\<lparr>machine := machine (snd (ioapic_read ch ?i ?t))\<rparr>"
    by (subst r(3)) simp
  finally show "snd (read_entry ch gsi s) = s\<lparr>machine := machine (snd (read_entry ch gsi s))\<rparr>"
    by (simp add: read_entry_def Let_def case_prod_unfold)
  show "regs (machine (snd (read_entry ch gsi s))) = regs (machine s)"
    by (simp add: read_entry_def Let_def case_prod_unfold r(2))
  show "fst (read_entry ch gsi s)
       = push_bit 32 (ucast (regs (machine s) (?i + 1))) OR ucast (regs (machine s) ?i)"
    by (simp add: read_entry_def Let_def case_prod_unfold r(1,2))
qed

text \<open>The entry of a line: its vector, the processor it goes to, its polarity and its trigger.\<close>

definition routing_entry :: "acpi_state \<Rightarrow> u8 \<Rightarrow> u32 \<Rightarrow> u64" where
  "routing_entry acpi irq lid =
     ucast (32 + irq) OR push_bit 56 (ucast lid)
     OR (if irq_active_low acpi irq then entry_active_low else 0)
     OR (if irq_level_triggered acpi irq then entry_level_triggered else 0)"

lemma entry_masked_bit: "bit entry_masked n \<longleftrightarrow> n = 16"
proof -
  have e: "entry_masked = push_bit 16 1" by simp
  show ?thesis unfolding e by (auto simp: bit_push_bit_iff bit_1_iff simp del: push_bit_of_1)
qed

lemma routing_entry_unmasked: "\<not> bit (routing_entry acpi irq lid) 16"
proof -
  have "\<not> bit entry_active_low 16" "\<not> bit entry_level_triggered 16" by simp_all
  then show ?thesis
    by (auto simp: routing_entry_def bit_or_iff bit_push_bit_iff bit_ucast_iff dest: bit_imp_le_length
        simp del: entry_active_low_def entry_level_triggered_def)
qed

lemma routing_entry_mask_round:
  "(routing_entry acpi irq lid OR entry_masked) AND NOT entry_masked = routing_entry acpi irq lid"
  by (rule bit_word_eqI)
    (use routing_entry_unmasked [of acpi irq lid] entry_masked_bit in \<open>auto simp: bit_simps simp del: entry_masked_def\<close>)


lemma ioapic_route_regs:
  assumes "indexed_chip (ioapic_io ch) regs" and "id_read_only ch regs" and "owns s (gsi_for_irq acpi irq)"
  defines "E \<equiv> routing_entry acpi irq (fst (lapic_id ch s)) OR entry_masked"
    and "i \<equiv> entry_index s (gsi_for_irq acpi irq)"
  shows "regs (machine (ioapic_route ch acpi irq (32 + irq) s))
       = (regs (machine s))(i := ucast E, i + 1 := ucast (drop_bit 32 E))"
    and "entry_index (ioapic_route ch acpi irq (32 + irq) s) = entry_index s"
    and "owns (ioapic_route ch acpi irq (32 + irq) s) = owns s"
proof -
  let ?t = "snd (lapic_id ch s)"
  have t: "?t = s\<lparr>machine := machine ?t\<rparr>" "regs (machine ?t) = regs (machine s)"
    using assms(2) by (simp_all add: lapic_id_def lapic_read_def Let_def case_prod_unfold id_read_only_def)
  have same: "entry_index ?t = entry_index s" "owns ?t = owns s"
    by (subst t(1), simp add: entry_index_def owns_def fun_eq_iff)+
  have r: "ioapic_route ch acpi irq (32 + irq) s = write_entry ch (gsi_for_irq acpi irq) E ?t"
    using assms(3)
    by (simp add: ioapic_route_def Let_def case_prod_unfold E_def routing_entry_def or.assoc or.left_commute)
  show "regs (machine (ioapic_route ch acpi irq (32 + irq) s))
       = (regs (machine s))(i := ucast E, i + 1 := ucast (drop_bit 32 E))"
    unfolding r by (simp add: write_entry_regs [OF assms(1)] t(2) same i_def)
  show "entry_index (ioapic_route ch acpi irq (32 + irq) s) = entry_index s"
    and "owns (ioapic_route ch acpi irq (32 + irq) s) = owns s"
    unfolding r by (simp_all add: frame_simps same)
qed

lemma irq_unmask_regs:
  assumes "indexed_chip (ioapic_io ch) regs" and "id_read_only ch regs"
    and "apic_active s" and "owns s (gsi_for_irq acpi irq)"
  defines "E \<equiv> routing_entry acpi irq (fst (lapic_id ch s))"
    and "i \<equiv> entry_index s (gsi_for_irq acpi irq)"
  shows "regs (machine (irq_unmask ch acpi irq s))
       = (regs (machine s))(i := ucast E, i + 1 := ucast (drop_bit 32 E))"
proof -
  define t where "t = ioapic_route ch acpi irq (32 + irq) s"
  note rt = ioapic_route_regs [OF assms(1,2,4), folded t_def E_def i_def]
  let ?g = "gsi_for_irq acpi irq"
  let ?u = "snd (read_entry ch ?g t)"
  note rd = read_entry_regs [OF assms(1), of ?g t]
  have idx: "entry_index t ?g = i" "entry_index ?u ?g = i"
    using rt(2) by (simp_all add: i_def) (subst rd(3), simp add: entry_index_machine rt(2) i_def)
  have ne: "i + 1 \<noteq> i" by simp
  have val: "fst (read_entry ch ?g t) = E OR entry_masked"
    unfolding rd(1) idx rt(1) using ne halves_u64 [of "E OR entry_masked"] by simp
  have "irq_unmask ch acpi irq s = write_entry ch ?g (fst (read_entry ch ?g t) AND NOT entry_masked) ?u"
    using assms(3,4) rt(3) by (simp add: irq_unmask_def ioapic_unmask_def t_def [symmetric] Let_def case_prod_unfold)
  also have "fst (read_entry ch ?g t) AND NOT entry_masked = E"
    unfolding val E_def by (rule routing_entry_mask_round)
  finally show ?thesis
    by (simp add: write_entry_regs [OF assms(1)] idx rd(2) rt(1) fun_upd_twist [OF ne])
qed


lemma routing_entry_vector: "take_bit 8 (routing_entry acpi irq lid) = ucast (32 + irq)"
proof (rule bit_word_eqI, goal_cases)
  case (1 n)
  have a: "\<not> bit entry_active_low n" if "n < 8"
  proof -
    have e: "entry_active_low = push_bit 13 1" by simp
    show ?thesis unfolding e using that by (simp add: bit_push_bit_iff del: push_bit_of_1)
  qed
  have l: "\<not> bit entry_level_triggered n" if "n < 8"
  proof -
    have e: "entry_level_triggered = push_bit 15 1" by simp
    show ?thesis unfolding e using that by (simp add: bit_push_bit_iff del: push_bit_of_1)
  qed
  show ?case
    using a l
    by (auto simp: routing_entry_def bit_take_bit_iff bit_or_iff bit_push_bit_iff bit_ucast_iff
        dest: bit_imp_le_length simp del: entry_active_low_def entry_level_triggered_def)
qed


text \<open>A routing controller with its selected index and its registers, beside an idle local one.\<close>

definition plain_chips :: "(u32 \<times> (u32 \<Rightarrow> u32)) chips" where
  "plain_chips =
     \<lparr>pio = \<lparr>out_port = \<lambda>_ _ d. d, in_port = \<lambda>_ d. (0, d), out_long = \<lambda>_ _ d. d, in_long = \<lambda>_ d. (0, d),
             delay_us = \<lambda>_ d. d\<rparr>,
      lapic_io = \<lparr>mm_write = \<lambda>_ _ d. d, mm_read = \<lambda>_ d. (0x03000000, d)\<rparr>,
      ioapic_io = \<lparr>mm_write = \<lambda>i v (sel, r). if i = 0 then (v, r) else (sel, r(sel := v)),
                  mm_read = \<lambda>_ (sel, r). (r sel, (sel, r))\<rparr>,
      rd_msr = \<lambda>_ _. 0, wr_msr = \<lambda>_ _ d. d\<rparr>"

definition plain_state :: "(u32 \<times> (u32 \<Rightarrow> u32)) irq_state" where
  "plain_state = \<lparr>machine = (0, \<lambda>_. 0x10000), lapic_mapped = True, timer_hz = 0, ioapic_mapped = True,
     gsi_base = 0, entry_count = 24, apic_active = True\<rparr>"


section \<open>Acknowledgement\<close>

definition acknowledgements :: "isr_event list \<Rightarrow> nat" where
  "acknowledgements es = length (filter (\<lambda>e. case e of Eoi \<Rightarrow> True | IrqEoi _ \<Rightarrow> True | _ \<Rightarrow> False) es)"

lemma dispatch_interrupt:
  assumes "32 \<le> vector"
  shows "acknowledgements (isr_dispatch e vector cs)
       = (if vector < 48 \<or> vector = vector_lapic_timer \<or> vector = vector_tlb_shootdown then 1 else 0)"
    and "Panicked v \<notin> set (isr_dispatch e vector cs)" "Halted \<notin> set (isr_dispatch e vector cs)"
  using assms by (auto simp: isr_dispatch_def acknowledgements_def Let_def word_less_nat_alt word_le_nat_alt
      split: if_splits)

lemma dispatch_user_fault:
  assumes "vector < 32" and "cs AND 3 = 3" and "in_process e" and "\<not> smp_halting e"
  shows "isr_dispatch e vector cs = [Killed (- uint vector), LeftUserMode]"
  using assms by (simp add: isr_dispatch_def)

lemma dispatch_kernel_fault:
  assumes "vector < 32" and "cs AND 3 = 0" and "\<not> smp_halting e"
  shows "last (isr_dispatch e vector cs) = Panicked vector"
  using assms by (simp add: isr_dispatch_def exception_events_def)

section \<open>The one shot timer\<close>

lemma oneshot_count_bounds: "1 \<le> oneshot_count hz ns \<and> oneshot_count hz ns \<le> 0xFFFFFFFF"
  by (auto simp: oneshot_count_def Let_def word_less_nat_alt word_le_nat_alt Suc_le_eq unat_gt_0)

lemma oneshot_count_exact:
  assumes "unat hz * unat ns < 18446744073709551616"
  shows "unat (oneshot_count hz ns) = max 1 (min 0xFFFFFFFF (unat hz * unat ns div 1000000000))"
proof -
  have u: "unat (hz * ns div 1000000000) = unat hz * unat ns div 1000000000"
    using assms by (simp add: unat_div_distrib u64_simps)
  have z: "hz * ns div 1000000000 = 0 \<longleftrightarrow> unat hz * unat ns div 1000000000 = 0"
    using u by (metis unat_eq_0 unat_0)
  show ?thesis
    unfolding oneshot_count_def Let_def z
    using u by (auto simp: word_less_nat_alt max_def min_def)
qed

text \<open>Beyond that the product wraps: at 62.5 MHz an interval of 296 seconds becomes one of less than a second.\<close>

lemma oneshot_count_wraps: "oneshot_count 62500000 296000000000 < 62500000"
  by (simp add: oneshot_count_def Let_def)

end
