(* ===== verification/Boot.thy ===== *)
theory Boot
  imports Bytes PageAlloc Paging
begin

unbundle bit_operations_syntax

text \<open>
  What the boot loader hands over: the kernel command line, \<^verbatim>\<open>kernel/cmdline.cpp\<close>, and the archive of
  modules, \<^verbatim>\<open>kernel/initrd.cpp\<close>.

  The line is copied into a buffer of 512 characters and cut into words in place, so a word is an
  offset into that buffer up to the next zero. An access past the buffer is \<open>None\<close>. The archive is a
  tar file in memory: the walk over it reads the bytes of its headers, and the names in them are C
  strings, whose end may be missing.
\<close>

section \<open>The command line\<close>

definition cmdline_capacity :: nat where "cmdline_capacity = 512"
definition max_words :: nat where "max_words = 32"

record cmdline_state =
  cmdline :: string
  words :: string
  word_table :: "nat list"

function skip_spaces :: "string \<Rightarrow> nat \<Rightarrow> nat" where
  "skip_spaces b i = (if i < length b \<and> b ! i = CHR '' '' then skip_spaces b (i + 1) else i)"
  by pat_completeness auto
termination by (relation "measure (\<lambda>(b, i). length b - i)") auto

function skip_word :: "string \<Rightarrow> nat \<Rightarrow> nat" where
  "skip_word b i =
     (if i < length b \<and> b ! i \<noteq> CHR 0x00 \<and> b ! i \<noteq> CHR '' '' then skip_word b (i + 1) else i)"
  by pat_completeness auto
termination by (relation "measure (\<lambda>(b, i). length b - i)") auto

declare skip_spaces.simps [simp del] skip_word.simps [simp del]

lemma skip_spaces_eq: "skip_spaces b i = i + length (takeWhile (\<lambda>c. c = CHR '' '') (drop i b))"
proof (induction b i rule: skip_spaces.induct)
  case (1 b i)
  then show ?case
    by (subst skip_spaces.simps) (cases "i < length b"; simp add: Cons_nth_drop_Suc [symmetric])
qed

lemma skip_word_eq:
  "skip_word b i = i + length (takeWhile (\<lambda>c. c \<noteq> CHR 0x00 \<and> c \<noteq> CHR '' '') (drop i b))"
proof (induction b i rule: skip_word.induct)
  case (1 b i)
  then show ?case
    by (subst skip_word.simps) (cases "i < length b"; simp add: Cons_nth_drop_Suc [symmetric])
qed

lemma skip_spaces_at: "skip_spaces b i < length b \<Longrightarrow> b ! skip_spaces b i \<noteq> CHR '' ''"
  using nth_length_takeWhile [of "\<lambda>c. c = CHR '' ''" "drop i b"] by (simp add: skip_spaces_eq)

lemma skip_word_gt:
  "i < length b \<Longrightarrow> b ! i \<noteq> CHR 0x00 \<Longrightarrow> b ! i \<noteq> CHR '' '' \<Longrightarrow> i < skip_word b i"
  by (simp add: skip_word_eq Cons_nth_drop_Suc [symmetric])

text \<open>\<open>split\<close>: the loop over the line, with the offsets of the words found so far.\<close>

function split_loop :: "string \<Rightarrow> nat \<Rightarrow> nat list \<Rightarrow> (string \<times> nat list) option" where
  "split_loop b i table =
     (if i \<ge> length b then None
      else if b ! i = CHR 0x00 \<or> length table \<ge> max_words then Some (b, table)
      else let j = skip_spaces b i
           in if j \<ge> length b then None
              else if b ! j = CHR 0x00 then Some (b, table)
              else let k = skip_word b j
                   in if k \<ge> length b then None
                      else if b ! k = CHR '' '' then split_loop (b[k := CHR 0x00]) (k + 1) (table @ [j])
                      else split_loop b k (table @ [j]))"
  by pat_completeness auto
termination
proof (relation "measure (\<lambda>(b, i, table). length b - i)", goal_cases)
  case (2 b i table j k)
  have "i \<le> j" "j \<le> k" unfolding 2 by (simp_all only: skip_spaces_eq skip_word_eq le_add1)
  then show ?case using 2(1) 2(6) by simp
next
  case (3 b i table j k)
  have "i \<le> j" unfolding 3 by (simp only: skip_spaces_eq le_add1)
  moreover have "j < k" unfolding 3(6)
    by (rule skip_word_gt) (use 3(4,5) skip_spaces_at [of b i] 3(3) in simp_all)
  ultimately show ?case using 3(7) by simp
qed simp

declare split_loop.simps [simp del]

definition split :: "cmdline_state \<Rightarrow> cmdline_state option" where
  "split s = map_option (\<lambda>(b, table). s\<lparr>words := b, word_table := table\<rparr>) (split_loop (words s) 0 [])"

text \<open>The string a pointer into the buffer of words stands for.\<close>

definition word_at :: "string \<Rightarrow> nat \<Rightarrow> string" where
  "word_at b i = takeWhile (\<lambda>c. c \<noteq> CHR 0x00) (drop i b)"

fun find_word :: "string \<Rightarrow> string list \<Rightarrow> string option" where
  "find_word key [] = None"
| "find_word key (word # rest) =
     (if length word < length key \<or> take (length key) word \<noteq> key then find_word key rest
      else let r = drop (length key) word
           in if r = [] \<or> hd r = CHR ''='' then Some r else find_word key rest)"

definition find_key :: "string \<Rightarrow> cmdline_state \<Rightarrow> string option" where
  "find_key key s = find_word key (map (word_at (words s)) (word_table s))"

text \<open>The copy of the line stops at the capacity or at the terminator.\<close>

fun copy_line :: "memory \<Rightarrow> u64 \<Rightarrow> nat \<Rightarrow> string" where
  "copy_line m src 0 = []"
| "copy_line m src (Suc room) =
     (if m src \<noteq> 0 then char_of (unat (m src)) # copy_line m (src + 1) room else [])"

definition store_line :: "string \<Rightarrow> string \<Rightarrow> string" where
  "store_line ln buf = ln @ CHR 0x00 # drop (length ln + 1) buf"

definition cmdline_init :: "boot_memory \<Rightarrow> u32 \<Rightarrow> u64 \<Rightarrow> cmdline_state \<Rightarrow> cmdline_state option" where
  "cmdline_init b magic info_address s =
     (let s = s\<lparr>cmdline := (cmdline s)[0 := CHR 0x00], words := (words s)[0 := CHR 0x00], word_table := []\<rparr>;
          info = info_at b info_address
      in if magic \<noteq> multiboot_bootloader_magic then Some s
         else if mb_flags info AND multiboot_flag_cmdline = 0 \<or> mb_cmdline info = 0 then Some s
         else let ln = copy_line (bytes_at b) (ucast (mb_cmdline info)) (cmdline_capacity - 1)
              in split (s\<lparr>cmdline := store_line ln (cmdline s), words := store_line ln (words s)\<rparr>))"

definition cmdline_raw :: "cmdline_state \<Rightarrow> string" where
  "cmdline_raw s = word_at (cmdline s) 0"

definition cmdline_has :: "string \<Rightarrow> cmdline_state \<Rightarrow> bool" where
  "cmdline_has key s \<longleftrightarrow> find_key key s \<noteq> None"

definition cmdline_value :: "string \<Rightarrow> cmdline_state \<Rightarrow> string option" where
  "cmdline_value key s =
     (case find_key key s of None \<Rightarrow> None
      | Some r \<Rightarrow> if r = [] \<or> hd r \<noteq> CHR ''='' then None else Some (tl r))"


section \<open>The words of a line\<close>

function tokens :: "string \<Rightarrow> string list" where
  "tokens ln =
     (let t = dropWhile (\<lambda>c. c = CHR '' '') ln
      in if t = [] then [] else takeWhile (\<lambda>c. c \<noteq> CHR '' '') t # tokens (dropWhile (\<lambda>c. c \<noteq> CHR '' '') t))"
  by pat_completeness auto
termination
proof (relation "measure length", goal_cases)
  case (2 ln t)
  then have "t \<noteq> []" "hd t \<noteq> CHR '' ''" using hd_dropWhile [of "\<lambda>c. c = CHR '' ''" ln] by auto
  then have "length (dropWhile (\<lambda>c. c \<noteq> CHR '' '') t) < length t"
    by (cases t) (auto simp: less_Suc_eq_le length_dropWhile_le)
  also have "\<dots> \<le> length ln" using 2 length_dropWhile_le by simp
  finally show ?case by simp
qed simp

declare tokens.simps [simp del]

lemma tokens_spaces: "\<forall>c \<in> set sp. c = CHR '' '' \<Longrightarrow> tokens (sp @ ln) = tokens ln"
proof -
  assume "\<forall>c \<in> set sp. c = CHR '' ''"
  then have "dropWhile (\<lambda>c. c = CHR '' '') (sp @ ln) = dropWhile (\<lambda>c. c = CHR '' '') ln"
    by (induction sp) simp_all
  then show ?thesis by (subst (1 2) tokens.simps) simp
qed

lemma tokens_Nil: "tokens [] = []"
  by (subst tokens.simps) simp

lemma tokens_word:
  assumes "w \<noteq> []" and "CHR '' '' \<notin> set w" and "rest = [] \<or> hd rest = CHR '' ''"
  shows "tokens (w @ rest) = w # tokens rest"
proof -
  have "dropWhile (\<lambda>c. c = CHR '' '') (w @ rest) = w @ rest"
    using assms(1,2) by (cases w) auto
  moreover have "takeWhile (\<lambda>c. c \<noteq> CHR '' '') rest = []" "dropWhile (\<lambda>c. c \<noteq> CHR '' '') rest = rest"
    using assms(3) by (cases rest; simp)+
  moreover have "\<forall>c \<in> set w. c \<noteq> CHR '' ''" using assms(2) by blast
  ultimately have "dropWhile (\<lambda>c. c = CHR '' '') (w @ rest) = w @ rest"
    "takeWhile (\<lambda>c. c \<noteq> CHR '' '') (w @ rest) = w" "dropWhile (\<lambda>c. c \<noteq> CHR '' '') (w @ rest) = rest"
    by (simp_all only: takeWhile_append2 dropWhile_append2 append_Nil2 ball_simps simp_thms)
  then show ?thesis using assms(1) by (subst tokens.simps) simp
qed

lemma tokens_space: "tokens (CHR '' '' # ln) = tokens ln"
  using tokens_spaces [of "'' ''" ln] by simp

text \<open>
  One round of the loop on a line in its buffer, taken apart into the text before the round, the
  spaces, the word and what follows it.
\<close>

lemma split_loop_end:
  assumes "b = pre @ CHR 0x00 # post"
  shows "split_loop b (length pre) table = Some (b, table)"
  by (subst split_loop.simps) (simp add: assms)

lemma round_positions:
  assumes b: "b = pre @ sp @ w @ x # post" and sp: "\<forall>c \<in> set sp. c = CHR '' ''"
    and w: "CHR 0x00 \<notin> set w" "CHR '' '' \<notin> set w" and "w \<noteq> [] \<or> x = CHR 0x00"
    and x: "x = CHR 0x00 \<or> x = CHR '' ''"
  shows "skip_spaces b (length pre) = length pre + length sp"
    and "skip_word b (length pre + length sp) = length pre + length sp + length w"
proof -
  have "takeWhile (\<lambda>c. c = CHR '' '') (sp @ w @ x # post) = sp"
    using sp w assms(5) by (cases w) (auto simp: takeWhile_append2)
  then show "skip_spaces b (length pre) = length pre + length sp"
    by (simp add: skip_spaces_eq b)
  have "takeWhile (\<lambda>c. c \<noteq> CHR 0x00 \<and> c \<noteq> CHR '' '') (w @ x # post) = w"
    using w x by (subst takeWhile_append2) auto
  then show "skip_word b (length pre + length sp) = length pre + length sp + length w"
    by (simp add: skip_word_eq b)
qed


lemma word_at_cut:
  assumes "b = pre @ w @ CHR 0x00 # post" and "CHR 0x00 \<notin> set w"
  shows "word_at b (length pre) = w"
proof -
  have "takeWhile (\<lambda>c. c \<noteq> CHR 0x00) (w @ CHR 0x00 # post) = w @ takeWhile (\<lambda>c. c \<noteq> CHR 0x00) (CHR 0x00 # post)"
    by (rule takeWhile_append2) (use assms(2) in blast)
  then show ?thesis by (simp add: word_at_def assms(1))
qed

lemma split_loop_word:
  assumes "b = pre @ sp @ w @ x # post" and "\<forall>c \<in> set sp. c = CHR '' ''"
    and "CHR 0x00 \<notin> set w" "CHR '' '' \<notin> set w" "w \<noteq> []" and "x = CHR 0x00 \<or> x = CHR '' ''"
    and "length table < max_words"
  shows "split_loop b (length pre) table =
     (let b' = pre @ sp @ w @ CHR 0x00 # post; t' = table @ [length pre + length sp]
      in if x = CHR '' '' then split_loop b' (length pre + length sp + length w + 1) t' else Some (b', t'))"
proof -
  note pos = round_positions [OF assms(1,2,3,4) _ assms(6)]
  have w0: "b ! length pre \<noteq> CHR 0x00" "length pre < length b"
    using assms(1-5) by (cases sp; cases w; auto simp: nth_append)+
  have j: "b ! (length pre + length sp) = hd w"
    using assms(1,5) by (cases w) (auto simp: nth_append)
  have hd: "hd w \<noteq> CHR 0x00" using assms(3,5) by (cases w) auto
  have k: "b ! (length pre + length sp + length w) = x"
    using assms(1) by (simp add: nth_append)
  have upd: "b[length pre + length sp + length w := CHR 0x00] = pre @ sp @ w @ CHR 0x00 # post"
    using assms(1) by (simp add: list_update_append)
  have fin: "split_loop b (length pre + length sp + length w) t' = Some (b, t')" if "x = CHR 0x00" for t'
    using split_loop_end [of b "pre @ sp @ w" post t'] assms(1) that by (simp add: add.assoc)
  have len: "length pre + length sp + length w < length b" using assms(1) by simp
  show ?thesis
    using assms(5-7) w0 j k hd upd len fin assms(1) pos
    by (subst split_loop.simps) (auto simp: Let_def)
qed


lemma split_loop_blank:
  assumes "b = pre @ sp @ CHR 0x00 # post" and "\<forall>c \<in> set sp. c = CHR '' ''"
  shows "split_loop b (length pre) table = Some (b, table)"
proof -
  have "skip_spaces b (length pre) = length pre + length sp"
    by (rule round_positions(1) [of b pre sp "[]" "CHR 0x00" post]) (use assms in simp_all)
  then show ?thesis by (subst split_loop.simps) (simp add: assms(1) nth_append Let_def)
qed

lemma split_loop_tokens:
  "b = pre @ ln @ CHR 0x00 # post \<Longrightarrow> CHR 0x00 \<notin> set ln \<Longrightarrow>
   \<exists>b' t. split_loop b (length pre) table = Some (b', table @ t) \<and> take (length pre) b' = pre \<and>
     map (word_at b') t = take (max_words - length table) (tokens ln)"
proof (induction "length ln" arbitrary: b pre ln table rule: less_induct)
  case less
  show ?case
  proof (cases "length table < max_words")
    case False
    then have "split_loop b (length pre) table = Some (b, table)"
      by (subst split_loop.simps) (simp add: less.prems(1))
    with False less.prems(1) show ?thesis by simp
  next
    case room: True
    define sp where "sp = takeWhile (\<lambda>c. c = CHR '' '') ln"
    define ln2 where "ln2 = dropWhile (\<lambda>c. c = CHR '' '') ln"
    have ln: "ln = sp @ ln2" by (simp add: sp_def ln2_def)
    have sp: "\<forall>c \<in> set sp. c = CHR '' ''" by (auto simp: sp_def dest: set_takeWhileD)
    have tok: "tokens ln = tokens ln2" unfolding ln by (rule tokens_spaces [OF sp])
    show ?thesis
    proof (cases "ln2 = []")
      case True
      then have "split_loop b (length pre) table = Some (b, table)"
        using split_loop_blank [OF _ sp, of b pre post table] less.prems(1) ln by simp
      then show ?thesis using True less.prems(1) by (simp add: tok tokens_Nil)
    next
      case nonempty: False
      define w where "w = takeWhile (\<lambda>c. c \<noteq> CHR '' '') ln2"
      define rest where "rest = dropWhile (\<lambda>c. c \<noteq> CHR '' '') ln2"
      have ln2: "ln2 = w @ rest" by (simp add: w_def rest_def)
      have "hd ln2 \<noteq> CHR '' ''"
        using nonempty hd_dropWhile [of "\<lambda>c. c = CHR '' ''" ln] unfolding ln2_def by blast
      then have w1: "w \<noteq> []" unfolding w_def using nonempty by (cases ln2) simp_all
      have w2: "CHR '' '' \<notin> set w" unfolding w_def by (blast dest: set_takeWhileD)
      have w3: "CHR 0x00 \<notin> set w" using less.prems(2) unfolding ln ln2 by simp
      note w = w1 w2 w3
      have rest: "rest = [] \<or> hd rest = CHR '' ''"
        using hd_dropWhile [of "\<lambda>c. c \<noteq> CHR '' ''" ln2] unfolding rest_def by blast
      have tok2: "tokens ln = w # tokens rest" unfolding tok ln2 by (rule tokens_word [OF w(1,2) rest])
      let ?t = "table @ [length pre + length sp]"
      show ?thesis
      proof (cases rest)
        case Nil
        let ?b = "pre @ sp @ w @ CHR 0x00 # post"
        have "b = ?b" using less.prems(1) ln ln2 Nil by simp
        then have "split_loop b (length pre) table = Some (?b, ?t)"
          using split_loop_word [OF _ sp w(3,2,1) _ room, of b pre "CHR 0x00" post] by simp
        moreover have "word_at ?b (length pre + length sp) = w"
          using word_at_cut [of ?b "pre @ sp" w post] w(3) by simp
        ultimately show ?thesis using Nil room by (simp add: tok2 tokens_Nil take_Cons')
      next
        case (Cons x ln3)
        with rest have x: "x = CHR '' ''" by simp
        let ?pre = "pre @ sp @ w @ [CHR 0x00]" and ?post = "ln3 @ CHR 0x00 # post"
        have "b = pre @ sp @ w @ x # ?post" using less.prems(1) ln ln2 Cons by simp
        then have loop: "split_loop b (length pre) table = split_loop (?pre @ ?post) (length ?pre) ?t"
          using split_loop_word [OF _ sp w(3,2,1) _ room, of b pre x ?post] x by (simp add: Let_def add.assoc)
        obtain b' t where IH: "split_loop (?pre @ ?post) (length ?pre) ?t = Some (b', ?t @ t)"
            "take (length ?pre) b' = ?pre" "map (word_at b') t = take (max_words - length ?t) (tokens ln3)"
          using less.hyps [of ln3 "?pre @ ?post" ?pre ?t] less.prems(2) ln ln2 Cons by auto
        have "b' = (pre @ sp) @ w @ CHR 0x00 # drop (length ?pre) b'"
          using IH(2) by (metis append.assoc append_Cons append_Nil append_take_drop_id)
        from word_at_cut [OF this w(3)] have "word_at b' (length pre + length sp) = w" by simp
        moreover have "take (length pre) b' = pre"
          using arg_cong [OF IH(2), of "take (length pre)"] by (simp add: min_def)
        moreover have "max_words - length table = Suc (max_words - length ?t)" using room by simp
        ultimately show ?thesis
          using loop IH by (simp add: tok2 Cons x tokens_space)
      qed
    qed
  qed
qed


section \<open>Settings\<close>

definition is_setting :: "string \<Rightarrow> string \<Rightarrow> bool" where
  "is_setting key w \<longleftrightarrow> w = key \<or> take (length key + 1) w = key @ ''=''"

definition setting :: "string \<Rightarrow> string list \<Rightarrow> string option" where
  "setting key ws =
     (case find (is_setting key) ws of None \<Rightarrow> None
      | Some w \<Rightarrow> if w = key then None else Some (drop (length key + 1) w))"

lemma is_setting_split:
  "is_setting key w \<longleftrightarrow> \<not> (length w < length key \<or> take (length key) w \<noteq> key) \<and>
     (drop (length key) w = [] \<or> hd (drop (length key) w) = CHR ''='')"
proof (cases "\<exists>r. w = key @ r")
  case True
  then obtain r where "w = key @ r" by blast
  then show ?thesis by (cases r) (auto simp: is_setting_def)
next
  case False
  then have "take (length key) w \<noteq> key" "w \<noteq> key" by (metis append_take_drop_id, metis append_Nil2)
  moreover have "take (length key + 1) w \<noteq> key @ ''=''"
  proof
    assume "take (length key + 1) w = key @ ''=''"
    then have "w = key @ ''='' @ drop (length key + 1) w"
      by (metis append.assoc append_take_drop_id)
    with False show False by blast
  qed
  ultimately show ?thesis by (simp add: is_setting_def)
qed

lemma find_word_find:
  "find_word key ws = map_option (drop (length key)) (find (is_setting key) ws)"
  by (induction ws) (auto simp: is_setting_split Let_def)

lemma cmdline_value_setting:
  "cmdline_value key s = setting key (map (word_at (words s)) (word_table s))"
proof (cases "find (is_setting key) (map (word_at (words s)) (word_table s))")
  case None
  then show ?thesis by (simp add: cmdline_value_def find_key_def find_word_find setting_def)
next
  case (Some w)
  then have "is_setting key w" by (auto simp: find_Some_iff)
  then consider "w = key" | v where "w = key @ CHR ''='' # v"
    unfolding is_setting_def by (metis append.assoc append_Cons append_Nil append_take_drop_id)
  then show ?thesis
    using Some by cases (simp_all add: cmdline_value_def find_key_def find_word_find setting_def)
qed

lemma string_at_nonzero: "string_at m a s \<Longrightarrow> CHR 0x00 \<notin> set s"
proof (induction s arbitrary: a)
  case (Cons c s)
  have "(of_char (CHR 0x00) :: u8) = 0" by simp
  with Cons show ?case by auto
qed simp

lemma copy_line_take: "string_at m a s \<Longrightarrow> copy_line m a n = take n s"
proof (induction s arbitrary: a n)
  case Nil
  then show ?case by (cases n) simp_all
next
  case (Cons c s)
  then show ?case by (cases n) (simp_all add: unat_of_char_u8)
qed

lemma cmdline_init_spec:
  assumes "string_at (bytes_at b) (ucast (mb_cmdline (info_at b i))) ln"
    and "mb_flags (info_at b i) AND multiboot_flag_cmdline \<noteq> 0" "mb_cmdline (info_at b i) \<noteq> 0"
  shows "\<exists>s'. cmdline_init b multiboot_bootloader_magic i s = Some s' \<and> cmdline_raw s' = take 511 ln \<and>
     map (word_at (words s')) (word_table s') = take 32 (tokens (take 511 ln))"
proof -
  let ?ln = "take 511 ln"
  have nz: "CHR 0x00 \<notin> set ?ln"
    using string_at_nonzero [OF assms(1)] by (meson in_set_takeD)
  let ?s = "s\<lparr>cmdline := (cmdline s)[0 := CHR 0x00], words := (words s)[0 := CHR 0x00], word_table := []\<rparr>"
  let ?c = "store_line ?ln (cmdline ?s)" and ?w = "store_line ?ln (words ?s)"
  obtain b' t where t: "split_loop ?w 0 [] = Some (b', t)" "map (word_at b') t = take 32 (tokens ?ln)"
    using split_loop_tokens [of ?w "[]" ?ln _ "[]"] nz by (auto simp: store_line_def max_words_def)
  have "cmdline_init b multiboot_bootloader_magic i s = split (?s\<lparr>cmdline := ?c, words := ?w\<rparr>)"
    using assms(2,3) copy_line_take [OF assms(1), of 511]
    by (simp add: cmdline_init_def Let_def cmdline_capacity_def)
  also have "\<dots> = Some (?s\<lparr>cmdline := ?c, words := b', word_table := t\<rparr>)"
    using t(1) by (simp add: split_def)
  finally have "cmdline_init b multiboot_bootloader_magic i s
      = Some (?s\<lparr>cmdline := ?c, words := b', word_table := t\<rparr>)" .
  moreover have "word_at ?c 0 = ?ln"
    using word_at_cut [of ?c "[]" ?ln] nz by (simp add: store_line_def)
  ultimately show ?thesis using t(2) by (simp add: cmdline_raw_def)
qed

text \<open>
  C37: the command line the boot loader left is kept up to 511 characters, and the value of a key is
  that of the first of its first 32 words, separated by spaces, that is the key alone or the key
  with an equals sign; cutting the line into words never leaves its buffer.
\<close>

theorem cmdline_lookup_correct:
  assumes "string_at (bytes_at b) (ucast (mb_cmdline (info_at b i))) ln"
    and "mb_flags (info_at b i) AND multiboot_flag_cmdline \<noteq> 0" "mb_cmdline (info_at b i) \<noteq> 0"
  shows "\<exists>s'. cmdline_init b multiboot_bootloader_magic i s = Some s' \<and> cmdline_raw s' = take 511 ln \<and>
     (\<forall>key. cmdline_value key s' = setting key (take 32 (tokens (take 511 ln))))"
  using cmdline_init_spec [OF assms, of s] cmdline_value_setting by metis


definition boot_line :: memory where
  "boot_line = (\<lambda>_. 0)(0x5000 := 0x61, 0x5001 := 0x3D, 0x5002 := 0x31, 0x5003 := 0x20, 0x5004 := 0x62)"

definition small_boot :: boot_memory where
  "small_boot = \<lparr>info_at = \<lambda>_. \<lparr>mb_flags = 4, mb_mem_lower = 0, mb_mem_upper = 0, mb_boot_device = 0,
       mb_cmdline = 0x5000, mb_mods_count = 0, mb_mods_addr = 0, mb_syms = [], mb_mmap_length = 0, mb_mmap_addr = 0\<rparr>,
     module_at = \<lambda>_. \<lparr>mod_start = 0, mod_end = 0, mod_string = 0, mod_reserved = 0\<rparr>,
     mmap_at = \<lambda>_. \<lparr>mm_size = 0, mm_addr = 0, mm_len = 0, mm_type = 0\<rparr>, bytes_at = boot_line, kernel_end = 0\<rparr>"

definition no_cmdline :: cmdline_state where
  "no_cmdline = \<lparr>cmdline = replicate 512 (CHR 0x00), words = replicate 512 (CHR 0x00), word_table = []\<rparr>"

theorem cmdline_lookup_correct_witness:
  "\<exists>s'. cmdline_init small_boot multiboot_bootloader_magic 0 no_cmdline = Some s' \<and>
     cmdline_raw s' = ''a=1 b'' \<and> cmdline_value ''a'' s' = Some ''1'' \<and> cmdline_value ''b'' s' = None"
proof -
  have ln: "string_at (bytes_at small_boot) (ucast (mb_cmdline (info_at small_boot 0))) ''a=1 b''"
    by (simp add: small_boot_def boot_line_def)
  have t: "tokens ''a=1 b'' = [''a=1'', ''b'']"
    by (simp add: tokens.simps)
  have "setting ''a'' [''a=1'', ''b''] = Some ''1''" "setting ''b'' [''a=1'', ''b''] = None"
    by (simp_all add: setting_def is_setting_def)
  then show ?thesis
    using cmdline_lookup_correct [OF ln, of no_cmdline] t
    by (auto simp: small_boot_def multiboot_flag_cmdline_def)
qed

section \<open>The archive\<close>

definition block_size :: usize where "block_size = 512"

record initrd_state =
  archive :: u64
  archive_length :: usize
  file_count :: usize

text \<open>The fields of a header the code reads: the name at 0, the size at 124 and the type at 156.\<close>

definition tar_name :: "u64 \<Rightarrow> u64" where "tar_name h = h"
definition tar_size :: "u64 \<Rightarrow> u64" where "tar_size h = h + 124"
definition tar_type :: "memory \<Rightarrow> u64 \<Rightarrow> u8" where "tar_type m h = m (h + 156)"

fun parse_octal :: "memory \<Rightarrow> u64 \<Rightarrow> nat \<Rightarrow> usize \<Rightarrow> usize" where
  "parse_octal m a 0 val = val"
| "parse_octal m a (Suc n) val =
     (if of_char (CHR ''0'') \<le> m a \<and> m a \<le> of_char (CHR ''7'')
      then parse_octal m (a + 1) n (val * 8 + ucast (m a - of_char (CHR ''0''))) else val)"

definition round_to_block :: "usize \<Rightarrow> usize" where
  "round_to_block bytes = (bytes + block_size - 1) div block_size * block_size"

text \<open>The size of the file at an offset, \<open>None\<close> where the archive ends.\<close>

definition entry_at :: "memory \<Rightarrow> initrd_state \<Rightarrow> usize \<Rightarrow> usize option" where
  "entry_at m s offset =
     (if archive s = 0 \<or> offset + block_size > archive_length s then None
      else let header = archive s + offset
           in if m (tar_name header) = 0 then None
              else let sz = parse_octal m (tar_size header) 12 0
                   in if offset + block_size + sz \<le> archive_length s then Some sz else None)"

partial_function (option) base_loop :: "memory \<Rightarrow> u64 \<Rightarrow> u64 \<Rightarrow> u64 option" where
  "base_loop m p base =
     (if m p = 0 then Some base else base_loop m (p + 1) (if m p = of_char (CHR ''/'') then p + 1 else base))"

definition name_matches :: "memory \<Rightarrow> u64 \<Rightarrow> string \<Rightarrow> bool option" where
  "name_matches m stored wanted =
     Option.bind (base_loop m stored stored)
       (\<lambda>base. let rest = base + of_nat (length wanted)
               in Some (signature_is m base wanted \<and>
                    (m rest = 0 \<or> m rest = of_char (CHR ''.'') \<and> signature_is m rest (''.ko'' @ [CHR 0x00]))))"

definition is_file :: "memory \<Rightarrow> u64 \<Rightarrow> bool" where
  "is_file m header \<longleftrightarrow> tar_type m header = of_char (CHR ''0'') \<or> tar_type m header = 0"

partial_function (option) count_loop :: "memory \<Rightarrow> initrd_state \<Rightarrow> usize \<Rightarrow> usize \<Rightarrow> usize option" where
  "count_loop m s offset n =
     (case entry_at m s offset of None \<Rightarrow> Some n
      | Some sz \<Rightarrow> count_loop m s (offset + (block_size + round_to_block sz))
          (if is_file m (archive s + offset) then n + 1 else n))"

definition initrd_init :: "boot_memory \<Rightarrow> u32 \<Rightarrow> u64 \<Rightarrow> initrd_state \<Rightarrow> initrd_state option" where
  "initrd_init b magic info_address s =
     (let info = info_at b (phys_to_virt info_address)
      in if magic \<noteq> multiboot_bootloader_magic then Some s
         else if mb_flags info AND multiboot_flag_mods = 0 \<or> mb_mods_count info = 0 then Some s
         else let md = module_at b (phys_to_virt (ucast (mb_mods_addr info)));
                  s = s\<lparr>archive := phys_to_virt (ucast (mod_start md)),
                        archive_length := ucast (mod_end md - mod_start md)\<rparr>
              in map_option (\<lambda>n. s\<lparr>file_count := n\<rparr>) (count_loop (bytes_at b) s 0 (file_count s)))"

definition initrd_available :: "initrd_state \<Rightarrow> bool" where
  "initrd_available s \<longleftrightarrow> archive s \<noteq> 0 \<and> file_count s > 0"

partial_function (option) find_loop ::
  "memory \<Rightarrow> initrd_state \<Rightarrow> string \<Rightarrow> usize \<Rightarrow> (u64 \<times> usize) option" where
  "find_loop m s name offset =
     (case entry_at m s offset of None \<Rightarrow> Some (0, 0)
      | Some sz \<Rightarrow>
          Option.bind (if is_file m (archive s + offset)
                       then name_matches m (tar_name (archive s + offset)) name else Some False)
            (\<lambda>found. if found then Some (archive s + offset + block_size, sz)
                     else find_loop m s name (offset + (block_size + round_to_block sz))))"

definition initrd_find :: "memory \<Rightarrow> initrd_state \<Rightarrow> string \<Rightarrow> (u64 \<times> usize) option" where
  "initrd_find m s name = find_loop m s name 0"

text \<open>The header of the file with an index and its size, if there is one.\<close>

partial_function (option) index_loop ::
  "memory \<Rightarrow> initrd_state \<Rightarrow> usize \<Rightarrow> usize \<Rightarrow> usize \<Rightarrow> (u64 \<times> usize) option option" where
  "index_loop m s index seen offset =
     (case entry_at m s offset of None \<Rightarrow> Some None
      | Some sz \<Rightarrow>
          if is_file m (archive s + offset) \<and> seen = index then Some (Some (archive s + offset, sz))
          else index_loop m s index (if is_file m (archive s + offset) then seen + 1 else seen)
                 (offset + (block_size + round_to_block sz)))"

text \<open>The pointer to the contents, the pointer to the name and the size.\<close>

definition initrd_data_at :: "memory \<Rightarrow> initrd_state \<Rightarrow> usize \<Rightarrow> (u64 \<times> u64 \<times> usize) option" where
  "initrd_data_at m s index =
     map_option (\<lambda>r. case r of None \<Rightarrow> (0, 0, 0) | Some (header, sz) \<Rightarrow> (header + block_size, tar_name header, sz))
       (index_loop m s index 0 0)"

definition initrd_name_at :: "memory \<Rightarrow> initrd_state \<Rightarrow> usize \<Rightarrow> (u64 \<times> usize) option" where
  "initrd_name_at m s index =
     map_option (\<lambda>r. case r of None \<Rightarrow> (0, 0) | Some (header, sz) \<Rightarrow> (tar_name header, sz))
       (index_loop m s index 0 0)"

section \<open>The files of the archive\<close>

text \<open>The reference for the walk: offset and size of each entry, counted without wrap-around.\<close>

function tar_list :: "memory \<Rightarrow> u64 \<Rightarrow> nat \<Rightarrow> nat \<Rightarrow> (nat \<times> nat) list" where
  "tar_list m base len off =
     (let h = base + of_nat off; sz = unat (parse_octal m (tar_size h) 12 0)
      in if off + 512 \<le> len \<and> m (tar_name h) \<noteq> 0 \<and> off + 512 + sz \<le> len
         then (off, sz) # tar_list m base len (off + 512 + (sz + 511) div 512 * 512) else [])"
  by pat_completeness auto
termination by (relation "measure (\<lambda>(m, base, len, off). len - off)") auto

declare tar_list.simps [simp del]

lemma parse_octal_numeral:
  "parse_octal m a (numeral k) val =
     (if of_char (CHR ''0'') \<le> m a \<and> m a \<le> of_char (CHR ''7'')
      then parse_octal m (a + 1) (pred_numeral k) (val * 8 + ucast (m a - of_char (CHR ''0''))) else val)"
  by (simp add: numeral_eq_Suc)

lemma parse_octal_bound:
  "(unat v + 1) * 8 ^ n \<le> 2 ^ 60 \<Longrightarrow> unat (parse_octal m a n v) < (unat v + 1) * 8 ^ n"
proof (induction n arbitrary: a v)
  case (Suc n)
  let ?d = "ucast (m a - of_char (CHR ''0'')) :: usize"
  show ?case
  proof (cases "of_char (CHR ''0'') \<le> m a \<and> m a \<le> of_char (CHR ''7'')")
    case True
    then have "unat ?d < 8"
      by (auto simp: word_le_nat_alt unat_sub)
    moreover have "unat v < 2 ^ 57"
    proof -
      have "(unat v + 1) * 8 * 1 \<le> (unat v + 1) * 8 * 8 ^ n" by (rule mult_le_mono2) simp
      also have "\<dots> \<le> 2 ^ 60" using Suc.prems by (simp only: power_Suc mult.assoc)
      finally show ?thesis by simp
    qed
    ultimately have v: "unat (v * 8 + ?d) = unat v * 8 + unat ?d"
      by (simp add: u64_simps)
    have le: "(unat (v * 8 + ?d) + 1) * 8 ^ n \<le> (unat v + 1) * 8 ^ Suc n"
    proof -
      have "unat (v * 8 + ?d) + 1 \<le> (unat v + 1) * 8" using v \<open>unat ?d < 8\<close> by simp
      then have "(unat (v * 8 + ?d) + 1) * 8 ^ n \<le> (unat v + 1) * 8 * 8 ^ n" by (rule mult_le_mono1)
      then show ?thesis by (simp only: power_Suc mult.assoc)
    qed
    then have "(unat (v * 8 + ?d) + 1) * 8 ^ n \<le> 2 ^ 60" using Suc.prems by linarith
    from Suc.IH [OF this, of "a + 1"] le True show ?thesis by simp
  next
    case False
    have "(unat v + 1) * 1 \<le> (unat v + 1) * 8 ^ Suc n" by (rule mult_le_mono2) simp
    with False show ?thesis by auto
  qed
qed simp


lemma tar_size_bound: "unat (parse_octal m a 12 0) < 2 ^ 36"
  using parse_octal_bound [of 0 12 m a] by simp

lemma round_to_block_nat:
  assumes "unat sz < 2 ^ 36"
  shows "unat (round_to_block sz) = (unat sz + 511) div 512 * 512"
proof -
  have "sz + block_size - 1 = sz + 511" by (simp add: block_size_def)
  moreover have "unat (sz + 511) = unat sz + 511" using assms by (simp add: u64_simps)
  moreover have "(unat sz + 511) div 512 * 512 \<le> unat sz + 511" by simp
  ultimately show ?thesis
    unfolding round_to_block_def block_size_def using assms
    by (simp add: unat_div_distrib unat_word_ariths del: div_mult_self4)
qed

definition sound_archive :: "initrd_state \<Rightarrow> bool" where
  "sound_archive s \<longleftrightarrow> archive s \<noteq> 0 \<and> unat (archive_length s) < 2 ^ 32"

lemma entry_at_tar:
  assumes "sound_archive s" and "off < 2 ^ 33"
  shows "entry_at m s (of_nat off) =
     (let h = archive s + of_nat off; sz = parse_octal m (tar_size h) 12 0
      in if off + 512 \<le> unat (archive_length s) \<and> m (tar_name h) \<noteq> 0 \<and>
            off + 512 + unat sz \<le> unat (archive_length s) then Some sz else None)"
proof -
  let ?o = "of_nat off :: usize" and ?sz = "parse_octal m (tar_size (archive s + of_nat off)) 12 0"
  have o1: "unat (?o + 512) = off + 512"
    using assms(2) by (simp add: u64_simps)
  have o2: "unat (?o + 512 + ?sz) = off + 512 + unat ?sz"
    using assms(2) tar_size_bound [of m "tar_size (archive s + of_nat off)"] o1
      unat_u64_add [of "?o + 512" ?sz] by simp
  show ?thesis
    using assms(1) o1 o2
    by (auto simp: entry_at_def Let_def sound_archive_def block_size_def word_less_nat_alt word_le_nat_alt)
qed

lemma next_offset:
  assumes "off < 2 ^ 33" and "unat sz < 2 ^ 36"
  shows "of_nat off + (block_size + round_to_block sz) = (of_nat (off + 512 + (unat sz + 511) div 512 * 512) :: usize)"
proof -
  have "round_to_block sz = of_nat (unat (round_to_block sz))" by simp
  also have "\<dots> = of_nat ((unat sz + 511) div 512 * 512)" by (simp only: round_to_block_nat [OF assms(2)])
  finally show ?thesis by (simp only: of_nat_add block_size_def of_nat_numeral add.assoc)
qed

lemma tar_list_step:
  assumes "sound_archive s" and "off \<le> unat (archive_length s) + 511"
  defines "h \<equiv> archive s + of_nat off" and "len \<equiv> unat (archive_length s)"
  obtains (stop) "entry_at m s (of_nat off) = None" "tar_list m (archive s) len off = []"
  | (step) sz off2 where "entry_at m s (of_nat off) = Some sz"
      "of_nat off + (block_size + round_to_block sz) = (of_nat off2 :: usize)"
      "off2 \<le> len + 511" "off < off2" "off + 512 + unat sz \<le> len"
      "tar_list m (archive s) len off = (off, unat sz) # tar_list m (archive s) len off2"
proof -
  let ?sz = "parse_octal m (tar_size h) 12 0"
  have b: "off < 2 ^ 33" using assms(1,2) by (simp add: sound_archive_def)
  note e = entry_at_tar [OF assms(1) b, of m, folded h_def len_def, unfolded Let_def]
  have t: "tar_list m (archive s) len off =
      (if off + 512 \<le> len \<and> m (tar_name h) \<noteq> 0 \<and> off + 512 + unat ?sz \<le> len
       then (off, unat ?sz) # tar_list m (archive s) len (off + 512 + (unat ?sz + 511) div 512 * 512) else [])"
    by (subst tar_list.simps) (simp add: Let_def h_def)
  show thesis
  proof (cases "off + 512 \<le> len \<and> m (tar_name h) \<noteq> 0 \<and> off + 512 + unat ?sz \<le> len")
    case True
    have "(unat ?sz + 511) div 512 * 512 \<le> unat ?sz + 511" by simp
    then have bound: "off + 512 + (unat ?sz + 511) div 512 * 512 \<le> len + 511" using True by linarith
    show thesis
      by (rule step [OF _ next_offset [OF b tar_size_bound [of m "tar_size h"]] bound])
        (use True e t in simp_all)
  next
    case False
    with stop e t show thesis by simp
  qed
qed


section \<open>Names\<close>

definition last_part :: "string \<Rightarrow> string" where
  "last_part nm = rev (takeWhile (\<lambda>c. c \<noteq> CHR ''/'') (rev nm))"

definition file_name :: "string \<Rightarrow> string \<Rightarrow> bool" where
  "file_name wanted nm \<longleftrightarrow> last_part nm = wanted \<or> last_part nm = wanted @ ''.ko''"

lemma last_part_suffix: "\<exists>pre. nm = pre @ last_part nm"
  unfolding last_part_def by (metis rev_append rev_rev_ident takeWhile_dropWhile_id)

lemma string_at_append: "string_at m a (s @ t) \<Longrightarrow> string_at m (a + of_nat (length s)) t"
  by (induction s arbitrary: a) (auto simp: add.assoc [symmetric])

lemma last_part_Cons:
  "last_part (c # cs) = (if c \<noteq> CHR ''/'' \<and> CHR ''/'' \<notin> set cs then c # cs else last_part cs)"
proof (cases "CHR ''/'' \<in> set cs")
  case True
  then have "\<exists>x \<in> set (rev cs). \<not> x \<noteq> CHR ''/''" by simp
  then have "takeWhile (\<lambda>c. c \<noteq> CHR ''/'') (rev cs @ [c]) = takeWhile (\<lambda>c. c \<noteq> CHR ''/'') (rev cs)"
    by (metis (mono_tags, lifting) takeWhile_append1)
  with True show ?thesis by (simp add: last_part_def)
next
  case False
  then have all: "\<forall>x \<in> set (rev cs). x \<noteq> CHR ''/''" by auto
  then have "takeWhile (\<lambda>c. c \<noteq> CHR ''/'') (rev cs) = rev cs" by (simp add: takeWhile_eq_all_conv)
  moreover have "takeWhile (\<lambda>c. c \<noteq> CHR ''/'') (rev cs @ [c]) = rev cs @ takeWhile (\<lambda>c. c \<noteq> CHR ''/'') [c]"
    by (rule takeWhile_append2) (use all in blast)
  ultimately show ?thesis using False unfolding last_part_def by (simp del: takeWhile_eq_all_conv)
qed

lemma base_loop_string:
  "string_at m p nm \<Longrightarrow>
   base_loop m p base = Some (if CHR ''/'' \<in> set nm then p + of_nat (length nm - length (last_part nm)) else base)"
proof (induction nm arbitrary: p base)
  case Nil
  then show ?case by (subst base_loop.simps) simp
next
  case (Cons c nm)
  obtain pre where "nm = pre @ last_part nm" using last_part_suffix by blast
  then have le: "length (last_part nm) \<le> length nm" by (metis length_append le_add2)
  have eq: "m p = of_char (CHR ''/'') \<longleftrightarrow> c = CHR ''/''"
    using Cons.prems of_char_u8_inj [of c "CHR ''/''"] by auto
  have "base_loop m p base = base_loop m (p + 1) (if c = CHR ''/'' then p + 1 else base)"
    using Cons.prems eq by (subst base_loop.simps) auto
  also have "\<dots> = Some (if CHR ''/'' \<in> set nm then p + 1 + of_nat (length nm - length (last_part nm))
      else if c = CHR ''/'' then p + 1 else base)"
    using Cons.IH [of "p + 1"] Cons.prems by simp
  also have "\<dots> = Some (if CHR ''/'' \<in> set (c # nm)
      then p + of_nat (length (c # nm) - length (last_part (c # nm))) else base)"
  proof (cases "CHR ''/'' \<in> set nm")
    case True
    then show ?thesis using le by (simp add: last_part_Cons Suc_diff_le)
  next
    case False
    then have "last_part nm = nm"
      by (induction nm) (auto simp: last_part_Cons last_part_def)
    with False show ?thesis by (simp add: last_part_Cons)
  qed
  finally show ?case .
qed

lemma base_is_last_part:
  assumes "string_at m p nm"
  shows "\<exists>base. base_loop m p p = Some base \<and> string_at m base (last_part nm)"
proof -
  obtain pre where pre: "nm = pre @ last_part nm" using last_part_suffix by blast
  then have len: "length nm - length (last_part nm) = length pre" by (metis add_diff_cancel_right' length_append)
  have at: "string_at m (p + of_nat (length pre)) (last_part nm)"
    using string_at_append [of m p pre "last_part nm"] assms pre by simp
  show ?thesis
  proof (cases "CHR ''/'' \<in> set nm")
    case True
    with base_loop_string [OF assms, of p] at len show ?thesis by simp
  next
    case False
    then have "last_part nm = nm" by (induction nm) (auto simp: last_part_Cons last_part_def)
    with base_loop_string [OF assms, of p] False assms show ?thesis by simp
  qed
qed

lemma signature_is_prefix:
  "string_at m p nm \<Longrightarrow> CHR 0x00 \<notin> set w \<Longrightarrow>
   signature_is m p w \<longleftrightarrow> (\<exists>r. nm = w @ r)"
proof (induction w arbitrary: p nm)
  case Nil
  then show ?case by (simp add: signature_is_Nil)
next
  case (Cons c w)
  have nz: "of_char c \<noteq> (0 :: u8)"
    using Cons.prems(2) of_char_u8_inj [of c "CHR 0x00"] by auto
  show ?case
    using Cons nz by (cases nm) (auto simp: signature_is_Cons)
qed

lemma signature_is_whole:
  "string_at m p nm \<Longrightarrow> CHR 0x00 \<notin> set w \<Longrightarrow> signature_is m p (w @ [CHR 0x00]) \<longleftrightarrow> nm = w"
proof (induction w arbitrary: p nm)
  case Nil
  then show ?case by (cases nm) (auto simp: signature_is_Cons signature_is_Nil)
next
  case (Cons c w)
  have nz: "of_char c \<noteq> (0 :: u8)"
    using Cons.prems(2) of_char_u8_inj [of c "CHR 0x00"] by auto
  show ?case
    using Cons nz by (cases nm) (auto simp: signature_is_Cons)
qed

lemma name_matches_string:
  assumes "string_at m p nm" and "CHR 0x00 \<notin> set wanted"
  shows "name_matches m p wanted = Some (file_name wanted nm)"
proof -
  obtain base where base: "base_loop m p p = Some base" "string_at m base (last_part nm)"
    using base_is_last_part [OF assms(1)] by blast
  let ?rest = "base + of_nat (length wanted)"
  show ?thesis
  proof (cases "\<exists>r. last_part nm = wanted @ r")
    case True
    then obtain r where r: "last_part nm = wanted @ r" by blast
    then have at: "string_at m ?rest r" using base(2) string_at_append by metis
    have "signature_is m base wanted" using signature_is_prefix [OF base(2) assms(2)] r by blast
    moreover have "m ?rest = 0 \<longleftrightarrow> r = []" using at by (cases r) auto
    moreover have "signature_is m ?rest (''.ko'' @ [CHR 0x00]) \<longleftrightarrow> r = ''.ko''"
      by (rule signature_is_whole [OF at]) simp
    moreover have "m ?rest = of_char (CHR ''.'')" if "r = ''.ko''" using at that by simp
    ultimately show ?thesis
      using base(1) r by (auto simp: name_matches_def Let_def file_name_def)
  next
    case False
    then have "\<not> signature_is m base wanted" using signature_is_prefix [OF base(2) assms(2)] by blast
    with False base(1) show ?thesis by (auto simp: name_matches_def Let_def file_name_def)
  qed
qed


section \<open>Looking a file up\<close>

definition names_end :: "memory \<Rightarrow> initrd_state \<Rightarrow> (nat \<Rightarrow> string) \<Rightarrow> bool" where
  "names_end m s names \<longleftrightarrow>
     list_all (\<lambda>(off, sz). string_at m (archive s + of_nat off) (names off))
       (tar_list m (archive s) (unat (archive_length s)) 0)"

definition file_at :: "memory \<Rightarrow> initrd_state \<Rightarrow> (nat \<Rightarrow> string) \<Rightarrow> string \<Rightarrow> nat \<times> nat \<Rightarrow> bool" where
  "file_at m s names wanted = (\<lambda>(off, sz). is_file m (archive s + of_nat off) \<and> file_name wanted (names off))"

lemma find_loop_find:
  assumes s: "sound_archive s" and w: "CHR 0x00 \<notin> set wanted"
  shows "off \<le> unat (archive_length s) + 511 \<Longrightarrow>
     list_all (\<lambda>(k, sz). string_at m (archive s + of_nat k) (names k))
       (tar_list m (archive s) (unat (archive_length s)) off) \<Longrightarrow>
     find_loop m s wanted (of_nat off) = Some
       (case find (file_at m s names wanted) (tar_list m (archive s) (unat (archive_length s)) off) of
          None \<Rightarrow> (0, 0) | Some (k, sz) \<Rightarrow> (archive s + of_nat k + 512, of_nat sz))"
proof (induction "unat (archive_length s) + 511 - off" arbitrary: off rule: less_induct)
  case less
  from s less.prems(1) show ?case
  proof (cases rule: tar_list_step [where m = m])
    case stop
    then show ?thesis by (subst find_loop.simps) simp
  next
    case (step sz off2)
    let ?h = "archive s + of_nat off"
    have at: "string_at m ?h (names off)" and tl: "list_all (\<lambda>(k, sz). string_at m (archive s + of_nat k) (names k))
        (tar_list m (archive s) (unat (archive_length s)) off2)"
      using less.prems(2) unfolding step(6) by simp_all
    have nm: "name_matches m (tar_name ?h) wanted = Some (file_name wanted (names off))"
      unfolding tar_name_def by (rule name_matches_string [OF at w])
    have IH: "find_loop m s wanted (of_nat off2) = Some
       (case find (file_at m s names wanted) (tar_list m (archive s) (unat (archive_length s)) off2) of
          None \<Rightarrow> (0, 0) | Some (k, sz) \<Rightarrow> (archive s + of_nat k + 512, of_nat sz))"
      by (rule less.hyps) (use step(3,4) tl in simp_all)
    have "find_loop m s wanted (of_nat off) =
        (if file_at m s names wanted (off, unat sz) then Some (?h + 512, sz) else find_loop m s wanted (of_nat off2))"
      by (subst find_loop.simps) (simp add: step(1) step(2) [unfolded block_size_def] nm file_at_def block_size_def
          del: of_nat_add)
    then show ?thesis unfolding step(6) using IH by simp
  qed
qed

lemma tar_list_inside:
  assumes "sound_archive s"
  shows "off \<le> unat (archive_length s) + 511 \<Longrightarrow>
     list_all (\<lambda>(k, sz). k + 512 + sz \<le> unat (archive_length s)) (tar_list m (archive s) (unat (archive_length s)) off)"
proof (induction "unat (archive_length s) + 511 - off" arbitrary: off rule: less_induct)
  case less
  from assms less.prems show ?case
  proof (cases rule: tar_list_step [where m = m])
    case (step sz off2)
    have "list_all (\<lambda>(k, sz). k + 512 + sz \<le> unat (archive_length s))
        (tar_list m (archive s) (unat (archive_length s)) off2)"
      by (rule less.hyps) (use step(3,4) in simp_all)
    then show ?thesis unfolding step(6) using step(5) by simp
  qed simp
qed



definition small_tar :: memory where
  "small_tar = (\<lambda>_. 0)(0x9000 := 0x61, 0x9001 := 0x2E, 0x9002 := 0x6B, 0x9003 := 0x6F, 0x907C := 0x33, 0x909C := 0x30)"

definition small_initrd :: initrd_state where
  "small_initrd = \<lparr>archive = 0x9000, archive_length = 1024, file_count = 1\<rparr>"

lemma small_tar_list: "tar_list small_tar 0x9000 1024 0 = [(0, 3)]"
proof -
  have sz: "parse_octal small_tar 0x907C 12 0 = 3"
    by (simp add: parse_octal_numeral small_tar_def)
  have "small_tar 0x9000 \<noteq> 0" by (simp add: small_tar_def)
  moreover have "tar_list small_tar 0x9000 1024 1024 = []" by (subst tar_list.simps) (simp add: Let_def)
  ultimately show ?thesis
    by (subst tar_list.simps) (simp add: Let_def tar_size_def tar_name_def sz)
qed


end
