(* ===== verification/Pci.thy ===== *)
theory Pci
  imports Ports "HOL-Library.Multiset"
begin

unbundle bit_operations_syntax

text \<open>
  The device registry, \<^verbatim>\<open>kernel/device/device.cpp\<close>, and the PCI bus, \<^verbatim>\<open>kernel/device/pci.cpp\<close>: access
  to configuration space through two ports, the walk over the buses, the decoding and sizing of the
  base address registers and the capability list.

  Configuration space is behind the ports. The walk follows the bus numbers it reads out of the
  bridges and need not end, so it takes fuel, one unit per nested bus; \<open>None\<close> is running out of it.
  Buses have 256 numbers, and where a bridge leads to a higher number, as the numbering of buses
  requires, 256 units are enough.
\<close>

section \<open>Configuration space\<close>

record Address =
  a_bus :: u8
  a_slot :: u8
  a_func :: u8

abbreviation (input) config_address_port :: u16 where "config_address_port \<equiv> 0xCF8"
abbreviation (input) config_data_port :: u16 where "config_data_port \<equiv> 0xCFC"

abbreviation (input) offset_vendor :: u16 where "offset_vendor \<equiv> 0x00"
abbreviation (input) offset_device :: u16 where "offset_device \<equiv> 0x02"
abbreviation (input) offset_command :: u16 where "offset_command \<equiv> 0x04"
abbreviation (input) offset_status :: u16 where "offset_status \<equiv> 0x06"
abbreviation (input) offset_revision :: u16 where "offset_revision \<equiv> 0x08"
abbreviation (input) offset_header_type :: u16 where "offset_header_type \<equiv> 0x0E"
abbreviation (input) offset_bar0 :: u16 where "offset_bar0 \<equiv> 0x10"
abbreviation (input) offset_secondary_bus :: u16 where "offset_secondary_bus \<equiv> 0x19"
abbreviation (input) offset_capabilities :: u16 where "offset_capabilities \<equiv> 0x34"
abbreviation (input) offset_interrupt_line :: u16 where "offset_interrupt_line \<equiv> 0x3C"
abbreviation (input) command_io_space :: u16 where "command_io_space \<equiv> 1"
abbreviation (input) command_memory_space :: u16 where "command_memory_space \<equiv> 2"
abbreviation (input) command_bus_master :: u16 where "command_bus_master \<equiv> 4"
abbreviation (input) status_capabilities :: u16 where "status_capabilities \<equiv> 0x10"
abbreviation (input) pci_max_devices :: nat where "pci_max_devices \<equiv> 64"

definition config_index :: "Address \<Rightarrow> u16 \<Rightarrow> u32" where
  "config_index a offset =
     0x80000000 OR push_bit 16 (ucast (a_bus a)) OR push_bit 11 (ucast (a_slot a))
     OR push_bit 8 (ucast (a_func a)) OR ucast (offset AND 0xFC)"

definition read32 :: "'d ports \<Rightarrow> Address \<Rightarrow> u16 \<Rightarrow> 'd \<Rightarrow> u32 \<times> 'd" where
  "read32 io a offset d = in_long io config_data_port (out_long io config_address_port (config_index a offset) d)"

definition read16 :: "'d ports \<Rightarrow> Address \<Rightarrow> u16 \<Rightarrow> 'd \<Rightarrow> u16 \<times> 'd" where
  "read16 io a offset d =
     (let (v, d) = read32 io a offset d in (ucast (drop_bit (unat ((offset AND 2) * 8)) v), d))"

definition read8 :: "'d ports \<Rightarrow> Address \<Rightarrow> u16 \<Rightarrow> 'd \<Rightarrow> u8 \<times> 'd" where
  "read8 io a offset d =
     (let (v, d) = read32 io a offset d in (ucast (drop_bit (unat ((offset AND 3) * 8)) v), d))"

definition write32 :: "'d ports \<Rightarrow> Address \<Rightarrow> u16 \<Rightarrow> u32 \<Rightarrow> 'd \<Rightarrow> 'd" where
  "write32 io a offset val d =
     out_long io config_data_port val (out_long io config_address_port (config_index a offset) d)"

definition write16 :: "'d ports \<Rightarrow> Address \<Rightarrow> u16 \<Rightarrow> u16 \<Rightarrow> 'd \<Rightarrow> 'd" where
  "write16 io a offset val d =
     (let shift = unat ((offset AND 2) * 8);
          (current, d) = read32 io a offset d;
          msk = NOT (push_bit shift 0xFFFF)
      in write32 io a offset ((current AND msk) OR push_bit shift (ucast val)) d)"

definition write8 :: "'d ports \<Rightarrow> Address \<Rightarrow> u16 \<Rightarrow> u8 \<Rightarrow> 'd \<Rightarrow> 'd" where
  "write8 io a offset val d =
     (let shift = unat ((offset AND 3) * 8);
          (current, d) = read32 io a offset d;
          msk = NOT (push_bit shift 0xFF)
      in write32 io a offset ((current AND msk) OR push_bit shift (ucast val)) d)"

section \<open>Devices\<close>

record PciDevice =
  d_address :: Address
  d_vendor :: u16
  d_device :: u16
  d_class :: u8
  d_subclass :: u8
  d_prog_if :: u8
  d_location :: string

definition hex_digits :: string where "hex_digits = ''0123456789abcdef''"

definition write_digits :: "u8 \<Rightarrow> string" where
  "write_digits v = [hex_digits ! unat (drop_bit 4 v), hex_digits ! unat (v AND 0x0F)]"

definition pci_location :: "Address \<Rightarrow> string" where
  "pci_location a = write_digits (a_bus a) @ '':'' @ write_digits (a_slot a) @ ''.''
     @ [char_of (48 + unat (a_func a))]"

definition pci_device :: "Address \<Rightarrow> u16 \<Rightarrow> u16 \<Rightarrow> u8 \<Rightarrow> u8 \<Rightarrow> u8 \<Rightarrow> PciDevice" where
  "pci_device a vendor dev cls sub prog =
     \<lparr>d_address = a, d_vendor = vendor, d_device = dev, d_class = cls, d_subclass = sub,
      d_prog_if = prog, d_location = pci_location a\<rparr>"

datatype BusType = Platform | PciBus

record DeviceId =
  id_bus :: BusType
  id_vendor :: u16
  id_device :: u16
  id_class :: u8
  id_subclass :: u8

definition pci_id :: "PciDevice \<Rightarrow> DeviceId" where
  "pci_id dev = \<lparr>id_bus = PciBus, id_vendor = d_vendor dev, id_device = d_device dev,
     id_class = d_class dev, id_subclass = d_subclass dev\<rparr>"

definition interrupt_line :: "'d ports \<Rightarrow> PciDevice \<Rightarrow> 'd \<Rightarrow> u8 \<times> 'd" where
  "interrupt_line io dev d = read8 io (d_address dev) offset_interrupt_line d"

record 'd pci =
  space :: 'd
  pci_devices :: "PciDevice list"
  ready :: bool

section \<open>The walk over the buses\<close>

definition scan_function ::
  "(u8 \<Rightarrow> 'd pci \<Rightarrow> 'd pci option) \<Rightarrow> 'd ports \<Rightarrow> Address \<Rightarrow> 'd pci \<Rightarrow> 'd pci option" where
  "scan_function scan io a s =
     (let (vendor, d) = read16 io a offset_vendor (space s)
      in if vendor = 0xFFFF then Some (s\<lparr>space := d\<rparr>)
         else let (dev, d) = read16 io a offset_device d;
                  (revision, d) = read32 io a offset_revision d;
                  cls = ucast (drop_bit 24 revision) :: u8;
                  sub = ucast (drop_bit 16 revision) :: u8;
                  prog = ucast (drop_bit 8 revision) :: u8;
                  s = s\<lparr>space := d, pci_devices :=
                    (if length (pci_devices s) < pci_max_devices
                     then pci_devices s @ [pci_device a vendor dev cls sub prog] else pci_devices s)\<rparr>
              in if cls = 0x06 \<and> sub = 0x04 then
                   (let (secondary, d) = read8 io a offset_secondary_bus (space s);
                        s = s\<lparr>space := d\<rparr>
                    in if secondary \<noteq> a_bus a then scan secondary s else Some s)
                 else Some s)"

definition scan_slot ::
  "(u8 \<Rightarrow> 'd pci \<Rightarrow> 'd pci option) \<Rightarrow> 'd ports \<Rightarrow> u8 \<Rightarrow> u8 \<Rightarrow> 'd pci \<Rightarrow> 'd pci option" where
  "scan_slot scan io b sl s =
     (let first = \<lparr>a_bus = b, a_slot = sl, a_func = 0\<rparr>;
          (vendor, d) = read16 io first offset_vendor (space s);
          s = s\<lparr>space := d\<rparr>
      in if vendor = 0xFFFF then Some s
         else Option.bind (scan_function scan io first s)
           (\<lambda>s. let (header, d) = read8 io first offset_header_type (space s);
                    s = s\<lparr>space := d\<rparr>
                in if header AND 0x80 = 0 then Some s
                   else for_each [1..<8]
                     (\<lambda>f. scan_function scan io \<lparr>a_bus = b, a_slot = sl, a_func = of_nat f\<rparr>) s))"

fun scan_bus :: "nat \<Rightarrow> 'd ports \<Rightarrow> u8 \<Rightarrow> 'd pci \<Rightarrow> 'd pci option" where
  "scan_bus 0 io b s = None"
| "scan_bus (Suc fuel) io b s =
     for_each [0..<32] (\<lambda>sl. scan_slot (scan_bus fuel io) io b (of_nat sl)) s"


definition class_name :: "u8 \<Rightarrow> u8 \<Rightarrow> string" where
  "class_name cls sub =
     (if cls = 0x00 then ''unclassified''
      else if cls = 0x01 then
        (if sub = 0x01 then ''ide controller'' else if sub = 0x06 then ''sata controller''
         else if sub = 0x08 then ''nvme controller'' else ''storage controller'')
      else if cls = 0x02 then ''network controller''
      else if cls = 0x03 then ''display controller''
      else if cls = 0x04 then ''multimedia controller''
      else if cls = 0x06 then (if sub = 0x04 then ''pci bridge'' else ''host bridge'')
      else if cls = 0x07 then ''communication controller''
      else if cls = 0x08 then ''system peripheral''
      else if cls = 0x09 then ''input controller''
      else if cls = 0x0C then (if sub = 0x03 then ''usb controller'' else ''serial bus controller'')
      else ''device'')"

definition pci_device_at :: "nat \<Rightarrow> 'd pci \<Rightarrow> PciDevice option" where
  "pci_device_at index s = (if index < length (pci_devices s) then Some (pci_devices s ! index) else None)"

section \<open>Registers of a device\<close>

record Bar =
  bar_address :: u64
  bar_length :: u64
  bar_memory :: bool
  bar_prefetchable :: bool

definition empty_bar :: Bar where
  "empty_bar = \<lparr>bar_address = 0, bar_length = 0, bar_memory = False, bar_prefetchable = False\<rparr>"

text \<open>All ones are written, what stuck is read, and the old value is written back.\<close>

definition probe_register :: "'d ports \<Rightarrow> Address \<Rightarrow> u16 \<Rightarrow> u32 \<Rightarrow> 'd \<Rightarrow> u32 \<times> 'd" where
  "probe_register io a offset original d =
     (let d = write32 io a offset 0xFFFFFFFF d;
          (msk, d) = read32 io a offset d
      in (msk, write32 io a offset original d))"

definition pci_bar :: "'d ports \<Rightarrow> PciDevice \<Rightarrow> u8 \<Rightarrow> 'd \<Rightarrow> Bar \<times> 'd" where
  "pci_bar io dev index d =
     (if index \<ge> 6 then (empty_bar, d)
      else let a = d_address dev;
               offset = offset_bar0 + ucast index * 4;
               (original, d) = read32 io a offset d;
               (command, d) = read16 io a offset_command d;
               d = write16 io a offset_command (command AND NOT (command_io_space OR command_memory_space)) d;
               (msk, d) = probe_register io a offset original d
           in if original AND 1 \<noteq> 0 then
                (\<lparr>bar_address = ucast (original AND NOT 3), bar_length = ucast ((NOT (msk AND NOT 3) + 1) AND 0xFFFF),
                  bar_memory = False, bar_prefetchable = False\<rparr>,
                 write16 io a offset_command command d)
              else if drop_bit 1 original AND 3 = 2 \<and> index < 5 then
                (let (high_original, d) = read32 io a (offset + 4) d;
                     (high_mask, d) = probe_register io a (offset + 4) high_original d
                 in (\<lparr>bar_address = ucast (original AND NOT 0xF) OR push_bit 32 (ucast high_original),
                      bar_length = NOT (ucast (msk AND NOT 0xF) OR push_bit 32 (ucast high_mask)) + 1,
                      bar_memory = True, bar_prefetchable = (original AND 8 \<noteq> 0)\<rparr>,
                     write16 io a offset_command command d))
              else
                (\<lparr>bar_address = ucast (original AND NOT 0xF),
                  bar_length = NOT (ucast (msk AND NOT 0xF) OR 0xFFFFFFFF00000000) + 1,
                  bar_memory = True, bar_prefetchable = (original AND 8 \<noteq> 0)\<rparr>,
                 write16 io a offset_command command d))"

fun capability_loop :: "nat \<Rightarrow> 'd ports \<Rightarrow> Address \<Rightarrow> u8 \<Rightarrow> u8 \<Rightarrow> 'd \<Rightarrow> u8 \<times> 'd" where
  "capability_loop 0 io a cap offset d = (0, d)"
| "capability_loop (Suc n) io a cap offset d =
     (if \<not> offset \<ge> 0x40 then (0, d)
      else let (capability, d) = read8 io a (ucast offset) d
           in if capability = cap then (offset, d)
              else let (link, d) = read8 io a (ucast offset + 1) d;
                       offset = link AND 0xFC
                   in if offset = 0 then (0, d) else capability_loop n io a cap offset d)"

definition find_capability :: "'d ports \<Rightarrow> PciDevice \<Rightarrow> u8 \<Rightarrow> 'd \<Rightarrow> u8 \<times> 'd" where
  "find_capability io dev cap d =
     (let a = d_address dev;
          (status, d) = read16 io a offset_status d
      in if status AND status_capabilities = 0 then (0, d)
         else let (start, d) = read8 io a offset_capabilities d
              in capability_loop 48 io a cap (start AND 0xFC) d)"

definition enable_bus_master :: "'d ports \<Rightarrow> PciDevice \<Rightarrow> 'd \<Rightarrow> 'd" where
  "enable_bus_master io dev d =
     (let (command, d) = read16 io (d_address dev) offset_command d
      in write16 io (d_address dev) offset_command (command OR command_bus_master) d)"

definition enable_memory_space :: "'d ports \<Rightarrow> PciDevice \<Rightarrow> 'd \<Rightarrow> 'd" where
  "enable_memory_space io dev d =
     (let (command, d) = read16 io (d_address dev) offset_command d
      in write16 io (d_address dev) offset_command (command OR command_memory_space OR command_io_space) d)"

section \<open>The registry\<close>

text \<open>
  A driver is known by its address. What its virtual functions do is a parameter: which devices it
  takes, the device object its probe returns (0 for none) and whether that starts, with the state
  \<open>'w\<close> they change.
\<close>

record 'w driver_ops =
  op_matches :: "u64 \<Rightarrow> DeviceId \<Rightarrow> bool"
  op_probe :: "u64 \<Rightarrow> nat \<Rightarrow> 'w \<Rightarrow> u64 \<times> 'w"
  op_start :: "u64 \<Rightarrow> 'w \<Rightarrow> bool \<times> 'w"

record 'w registry =
  bus_devices :: "DeviceId list"
  drivers :: "u64 list"
  world :: 'w

abbreviation (input) registry_max_devices :: nat where "registry_max_devices \<equiv> 64"
abbreviation (input) max_drivers :: nat where "max_drivers \<equiv> 32"

fun probe_loop :: "'w driver_ops \<Rightarrow> nat \<Rightarrow> DeviceId \<Rightarrow> u64 list \<Rightarrow> 'w \<Rightarrow> u64 \<times> 'w" where
  "probe_loop ops dev ident [] w = (0, w)"
| "probe_loop ops dev ident (drv # rest) w =
     (if drv = 0 \<or> \<not> op_matches ops drv ident then probe_loop ops dev ident rest w
      else let (device, w) = op_probe ops drv dev w
           in if device = 0 then probe_loop ops dev ident rest w
              else let (ok, w) = op_start ops device w
                   in if \<not> ok then probe_loop ops dev ident rest w else (device, w))"

definition device_probe :: "'w driver_ops \<Rightarrow> nat \<Rightarrow> 'w registry \<Rightarrow> u64 \<times> 'w registry" where
  "device_probe ops dev r =
     (let (device, w) = probe_loop ops dev (bus_devices r ! dev) (drivers r) (world r)
      in (device, r\<lparr>world := w\<rparr>))"

definition driver_register :: "'w driver_ops \<Rightarrow> u64 \<Rightarrow> 'w registry \<Rightarrow> 'w registry" where
  "driver_register ops drv r =
     (if drv = 0 \<or> length (drivers r) \<ge> max_drivers then r
      else let r = r\<lparr>drivers := drivers r @ [drv]\<rparr>
           in fold (\<lambda>i r. if op_matches ops drv (bus_devices r ! i) then snd (device_probe ops i r) else r)
                [0..<length (bus_devices r)] r)"

fun driver_unregister_loop :: "nat list \<Rightarrow> u64 \<Rightarrow> u64 list \<Rightarrow> u64 list" where
  "driver_unregister_loop [] drv t = t"
| "driver_unregister_loop (i # is) drv t =
     (if t ! i \<noteq> drv then driver_unregister_loop is drv t
      else take (length t - 1) (t[i := t ! (length t - 1)]))"

definition driver_unregister :: "u64 \<Rightarrow> 'w registry \<Rightarrow> 'w registry" where
  "driver_unregister drv r = r\<lparr>drivers := driver_unregister_loop [0..<length (drivers r)] drv (drivers r)\<rparr>"

definition device_announce :: "'w driver_ops \<Rightarrow> DeviceId \<Rightarrow> 'w registry \<Rightarrow> 'w registry" where
  "device_announce ops ident r =
     (if length (bus_devices r) \<ge> registry_max_devices then r
      else let r = r\<lparr>bus_devices := bus_devices r @ [ident]\<rparr>
           in snd (device_probe ops (length (bus_devices r) - 1) r))"

definition pci_init ::
  "nat \<Rightarrow> 'd ports \<Rightarrow> 'w driver_ops \<Rightarrow> 'd pci \<Rightarrow> 'w registry \<Rightarrow> ('d pci \<times> 'w registry) option" where
  "pci_init fuel io ops s r =
     map_option (\<lambda>s. (s\<lparr>ready := True\<rparr>, fold (\<lambda>dev. device_announce ops (pci_id dev)) (pci_devices s) r))
       (scan_bus fuel io 0 s)"


section \<open>What the code relies on\<close>

text \<open>
  The documented behaviour of the two ports, with the registers of configuration space seen through
  \<open>regs\<close>: a read returns the selected register and changes none, a write changes the selected one, to
  the bits \<open>keep\<close> of the written value that the device implements.
\<close>

definition config_space ::
  "'d ports \<Rightarrow> ('d \<Rightarrow> u32 \<Rightarrow> u32) \<Rightarrow> (u32 \<Rightarrow> u32 \<Rightarrow> u32 \<Rightarrow> u32) \<Rightarrow> bool" where
  "config_space io regs keep \<longleftrightarrow>
     (\<forall>d i. fst (in_long io 0xCFC (out_long io 0xCF8 i d)) = regs d i \<and>
            regs (snd (in_long io 0xCFC (out_long io 0xCF8 i d))) = regs d) \<and>
     (\<forall>d i v. regs (out_long io 0xCFC v (out_long io 0xCF8 i d)) = (regs d)(i := keep i (regs d i) v))"

lemma read32_regs:
  assumes "config_space io regs keep"
  shows "fst (read32 io a off d) = regs d (config_index a off)" "regs (snd (read32 io a off d)) = regs d"
  using assms by (simp_all add: config_space_def read32_def)

lemma write32_regs:
  assumes "config_space io regs keep"
  shows "regs (write32 io a off v d)
       = (regs d)(config_index a off := keep (config_index a off) (regs d (config_index a off)) v)"
  using assms by (simp add: config_space_def write32_def)

definition cfg16 :: "(u32 \<Rightarrow> u32) \<Rightarrow> Address \<Rightarrow> u16 \<Rightarrow> u16" where
  "cfg16 r a off = ucast (drop_bit (unat ((off AND 2) * 8)) (r (config_index a off)))"

definition cfg8 :: "(u32 \<Rightarrow> u32) \<Rightarrow> Address \<Rightarrow> u16 \<Rightarrow> u8" where
  "cfg8 r a off = ucast (drop_bit (unat ((off AND 3) * 8)) (r (config_index a off)))"

lemma read16_regs:
  assumes "config_space io regs keep"
  shows "fst (read16 io a off d) = cfg16 (regs d) a off" "regs (snd (read16 io a off d)) = regs d"
  using read32_regs [OF assms, of a off d]
  by (simp_all add: read16_def cfg16_def Let_def case_prod_unfold)

lemma read8_regs:
  assumes "config_space io regs keep"
  shows "fst (read8 io a off d) = cfg8 (regs d) a off" "regs (snd (read8 io a off d)) = regs d"
  using read32_regs [OF assms, of a off d]
  by (simp_all add: read8_def cfg8_def Let_def case_prod_unfold)

lemmas read_regs = read32_regs read16_regs read8_regs

text \<open>The registers of one function are told apart by the low byte of the index.\<close>

lemma config_index_low: "take_bit 8 (config_index a off) = ucast (off AND 0xFC)"
proof (rule bit_word_eqI, goal_cases)
  case (1 n)
  have top: "\<not> bit (0x80000000 :: u32) n" if "n < 8"
  proof -
    have e: "(0x80000000 :: u32) = push_bit 31 1" by simp
    show ?thesis unfolding e using that by (simp add: bit_push_bit_iff del: push_bit_of_1)
  qed
  have low: "n < 8" if "bit (0xFC :: u16) n"
  proof -
    have e: "(0xFC :: u16) = take_bit 8 0xFC" by simp
    show ?thesis using that by (subst (asm) e) (simp only: bit_take_bit_iff)
  qed
  show ?case
    using top low
    by (auto simp: config_index_def bit_take_bit_iff bit_or_iff bit_push_bit_iff bit_ucast_iff bit_and_iff
        simp del: bit_numeral_rec)
qed

lemma ucast_u16_inj: "(ucast (x :: u16) :: u32) = ucast y \<Longrightarrow> x = y"
proof (rule bit_word_eqI, goal_cases)
  case (1 n)
  then have "bit (ucast x :: u32) n = bit (ucast y :: u32) n" by simp
  with 1(2) show ?case by (simp add: bit_ucast_iff)
qed

lemma config_index_eq: "config_index a off = config_index a off2 \<Longrightarrow> off AND 0xFC = off2 AND 0xFC"
proof -
  assume "config_index a off = config_index a off2"
  then have "(ucast (off AND 0xFC) :: u32) = ucast (off2 AND 0xFC)"
    by (metis config_index_low)
  then show ?thesis by (rule ucast_u16_inj)
qed


section \<open>Sizing a memory register\<close>

text \<open>
  A memory register of size \<open>2 ^ k\<close> as the bus describes it: the low word keeps the address bits from
  \<open>k\<close> on and its four flag bits, a 64 bit register keeps the address bits from \<open>k - 32\<close> on in the word
  after it, and the command register takes back the value it had.
\<close>

definition wide :: "(u32 \<Rightarrow> u32) \<Rightarrow> u32 \<Rightarrow> u8 \<Rightarrow> bool" where
  "wide r reg index \<longleftrightarrow> drop_bit 1 (r reg) AND 3 = 2 \<and> index < 5"

definition memory_register ::
  "(u32 \<Rightarrow> u32) \<Rightarrow> (u32 \<Rightarrow> u32 \<Rightarrow> u32 \<Rightarrow> u32) \<Rightarrow> Address \<Rightarrow> u8 \<Rightarrow> nat \<Rightarrow> bool" where
  "memory_register r keep a index k \<longleftrightarrow>
     (let reg = config_index a (offset_bar0 + ucast index * 4);
          high = config_index a (offset_bar0 + ucast index * 4 + 4)
      in 4 \<le> k \<and> k < (if wide r reg index then 64 else 32) \<and> r reg AND 1 = 0 \<and>
         take_bit k (r reg) = take_bit 4 (r reg) \<and>
         (\<forall>old v. keep reg old v = (v AND NOT (mask k)) OR take_bit 4 (r reg)) \<and>
         (wide r reg index \<longrightarrow> take_bit (k - 32) (r high) = 0 \<and>
           (\<forall>old v. keep high old v = v AND NOT (mask (k - 32)))))"

definition command_register :: "(u32 \<Rightarrow> u32) \<Rightarrow> (u32 \<Rightarrow> u32 \<Rightarrow> u32 \<Rightarrow> u32) \<Rightarrow> Address \<Rightarrow> bool" where
  "command_register r keep a \<longleftrightarrow>
     (\<forall>old v. take_bit 16 v = take_bit 16 (r (config_index a offset_command)) \<longrightarrow>
        take_bit 16 (keep (config_index a offset_command) old v) = take_bit 16 (r (config_index a offset_command)))"

lemma below_six: "index < 6 \<Longrightarrow> index \<in> {0, 1, 2, 3, 4, 5 :: u8}"
proof -
  assume "index < 6"
  then have "unat index < 6" by (simp add: word_less_nat_alt)
  then have "unat index \<in> {0, 1, 2, 3, 4, 5}" by auto
  then show ?thesis by (auto simp: word_unat_eq_iff)
qed

lemma bar_indices:
  assumes "index < (6 :: u8)"
  shows "config_index a (offset_bar0 + ucast index * 4) \<noteq> config_index a offset_command"
    and "config_index a (offset_bar0 + ucast index * 4 + 4) \<noteq> config_index a offset_command"
    and "config_index a (offset_bar0 + ucast index * 4 + 4) \<noteq> config_index a (offset_bar0 + ucast index * 4)"
  using below_six [OF assms] by (auto dest!: config_index_eq)

lemma keep_original:
  fixes x :: u32
  assumes "take_bit k x = take_bit 4 x"
  shows "(x AND NOT (mask k)) OR take_bit 4 x = x"
proof -
  have "(x AND NOT (mask k)) OR take_bit k x = x"
    by (rule bit_word_eqI) (auto simp: bit_simps)
  then show ?thesis by (simp only: assms)
qed

lemma probed_mask:
  fixes x :: u32
  assumes "4 \<le> k"
  shows "((0xFFFFFFFF AND NOT (mask k)) OR take_bit 4 x) AND NOT 0xF = NOT (mask k)"
proof -
  have f: "(0xFFFFFFFF :: u32) = mask 32" "(0xF :: u32) = mask 4" by (simp_all add: mask_eq_exp_minus_1)
  show ?thesis unfolding f
    by (rule bit_word_eqI) (use assms in \<open>auto simp: bit_simps\<close>)
qed

lemma keep_high:
  fixes x :: u32
  assumes "take_bit k x = 0"
  shows "x AND NOT (mask k) = x"
proof -
  have "(x AND NOT (mask k)) OR take_bit k x = x"
    by (rule bit_word_eqI) (auto simp: bit_simps)
  then show ?thesis by (simp add: assms)
qed

lemma high_ones: "(0xFFFFFFFF :: u32) AND x = x"
proof -
  have f: "(0xFFFFFFFF :: u32) = mask 32" by (simp add: mask_eq_exp_minus_1)
  show ?thesis unfolding f by (rule bit_word_eqI) (auto simp: bit_simps)
qed

lemma decoded_length:
  assumes "k < 32"
  shows "NOT (ucast (NOT (mask k) :: u32) OR 0xFFFFFFFF00000000) + 1 = (2 ^ k :: u64)"
proof -
  have f: "(0xFFFFFFFF00000000 :: u64) = NOT (mask 32)" by (simp add: mask_eq_exp_minus_1)
  have "NOT (ucast (NOT (mask k) :: u32) OR NOT (mask 32)) = (mask k :: u64)"
    by (rule bit_word_eqI) (use assms in \<open>auto simp: bit_simps\<close>)
  then show ?thesis unfolding f by (simp add: mask_eq_exp_minus_1)
qed

lemma decoded_length_wide:
  assumes "k < 64"
  shows "NOT (ucast (NOT (mask k) :: u32) OR push_bit 32 (ucast (NOT (mask (k - 32)) :: u32))) + 1 = (2 ^ k :: u64)"
proof -
  have "NOT (ucast (NOT (mask k) :: u32) OR push_bit 32 (ucast (NOT (mask (k - 32)) :: u32))) = (mask k :: u64)"
    by (rule bit_word_eqI) (use assms in \<open>auto simp: bit_simps\<close>)
  then show ?thesis by (simp add: mask_eq_exp_minus_1)
qed

lemma write16_command_regs:
  assumes "config_space io regs keep"
  shows "\<exists>v. regs (write16 io a offset_command val d) = (regs d)(config_index a offset_command :=
           keep (config_index a offset_command) (regs d (config_index a offset_command)) v)
         \<and> take_bit 16 v = ucast val"
proof -
  let ?v = "((regs d (config_index a offset_command) AND NOT (push_bit 0 0xFFFF)) OR push_bit 0 (ucast val)) :: u32"
  have f: "(0xFFFF :: u32) = mask 16" by (simp add: mask_eq_exp_minus_1)
  have "take_bit 16 ?v = ucast val"
    unfolding f by (rule bit_word_eqI) (auto simp: bit_simps dest: bit_imp_le_length)
  moreover have "regs (write16 io a offset_command val d) = (regs d)(config_index a offset_command :=
           keep (config_index a offset_command) (regs d (config_index a offset_command)) ?v)"
    using read32_regs [OF assms, of a offset_command d]
    by (simp add: write16_def Let_def case_prod_unfold write32_regs [OF assms])
  ultimately show ?thesis by blast
qed

lemma probe_register_regs:
  assumes c: "config_space io regs keep"
    and o: "\<And>old. keep (config_index a off) old original = original"
  shows "fst (probe_register io a off original d) = keep (config_index a off) (regs d (config_index a off)) 0xFFFFFFFF"
    and "regs (snd (probe_register io a off original d)) = (regs d)(config_index a off := original)"
  by (simp_all add: probe_register_def Let_def case_prod_unfold write32_regs [OF c] read32_regs [OF c] o)

lemma pci_bar_regs:
  fixes io regs keep dev index d k
  defines "a \<equiv> d_address dev"
  defines "off \<equiv> offset_bar0 + ucast index * 4"
  defines "reg \<equiv> config_index a off" and "high \<equiv> config_index a (off + 4)"
    and "cmd \<equiv> config_index a offset_command"
  assumes c: "config_space io regs keep" and i: "index < 6"
    and m: "memory_register (regs d) keep a index k"
  shows "fst (pci_bar io dev index d) =
      \<lparr>bar_address = ucast (regs d reg AND NOT 0xF)
                     OR (if wide (regs d) reg index then push_bit 32 (ucast (regs d high)) else 0),
       bar_length = 2 ^ k, bar_memory = True, bar_prefetchable = (regs d reg AND 8 \<noteq> 0)\<rparr>"
    and "\<exists>old v. regs (snd (pci_bar io dev index d)) = (regs d)(cmd := keep cmd old v)
           \<and> take_bit 16 v = take_bit 16 (regs d cmd)"
proof -
  note ne = bar_indices [OF i, of a, folded off_def, folded reg_def high_def cmd_def]
  note regs = read_regs [OF c] 
  have m4: "4 \<le> k" and mk: "k < (if wide (regs d) reg index then 64 else 32)" and m1: "regs d reg AND 1 = 0"
    and mt: "take_bit k (regs d reg) = take_bit 4 (regs d reg)"
    and mr: "\<And>old v. keep reg old v = (v AND NOT (mask k)) OR take_bit 4 (regs d reg)"
    and mh: "wide (regs d) reg index \<Longrightarrow> take_bit (k - 32) (regs d high) = 0"
    and mv: "\<And>old v. wide (regs d) reg index \<Longrightarrow> keep high old v = v AND NOT (mask (k - 32))"
    using m unfolding memory_register_def Let_def a_def [symmetric] off_def [symmetric] reg_def [symmetric] high_def [symmetric]
    by blast+
  have kr: "keep reg old (regs d reg) = regs d reg" for old
    using keep_original [OF mt] by (simp add: mr)
  have kh: "keep high old (regs d high) = regs d high" if "wide (regs d) reg index" for old
    using keep_high [OF mh [OF that]] by (simp add: mv [OF that])
  define d1 where "d1 = snd (read32 io a off d)"
  define d2 where "d2 = snd (read16 io a offset_command d1)"
  define com where "com = fst (read16 io a offset_command d1)"
  define d3 where "d3 = write16 io a offset_command (com AND NOT (command_io_space OR command_memory_space)) d2"
  define p where "p = probe_register io a off (regs d reg) d3"
  define d5 where "d5 = snd (read32 io a (off + 4) (snd p))"
  define q where "q = probe_register io a (off + 4) (regs d high) d5"
  have r2: "regs d1 = regs d" "regs d2 = regs d" by (simp_all add: d1_def d2_def regs)
  have o1: "fst (read32 io a off d) = regs d reg" by (simp add: regs reg_def)
  have com: "com = ucast (regs d cmd)"
    by (simp add: com_def regs r2 cfg16_def cmd_def)
  obtain v3 where r3: "regs d3 = (regs d)(cmd := v3)"
    using write16_command_regs [OF c, of a "com AND NOT (command_io_space OR command_memory_space)" d2]
    by (auto simp: d3_def r2 cmd_def)
  have p1: "fst p = keep reg (regs d3 reg) 0xFFFFFFFF" and p2: "regs (snd p) = (regs d)(cmd := v3)"
    using probe_register_regs [OF c, of a off "regs d reg" d3, folded reg_def, OF kr] ne(1)
    by (auto simp: p_def r3)
  have h: "fst (read32 io a (off + 4) (snd p)) = regs d high" and r5: "regs d5 = (regs d)(cmd := v3)"
    using ne(2) by (simp_all add: regs d5_def p2 flip: high_def)
  have q1: "fst q = keep high (regs d5 high) 0xFFFFFFFF" and q2: "regs (snd q) = (regs d)(cmd := v3)"
    if "wide (regs d) reg index"
    using probe_register_regs [OF c, of a "off + 4" "regs d high" d5, folded high_def, OF kh [OF that]] ne(2)
    by (auto simp: q_def r5)
  have pm: "fst p AND NOT 0xF = NOT (mask k)" unfolding p1 mr by (rule probed_mask [OF m4])
  have qm: "fst q = NOT (mask (k - 32))" if "wide (regs d) reg index"
    using that by (simp only: q1 mv high_ones)
  have e: "pci_bar io dev index d =
      (if wide (regs d) reg index then
         (\<lparr>bar_address = ucast (regs d reg AND NOT 0xF) OR push_bit 32 (ucast (regs d high)),
           bar_length = NOT (ucast (fst p AND NOT 0xF) OR push_bit 32 (ucast (fst q))) + 1,
           bar_memory = True, bar_prefetchable = (regs d reg AND 8 \<noteq> 0)\<rparr>, write16 io a offset_command com (snd q))
       else
         (\<lparr>bar_address = ucast (regs d reg AND NOT 0xF),
           bar_length = NOT (ucast (fst p AND NOT 0xF) OR 0xFFFFFFFF00000000) + 1,
           bar_memory = True, bar_prefetchable = (regs d reg AND 8 \<noteq> 0)\<rparr>, write16 io a offset_command com (snd p)))"
    unfolding pci_bar_def Let_def case_prod_unfold a_def [symmetric] off_def [symmetric]
    using i m1
    by (simp only: not_le [symmetric] if_False d1_def [symmetric] d2_def [symmetric] com_def [symmetric] d3_def [symmetric]
        o1 p_def [symmetric] h d5_def [symmetric] q_def [symmetric] wide_def not_less simp_thms if_False)
  show "fst (pci_bar io dev index d) =
      \<lparr>bar_address = ucast (regs d reg AND NOT 0xF)
                     OR (if wide (regs d) reg index then push_bit 32 (ucast (regs d high)) else 0),
       bar_length = 2 ^ k, bar_memory = True, bar_prefetchable = (regs d reg AND 8 \<noteq> 0)\<rparr>"
  proof (cases "wide (regs d) reg index")
    case True
    then show ?thesis
      using mk by (simp only: e if_True fst_conv pm qm decoded_length_wide)
  next
    case False
    then show ?thesis
      using mk by (simp only: e if_False fst_conv pm decoded_length or.right_neutral)
  qed
  obtain d6 where s: "snd (pci_bar io dev index d) = write16 io a offset_command com d6" and r6: "regs d6 = (regs d)(cmd := v3)"
    using p2 q2 by (cases "wide (regs d) reg index") (auto simp: e)
  have "take_bit 16 (regs d cmd) = ucast com"
    unfolding com by (rule bit_word_eqI) (auto simp: bit_simps)
  then show "\<exists>old v. regs (snd (pci_bar io dev index d)) = (regs d)(cmd := keep cmd old v)
           \<and> take_bit 16 v = take_bit 16 (regs d cmd)"
    using write16_command_regs [OF c, of a com d6] by (auto simp: s r6 cmd_def)
qed


section \<open>What the registry keeps\<close>

text \<open>
  Unregistering takes one entry of the driver out of the table and keeps every other, the last one
  moved into the gap. A driver that arrives late is matched against every device, but the devices it
  matches are offered to all drivers in turn, so a driver that is already bound is probed again.
\<close>

lemma driver_unregister_loop_mset:
  assumes "set is \<subseteq> {..<length t}"
  shows "mset (driver_unregister_loop is drv t) = (if \<exists>i\<in>set is. t ! i = drv then mset t - {#drv#} else mset t)"
  using assms
proof (induction "is")
  case (Cons i "is")
  show ?case
  proof (cases "t ! i = drv")
    case True
    have i: "i < length t" using Cons.prems by simp
    define n where "n = length t - 1"
    have t: "t = butlast t @ [t ! n]" using i by (cases t rule: rev_cases) (simp_all add: n_def)
    have m: "mset (t[i := t ! n]) = add_mset (t ! n) (mset t - {#drv#})"
      using i True by (simp add: mset_update)
    have l: "length (t[i := t ! n]) = Suc n" using i by (simp add: n_def)
    have "t[i := t ! n] = take n (t[i := t ! n]) @ [t[i := t ! n] ! n]"
      using take_Suc_conv_app_nth [of n "t[i := t ! n]"] l by simp
    moreover have "t[i := t ! n] ! n = t ! n" using i by (simp add: nth_list_update n_def)
    ultimately have "mset (t[i := t ! n]) = add_mset (t ! n) (mset (take n (t[i := t ! n])))"
      by (metis mset_append mset_single_iff_right union_mset_add_mset_right add.right_neutral mset.simps)
    with m True show ?thesis by (simp add: n_def)
  qed (use Cons in auto)
qed simp

lemma driver_unregister_exact:
  "mset (drivers (driver_unregister drv r)) = mset (drivers r) - {#drv#}"
proof -
  have "(\<exists>i\<in>set [0..<length (drivers r)]. drivers r ! i = drv) \<longleftrightarrow> drv \<in># mset (drivers r)"
    by (auto simp: in_set_conv_nth)
  then show ?thesis
    by (simp add: driver_unregister_def driver_unregister_loop_mset atLeast_upt diff_single_trivial)
qed

lemma driver_register_reprobes:
  assumes "drv \<noteq> 0" and "drivers r = [first]" and "bus_devices r = [ident]" and "op_matches ops drv ident"
  shows "world (driver_register ops drv r) = snd (probe_loop ops 0 ident [first, drv] (world r))"
  using assms by (simp add: driver_register_def device_probe_def Let_def case_prod_unfold del: probe_loop.simps)

section \<open>The capability list\<close>

text \<open>An offset the search returns is past the header and holds the capability asked for.\<close>

lemma capability_loop_sound:
  assumes c: "config_space io regs keep"
  shows "regs (snd (capability_loop n io a cap off d)) = regs d \<and>
    (fst (capability_loop n io a cap off d) \<noteq> 0 \<longrightarrow> fst (capability_loop n io a cap off d) \<ge> 0x40 \<and>
       cfg8 (regs d) a (ucast (fst (capability_loop n io a cap off d))) = cap)"
proof (induction n arbitrary: off d)
  case (Suc n)
  have step: "regs (snd (read8 io a (ucast off + 1) (snd (read8 io a (ucast off) d)))) = regs d"
    by (simp add: read_regs [OF c])
  show ?case
    using Suc.IH [of "fst (read8 io a (ucast off + 1) (snd (read8 io a (ucast off) d))) AND 0xFC"
        "snd (read8 io a (ucast off + 1) (snd (read8 io a (ucast off) d)))", unfolded step]
    by (simp add: Let_def case_prod_unfold read_regs [OF c])
qed simp

lemma find_capability_sound:
  assumes c: "config_space io regs keep" and f: "find_capability io dev cap d = (off, d')"
  shows "regs d' = regs d \<and> (off \<noteq> 0 \<longrightarrow> off \<ge> 0x40 \<and> cfg8 (regs d) (d_address dev) (ucast off) = cap)"
proof (cases "fst (read16 io (d_address dev) offset_status d) AND status_capabilities = 0")
  case True
  then have "off = 0" "d' = snd (read16 io (d_address dev) offset_status d)"
    using f by (simp_all add: find_capability_def Let_def case_prod_unfold)
  then show ?thesis by (simp add: read_regs [OF c])
next
  case False
  let ?d = "snd (read8 io (d_address dev) offset_capabilities (snd (read16 io (d_address dev) offset_status d)))"
  obtain st where "capability_loop 48 io (d_address dev) cap st ?d = (off, d')"
    using f False by (auto simp: find_capability_def Let_def case_prod_unfold)
  moreover have "regs ?d = regs d" by (simp add: read_regs [OF c])
  ultimately show ?thesis using capability_loop_sound [OF c, of 48 "d_address dev" cap st ?d] by simp
qed

section \<open>What the walk finds\<close>

lemma concat_concat_map: "concat (concat (map f xs)) = concat (map (\<lambda>x. concat (f x)) xs)"
  by (induction xs) simp_all

text \<open>
  The functions of a bus by the rules of the bus: the first function of each slot, and the other seven
  where its header says there are more; and the devices behind a bus, each with what lies behind it
  when it is a bridge.
\<close>

definition present :: "(u32 \<Rightarrow> u32) \<Rightarrow> Address \<Rightarrow> bool" where
  "present r a \<longleftrightarrow> cfg16 r a offset_vendor \<noteq> 0xFFFF"

definition slot_functions :: "(u32 \<Rightarrow> u32) \<Rightarrow> u8 \<Rightarrow> u8 \<Rightarrow> Address list" where
  "slot_functions r b sl =
     (let fn = (\<lambda>f. \<lparr>a_bus = b, a_slot = sl, a_func = f\<rparr>)
      in if \<not> present r (fn 0) then []
         else fn 0 # (if cfg8 r (fn 0) offset_header_type AND 0x80 = 0 then [] else map (\<lambda>f. fn (of_nat f)) [1..<8]))"

definition bus_functions :: "(u32 \<Rightarrow> u32) \<Rightarrow> u8 \<Rightarrow> Address list" where
  "bus_functions r b = concat (map (\<lambda>sl. slot_functions r b (of_nat sl)) [0..<32])"

definition device_of :: "(u32 \<Rightarrow> u32) \<Rightarrow> Address \<Rightarrow> PciDevice" where
  "device_of r a =
     (let revision = r (config_index a offset_revision)
      in pci_device a (cfg16 r a offset_vendor) (cfg16 r a offset_device) (ucast (drop_bit 24 revision))
           (ucast (drop_bit 16 revision)) (ucast (drop_bit 8 revision)))"

definition bridge_to :: "(u32 \<Rightarrow> u32) \<Rightarrow> Address \<Rightarrow> u8 option" where
  "bridge_to r a =
     (if d_class (device_of r a) = 0x06 \<and> d_subclass (device_of r a) = 0x04 \<and> cfg8 r a offset_secondary_bus \<noteq> a_bus a
      then Some (cfg8 r a offset_secondary_bus) else None)"

definition visit :: "(u8 \<Rightarrow> PciDevice list) \<Rightarrow> (u32 \<Rightarrow> u32) \<Rightarrow> Address \<Rightarrow> PciDevice list" where
  "visit behind r a =
     (if present r a then device_of r a # (case bridge_to r a of None \<Rightarrow> [] | Some b \<Rightarrow> behind b) else [])"

fun devices_behind :: "nat \<Rightarrow> (u32 \<Rightarrow> u32) \<Rightarrow> u8 \<Rightarrow> PciDevice list" where
  "devices_behind 0 r b = []"
| "devices_behind (Suc n) r b = concat (map (visit (devices_behind n r) r) (bus_functions r b))"

definition upward :: "(u32 \<Rightarrow> u32) \<Rightarrow> bool" where
  "upward r \<longleftrightarrow>
     (\<forall>b. \<forall>a\<in>set (bus_functions r b). \<forall>b2. present r a \<longrightarrow> bridge_to r a = Some b2 \<longrightarrow> b < b2)"

text \<open>A step of the walk adds its devices to the table while there is room and leaves the registers alone.\<close>

definition adds :: "('d \<Rightarrow> u32 \<Rightarrow> u32) \<Rightarrow> (u32 \<Rightarrow> u32) \<Rightarrow> ('d pci \<Rightarrow> 'd pci option) \<Rightarrow> PciDevice list \<Rightarrow> bool" where
  "adds regs r step xs \<longleftrightarrow>
     (\<forall>s. regs (space s) = r \<longrightarrow> length (pci_devices s) \<le> pci_max_devices \<longrightarrow>
        (\<exists>s'. step s = Some s' \<and> regs (space s') = r \<and> ready s' = ready s \<and>
           pci_devices s' = take pci_max_devices (pci_devices s @ xs)))"

lemma adds_bind:
  assumes "adds regs r f xs" and "adds regs r g ys"
  shows "adds regs r (\<lambda>s. Option.bind (f s) g) (xs @ ys)"
  unfolding adds_def
proof (intro allI impI)
  fix s :: "'a pci"
  assume "regs (space s) = r" "length (pci_devices s) \<le> pci_max_devices"
  then obtain t where t: "f s = Some t" "regs (space t) = r" "ready t = ready s"
      "pci_devices t = take pci_max_devices (pci_devices s @ xs)"
    using assms(1) unfolding adds_def by blast
  moreover have "length (pci_devices t) \<le> pci_max_devices" by (simp add: t)
  ultimately obtain u where u: "g t = Some u" "regs (space u) = r" "ready u = ready t"
      "pci_devices u = take pci_max_devices (pci_devices t @ ys)"
    using assms(2) unfolding adds_def by blast
  have "pci_devices u = take pci_max_devices (pci_devices s @ xs @ ys)"
    by (simp add: u t min_def)
  with t u show "\<exists>s'. Option.bind (f s) g = Some s' \<and> regs (space s') = r \<and> ready s' = ready s \<and>
      pci_devices s' = take pci_max_devices (pci_devices s @ xs @ ys)" by simp
qed

lemma adds_none: "adds regs r Some []"
  by (simp add: adds_def)

lemma adds_for_each:
  assumes "\<And>i. i \<in> set is \<Longrightarrow> adds regs r (step i) (f i)"
  shows "adds regs r (for_each is step) (concat (map f is))"
  using assms
proof (induction "is")
  case Nil
  then show ?case by (simp add: adds_def)
next
  case (Cons i "is")
  have "adds regs r (\<lambda>s. Option.bind (step i s) (for_each is step)) (f i @ concat (map f is))"
    using Cons by (intro adds_bind) auto
  then show ?case by simp
qed

lemma adds_reading:
  assumes "\<And>s. regs (space s) = r \<Longrightarrow> step s = g (s\<lparr>space := h s\<rparr>)"
    and "\<And>s. regs (h s) = regs (space s)" and "adds regs r g xs"
  shows "adds regs r step xs"
  unfolding adds_def
proof (intro allI impI)
  fix s :: "'a pci"
  assume s: "regs (space s) = r" "length (pci_devices s) \<le> pci_max_devices"
  let ?t = "s\<lparr>space := h s\<rparr>"
  have "regs (space ?t) = r" "length (pci_devices ?t) \<le> pci_max_devices" using s by (simp_all add: assms(2))
  then obtain u where "g ?t = Some u" "regs (space u) = r" "ready u = ready ?t"
      "pci_devices u = take pci_max_devices (pci_devices ?t @ xs)"
    using assms(3) unfolding adds_def by blast
  then show "\<exists>s'. step s = Some s' \<and> regs (space s') = r \<and> ready s' = ready s \<and>
      pci_devices s' = take pci_max_devices (pci_devices s @ xs)"
    using assms(1) [OF s(1)] by simp
qed

definition record_device :: "PciDevice \<Rightarrow> 'd pci \<Rightarrow> 'd pci option" where
  "record_device dev s = Some (s\<lparr>pci_devices :=
     (if length (pci_devices s) < pci_max_devices then pci_devices s @ [dev] else pci_devices s)\<rparr>)"

lemma adds_record: "adds regs r (record_device dev) [dev]"
  by (auto simp: adds_def record_device_def)

definition follow_bridge :: "(u8 \<Rightarrow> 'd pci \<Rightarrow> 'd pci option) \<Rightarrow> 'd ports \<Rightarrow> Address \<Rightarrow> u8 \<Rightarrow> u8 \<Rightarrow> 'd pci \<Rightarrow> 'd pci option" where
  "follow_bridge scan io a cls sub s =
     (if cls = 0x06 \<and> sub = 0x04 then
        (let (secondary, d) = read8 io a offset_secondary_bus (space s); s = s\<lparr>space := d\<rparr>
         in if secondary \<noteq> a_bus a then scan secondary s else Some s)
      else Some s)"

lemma adds_follow:
  assumes c: "config_space io regs keep"
    and rec: "\<And>b. bridge_to r a = Some b \<Longrightarrow> adds regs r (scan b) (behind b)"
  shows "adds regs r (follow_bridge scan io a (d_class (device_of r a)) (d_subclass (device_of r a)))
           (case bridge_to r a of None \<Rightarrow> [] | Some b \<Rightarrow> behind b)"
proof (cases "d_class (device_of r a) = 0x06 \<and> d_subclass (device_of r a) = 0x04")
  case False
  then have "bridge_to r a = None" by (auto simp: bridge_to_def)
  with False show ?thesis by (auto simp: follow_bridge_def adds_def)
next
  case True
  let ?g = "\<lambda>s. if cfg8 r a offset_secondary_bus \<noteq> a_bus a then scan (cfg8 r a offset_secondary_bus) s else Some s"
  have "adds regs r ?g (case bridge_to r a of None \<Rightarrow> [] | Some b \<Rightarrow> behind b)"
    using True rec by (cases "cfg8 r a offset_secondary_bus = a_bus a") (auto simp: bridge_to_def adds_none)
  then show ?thesis
    by (rule adds_reading [rotated 2, where h = "\<lambda>s. snd (read8 io a offset_secondary_bus (space s))"])
      (use True in \<open>auto simp: follow_bridge_def Let_def case_prod_unfold read_regs [OF c]\<close>)
qed

lemma scan_function_steps:
  assumes c: "config_space io regs keep" and r: "regs (space s) = r"
  shows "scan_function scan io a s =
    (if \<not> present r a then Some (s\<lparr>space := snd (read16 io a offset_vendor (space s))\<rparr>)
     else Option.bind (record_device (device_of r a)
            (s\<lparr>space := snd (read32 io a offset_revision (snd (read16 io a offset_device (snd (read16 io a offset_vendor (space s))))))\<rparr>))
       (follow_bridge scan io a (d_class (device_of r a)) (d_subclass (device_of r a))))"
  by (simp add: scan_function_def present_def record_device_def follow_bridge_def device_of_def pci_device_def
      Let_def case_prod_unfold read_regs [OF c] r)

lemma adds_function:
  assumes c: "config_space io regs keep"
    and rec: "\<And>b. present r a \<Longrightarrow> bridge_to r a = Some b \<Longrightarrow> adds regs r (scan b) (behind b)"
  shows "adds regs r (scan_function scan io a) (visit behind r a)"
proof (cases "present r a")
  case False
  then have v: "visit behind r a = []" by (simp add: visit_def)
  show ?thesis
    unfolding v
    by (rule adds_reading [OF _ _ adds_none, where h = "\<lambda>s. snd (read16 io a offset_vendor (space s))"])
      (use False in \<open>auto simp: scan_function_steps [OF c] read_regs [OF c]\<close>)
next
  case True
  have "adds regs r (\<lambda>s. Option.bind (record_device (device_of r a) s)
      (follow_bridge scan io a (d_class (device_of r a)) (d_subclass (device_of r a)))) (visit behind r a)"
    using adds_bind [OF adds_record [of regs r "device_of r a"] adds_follow [where scan = scan and behind = behind, OF c rec [OF True]]]
    by (simp add: visit_def True)
  then show ?thesis
    by (rule adds_reading [rotated 2, where h = "\<lambda>s. snd (read32 io a offset_revision (snd (read16 io a offset_device (snd (read16 io a offset_vendor (space s))))))"])
      (use True in \<open>auto simp: scan_function_steps [OF c] read_regs [OF c]\<close>)
qed

lemma adds_slot:
  assumes c: "config_space io regs keep"
    and rec: "\<And>a. a \<in> set (slot_functions r b sl) \<Longrightarrow> adds regs r (scan_function scan io a) (visit behind r a)"
  shows "adds regs r (scan_slot scan io b sl) (concat (map (visit behind r) (slot_functions r b sl)))"
proof (cases "present r \<lparr>a_bus = b, a_slot = sl, a_func = 0\<rparr>")
  case False
  then have e: "slot_functions r b sl = []" by (simp add: slot_functions_def)
  show ?thesis unfolding e list.map concat.simps
    by (rule adds_reading [OF _ _ adds_none,
          where h = "\<lambda>s. snd (read16 io \<lparr>a_bus = b, a_slot = sl, a_func = 0\<rparr> offset_vendor (space s))"])
      (use False in \<open>auto simp: scan_slot_def Let_def case_prod_unfold read_regs [OF c] present_def simp del: upt_rec_numeral\<close>)
next
  case True
  let ?fn = "\<lambda>f. \<lparr>a_bus = b, a_slot = sl, a_func = f\<rparr>"
  let ?one = "cfg8 r (?fn 0) offset_header_type AND 0x80 = 0"
  let ?more = "if ?one then [] else map (\<lambda>f. ?fn (of_nat f)) [1..<8]"
  let ?all = "for_each [1..<8] (\<lambda>f. scan_function scan io (?fn (of_nat f)))"
  let ?rest = "\<lambda>s. let (header, d) = read8 io (?fn 0) offset_header_type (space s); s = s\<lparr>space := d\<rparr>
                 in if header AND 0x80 = 0 then Some s else ?all s"
  have fns: "slot_functions r b sl = ?fn 0 # ?more" using True by (simp add: slot_functions_def)
  have "adds regs r ?all (concat (map (\<lambda>f. visit behind r (?fn (of_nat f))) [1..<8]))" if "\<not> ?one"
    by (rule adds_for_each) (use that in \<open>auto intro!: rec simp: fns simp del: upt_rec_numeral\<close>)
  then have "adds regs r (\<lambda>s. if ?one then Some s else ?all s) (concat (map (visit behind r) ?more))"
    by (cases ?one) (simp_all add: adds_none comp_def del: upt_rec_numeral)
  then have "adds regs r ?rest (concat (map (visit behind r) ?more))"
    by (rule adds_reading [rotated 2, where h = "\<lambda>s. snd (read8 io (?fn 0) offset_header_type (space s))"])
      (auto simp: Let_def case_prod_unfold read_regs [OF c] simp del: upt_rec_numeral)
  then have "adds regs r (\<lambda>s. Option.bind (scan_function scan io (?fn 0) s) ?rest)
      (visit behind r (?fn 0) @ concat (map (visit behind r) ?more))"
    by (intro adds_bind rec) (simp_all only: fns list.set_intros)
  then have "adds regs r (\<lambda>s. Option.bind (scan_function scan io (?fn 0) s) ?rest)
      (concat (map (visit behind r) (slot_functions r b sl)))"
    by (simp only: fns list.map concat.simps)
  then show ?thesis
    by (rule adds_reading [rotated 2, where h = "\<lambda>s. snd (read16 io (?fn 0) offset_vendor (space s))"])
      (use True in \<open>auto simp: scan_slot_def Let_def case_prod_unfold read_regs [OF c] present_def simp del: upt_rec_numeral\<close>)
qed

lemma pci_scan_adds:
  assumes c: "config_space io regs keep" and up: "upward r" and fuel: "256 - unat b \<le> fuel"
  shows "adds regs r (scan_bus fuel io b) (devices_behind fuel r b)"
  using fuel
proof (induction fuel arbitrary: b)
  case 0
  have "unat b < 256" using unsigned_less [of b, where ?'a = nat] by simp
  with 0 show ?case by simp
next
  case (Suc n)
  have f: "adds regs r (scan_function (scan_bus n io) io a) (visit (devices_behind n r) r a)"
    if a: "a \<in> set (bus_functions r b)" for a
  proof (rule adds_function [OF c])
    fix b2
    assume "present r a" "bridge_to r a = Some b2"
    then have "unat b < unat b2" using up a by (auto simp: upward_def word_less_nat_alt)
    then have "256 - unat b2 \<le> n" using Suc.prems by linarith
    then show "adds regs r (scan_bus n io b2) (devices_behind n r b2)" by (rule Suc.IH)
  qed
  have "adds regs r (for_each [0..<32] (\<lambda>sl. scan_slot (scan_bus n io) io b (of_nat sl)))
      (concat (map (\<lambda>sl. concat (map (visit (devices_behind n r) r) (slot_functions r b (of_nat sl)))) [0..<32]))"
    by (intro adds_for_each adds_slot [OF c] f) (auto simp: bus_functions_def simp del: upt_rec_numeral)
  then show ?case
    by (simp add: bus_functions_def map_concat comp_def concat_concat_map del: upt_rec_numeral)
qed

text \<open>The functions on the buses that bridges lead to from a bus.\<close>

inductive leads_to :: "(u32 \<Rightarrow> u32) \<Rightarrow> u8 \<Rightarrow> u8 \<Rightarrow> bool" for r where
  leads_here: "leads_to r b b"
| leads_over: "a \<in> set (bus_functions r b) \<Longrightarrow> present r a \<Longrightarrow> bridge_to r a = Some b2 \<Longrightarrow> leads_to r b2 c
    \<Longrightarrow> leads_to r b c"

definition found_from :: "(u32 \<Rightarrow> u32) \<Rightarrow> u8 \<Rightarrow> PciDevice set" where
  "found_from r b = {device_of r a | a c. leads_to r b c \<and> a \<in> set (bus_functions r c) \<and> present r a}"

lemma devices_behind_sound: "set (devices_behind n r b) \<subseteq> found_from r b"
proof (induction n arbitrary: b)
  case 0
  then show ?case by simp
next
  case (Suc n)
  show ?case
  proof
    fix dev
    assume "dev \<in> set (devices_behind (Suc n) r b)"
    then obtain a where a: "a \<in> set (bus_functions r b)" "dev \<in> set (visit (devices_behind n r) r a)" by auto
    then have p: "present r a" by (auto simp: visit_def split: if_splits)
    consider "dev = device_of r a" | b2 where "bridge_to r a = Some b2" "dev \<in> set (devices_behind n r b2)"
      using a(2) by (cases "bridge_to r a") (auto simp: visit_def p)
    then show "dev \<in> found_from r b"
    proof cases
      case 1
      then show ?thesis using a(1) p leads_here unfolding found_from_def by blast
    next
      case 2
      then have "dev \<in> found_from r b2" using Suc.IH by blast
      then show ?thesis unfolding found_from_def using leads_over [OF a(1) p 2(1)] by blast
    qed
  qed
qed

lemma devices_behind_complete:
  assumes "leads_to r b c" and "upward r" and "a \<in> set (bus_functions r c)" and "present r a"
    and "256 - unat b \<le> n"
  shows "device_of r a \<in> set (devices_behind n r b)"
  using assms(1, 3, 5)
proof (induction arbitrary: n rule: leads_to.induct)
  case (leads_here b)
  have "unat b < 256" using unsigned_less [of b, where ?'a = nat] by simp
  with leads_here.prems(2) obtain m where n: "n = Suc m" by (cases n) auto
  have "device_of r a \<in> set (visit (devices_behind m r) r a)" using assms(4) by (simp add: visit_def)
  then show ?case using leads_here.prems(1) by (auto simp: n)
next
  case (leads_over a2 b b2 c)
  have "unat b < 256" using unsigned_less [of b, where ?'a = nat] by simp
  with leads_over.prems(2) obtain m where n: "n = Suc m" by (cases n) auto
  have "unat b < unat b2"
    using assms(2) leads_over.hyps(1-3) unfolding upward_def word_less_nat_alt by fastforce
  then have "256 - unat b2 \<le> m" using leads_over.prems(2) n by linarith
  then have "device_of r a \<in> set (devices_behind m r b2)" by (rule leads_over.IH [OF leads_over.prems(1)])
  then have "device_of r a \<in> set (visit (devices_behind m r) r a2)"
    using leads_over.hyps(2,3) by (simp add: visit_def)
  then show ?case using leads_over.hyps(1) by (auto simp: n)
qed

lemma device_announce_bus:
  "bus_devices (device_announce ops ident r) = take registry_max_devices (bus_devices r @ [ident])"
  if "length (bus_devices r) \<le> registry_max_devices"
  using that by (auto simp: device_announce_def device_probe_def Let_def case_prod_unfold)

lemma take_take_append: "take n (take n xs @ ys) = take n (xs @ ys)"
  by (simp add: min_def)

lemma announce_all_bus:
  "length (bus_devices r) \<le> registry_max_devices \<Longrightarrow>
   bus_devices (fold (\<lambda>dev. device_announce ops (pci_id dev)) devs r)
     = take registry_max_devices (bus_devices r @ map pci_id devs)"
proof (induction devs arbitrary: r)
  case Nil
  then show ?case by simp
next
  case (Cons dev devs)
  have "length (bus_devices (device_announce ops (pci_id dev) r)) \<le> registry_max_devices"
    by (simp add: device_announce_bus [OF Cons.prems])
  from Cons.IH [OF this] show ?case
    by (simp only: fold_simps device_announce_bus [OF Cons.prems] take_take_append append_assoc list.simps append.simps)
qed

text \<open>
  C39: Where every bridge leads to a higher bus number, \<open>pci::init\<close> returns, within 256 nested buses, and
  leaves configuration space as it was. The table then holds at most 64 devices, each a function that
  answers on a bus reached from bus zero, with the identification its registers give, and all of them
  unless the table is full; and the registry has been told of every device in the table, in its order,
  while it has room.
\<close>

theorem pci_init_finds:
  fixes io :: "'d ports" and ops :: "'w driver_ops"
  assumes "config_space io regs keep" and "upward (regs (space s))" and "pci_devices s = []"
    and "length (bus_devices reg) \<le> 64"
  shows "\<exists>s' reg'. pci_init 256 io ops s reg = Some (s', reg') \<and> ready s' \<and> regs (space s') = regs (space s)
    \<and> length (pci_devices s') \<le> 64 \<and> set (pci_devices s') \<subseteq> found_from (regs (space s)) 0
    \<and> (length (pci_devices s') < 64 \<longrightarrow> set (pci_devices s') = found_from (regs (space s)) 0)
    \<and> bus_devices reg' = take 64 (bus_devices reg @ map pci_id (pci_devices s'))"
proof -
  let ?r = "regs (space s)"
  let ?all = "devices_behind 256 ?r 0"
  have "adds regs ?r (scan_bus 256 io 0) ?all" by (rule pci_scan_adds [OF assms(1,2)]) simp
  then obtain t where t: "scan_bus 256 io 0 s = Some t" "regs (space t) = ?r" "pci_devices t = take 64 ?all"
    unfolding adds_def using assms(3) by fastforce
  have eq: "set ?all = found_from ?r 0"
    using devices_behind_sound devices_behind_complete [OF _ assms(2), of 0] by (fastforce simp: found_from_def)
  have sub: "set (take 64 ?all) \<subseteq> found_from ?r 0" using eq set_take_subset by fastforce
  have full: "length (take 64 ?all) < 64 \<longrightarrow> set (take 64 ?all) = found_from ?r 0"
    using eq by (auto simp: min_def)
  show ?thesis
    using t sub full announce_all_bus [OF assms(4), of ops "pci_devices t"] by (auto simp: pci_init_def)
qed


section \<open>A walk that does not end\<close>

text \<open>
  Only a bridge that names its own bus is left out. Bridges that lead from one another's buses back
  again, as an unnumbered bridge with a secondary bus of zero below bus zero does, are followed for ever.
\<close>

definition keeps_regs :: "('d \<Rightarrow> u32 \<Rightarrow> u32) \<Rightarrow> ('d pci \<Rightarrow> 'd pci option) \<Rightarrow> bool" where
  "keeps_regs regs step \<longleftrightarrow> (\<forall>s s'. step s = Some s' \<longrightarrow> regs (space s') = regs (space s))"

lemma keeps_for_each:
  assumes "\<And>i. keeps_regs regs (step i)"
  shows "keeps_regs regs (for_each is step)"
  unfolding keeps_regs_def
proof (intro allI impI)
  fix s s'
  assume "for_each is step s = Some s'"
  then show "regs (space s') = regs (space s)"
  proof (induction "is" arbitrary: s)
    case (Cons i "is")
    then show ?case using assms [of i] unfolding keeps_regs_def by (cases "step i s") force+
  qed simp
qed

lemma for_each_stuck:
  assumes "\<And>i. keeps_regs regs (step i)" and "i \<in> set is"
    and "\<And>s. regs (space s) = r \<Longrightarrow> step i s = None" and "regs (space s) = r"
  shows "for_each is step s = None"
  using assms(2, 4)
proof (induction "is" arbitrary: s)
  case (Cons j "is")
  show ?case
  proof (cases "step j s")
    case (Some t)
    then have "regs (space t) = r" using assms(1) [of j] Cons.prems(2) unfolding keeps_regs_def by force
    moreover have "i \<in> set is" using Cons.prems Some assms(3) by auto
    ultimately show ?thesis using Cons.IH Some by simp
  qed simp
qed simp

lemma keeps_function:
  assumes c: "config_space io regs keep" and "\<And>b. keeps_regs regs (scan b)"
  shows "keeps_regs regs (scan_function scan io a)"
  using assms(2) unfolding keeps_regs_def
  by (auto simp: scan_function_def Let_def case_prod_unfold read_regs [OF c] split: if_splits dest!: spec)

lemma keeps_slot:
  assumes c: "config_space io regs keep" and "\<And>b. keeps_regs regs (scan b)"
  shows "keeps_regs regs (scan_slot scan io b sl)"
  unfolding keeps_regs_def
proof (intro allI impI)
  fix s s'
  assume a: "scan_slot scan io b sl s = Some s'"
  let ?fn = "\<lambda>f. \<lparr>a_bus = b, a_slot = sl, a_func = f\<rparr>"
  have k: "keeps_regs regs (scan_function scan io a)" for a by (rule keeps_function [OF assms])
  then have f: "scan_function scan io a s = Some s' \<Longrightarrow> regs (space s') = regs (space s)" for a s s'
    unfolding keeps_regs_def by blast
  have e: "for_each is (\<lambda>f. scan_function scan io (?fn (of_nat f))) s = Some s' \<Longrightarrow> regs (space s') = regs (space s)"
    for "is" s s'
    using keeps_for_each [of regs "\<lambda>f. scan_function scan io (?fn (of_nat f))", OF k]
    unfolding keeps_regs_def by blast
  show "regs (space s') = regs (space s)"
    using a
    by (auto simp: scan_slot_def Let_def case_prod_unfold read_regs [OF c] bind_eq_Some_conv
        simp del: upt_rec_numeral split: if_splits dest!: f e)
qed

lemma keeps_bus:
  assumes c: "config_space io regs keep"
  shows "keeps_regs regs (scan_bus n io b)"
proof (induction n arbitrary: b)
  case (Suc n)
  have "keeps_regs regs (for_each [0..<32] (\<lambda>sl. scan_slot (scan_bus n io) io b (of_nat sl)))"
    by (intro keeps_for_each keeps_slot [OF c] Suc.IH)
  then show ?case by (simp add: keeps_regs_def del: upt_rec_numeral)
qed (simp add: keeps_regs_def)

lemma function_stuck:
  assumes c: "config_space io regs keep" and "present r a" and "bridge_to r a = Some b2"
    and "\<And>s. regs (space s) = r \<Longrightarrow> scan b2 s = None" and "regs (space s) = r"
  shows "scan_function scan io a s = None"
proof -
  have k: "d_class (device_of r a) = 0x06 \<and> d_subclass (device_of r a) = 0x04" "cfg8 r a offset_secondary_bus = b2" "b2 \<noteq> a_bus a"
    using assms(3) by (auto simp: bridge_to_def split: if_splits)
  show ?thesis
    using assms(2, 4, 5) k
    by (simp add: scan_function_steps [OF c] record_device_def follow_bridge_def Let_def case_prod_unfold read_regs [OF c])
qed

lemma slot_stuck:
  assumes c: "config_space io regs keep" and k: "\<And>b. keeps_regs regs (scan b)"
    and a: "a \<in> set (slot_functions r b sl)" and st: "\<And>s. regs (space s) = r \<Longrightarrow> scan_function scan io a s = None"
    and s: "regs (space s) = r"
  shows "scan_slot scan io b sl s = None"
proof -
  let ?fn = "\<lambda>f. \<lparr>a_bus = b, a_slot = sl, a_func = f\<rparr>"
  let ?all = "for_each [1..<8] (\<lambda>f. scan_function scan io (?fn (of_nat f)))"
  have f: "keeps_regs regs (scan_function scan io a)" for a by (rule keeps_function [OF c k])
  have p: "present r (?fn 0)" using a by (auto simp: slot_functions_def split: if_splits)
  have "a = ?fn 0 \<or> (cfg8 r (?fn 0) offset_header_type AND 0x80 \<noteq> 0 \<and> (\<exists>i\<in>{1..<8}. a = ?fn (of_nat i)))"
    using a by (auto simp: slot_functions_def Let_def simp del: upt_rec_numeral split: if_splits)
  then show ?thesis
  proof
    assume "a = ?fn 0"
    then show ?thesis
      using st s p by (simp add: scan_slot_def present_def Let_def case_prod_unfold read_regs [OF c] del: upt_rec_numeral)
  next
    assume m: "cfg8 r (?fn 0) offset_header_type AND 0x80 \<noteq> 0 \<and> (\<exists>i\<in>{1..<8}. a = ?fn (of_nat i))"
    then obtain i where i: "i \<in> set [1..<8]" "a = ?fn (of_nat i)" by auto
    have none: "?all t = None" if "regs (space t) = r" for t
      by (rule for_each_stuck [OF f i(1) _ that]) (use st i(2) in simp)
    show ?thesis
    proof (cases "scan_function scan io (?fn 0) (s\<lparr>space := snd (read16 io (?fn 0) offset_vendor (space s))\<rparr>)")
      case None
      then show ?thesis
        using s p by (simp add: scan_slot_def present_def Let_def case_prod_unfold read_regs [OF c] del: upt_rec_numeral)
    next
      case (Some t)
      then have "regs (space t) = r" using f [of "?fn 0"] s unfolding keeps_regs_def by (force simp: read_regs [OF c])
      then show ?thesis
        using s p m Some none
        by (simp add: scan_slot_def present_def Let_def case_prod_unfold read_regs [OF c] del: upt_rec_numeral)
    qed
  qed
qed

lemma scan_bus_cycle:
  assumes c: "config_space io regs keep" and b: "b \<in> B" and s: "regs (space s) = r"
    and cyc: "\<And>b. b \<in> B \<Longrightarrow> \<exists>a\<in>set (bus_functions r b). present r a \<and> (\<exists>b2\<in>B. bridge_to r a = Some b2)"
  shows "scan_bus n io b s = None"
  using b s
proof (induction n arbitrary: b s)
  case (Suc n)
  obtain a b2 where a: "a \<in> set (bus_functions r b)" "present r a" "b2 \<in> B" "bridge_to r a = Some b2"
    using cyc [OF Suc.prems(1)] by blast
  then obtain sl where sl: "sl \<in> set [0..<32]" "a \<in> set (slot_functions r b (of_nat sl))"
    by (auto simp: bus_functions_def simp del: upt_rec_numeral)
  note k = keeps_bus [OF c]
  have "scan_function (scan_bus n io) io a s = None" if "regs (space s) = r" for s
    by (rule function_stuck [OF c a(2,4) _ that]) (rule Suc.IH [OF a(3)])
  then have "scan_slot (scan_bus n io) io b (of_nat sl) s = None" if "regs (space s) = r" for s
    by (rule slot_stuck [OF c k sl(2) _ that])
  then have "for_each [0..<32] (\<lambda>sl. scan_slot (scan_bus n io) io b (of_nat sl)) s = None"
    by (rule for_each_stuck [OF keeps_slot [OF c k] sl(1) _ Suc.prems(2)])
  then show ?case by (simp del: upt_rec_numeral)
qed simp


section \<open>The properties of the bus\<close>


text \<open>Two ports in front of a table of registers.\<close>

definition latch_ports :: "(u32 \<Rightarrow> u32 \<Rightarrow> u32 \<Rightarrow> u32) \<Rightarrow> (u32 \<times> (u32 \<Rightarrow> u32)) ports" where
  "latch_ports keep =
    \<lparr>out_port = \<lambda>_ _ d. d, in_port = \<lambda>_ d. (0xFF, d),
     out_long = \<lambda>p v (l, r). if p = 0xCF8 then (v, r) else if p = 0xCFC then (l, r(l := keep l (r l) v)) else (l, r),
     in_long = \<lambda>p (l, r). (if p = 0xCFC then r l else 0xFFFFFFFF, (l, r)), delay_us = \<lambda>_ d. d\<rparr>"

lemma latch_config_space: "config_space (latch_ports keep) snd keep"
  by (auto simp: config_space_def latch_ports_def split: prod.splits)

definition bar_address_0 :: Address where "bar_address_0 = \<lparr>a_bus = 0, a_slot = 2, a_func = 0\<rparr>"

definition bar_keep :: "u32 \<Rightarrow> u32 \<Rightarrow> u32 \<Rightarrow> u32" where
  "bar_keep j old v =
     (if j = 0x80001010 then (v AND NOT (mask 20)) OR 0xC else if j \<in> {0x80001014, 0x80001004} then v else old)"

definition bar_table :: "u32 \<Rightarrow> u32" where
  "bar_table j = (if j = 0x80001010 then 0xFE00000C else if j = 0x80001014 then 1
     else if j = 0x80001004 then 0x00100007 else 0)"


text \<open>A bridge in slot one of bus zero with one device behind it.\<close>

definition bridge_table :: "u32 \<Rightarrow> u32" where
  "bridge_table j = (if j = 0x80000800 then 0x12348086 else if j = 0x80000808 then 0x06040000
     else if j = 0x8000080C then 0x00010000 else if j = 0x80000818 then 0x00010100
     else if j = 0x80010000 then 0x10011AF4 else if j = 0x8001000C then 0 else 0xFFFFFFFF)"

definition idle_drivers :: "unit driver_ops" where
  "idle_drivers = \<lparr>op_matches = \<lambda>_ _. False, op_probe = \<lambda>_ _ w. (0, w), op_start = \<lambda>_ w. (False, w)\<rparr>"

lemma config_index_bus:
  assumes "drop_bit 16 (take_bit 24 (config_index a off)) = 0"
  shows "a_bus a = 0"
proof (rule bit_word_eqI, goal_cases)
  case (1 n)
  have "\<not> bit (drop_bit 16 (take_bit 24 (config_index a off))) n" by (simp add: assms)
  with 1 show ?case
    by (auto simp: config_index_def bit_drop_bit_eq bit_take_bit_iff bit_or_iff bit_push_bit_iff bit_ucast_iff
        simp del: bit_numeral_rec)
qed

lemma slot_on_bus: "sl < 32 \<Longrightarrow> a \<in> set (slot_functions r b (of_nat sl)) \<Longrightarrow> a \<in> set (bus_functions r b)"
  by (auto simp: bus_functions_def simp del: upt_rec_numeral)

lemma bridge_table_upward: "upward bridge_table"
  unfolding upward_def
proof (intro allI ballI impI)
  fix b a b2
  assume a: "a \<in> set (bus_functions bridge_table b)" and s: "bridge_to bridge_table a = Some b2"
  have b: "a_bus a = b"
    using a by (auto simp: bus_functions_def slot_functions_def Let_def simp del: upt_rec_numeral split: if_splits)
  have "config_index a offset_revision = 0x80000808"
    using s by (auto simp: bridge_to_def device_of_def pci_device_def Let_def bridge_table_def split: if_splits)
  then have "a_bus a = 0" by (intro config_index_bus [of a offset_revision]) simp
  moreover have "b2 \<noteq> a_bus a" using s by (auto simp: bridge_to_def split: if_splits)
  ultimately show "b < b2" using b by (simp add: word_neq_0_conv)
qed

theorem pci_init_finds_witness:
  "upward bridge_table \<and> device_of bridge_table \<lparr>a_bus = 1, a_slot = 0, a_func = 0\<rparr> \<in> found_from bridge_table 0 \<and>
   (\<exists>s' reg'. pci_init 256 (latch_ports (\<lambda>_ old _. old)) idle_drivers
       \<lparr>space = (0, bridge_table), pci_devices = [], ready = False\<rparr> \<lparr>bus_devices = [], drivers = [], world = ()\<rparr>
       = Some (s', reg') \<and> ready s' \<and> set (pci_devices s') \<subseteq> found_from bridge_table 0
     \<and> bus_devices reg' = take 64 (map pci_id (pci_devices s')))"
proof -
  let ?br = "\<lparr>a_bus = 0, a_slot = 1, a_func = 0\<rparr>"
  let ?dev = "\<lparr>a_bus = 1, a_slot = 0, a_func = 0\<rparr>"
  have p: "present bridge_table ?br" "present bridge_table ?dev"
    by (simp_all add: present_def cfg16_def config_index_def bridge_table_def)
  have "?br \<in> set (slot_functions bridge_table 0 (of_nat 1))" "?dev \<in> set (slot_functions bridge_table 1 (of_nat 0))"
    using p by (simp_all add: slot_functions_def)
  then have m: "?br \<in> set (bus_functions bridge_table 0)" "?dev \<in> set (bus_functions bridge_table 1)"
    using slot_on_bus [of 1] slot_on_bus [of 0] by fastforce+
  have b: "bridge_to bridge_table ?br = Some 1"
    by (simp add: bridge_to_def device_of_def pci_device_def Let_def cfg8_def config_index_def bridge_table_def)
  have "leads_to bridge_table 0 1" by (rule leads_over [OF m(1) p(1) b leads_here])
  then have f: "device_of bridge_table ?dev \<in> found_from bridge_table 0"
    unfolding found_from_def using m(2) p(2) by blast
  show ?thesis
    using pci_init_finds [OF latch_config_space [of "\<lambda>_ old _. old"],
        of "\<lparr>space = (0, bridge_table), pci_devices = [], ready = False\<rparr>"
           "\<lparr>bus_devices = [], drivers = [], world = ()\<rparr>" idle_drivers] f bridge_table_upward
    by auto
qed

end
