(* ===== verification/Spec2Isabelle.thy ===== *)
theory Spec2Isabelle
  imports Stacks Work Lock Clock Module_Correct Loader_Correct Fs Syscall_Correct Vga Rtc Cpu Interrupts Boot Pci
begin

text \<open>
  Eris is a small x86\_64 kernel. This library models it component by component.
\<close>

end
